(* ===== verification/Prelude.thy ===== *)
theory Prelude
  imports Main "HOL-Library.Word" "HOL-Library.Monad_Syntax"
begin

text \<open>
  The types, hint collections and generic lemmas shared by every component of the
  axKernel model.

  \<^item> \<open>u8\<close> ... \<open>u64\<close> are the fixed-width integers of \<^verbatim>\<open>include/_types.h\<close>.
  \<^item> A C array is a list of fixed length. \<open>aget\<close> and \<open>aset\<close> read and write one cell and
    are \<open>None\<close> out of bounds; \<open>None\<close> is the model's value for undefined behaviour
    (a null or dangling dereference, an index outside the array, a loop that never ends).
  \<^item> A \<open>cstr\<close> is the memory a \<^verbatim>\<open>char *\<close> points to: the byte at every offset from the
    pointer. The kernel runs with a flat address space, so reading past the terminator
    returns the neighbouring bytes.
\<close>

unbundle bit_operations_syntax

type_synonym u8 = "8 word"
type_synonym u16 = "16 word"
type_synonym u32 = "32 word"
type_synonym u64 = "64 word"
type_synonym cstr = "nat \<Rightarrow> u8"

text \<open>
  Hint collections. \<open>inv_intros\<close> holds the preservation lemmas of the component
  invariants, \<open>frame_simps\<close> the equations saying what an operation leaves alone, and
  \<open>abs_simps\<close> the equations of the abstraction functions.
\<close>

named_theorems inv_intros \<open>an operation keeps its component's invariant\<close>
named_theorems frame_simps \<open>what an operation leaves unchanged\<close>
named_theorems abs_simps \<open>what an operation does to the abstract state\<close>

section \<open>Arrays with bounds\<close>

definition aget :: "'a list \<Rightarrow> nat \<Rightarrow> 'a option" where
  "aget xs i = (if i < length xs then Some (xs ! i) else None)"

definition aset :: "'a list \<Rightarrow> nat \<Rightarrow> 'a \<Rightarrow> 'a list option" where
  "aset xs i v = (if i < length xs then Some (xs[i := v]) else None)"

text \<open>The first \<open>n\<close> cells of an array, read by a loop from 0.\<close>

definition aprefix :: "'a list \<Rightarrow> nat \<Rightarrow> 'a list option" where
  "aprefix xs n = (if n \<le> length xs then Some (take n xs) else None)"

text \<open>Writing the list \<open>ys\<close> into the first cells of an array, by a loop from 0.\<close>

definition awrite :: "'a list \<Rightarrow> 'a list \<Rightarrow> 'a list option" where
  "awrite xs ys = (if length ys \<le> length xs then Some (ys @ drop (length ys) xs) else None)"

lemma aget_Some [simp]: "i < length xs \<Longrightarrow> aget xs i = Some (xs ! i)"
  by (simp add: aget_def)

lemma aset_Some [simp]: "i < length xs \<Longrightarrow> aset xs i v = Some (xs[i := v])"
  by (simp add: aset_def)

lemma aprefix_Some [simp]: "n \<le> length xs \<Longrightarrow> aprefix xs n = Some (take n xs)"
  by (simp add: aprefix_def)

lemma awrite_Some [simp]:
  "length ys \<le> length xs \<Longrightarrow> awrite xs ys = Some (ys @ drop (length ys) xs)"
  by (simp add: awrite_def)

lemma aget_eq_Some_iff: "aget xs i = Some v \<longleftrightarrow> i < length xs \<and> xs ! i = v"
  by (auto simp: aget_def)

lemma aset_eq_Some_iff: "aset xs i v = Some ys \<longleftrightarrow> i < length xs \<and> ys = xs[i := v]"
  by (auto simp: aset_def)

lemma aprefix_eq_Some_iff: "aprefix xs n = Some ys \<longleftrightarrow> n \<le> length xs \<and> ys = take n xs"
  by (auto simp: aprefix_def)

lemma awrite_eq_Some_iff:
  "awrite xs ys = Some zs \<longleftrightarrow> length ys \<le> length xs \<and> zs = ys @ drop (length ys) xs"
  by (auto simp: awrite_def)

lemmas array_Some_iffs =
  aget_eq_Some_iff aset_eq_Some_iff aprefix_eq_Some_iff awrite_eq_Some_iff

text \<open>The first slot of a table that is free; a process table and a packet cache look for it.\<close>

fun first_free :: "bool list \<Rightarrow> nat option" where
  "first_free [] = None"
| "first_free (b # bs) = (if \<not> b then Some 0 else map_option Suc (first_free bs))"

lemma first_free_Some:
  "first_free bs = Some i \<Longrightarrow> i < length bs \<and> \<not> bs ! i \<and> (\<forall>j<i. bs ! j)"
proof (induction bs arbitrary: i)
  case (Cons b bs)
  then show ?case by (cases i) (auto simp: less_Suc_eq_0_disj nth_Cons split: if_splits nat.splits)
qed simp

lemma first_free_None: "first_free bs = None \<Longrightarrow> i < length bs \<Longrightarrow> bs ! i"
  by (induction bs arbitrary: i) (auto simp: nth_Cons split: if_splits nat.splits)

section \<open>C strings\<close>

text \<open>
  The memory at a pointer to a byte buffer \<open>bs\<close> (a string literal in particular): its
  bytes, the terminator, and by convention zeros after it.
\<close>

definition cstr_of :: "u8 list \<Rightarrow> cstr" where
  "cstr_of bs = (\<lambda>i. if i < length bs then bs ! i else 0)"

definition lit :: "string \<Rightarrow> cstr" where
  "lit s = cstr_of (map of_char s)"

text \<open>
  \<open>terminated s n\<close>: the first zero byte of \<open>s\<close> is at offset \<open>n\<close>.
\<close>

definition terminated :: "cstr \<Rightarrow> nat \<Rightarrow> bool" where
  "terminated s n \<longleftrightarrow> s n = 0 \<and> (\<forall>i<n. s i \<noteq> 0)"

lemma terminated_unique: "terminated s m \<Longrightarrow> terminated s n \<Longrightarrow> m = n"
  unfolding terminated_def by (metis linorder_neqE_nat)

lemma terminated_Suc:
  "s 0 \<noteq> 0 \<Longrightarrow> terminated s (Suc n) \<longleftrightarrow> terminated (\<lambda>i. s (Suc i)) n"
  by (auto simp: terminated_def less_Suc_eq_0_disj)

lemma terminated_0 [simp]: "terminated s 0 \<longleftrightarrow> s 0 = 0"
  by (simp add: terminated_def)

lemma terminated_cstr_of: "0 \<notin> set bs \<Longrightarrow> n = length bs \<Longrightarrow> terminated (cstr_of bs) n"
  by (auto simp: terminated_def cstr_of_def in_set_conv_nth)

lemma terminated_exists: "s k = 0 \<Longrightarrow> \<exists>n\<le>k. terminated s n"
proof -
  assume k: "s k = 0"
  have "s (LEAST i. s i = 0) = 0" by (rule LeastI [of "\<lambda>i. s i = 0", OF k])
  moreover have "(LEAST i. s i = 0) \<le> k" using k by (rule Least_le)
  moreover have "\<forall>i < (LEAST i. s i = 0). s i \<noteq> 0" using not_less_Least by blast
  ultimately show ?thesis unfolding terminated_def by blast
qed

text \<open>Moving a C pointer forward.\<close>

definition sadv :: "nat \<Rightarrow> cstr \<Rightarrow> cstr" where
  "sadv k s = (\<lambda>i. s (k + i))"

lemma sadv_0 [simp]: "sadv 0 s = s"
  by (simp add: sadv_def)

lemma sadv_nth: "sadv k s i = s (k + i)"
  by (simp add: sadv_def)

lemma sadv_sadv [simp]: "sadv j (sadv k s) = sadv (k + j) s"
  by (simp add: sadv_def fun_eq_iff add.assoc)

section \<open>Word lemmas\<close>

lemma unat_lt_pow [simp]: "unat (x :: 'a :: len word) < 2 ^ LENGTH('a)"
  by (rule unsigned_less)

lemma unat_add_no_wrap:
  "unat (x :: 'a :: len word) + unat y < 2 ^ LENGTH('a) \<Longrightarrow> unat (x + y) = unat x + unat y"
  by (rule unat_add_lem [THEN iffD1])

lemma unat_sub_no_wrap:
  "y \<le> x \<Longrightarrow> unat (x - y :: 'a :: len word) = unat x - unat y"
  by (rule unat_sub)

lemma unat_Suc_no_wrap:
  "unat (x :: 'a :: len word) + 1 < 2 ^ LENGTH('a) \<Longrightarrow> unat (x + 1) = unat x + 1"
  by (simp add: unat_add_no_wrap)

lemma unat_of_nat_no_wrap: "n < 2 ^ LENGTH('a) \<Longrightarrow> unat (of_nat n :: 'a :: len word) = n"
  by (simp add: unat_of_nat take_bit_nat_eq_self)

lemmas word_no_wrap = unat_Suc_no_wrap unat_add_no_wrap unat_sub_no_wrap

end
