(* ===== verification/Dstruc.thy ===== *)
theory Dstruc
  imports Prelude
begin

text \<open>
  The byte queue and the byte stack of \<^verbatim>\<open>src/tools/dstruc.c\<close>: both are a caller-supplied
  buffer with \<open>size\<close>, \<open>head\<close>, \<open>tail\<close> and \<open>count\<close>. The queue is a ring; the stack grows
  from 0. The function pointers the C structs carry always point at the four functions of
  this file, so the model calls them directly. The counters are \<^verbatim>\<open>uint32_t\<close> in the code;
  \<open>queue_wf\<close> and \<open>stack_wf\<close> bound them by \<open>size\<close>, so no increment wraps and \<open>nat\<close> is exact.

  The locales \<open>bounded_buffer\<close>, \<open>bounded_fifo\<close> and \<open>bounded_lifo\<close> state what the
  schedulers and the shell rely on; they are interpreted on the two structures.
\<close>

section \<open>The queue\<close>

record queue =
  q_buffer :: "u8 list"
  q_size :: nat
  q_head :: nat
  q_tail :: nat
  q_count :: nat

definition queue_push :: "queue \<Rightarrow> u8 \<Rightarrow> queue" where
  "queue_push q data =
     (if q_count q \<ge> q_size q then q
      else let h = q_head q + 1 in
        q\<lparr>q_buffer := (q_buffer q)[q_head q := data],
          q_count := q_count q + 1,
          q_head := (if h \<ge> q_size q then 0 else h)\<rparr>)"

definition queue_pop :: "queue \<Rightarrow> u8 \<times> queue" where
  "queue_pop q =
     (if q_count q = 0 then (0, q)
      else let data = q_buffer q ! q_tail q; t = q_tail q + 1 in
        (data, q\<lparr>q_count := q_count q - 1,
                 q_tail := (if t \<ge> q_size q then 0 else t)\<rparr>))"

definition queue_empty :: "queue \<Rightarrow> bool" where
  "queue_empty q \<longleftrightarrow> q_count q = 0"

definition queue_full :: "queue \<Rightarrow> bool" where
  "queue_full q \<longleftrightarrow> q_count q \<ge> q_size q"

definition queue_init :: "u8 list \<Rightarrow> nat \<Rightarrow> queue" where
  "queue_init buffer sz =
     \<lparr>q_buffer = buffer, q_size = sz, q_head = 0, q_tail = 0, q_count = 0\<rparr>"

section \<open>The stack\<close>

record stack =
  s_buffer :: "u8 list"
  s_size :: nat
  s_head :: nat
  s_tail :: nat
  s_count :: nat

definition stack_push :: "stack \<Rightarrow> u8 \<Rightarrow> stack" where
  "stack_push s data =
     (if s_count s \<ge> s_size s then s
      else s\<lparr>s_buffer := (s_buffer s)[s_head s := data],
             s_head := s_head s + 1, s_count := s_count s + 1\<rparr>)"

definition stack_pop :: "stack \<Rightarrow> u8 \<times> stack" where
  "stack_pop s =
     (if s_count s = 0 then (0, s)
      else let h = s_head s - 1 in
        (s_buffer s ! h, s\<lparr>s_head := h, s_count := s_count s - 1\<rparr>))"

definition stack_empty :: "stack \<Rightarrow> bool" where
  "stack_empty s \<longleftrightarrow> s_count s = 0"

definition stack_full :: "stack \<Rightarrow> bool" where
  "stack_full s \<longleftrightarrow> s_count s \<ge> s_size s"

definition stack_init :: "u8 list \<Rightarrow> nat \<Rightarrow> stack" where
  "stack_init buffer sz =
     \<lparr>s_buffer = buffer, s_size = sz, s_head = 0, s_tail = 0, s_count = 0\<rparr>"

section \<open>The contracts\<close>

text \<open>A container of at most \<open>cap\<close> elements: pushing onto a full one is refused.\<close>

locale bounded_buffer =
  fixes wf :: "'q \<Rightarrow> bool"
    and items :: "'q \<Rightarrow> 'a list"
    and cap :: "'q \<Rightarrow> nat"
    and push :: "'q \<Rightarrow> 'a \<Rightarrow> 'q"
    and is_empty :: "'q \<Rightarrow> bool"
    and is_full :: "'q \<Rightarrow> bool"
  assumes items_le_cap: "wf q \<Longrightarrow> length (items q) \<le> cap q"
    and wf_push: "wf q \<Longrightarrow> wf (push q x)"
    and cap_push: "wf q \<Longrightarrow> cap (push q x) = cap q"
    and items_push:
      "wf q \<Longrightarrow> items (push q x) = (if length (items q) < cap q then items q @ [x] else items q)"
    and is_empty_iff: "wf q \<Longrightarrow> is_empty q \<longleftrightarrow> items q = []"
    and is_full_iff: "wf q \<Longrightarrow> is_full q \<longleftrightarrow> length (items q) = cap q"
begin

lemma wf_pushes: "wf q \<Longrightarrow> wf (foldl push q xs)"
  by (induction xs arbitrary: q) (auto simp: wf_push)

lemma cap_pushes: "wf q \<Longrightarrow> cap (foldl push q xs) = cap q"
  by (induction xs arbitrary: q) (auto simp: wf_push cap_push)

text \<open>A run of pushes keeps exactly the prefix that fits.\<close>

lemma items_pushes:
  "wf q \<Longrightarrow> items (foldl push q xs) = items q @ take (cap q - length (items q)) xs"
proof (induction xs arbitrary: q)
  case Nil
  then show ?case by simp
next
  case (Cons x xs)
  have IH: "items (foldl push (push q x) xs)
      = items (push q x) @ take (cap (push q x) - length (items (push q x))) xs"
    using Cons.prems by (intro Cons.IH wf_push)
  show ?case
  proof (cases "length (items q) < cap q")
    case True
    then obtain k where k: "cap q - length (items q) = Suc k"
      by (metis Suc_diff_Suc)
    then have "cap q - Suc (length (items q)) = k" by simp
    with True k show ?thesis
      by (simp add: IH items_push cap_push Cons.prems)
  next
    case False
    then show ?thesis
      by (simp add: IH items_push cap_push Cons.prems)
  qed
qed

lemma full_push_ignored: "wf q \<Longrightarrow> is_full q \<Longrightarrow> items (push q x) = items q"
  by (simp add: is_full_iff items_push)

end

locale bounded_fifo = bounded_buffer wf items cap push is_empty is_full
  for wf :: "'q \<Rightarrow> bool" and items :: "'q \<Rightarrow> 'a list" and cap push is_empty is_full +
  fixes pop :: "'q \<Rightarrow> 'a \<times> 'q"
  assumes wf_pop: "wf q \<Longrightarrow> wf (snd (pop q))"
    and cap_pop: "wf q \<Longrightarrow> cap (snd (pop q)) = cap q"
    and items_pop: "wf q \<Longrightarrow> items (snd (pop q)) = tl (items q)"
    and fst_pop: "wf q \<Longrightarrow> items q \<noteq> [] \<Longrightarrow> fst (pop q) = hd (items q)"
begin

text \<open>\<open>pops n q\<close>: the results of \<open>n\<close> pops in a row and the queue after them.\<close>

fun pops :: "nat \<Rightarrow> 'q \<Rightarrow> 'a list \<times> 'q" where
  "pops 0 q = ([], q)"
| "pops (Suc n) q = (let (x, q1) = pop q; (xs, q2) = pops n q1 in (x # xs, q2))"

lemma pops_fifo:
  "wf q \<Longrightarrow> n \<le> length (items q) \<Longrightarrow>
     fst (pops n q) = take n (items q) \<and> items (snd (pops n q)) = drop n (items q)
     \<and> wf (snd (pops n q))"
proof (induction n arbitrary: q)
  case 0
  then show ?case by simp
next
  case (Suc n)
  let ?q1 = "snd (pop q)"
  have ne: "items q \<noteq> []" using Suc.prems by auto
  have IH: "fst (pops n ?q1) = take n (items ?q1) \<and> items (snd (pops n ?q1)) = drop n (items ?q1)
      \<and> wf (snd (pops n ?q1))"
    using Suc.prems by (intro Suc.IH) (auto simp: wf_pop items_pop)
  from ne obtain y ys where ys: "items q = y # ys" by (cases "items q") auto
  show ?case
    using IH ys by (simp add: fst_pop [OF Suc.prems(1) ne] items_pop [OF Suc.prems(1)] split_beta)
qed

text \<open>What is pushed onto an empty queue comes out in the same order.\<close>

lemma push_pop_roundtrip:
  assumes "wf q" "items q = []" "length xs \<le> cap q"
  shows "fst (pops (length xs) (foldl push q xs)) = xs"
proof -
  have it: "items (foldl push q xs) = xs"
    using assms by (simp add: items_pushes)
  have "fst (pops (length xs) (foldl push q xs)) = take (length xs) (items (foldl push q xs))"
    using pops_fifo [of "foldl push q xs" "length xs"] it wf_pushes [OF assms(1)] by simp
  with it show ?thesis by simp
qed

text \<open>One turn of a round robin: the head is taken and \<open>x\<close> goes to the back.\<close>

lemma items_pop_push:
  assumes "wf q" "items q \<noteq> []"
  shows "items (push (snd (pop q)) x) = tl (items q) @ [x]"
proof -
  have "length (items q) \<le> cap q" using assms(1) by (rule items_le_cap)
  with assms show ?thesis
    by (cases "items q") (auto simp: items_push wf_pop cap_pop items_pop)
qed

lemma items_pop_push_subset: "wf q \<Longrightarrow> set (items (push (snd (pop q)) x)) \<subseteq> insert x (set (items q))"
  by (cases "items q") (auto simp: items_push wf_pop items_pop)

end

locale bounded_lifo = bounded_buffer wf items cap push is_empty is_full
  for wf :: "'q \<Rightarrow> bool" and items :: "'q \<Rightarrow> 'a list" and cap push is_empty is_full +
  fixes pop :: "'q \<Rightarrow> 'a \<times> 'q"
  assumes wf_lpop: "wf q \<Longrightarrow> wf (snd (pop q))"
    and cap_lpop: "wf q \<Longrightarrow> cap (snd (pop q)) = cap q"
    and items_lpop: "wf q \<Longrightarrow> items (snd (pop q)) = butlast (items q)"
    and fst_lpop: "wf q \<Longrightarrow> items q \<noteq> [] \<Longrightarrow> fst (pop q) = last (items q)"
begin

text \<open>A pop undoes the last push that was accepted.\<close>

lemma lpop_push:
  assumes "wf q" "\<not> is_full q"
  shows "fst (pop (push q x)) = x \<and> items (snd (pop (push q x))) = items q"
proof -
  have lt: "length (items q) < cap q"
    using assms items_le_cap [OF assms(1)] by (auto simp: is_full_iff)
  then have it: "items (push q x) = items q @ [x]"
    using assms(1) by (simp add: items_push)
  with assms(1) show ?thesis
    by (simp add: fst_lpop items_lpop wf_push)
qed

end

section \<open>Abstraction and invariants\<close>

definition queue_items :: "queue \<Rightarrow> u8 list" where
  "queue_items q = map (\<lambda>i. q_buffer q ! ((q_tail q + i) mod q_size q)) [0..<q_count q]"

definition queue_wf :: "queue \<Rightarrow> bool" where
  "queue_wf q \<longleftrightarrow> q_count q \<le> q_size q \<and> q_size q \<le> length (q_buffer q)
     \<and> (if q_size q = 0 then q_tail q = 0 else q_tail q < q_size q)
     \<and> q_head q = (q_tail q + q_count q) mod q_size q"

definition stack_items :: "stack \<Rightarrow> u8 list" where
  "stack_items s = take (s_count s) (s_buffer s)"

definition stack_wf :: "stack \<Rightarrow> bool" where
  "stack_wf s \<longleftrightarrow> s_count s \<le> s_size s \<and> s_size s \<le> length (s_buffer s) \<and> s_head s = s_count s"

lemma length_queue_items [simp]: "length (queue_items q) = q_count q"
  by (simp add: queue_items_def)

lemma ring_distinct:
  assumes "i < n" "n < (s::nat)"
  shows "(t + i) mod s \<noteq> (t + n) mod s"
proof
  assume eq: "(t + i) mod s = (t + n) mod s"
  then have "s dvd (t + n) - (t + i)"
    using assms by (subst mod_eq_dvd_iff_nat [symmetric]) auto
  then have "s dvd n - i" by simp
  with assms show False by (auto dest: dvd_imp_le)
qed

lemma mod_Suc_wrap: "m < s \<Longrightarrow> (if Suc m \<ge> s then 0 else Suc m) = Suc m mod (s::nat)"
  by (cases "Suc m = s") auto

lemma queue_push_wf [inv_intros]: "queue_wf q \<Longrightarrow> queue_wf (queue_push q x)"
proof (cases "q_count q \<ge> q_size q")
  case True
  then show "queue_wf q \<Longrightarrow> ?thesis" by (simp add: queue_push_def)
next
  case False
  assume wf: "queue_wf q"
  then have "q_head q < q_size q" using False by (auto simp: queue_wf_def)
  moreover from wf have "Suc (q_head q) mod q_size q = Suc (q_tail q + q_count q) mod q_size q"
    by (simp add: queue_wf_def mod_Suc_eq)
  ultimately show ?thesis
    using False wf by (auto simp: queue_wf_def queue_push_def Let_def mod_Suc_wrap)
qed

lemma queue_push_items [abs_simps]:
  assumes wf: "queue_wf q"
  shows "queue_items (queue_push q x)
    = (if length (queue_items q) < q_size q then queue_items q @ [x] else queue_items q)"
proof (cases "q_count q < q_size q")
  case False
  then show ?thesis by (simp add: queue_push_def)
next
  case True
  have h: "q_head q = (q_tail q + q_count q) mod q_size q" and
    hl: "q_head q < length (q_buffer q)"
    using wf True by (auto simp: queue_wf_def intro: less_le_trans [OF mod_less_divisor])
  have old: "(q_buffer q)[q_head q := x] ! ((q_tail q + i) mod q_size q)
      = q_buffer q ! ((q_tail q + i) mod q_size q)" if "i < q_count q" for i
    using ring_distinct [OF that True, of "q_tail q"] h by simp
  show ?thesis
    using True h hl old by (simp add: queue_items_def queue_push_def Let_def)
qed

lemma queue_pop_wf [inv_intros]: "queue_wf q \<Longrightarrow> queue_wf (snd (queue_pop q))"
proof (cases "q_count q = 0")
  case True
  then show "queue_wf q \<Longrightarrow> ?thesis" by (simp add: queue_pop_def)
next
  case False
  assume wf: "queue_wf q"
  then have t: "q_tail q < q_size q" using False by (auto simp: queue_wf_def split: if_splits)
  have "(Suc (q_tail q) mod q_size q + (q_count q - 1)) mod q_size q
      = (Suc (q_tail q) + (q_count q - 1)) mod q_size q"
    by (rule mod_add_left_eq)
  then have "(Suc (q_tail q) mod q_size q + (q_count q - 1)) mod q_size q
      = (q_tail q + q_count q) mod q_size q"
    using False by simp
  then show ?thesis
    using False wf t by (auto simp: queue_wf_def queue_pop_def Let_def mod_Suc_wrap split: if_splits)
qed

lemma queue_pop_items [abs_simps]:
  assumes wf: "queue_wf q"
  shows "queue_items (snd (queue_pop q)) = tl (queue_items q)"
proof (cases "q_count q")
  case 0
  then show ?thesis by (simp add: queue_pop_def queue_items_def)
next
  case (Suc n)
  then have t: "q_tail q < q_size q" using wf by (auto simp: queue_wf_def split: if_splits)
  have idx: "(Suc (q_tail q) mod q_size q + i) mod q_size q = (q_tail q + Suc i) mod q_size q" for i
    by (simp add: mod_add_left_eq)
  have "tl (queue_items q)
      = map (\<lambda>i. q_buffer q ! ((q_tail q + Suc i) mod q_size q)) [0..<n]"
    by (simp add: queue_items_def Suc map_tl [symmetric] upt_conv_Cons map_Suc_upt [symmetric] del: upt_Suc)
  then show ?thesis
    using Suc t by (simp add: queue_items_def queue_pop_def Let_def mod_Suc_wrap idx)
qed

lemma queue_pop_fst [abs_simps]:
  "queue_wf q \<Longrightarrow> queue_items q \<noteq> [] \<Longrightarrow> fst (queue_pop q) = hd (queue_items q)"
  by (auto simp: queue_pop_def queue_items_def queue_wf_def hd_map Let_def split: if_splits)

lemma queue_push_size [frame_simps]: "q_size (queue_push q x) = q_size q"
  by (simp add: queue_push_def Let_def)

lemma queue_pop_size [frame_simps]: "q_size (snd (queue_pop q)) = q_size q"
  by (simp add: queue_pop_def Let_def)

lemma queue_wf_count: "queue_wf q \<Longrightarrow> q_count q \<le> q_size q"
  by (simp add: queue_wf_def)

interpretation kq: bounded_fifo queue_wf queue_items q_size queue_push queue_empty queue_full queue_pop
  by unfold_locales
    (auto simp: inv_intros abs_simps frame_simps queue_empty_def queue_full_def queue_wf_count
      simp flip: length_0_conv dest: queue_wf_count)

lemma stack_push_items [abs_simps]:
  "stack_wf s \<Longrightarrow> stack_items (stack_push s x)
    = (if length (stack_items s) < s_size s then stack_items s @ [x] else stack_items s)"
  by (auto simp: stack_wf_def stack_items_def stack_push_def take_Suc_conv_app_nth min_def)

lemma stack_pop_items [abs_simps]:
  "stack_wf s \<Longrightarrow> stack_items (snd (stack_pop s)) = butlast (stack_items s)"
  by (auto simp: stack_wf_def stack_items_def stack_pop_def Let_def butlast_take)

lemma stack_pop_fst [abs_simps]:
  "stack_wf s \<Longrightarrow> stack_items s \<noteq> [] \<Longrightarrow> fst (stack_pop s) = last (stack_items s)"
  by (auto simp: stack_wf_def stack_items_def stack_pop_def Let_def last_conv_nth min_def
      dest: order_antisym)

interpretation ks: bounded_lifo stack_wf stack_items s_size stack_push stack_empty stack_full stack_pop
  by unfold_locales
    (auto simp: abs_simps,
     auto simp: stack_wf_def stack_items_def stack_push_def stack_pop_def stack_empty_def
      stack_full_def Let_def min_def split: if_splits)

lemma queue_init_wf: "sz \<le> length buffer \<Longrightarrow> queue_wf (queue_init buffer sz)"
  by (simp add: queue_wf_def queue_init_def)

lemma queue_init_items [simp]: "queue_items (queue_init buffer sz) = []"
  by (simp add: queue_items_def queue_init_def)

lemma queue_init_size [simp]: "q_size (queue_init buffer sz) = sz"
  by (simp add: queue_init_def)

lemma stack_init_wf: "sz \<le> length buffer \<Longrightarrow> stack_wf (stack_init buffer sz)"
  by (simp add: stack_wf_def stack_init_def)

section \<open>Properties\<close>

text \<open>A client's run of pushes and pops, on the code's queue and stack, and on a list.\<close>

datatype buf_call = Push u8 | Pop

fun queue_run :: "queue \<Rightarrow> buf_call list \<Rightarrow> u8 list \<times> queue" where
  "queue_run q [] = ([], q)"
| "queue_run q (Push x # cs) = queue_run (queue_push q x) cs"
| "queue_run q (Pop # cs) =
     (let (x, q') = queue_pop q; (xs, q'') = queue_run q' cs in (x # xs, q''))"

fun fifo_run :: "nat \<Rightarrow> u8 list \<Rightarrow> buf_call list \<Rightarrow> u8 list \<times> u8 list" where
  "fifo_run n xs [] = ([], xs)"
| "fifo_run n xs (Push x # cs) = fifo_run n (if length xs < n then xs @ [x] else xs) cs"
| "fifo_run n xs (Pop # cs) =
     (let (ys, xs') = fifo_run n (tl xs) cs in ((if xs = [] then 0 else hd xs) # ys, xs'))"

fun stack_run :: "stack \<Rightarrow> buf_call list \<Rightarrow> u8 list \<times> stack" where
  "stack_run s [] = ([], s)"
| "stack_run s (Push x # cs) = stack_run (stack_push s x) cs"
| "stack_run s (Pop # cs) =
     (let (x, s') = stack_pop s; (xs, s'') = stack_run s' cs in (x # xs, s''))"

fun lifo_run :: "nat \<Rightarrow> u8 list \<Rightarrow> buf_call list \<Rightarrow> u8 list \<times> u8 list" where
  "lifo_run n xs [] = ([], xs)"
| "lifo_run n xs (Push x # cs) = lifo_run n (if length xs < n then xs @ [x] else xs) cs"
| "lifo_run n xs (Pop # cs) =
     (let (ys, xs') = lifo_run n (butlast xs) cs in ((if xs = [] then 0 else last xs) # ys, xs'))"

lemma queue_pop_result:
  "queue_wf q \<Longrightarrow> fst (queue_pop q) = (if queue_items q = [] then 0 else hd (queue_items q))"
proof (cases "queue_items q = []")
  case True
  then have "q_count q = 0" using length_queue_items [of q] by simp
  with True show ?thesis by (simp add: queue_pop_def)
qed (simp add: kq.fst_pop)

lemma stack_pop_result:
  "stack_wf s \<Longrightarrow> fst (stack_pop s) = (if stack_items s = [] then 0 else last (stack_items s))"
proof (cases "stack_items s = []")
  case True
  moreover assume "stack_wf s"
  ultimately have "s_count s = 0" by (auto simp: stack_items_def stack_wf_def)
  with True show ?thesis by (simp add: stack_pop_def)
qed (simp add: ks.fst_lpop)

text \<open>C4: The ring buffer is a bounded FIFO queue. For every sequence of pushes and pops from a
  well-formed queue, the popped bytes are those of the list queue of the same capacity (a push
  onto a full queue is dropped, a pop of an empty one gives 0), the ring stays well formed and
  holds the list's elements.\<close>

theorem queue_refines_fifo:
  assumes "queue_wf q"
  shows "fst (queue_run q cs) = fst (fifo_run (q_size q) (queue_items q) cs)
    \<and> queue_items (snd (queue_run q cs)) = snd (fifo_run (q_size q) (queue_items q) cs)
    \<and> queue_wf (snd (queue_run q cs))"
  using assms
proof (induction cs arbitrary: q)
  case Nil
  then show ?case by simp
next
  case (Cons c cs)
  show ?case
  proof (cases c)
    case (Push x)
    with Cons.IH [OF kq.wf_push [OF Cons.prems, of x]] Cons.prems show ?thesis
      by (simp add: abs_simps frame_simps)
  next
    case Pop
    with Cons.IH [OF kq.wf_pop [OF Cons.prems]] Cons.prems show ?thesis
      by (simp add: split_beta abs_simps frame_simps queue_pop_result)
  qed
qed

lemma queue_refines_fifo_witness:
  "fst (queue_run (queue_init [0, 0] 2) [Push 7, Push 8, Push 9, Pop, Push 5, Pop, Pop, Pop]) = [7, 8, 5, 0]"
  using queue_refines_fifo [OF queue_init_wf, of 2 "[0, 0]"
      "[Push 7, Push 8, Push 9, Pop, Push 5, Pop, Pop, Pop]"]
  by simp

text \<open>C5: The stack is a bounded LIFO stack: for every sequence of pushes and pops from a
  well-formed stack the popped bytes and the remaining contents are those of a list used at its
  end, with pushes beyond the capacity dropped and 0 popped from the empty stack.\<close>

theorem stack_refines_lifo:
  assumes "stack_wf s"
  shows "fst (stack_run s cs) = fst (lifo_run (s_size s) (stack_items s) cs)
    \<and> stack_items (snd (stack_run s cs)) = snd (lifo_run (s_size s) (stack_items s) cs)
    \<and> stack_wf (snd (stack_run s cs))"
  using assms
proof (induction cs arbitrary: s)
  case Nil
  then show ?case by simp
next
  case (Cons c cs)
  show ?case
  proof (cases c)
    case (Push x)
    with Cons.IH [OF ks.wf_push [OF Cons.prems, of x]] Cons.prems show ?thesis
      by (simp add: abs_simps ks.cap_push)
  next
    case Pop
    with Cons.IH [OF ks.wf_lpop [OF Cons.prems]] Cons.prems show ?thesis
      by (simp add: split_beta abs_simps ks.cap_lpop stack_pop_result)
  qed
qed

lemma stack_refines_lifo_witness:
  "fst (stack_run (stack_init [0, 0] 2) [Push 7, Push 8, Push 9, Pop, Push 5, Pop, Pop, Pop]) = [8, 5, 7, 0]"
  using stack_refines_lifo [OF stack_init_wf, of 2 "[0, 0]"
      "[Push 7, Push 8, Push 9, Pop, Push 5, Pop, Pop, Pop]"]
  by (simp add: stack_init_def stack_items_def)

end
