(* ===== verification/CString.thy ===== *)
theory CString
  imports Prelude
begin

text \<open>
  The string routines: \<^verbatim>\<open>src/tools/hash.c\<close> (the two hashes that key the B+ tree),
  \<^verbatim>\<open>src/tools/utils.c\<close>, and the string part of \<^verbatim>\<open>src/global/io.c\<close> (\<open>strcmp\<close>,
  \<open>strstr\<close>, \<open>strlen\<close>, \<open>str_to_uint\<close>, \<open>put_uint\<close>, \<open>put_hex\<close>, \<open>put_hex2\<close>) with
  \<open>fput_uint\<close> of \<^verbatim>\<open>src/frm/ksh.c\<close>. A loop up to the terminator is a
  \<^theory_text>\<open>partial_function (option)\<close>: \<open>None\<close> if no terminator is ever met. Each has a
  lemma that it returns on a terminated string, with its value.

  Output goes to the UART a byte at a time; the model of a printing function is the list
  of bytes it sends. Plain \<^verbatim>\<open>char\<close> is unsigned in the AArch64 ABI.
\<close>

abbreviation snext :: "cstr \<Rightarrow> cstr" where
  "snext s \<equiv> sadv (Suc 0) s"

definition cbytes :: "cstr \<Rightarrow> nat \<Rightarrow> u8 list" where
  "cbytes s n = map s [0..<n]"

lemma length_cbytes [simp]: "length (cbytes s n) = n"
  by (simp add: cbytes_def)

lemma cbytes_0 [simp]: "cbytes s 0 = []"
  by (simp add: cbytes_def)

lemma cbytes_Suc: "cbytes s (Suc n) = s 0 # cbytes (snext s) n"
  by (simp add: cbytes_def sadv_nth upt_conv_Cons map_Suc_upt [symmetric] del: upt_Suc)

lemma nth_cbytes [simp]: "i < n \<Longrightarrow> cbytes s n ! i = s i"
  by (simp add: cbytes_def)

lemma terminated_cases [consumes 1, case_names Nil Cons]:
  assumes "terminated s n"
    and "n = 0 \<Longrightarrow> s 0 = 0 \<Longrightarrow> P"
    and "\<And>m. n = Suc m \<Longrightarrow> s 0 \<noteq> 0 \<Longrightarrow> terminated (snext s) m \<Longrightarrow> P"
  shows P
proof (cases n)
  case 0
  with assms show ?thesis by simp
next
  case (Suc m)
  with assms(1) have "s 0 \<noteq> 0" "terminated (snext s) m"
    by (auto simp: terminated_def sadv_def)
  with Suc show ?thesis by (rule assms(3))
qed

section \<open>Hashes\<close>

definition FNV_OFFSET_BASIS_64 :: u64 where
  "FNV_OFFSET_BASIS_64 = 0xcbf29ce484222325"

definition FNV_PRIME_64 :: u64 where
  "FNV_PRIME_64 = 0x100000001b3"

partial_function (option) fnv1a_loop :: "cstr \<Rightarrow> u64 \<Rightarrow> u64 option" where
  "fnv1a_loop s hash =
     (if s 0 = 0 then Some hash
      else fnv1a_loop (snext s) ((hash XOR ucast (s 0)) * FNV_PRIME_64))"

definition fnv1a_hash_64 :: "cstr \<Rightarrow> u64 option" where
  "fnv1a_hash_64 s = fnv1a_loop s FNV_OFFSET_BASIS_64"

partial_function (option) djb2_loop :: "cstr \<Rightarrow> u64 \<Rightarrow> u64 option" where
  "djb2_loop s hash =
     (if s 0 = 0 then Some hash
      else djb2_loop (snext s) ((push_bit 5 hash + hash) + ucast (s 0)))"

definition djb2_hash_64 :: "cstr \<Rightarrow> u64 option" where
  "djb2_hash_64 s = djb2_loop s 5381"

text \<open>The hashes as folds over the bytes before the terminator.\<close>

definition fnv1a_spec :: "u8 list \<Rightarrow> u64" where
  "fnv1a_spec bs = fold (\<lambda>b h. (h XOR ucast b) * FNV_PRIME_64) bs FNV_OFFSET_BASIS_64"

definition djb2_spec :: "u8 list \<Rightarrow> u64" where
  "djb2_spec bs = fold (\<lambda>b h. 33 * h + ucast b) bs 5381"

lemma fnv1a_loop_eq:
  "terminated s n \<Longrightarrow>
     fnv1a_loop s h = Some (fold (\<lambda>b h. (h XOR ucast b) * FNV_PRIME_64) (cbytes s n) h)"
proof (induction n arbitrary: s h)
  case 0
  then show ?case by (simp add: fnv1a_loop.simps)
next
  case (Suc n)
  from Suc.prems have "s 0 \<noteq> 0" "terminated (snext s) n"
    by (auto elim: terminated_cases)
  then show ?case by (subst fnv1a_loop.simps) (simp add: Suc.IH cbytes_Suc)
qed

lemma push_bit_5_add: "push_bit 5 h + h = 33 * (h :: u64)"
  by (simp add: push_bit_eq_mult)

lemma djb2_loop_eq:
  "terminated s n \<Longrightarrow> djb2_loop s h = Some (fold (\<lambda>b h. 33 * h + ucast b) (cbytes s n) h)"
proof (induction n arbitrary: s h)
  case 0
  then show ?case by (simp add: djb2_loop.simps)
next
  case (Suc n)
  from Suc.prems have "s 0 \<noteq> 0" "terminated (snext s) n"
    by (auto elim: terminated_cases)
  then show ?case by (subst djb2_loop.simps) (simp add: Suc.IH cbytes_Suc push_bit_5_add)
qed

lemma fnv1a_hash_64_eq: "terminated s n \<Longrightarrow> fnv1a_hash_64 s = Some (fnv1a_spec (cbytes s n))"
  by (simp add: fnv1a_hash_64_def fnv1a_spec_def fnv1a_loop_eq)

lemma djb2_hash_64_eq: "terminated s n \<Longrightarrow> djb2_hash_64 s = Some (djb2_spec (cbytes s n))"
  by (simp add: djb2_hash_64_def djb2_spec_def djb2_loop_eq)

section \<open>Lengths and comparison\<close>

partial_function (option) strlen_loop :: "cstr \<Rightarrow> nat \<Rightarrow> nat option" where
  "strlen_loop str p = (if str p = 0 then Some p else strlen_loop str (p + 1))"

definition strlen :: "cstr \<Rightarrow> nat option" where
  "strlen str = strlen_loop str 0"

definition kstrlen :: "cstr \<Rightarrow> nat option" where
  "kstrlen str = strlen_loop str 0"

lemma strlen_loop_eq: "terminated s n \<Longrightarrow> p \<le> n \<Longrightarrow> strlen_loop s p = Some n"
proof (induction "n - p" arbitrary: p)
  case 0
  then show ?case by (simp add: strlen_loop.simps terminated_def)
next
  case (Suc k)
  then have "p < n" by simp
  with Suc.prems have "s p \<noteq> 0" by (simp add: terminated_def)
  with Suc \<open>p < n\<close> show ?case by (subst strlen_loop.simps) simp
qed

lemma strlen_eq [simp]: "terminated s n \<Longrightarrow> strlen s = Some n"
  by (simp add: strlen_def strlen_loop_eq)

lemma kstrlen_eq [simp]: "terminated s n \<Longrightarrow> kstrlen s = Some n"
  by (simp add: kstrlen_def strlen_loop_eq)

partial_function (option) strcmp :: "cstr \<Rightarrow> cstr \<Rightarrow> int option" where
  "strcmp s1 s2 =
     (if s1 0 \<noteq> 0 \<and> s1 0 = s2 0 then strcmp (snext s1) (snext s2)
      else Some (uint (s1 0) - uint (s2 0)))"

text \<open>
  \<open>same_string s1 s2\<close>: the two C strings have the same bytes up to and including the
  terminator.
\<close>

definition same_string :: "cstr \<Rightarrow> cstr \<Rightarrow> bool" where
  "same_string s1 s2 \<longleftrightarrow> (\<exists>n. terminated s1 n \<and> terminated s2 n \<and> cbytes s1 n = cbytes s2 n)"

lemma strcmp_total: "terminated s1 n \<Longrightarrow> \<exists>r. strcmp s1 s2 = Some r"
proof (induction n arbitrary: s1 s2)
  case 0
  then show ?case by (simp add: strcmp.simps)
next
  case (Suc n)
  then have "terminated (snext s1) n" by (auto elim: terminated_cases)
  then obtain r where "strcmp (snext s1) (snext s2) = Some r" using Suc.IH by blast
  then show ?case by (subst strcmp.simps) simp
qed

lemma uint_diff_eq_0: "uint (a :: u8) - uint b = 0 \<longleftrightarrow> a = b"
  by (simp add: word_uint_eq_iff)

lemma terminated_snext: "s 0 \<noteq> 0 \<Longrightarrow> terminated (snext s) n \<longleftrightarrow> terminated s (Suc n)"
  by (simp add: terminated_Suc sadv_def)

lemma same_string_0: "s1 0 = 0 \<Longrightarrow> same_string s1 s2 \<longleftrightarrow> s2 0 = 0"
proof
  assume z: "s1 0 = 0" and "same_string s1 s2"
  then obtain n where "terminated s1 n" "terminated s2 n" by (auto simp: same_string_def)
  moreover have "n = 0" using terminated_unique [OF \<open>terminated s1 n\<close>, of 0] z by simp
  ultimately show "s2 0 = 0" by simp
next
  assume "s1 0 = 0" "s2 0 = 0"
  then have "terminated s1 0 \<and> terminated s2 0 \<and> cbytes s1 0 = cbytes s2 0" by simp
  then show "same_string s1 s2" by (auto simp only: same_string_def)
qed

lemma same_string_step:
  assumes nz: "s1 0 \<noteq> 0" "s1 0 = s2 0"
  shows "same_string s1 s2 \<longleftrightarrow> same_string (snext s1) (snext s2)"
proof
  assume "same_string s1 s2"
  then obtain n where n: "terminated s1 n" "terminated s2 n" "cbytes s1 n = cbytes s2 n"
    by (auto simp: same_string_def)
  then obtain m where "n = Suc m" using nz by (cases n) auto
  with n nz have "terminated (snext s1) m \<and> terminated (snext s2) m
      \<and> cbytes (snext s1) m = cbytes (snext s2) m"
    by (simp add: terminated_snext cbytes_Suc)
  then show "same_string (snext s1) (snext s2)" by (auto simp only: same_string_def)
next
  assume "same_string (snext s1) (snext s2)"
  then obtain n where n: "terminated (snext s1) n" "terminated (snext s2) n"
      "cbytes (snext s1) n = cbytes (snext s2) n"
    by (auto simp: same_string_def)
  with nz have "terminated s1 (Suc n) \<and> terminated s2 (Suc n) \<and> cbytes s1 (Suc n) = cbytes s2 (Suc n)"
    by (simp add: terminated_snext cbytes_Suc)
  then show "same_string s1 s2" by (auto simp only: same_string_def)
qed

lemma strcmp_zero_iff:
  "terminated s1 n \<Longrightarrow> strcmp s1 s2 = Some r \<Longrightarrow> r = 0 \<longleftrightarrow> same_string s1 s2"
proof (induction n arbitrary: s1 s2)
  case 0
  then have "s1 0 = 0" by simp
  with 0 have r: "r = - uint (s2 0)" by (simp add: strcmp.simps)
  have "same_string s1 s2 \<longleftrightarrow> s2 0 = 0"
    using \<open>s1 0 = 0\<close> by (rule same_string_0)
  with r show ?case by (simp add: word_uint_eq_iff)
next
  case (Suc n)
  then have nz: "s1 0 \<noteq> 0" and t: "terminated (snext s1) n" by (auto elim: terminated_cases)
  show ?case
  proof (cases "s1 0 = s2 0")
    case True
    then have "strcmp (snext s1) (snext s2) = Some r"
      using Suc.prems(2) nz by (subst (asm) strcmp.simps) simp
    then show ?thesis
      using Suc.IH [OF t] same_string_step [of s1 s2] nz True by simp
  next
    case False
    then have "r = uint (s1 0) - uint (s2 0)"
      using Suc.prems(2) by (subst (asm) strcmp.simps) simp
    moreover have "\<not> same_string s1 s2"
    proof
      assume "same_string s1 s2"
      then obtain m where "terminated s1 m" "cbytes s1 m = cbytes s2 m" "terminated s2 m"
        by (auto simp: same_string_def)
      with nz False show False by (cases m) (auto simp: cbytes_Suc)
    qed
    ultimately show ?thesis using False uint_diff_eq_0 [of "s1 0" "s2 0"] by simp
  qed
qed

section \<open>Substring search\<close>

text \<open>The inner loop of \<open>strstr\<close>: is \<open>n\<close> (up to its terminator) a prefix of \<open>h\<close>?\<close>

partial_function (option) strstr_match :: "cstr \<Rightarrow> cstr \<Rightarrow> bool option" where
  "strstr_match h n =
     (if h 0 \<noteq> 0 \<and> n 0 \<noteq> 0 \<and> h 0 = n 0 then strstr_match (snext h) (snext n)
      else Some (n 0 = 0))"

text \<open>The outer loop; the result is the offset of the match in \<open>s\<close>, or the null pointer.\<close>

partial_function (option) strstr_loop :: "cstr \<Rightarrow> nat \<Rightarrow> cstr \<Rightarrow> nat option option" where
  "strstr_loop s i sub =
     (if s i = 0 then Some None
      else do {
        m \<leftarrow> strstr_match (sadv i s) sub;
        if m then Some (Some i) else strstr_loop s (i + 1) sub
      })"

definition strstr :: "cstr \<Rightarrow> cstr \<Rightarrow> nat option option" where
  "strstr s sub = (if sub 0 = 0 then Some (Some 0) else strstr_loop s 0 sub)"

definition occurs_at :: "cstr \<Rightarrow> nat \<Rightarrow> cstr \<Rightarrow> nat \<Rightarrow> bool" where
  "occurs_at s i sub k \<longleftrightarrow> (\<forall>j<k. s (i + j) = sub j)"

lemma strstr_match_eq:
  "terminated h m \<Longrightarrow> terminated n k \<Longrightarrow> strstr_match h n = Some (\<forall>j<k. h j = n j)"
proof (induction k arbitrary: h n m)
  case 0
  then show ?case by (simp add: strstr_match.simps)
next
  case (Suc k)
  then have n: "n 0 \<noteq> 0" "terminated (snext n) k" by (auto elim: terminated_cases)
  have split: "(\<forall>j<Suc k. h j = n j) \<longleftrightarrow> h 0 = n 0 \<and> (\<forall>j<k. snext h j = snext n j)"
    by (auto simp: sadv_nth less_Suc_eq_0_disj)
  show ?case
  proof (cases "h 0 \<noteq> 0 \<and> h 0 = n 0")
    case True
    then obtain m' where "terminated (snext h) m'"
      using Suc.prems by (auto elim: terminated_cases)
    then have "strstr_match (snext h) (snext n) = Some (\<forall>j<k. snext h j = snext n j)"
      using n(2) by (rule Suc.IH)
    with True n(1) show ?thesis by (subst strstr_match.simps) (simp add: split)
  next
    case False
    with n(1) show ?thesis by (subst strstr_match.simps) (auto simp: split)
  qed
qed

lemma terminated_sadv: "terminated s n \<Longrightarrow> i \<le> n \<Longrightarrow> terminated (sadv i s) (n - i)"
  by (auto simp: terminated_def sadv_nth)

lemma strstr_loop_eq:
  assumes s: "terminated s n" and sub: "terminated sub k" and "i \<le> n"
  shows "strstr_loop s i sub
    = Some (if \<exists>j. i \<le> j \<and> j < n \<and> occurs_at s j sub k
            then Some (LEAST j. i \<le> j \<and> j < n \<and> occurs_at s j sub k) else None)"
  using assms(3)
proof (induction "n - i" arbitrary: i)
  case 0
  then have "i = n" by simp
  with s show ?case by (subst strstr_loop.simps) (simp add: terminated_def)
next
  case (Suc d)
  then have lt: "i < n" by simp
  with s have nz: "s i \<noteq> 0" by (simp add: terminated_def)
  have "strstr_match (sadv i s) sub = Some (\<forall>j<k. sadv i s j = sub j)"
    by (rule strstr_match_eq [OF terminated_sadv [OF s Suc.prems] sub])
  then have m: "strstr_match (sadv i s) sub = Some (occurs_at s i sub k)"
    by (simp add: occurs_at_def sadv_nth)
  show ?case
  proof (cases "occurs_at s i sub k")
    case True
    moreover have "(LEAST j. i \<le> j \<and> j < n \<and> occurs_at s j sub k) = i"
      using True lt by (intro Least_equality) auto
    ultimately show ?thesis
      using lt nz m by (subst strstr_loop.simps) auto
  next
    case False
    have eq: "(i \<le> j \<and> j < n \<and> occurs_at s j sub k) \<longleftrightarrow> (i + 1 \<le> j \<and> j < n \<and> occurs_at s j sub k)" for j
      using False by (cases "j = i") auto
    have "strstr_loop s (i + 1) sub
      = Some (if \<exists>j. i + 1 \<le> j \<and> j < n \<and> occurs_at s j sub k
            then Some (LEAST j. i + 1 \<le> j \<and> j < n \<and> occurs_at s j sub k) else None)"
      using Suc by (intro Suc.hyps(1)) auto
    then show ?thesis
      unfolding eq using False nz m by (subst strstr_loop.simps) simp
  qed
qed

section \<open>Numbers in and out\<close>

partial_function (option) str_to_uint_loop :: "cstr \<Rightarrow> u64 \<Rightarrow> u64 option" where
  "str_to_uint_loop str val =
     (if str 0 \<ge> 48 \<and> str 0 \<le> 57
      then str_to_uint_loop (snext str) (val * 10 + ucast (str 0 - 48))
      else Some val)"

definition str_to_uint :: "cstr \<Rightarrow> u64 option" where
  "str_to_uint str = str_to_uint_loop str 0"

text \<open>
  \<open>put_uint\<close> fills a 21-byte buffer from index 19 downwards and prints from the last
  digit written. \<open>i\<close> is the C \<^verbatim>\<open>int32_t\<close> index; the loop stops at \<open>i = -1\<close>.
\<close>

definition digit :: "u64 \<Rightarrow> u8" where
  "digit n = ucast (n mod 10) + 48"

function put_uint_loop :: "u8 list \<Rightarrow> int \<Rightarrow> u64 \<Rightarrow> u8 list \<times> int" where
  "put_uint_loop buf i n =
     (if n > 0 \<and> i \<ge> 0 then put_uint_loop (buf[nat i := digit n]) (i - 1) (n div 10)
      else (buf, i))"
  by pat_completeness auto
termination
  by (relation "measure (\<lambda>(buf, i, n). nat (i + 1))") auto

declare put_uint_loop.simps [simp del]

text \<open>The bytes \<^verbatim>\<open>puts(p)\<close> sends: those before the terminator.\<close>

definition puts_bytes :: "u8 list \<Rightarrow> u8 list" where
  "puts_bytes = takeWhile (\<lambda>c. c \<noteq> 0)"

definition uint_buf :: "u64 \<Rightarrow> u8 list \<times> int" where
  "uint_buf n =
     (let buf = (replicate 21 0)[20 := 0] in
      if n = 0 then put_uint_loop (buf[19 := 48]) 18 n else put_uint_loop buf 19 n)"

definition put_uint :: "u64 \<Rightarrow> u8 list" where
  "put_uint n = (let (buf, i) = uint_buf n in puts_bytes (drop (nat (i + 1)) buf))"

definition hexdigits :: "u8 list" where
  "hexdigits = map of_char ''0123456789ABCDEF''"

definition put_hex2 :: "u64 \<Rightarrow> u8 list" where
  "put_hex2 d =
     (let val = ucast (d AND 0xFF) :: u8 in
      [hexdigits ! unat (drop_bit 4 val AND 0xF), hexdigits ! unat (val AND 0xF)])"

definition put_hex :: "u64 \<Rightarrow> u8 list" where
  "put_hex d =
     map of_char ''0x'' @
     map (\<lambda>k. hexdigits ! unat (drop_bit (60 - 4 * k) d AND 0xF)) [0..<16] @ [10]"

subsection \<open>Printing then parsing\<close>

text \<open>The value of a list of decimal digits, most significant first, and the digits of a number.\<close>

definition dec_val :: "u8 list \<Rightarrow> u64 \<Rightarrow> u64" where
  "dec_val ds v = fold (\<lambda>d v. v * 10 + ucast (d - 48)) ds v"

fun dec_digits :: "nat \<Rightarrow> u64 \<Rightarrow> u8 list" where
  "dec_digits 0 n = []"
| "dec_digits (Suc k) n = (if n = 0 then [] else dec_digits k (n div 10) @ [digit n])"

lemma unat_div10: "unat (n div 10 :: u64) = unat n div 10"
  by (simp add: unat_div)

lemma digit_range: "48 \<le> digit n \<and> digit n \<le> 57"
proof -
  have u: "unat (n mod 10) = unat n mod 10" by (simp add: unat_mod)
  then have "unat (ucast (n mod 10) :: u8) = unat n mod 10"
    by (simp add: unsigned_ucast_eq take_bit_eq_mod)
  then have "unat (digit n) = unat n mod 10 + 48"
    unfolding digit_def by (subst unat_add_no_wrap) auto
  then show ?thesis by (simp add: word_le_nat_alt)
qed

lemma ucast_digit: "ucast (digit n - 48) = n mod 10"
proof -
  have "unat (n mod 10) = unat n mod 10" by (simp add: unat_mod)
  moreover have "unat (ucast (n mod 10) :: u8) = unat n mod 10"
    by (simp add: unsigned_ucast_eq take_bit_eq_mod unat_mod)
  then have "unat (ucast (ucast (n mod 10) :: u8) :: u64) = unat n mod 10"
    by (simp add: unsigned_ucast_eq take_bit_eq_mod unat_mod)
  ultimately show ?thesis
    by (simp add: digit_def word_unat_eq_iff)
qed

lemma digit_nonzero: "digit n \<noteq> 0"
  using digit_range [of n] by auto

lemma dec_val_digits: "unat n < 10 ^ k \<Longrightarrow> dec_val (dec_digits k n) 0 = n"
proof (induction k arbitrary: n)
  case 0
  then show ?case by (simp add: dec_val_def unsigned_eq_0_iff)
next
  case (Suc k)
  have "unat (n div 10) < 10 ^ k" using Suc.prems by (simp add: unat_div10 less_mult_imp_div_less mult.commute)
  then have "dec_val (dec_digits k (n div 10)) 0 = n div 10" by (rule Suc.IH)
  then show ?case
    by (simp add: dec_val_def ucast_digit div_mult_mod_eq)
qed

lemma put_uint_loop_eq:
  "unat n < 10 ^ k \<Longrightarrow> int k \<le> i + 1 \<Longrightarrow> nat (i + 1) \<le> length buf \<Longrightarrow>
     let ds = dec_digits k n in
     put_uint_loop buf i n =
       (take (nat (i + 1) - length ds) buf @ ds @ drop (nat (i + 1)) buf, i - int (length ds))"
proof (induction k arbitrary: n i buf)
  case 0
  then have "n = 0" by (simp add: unsigned_eq_0_iff)
  then show ?case by (simp add: put_uint_loop.simps [of buf i 0])
next
  case (Suc k)
  show ?case
  proof (cases "n = 0")
    case True
    then show ?thesis by (simp add: put_uint_loop.simps [of buf i 0])
  next
    case False
    let ?ds = "dec_digits k (n div 10)" and ?buf = "buf[nat i := digit n]"
    have i: "i \<ge> 0" and ni: "nat (i + 1) = Suc (nat i)" using Suc.prems by auto
    have "unat (n div 10) < 10 ^ k"
      using Suc.prems by (simp add: unat_div10 less_mult_imp_div_less mult.commute)
    then have IH: "put_uint_loop ?buf (i - 1) (n div 10) =
       (take (nat i - length ?ds) ?buf @ ?ds @ drop (nat i) ?buf, i - 1 - int (length ?ds))"
      using Suc.IH [of "n div 10" "i - 1" ?buf] Suc.prems by (simp add: Let_def)
    have "drop (nat i) ?buf = digit n # drop (Suc (nat i)) buf"
      using Suc.prems(3) ni by (simp add: drop_update_cancel Cons_nth_drop_Suc [symmetric])
    with False i ni IH show ?thesis
      by (subst put_uint_loop.simps) (simp add: Let_def word_gt_0)
  qed
qed

lemma length_dec_digits: "length (dec_digits k n) \<le> k"
  by (induction k arbitrary: n) (auto intro: le_SucI)

lemma dec_digits_range: "d \<in> set (dec_digits k n) \<Longrightarrow> 48 \<le> d \<and> d \<le> 57"
  by (induction k arbitrary: n) (auto simp: digit_range split: if_splits)

lemma u64_20_digits: "unat (n :: u64) < 10 ^ 20"
  by (rule less_trans [OF unsigned_less]) simp

text \<open>What \<open>put_uint\<close> prints: the decimal digits, \<open>0\<close> for zero.\<close>

definition dec_text :: "u64 \<Rightarrow> u8 list" where
  "dec_text n = (if n = 0 then [48] else dec_digits 20 n)"

lemma puts_bytes_all: "\<forall>d \<in> set ds. d \<noteq> 0 \<Longrightarrow> puts_bytes (ds @ 0 # xs) = ds"
  by (simp add: puts_bytes_def takeWhile_append)

lemma put_uint_eq: "put_uint n = dec_text n"
proof (cases "n = 0")
  case True
  have "drop 19 (((replicate 21 0)[20 := 0])[19 := 48]) = [48, 0 :: u8]"
    by code_simp
  with True show ?thesis
    by (simp add: put_uint_def uint_buf_def dec_text_def put_uint_loop.simps puts_bytes_def)
next
  case False
  let ?ds = "dec_digits 20 n" and ?buf = "(replicate 21 0)[20 := 0] :: u8 list"
  have len: "length ?ds \<le> 20" by (rule length_dec_digits)
  have "put_uint_loop ?buf 19 n =
      (take (20 - length ?ds) ?buf @ ?ds @ drop 20 ?buf, 19 - int (length ?ds))"
    using put_uint_loop_eq [OF u64_20_digits, of 19 ?buf n] by (simp add: Let_def)
  moreover have "drop 20 ?buf = [0]" by (simp add: eval_nat_numeral)
  moreover have "nat (20 - int (length ?ds)) = 20 - length ?ds" using len by simp
  ultimately have "put_uint n = puts_bytes (?ds @ [0])"
    using False len by (simp add: put_uint_def uint_buf_def)
  also have "\<dots> = ?ds"
    by (rule puts_bytes_all) (auto dest: dec_digits_range)
  finally show ?thesis using False by (simp add: dec_text_def)
qed

lemma str_to_uint_loop_eq:
  "(\<forall>i<length ds. s i = ds ! i) \<Longrightarrow> \<forall>d \<in> set ds. 48 \<le> d \<and> d \<le> 57 \<Longrightarrow>
     s (length ds) < 48 \<or> s (length ds) > 57 \<Longrightarrow>
     str_to_uint_loop s v = Some (dec_val ds v)"
proof (induction ds arbitrary: s v)
  case Nil
  then show ?case by (subst str_to_uint_loop.simps) (auto simp: dec_val_def)
next
  case (Cons d ds)
  have "str_to_uint_loop (snext s) (v * 10 + ucast (d - 48)) = Some (dec_val ds (v * 10 + ucast (d - 48)))"
    using Cons.prems by (intro Cons.IH) (auto simp: sadv_nth)
  moreover have "s 0 = d" using Cons.prems(1) by force
  ultimately show ?case
    using Cons.prems(2) by (subst str_to_uint_loop.simps) (simp add: dec_val_def)
qed

lemma dec_text_parses:
  assumes "\<forall>i<length (dec_text n). s i = dec_text n ! i"
    and "s (length (dec_text n)) < 48 \<or> s (length (dec_text n)) > 57"
  shows "str_to_uint s = Some n"
proof -
  have "\<forall>d \<in> set (dec_text n). 48 \<le> d \<and> d \<le> 57"
    by (auto simp: dec_text_def dest: dec_digits_range)
  then have "str_to_uint s = Some (dec_val (dec_text n) 0)"
    unfolding str_to_uint_def using assms by (intro str_to_uint_loop_eq) auto
  moreover have "dec_val (dec_text n) 0 = n"
    using dec_val_digits [OF u64_20_digits, of n] by (simp add: dec_text_def dec_val_def)
  ultimately show ?thesis by simp
qed

section \<open>Properties\<close>

text \<open>\<open>strcmp\<close> returns on every pair whose first string is terminated, and its result is 0
  exactly when the two strings are the same up to their terminators.\<close>

theorem strcmp_decides_equality:
  assumes "terminated s1 n"
  shows "\<exists>r. strcmp s1 s2 = Some r \<and> (r = 0 \<longleftrightarrow> same_string s1 s2)"
  using strcmp_total [OF assms] strcmp_zero_iff [OF assms] by blast

lemma strcmp_decides_equality_witness:
  "\<exists>r. strcmp (cstr_of [104, 105]) (cstr_of [104]) = Some r
     \<and> (r = 0 \<longleftrightarrow> same_string (cstr_of [104, 105]) (cstr_of [104]))"
proof -
  have "terminated (cstr_of [104, 105]) 2"
    by (auto simp: terminated_def cstr_of_def less_2_cases_iff)
  then show ?thesis by (rule strcmp_decides_equality)
qed

text \<open>\<open>strstr\<close> on terminated strings returns the first occurrence: offset 0 for the empty
  pattern; otherwise the least offset before the terminator at which the pattern occurs, and the
  null pointer when it does not occur.\<close>

theorem strstr_first_occurrence:
  assumes "terminated s n" and "terminated sub k"
  shows "strstr s sub = Some
    (if k = 0 then Some 0
     else if \<exists>j<n. occurs_at s j sub k then Some (LEAST j. j < n \<and> occurs_at s j sub k) else None)"
proof -
  have "sub 0 = 0 \<longleftrightarrow> k = 0" using assms(2) by (auto simp: terminated_def)
  then show ?thesis
    using strstr_loop_eq [OF assms, of 0] by (cases "k = 0") (simp_all add: strstr_def)
qed

lemma strstr_first_occurrence_witness:
  "strstr (cstr_of [97, 98, 97, 98]) (cstr_of [98]) = Some (Some 1)"
proof -
  have t: "terminated (cstr_of [97, 98, 97, 98]) 4" "terminated (cstr_of [98]) 1"
    by (auto intro!: terminated_cstr_of)
  have "occurs_at (cstr_of [97, 98, 97, 98]) j (cstr_of [98]) 1 \<longleftrightarrow> j = 1 \<or> j = 3" if "j < 4" for j
    using that by (auto simp: occurs_at_def cstr_of_def less_Suc_eq eval_nat_numeral)
  then have "(j < 4 \<and> occurs_at (cstr_of [97, 98, 97, 98]) j (cstr_of [98]) 1) \<longleftrightarrow> j = 1 \<or> j = 3"
    for j :: nat
    by auto
  moreover have "(LEAST j. j = 1 \<or> j = (3::nat)) = 1" by (rule Least_equality) auto
  ultimately show ?thesis using strstr_first_occurrence [OF t] by auto
qed

text \<open>Printing a number and reading it back is the identity on all 64-bit values: the bytes
  \<open>put_uint n\<close> sends, parsed by \<open>str_to_uint\<close>, give \<open>n\<close>.\<close>

theorem put_uint_roundtrip: "str_to_uint (cstr_of (put_uint n)) = Some n"
  unfolding put_uint_eq by (rule dec_text_parses) (auto simp: cstr_of_def)

text \<open>The two hashes that key the B+ tree return on every terminated string and are the
  64-bit FNV-1a and djb2 folds of the bytes before the terminator; in particular they agree on
  equal strings.\<close>

theorem hashes_are_folds:
  assumes "terminated s n"
  shows "fnv1a_hash_64 s = Some (fold (\<lambda>c h. (h XOR ucast c) * FNV_PRIME_64) (cbytes s n) FNV_OFFSET_BASIS_64)
    \<and> djb2_hash_64 s = Some (fold (\<lambda>c h. 33 * h + ucast c) (cbytes s n) 5381)"
  using fnv1a_hash_64_eq [OF assms] djb2_hash_64_eq [OF assms]
  by (simp add: fnv1a_spec_def djb2_spec_def)

lemma hashes_are_folds_witness:
  "fnv1a_hash_64 (cstr_of [97]) = Some ((FNV_OFFSET_BASIS_64 XOR 97) * FNV_PRIME_64)
   \<and> djb2_hash_64 (cstr_of [97]) = Some (33 * 5381 + 97)"
proof -
  have "terminated (cstr_of [97]) 1" by (simp add: terminated_def cstr_of_def)
  from hashes_are_folds [OF this] show ?thesis
    by (simp add: cbytes_Suc cbytes_def cstr_of_def)
qed

end
