(* ===== verification/Alloc.thy ===== *)
theory Alloc
  imports Prelude "HOL-Library.Disjoint_Sets"
begin

text \<open>
  The kernel heap of \<^verbatim>\<open>src/global/alloc.c\<close>: a 100 KB array carved into blocks, each with a
  24-byte header (\<^verbatim>\<open>size\<close>, \<^verbatim>\<open>is_alloc\<close>, \<^verbatim>\<open>next\<close>, \<^verbatim>\<open>prev\<close>), doubly linked in address
  order; first-fit allocation with splitting, and a free that merges with both neighbours.

  A pointer into the heap is its offset in \<^verbatim>\<open>heap_mem\<close>, \<open>None\<close> is \<^verbatim>\<open>NULL\<close>. The state keeps
  the header stored at each offset; the payload bytes belong to the clients. Sizes are
  \<open>nat\<close> with the 32-bit wrap-around written out where the code can reach it. Following a
  pointer to an offset without a header is undefined behaviour and gives \<open>None\<close>.

  The abstract state is the list of blocks \<open>(size, allocated)\<close> in address order
  (\<open>heap_rep\<close>). \<open>alloc_list\<close> and \<open>free_list\<close> are the operations on it; the code is proved
  to implement them, and the locale \<open>allocator\<close> states what clients rely on.
\<close>

definition HEAP_SIZE :: nat where
  "HEAP_SIZE = 1024 * 100"

text \<open>\<^verbatim>\<open>sizeof(heap_block_t)\<close>: two 32-bit words and two pointers.\<close>

definition HDR :: nat where
  "HDR = 24"

record heap_block =
  hb_size :: nat
  hb_alloc :: bool
  hb_next :: "nat option"
  hb_prev :: "nat option"

type_synonym hmem = "nat \<Rightarrow> heap_block option"

record heap =
  heap_head :: "nat option"
  heap_mem :: hmem

definition heap_init :: "heap \<Rightarrow> heap" where
  "heap_init h =
     \<lparr>heap_head = Some 0,
      heap_mem = (heap_mem h)(0 \<mapsto>
        \<lparr>hb_size = HEAP_SIZE, hb_alloc = False, hb_next = None, hb_prev = None\<rparr>)\<rparr>"

text \<open>\<^verbatim>\<open>p->prev = q\<close>, where \<open>p\<close> may be null: the guarded store of the linking code.\<close>

definition set_prev :: "hmem \<Rightarrow> nat option \<Rightarrow> nat option \<Rightarrow> hmem option" where
  "set_prev m p q =
     (case p of None \<Rightarrow> Some m
      | Some a \<Rightarrow> do { b \<leftarrow> m a; Some (m(a \<mapsto> b\<lparr>hb_prev := q\<rparr>)) })"

text \<open>
  The body of \<open>heap_alloc\<close> once the block \<open>b\<close> at \<open>cur\<close> has been chosen. A total below the
  header size (only a wrapped sum gives one) would place the new header over the one being
  split: undefined.
\<close>

definition heap_take :: "hmem \<Rightarrow> nat \<Rightarrow> heap_block \<Rightarrow> nat \<Rightarrow> hmem option" where
  "heap_take m cur b tot =
     (if hb_size b > tot + HDR
      then let new = cur + tot;
               m1 = m(new \<mapsto> \<lparr>hb_size = hb_size b - tot, hb_alloc = False,
                              hb_next = hb_next b, hb_prev = Some cur\<rparr>)
           in if tot < HDR then None else do {
             m2 \<leftarrow> set_prev m1 (hb_next b) (Some new);
             Some (m2(cur \<mapsto> b\<lparr>hb_next := Some new, hb_size := tot, hb_alloc := True\<rparr>))
           }
      else Some (m(cur \<mapsto> b\<lparr>hb_alloc := True\<rparr>)))"

partial_function (option) heap_alloc_loop ::
  "heap \<Rightarrow> nat option \<Rightarrow> nat \<Rightarrow> (nat option \<times> heap) option" where
  "heap_alloc_loop h current tot =
     (case current of
        None \<Rightarrow> Some (None, h)
      | Some c \<Rightarrow> do {
          b \<leftarrow> heap_mem h c;
          if \<not> hb_alloc b \<and> hb_size b \<ge> tot
          then do {
            m \<leftarrow> heap_take (heap_mem h) c b tot;
            Some (Some (c + HDR), h\<lparr>heap_mem := m\<rparr>)
          }
          else heap_alloc_loop h (hb_next b) tot
        })"

text \<open>\<^verbatim>\<open>uint32_t total_size = size + sizeof(heap_block_t)\<close> is computed modulo \<open>2 ^ 32\<close>.\<close>

definition heap_alloc :: "heap \<Rightarrow> u32 \<Rightarrow> (nat option \<times> heap) option" where
  "heap_alloc h sz = heap_alloc_loop h (heap_head h) ((unat sz + HDR) mod 2 ^ 32)"

definition merge_next_block :: "hmem \<Rightarrow> nat \<Rightarrow> heap_block \<Rightarrow> (heap_block \<times> hmem) option" where
  "merge_next_block m p b =
     (case hb_next b of
        None \<Rightarrow> Some (b, m)
      | Some n \<Rightarrow> do {
          nb \<leftarrow> m n;
          if \<not> hb_alloc nb
          then let b' = b\<lparr>hb_size := (hb_size b + hb_size nb) mod 2 ^ 32, hb_next := hb_next nb\<rparr>
               in do {
                 m' \<leftarrow> set_prev (m(p \<mapsto> b')) (hb_next b') (Some p);
                 Some (b', m')
               }
          else Some (b, m)
        })"

definition merge_prev_block :: "hmem \<Rightarrow> heap_block \<Rightarrow> hmem option" where
  "merge_prev_block m b =
     (case hb_prev b of
        None \<Rightarrow> Some m
      | Some q \<Rightarrow> do {
          pb \<leftarrow> m q;
          if \<not> hb_alloc pb
          then set_prev
                 (m(q \<mapsto> pb\<lparr>hb_size := (hb_size pb + hb_size b) mod 2 ^ 32, hb_next := hb_next b\<rparr>))
                 (hb_next b) (Some q)
          else Some m
        })"

text \<open>\<open>get_header\<close> steps back over one header.\<close>

definition get_header :: "nat \<Rightarrow> nat" where
  "get_header ptr = ptr - HDR"

definition heap_free :: "heap \<Rightarrow> nat option \<Rightarrow> heap option" where
  "heap_free h ptr =
     (case ptr of
        None \<Rightarrow> Some h
      | Some a \<Rightarrow> do {
          let p = get_header a;
          b0 \<leftarrow> heap_mem h p;
          let b = b0\<lparr>hb_alloc := False\<rparr>;
          (b1, m1) \<leftarrow> merge_next_block ((heap_mem h)(p \<mapsto> b)) p b;
          m2 \<leftarrow> merge_prev_block m1 b1;
          Some (h\<lparr>heap_mem := m2\<rparr>)
        })"

section \<open>The abstract heap: a list of blocks\<close>

type_synonym blocks = "(nat \<times> bool) list"

text \<open>
  \<open>seg m pv cur off bs pv' cur'\<close>: from \<open>cur\<close>, at offset \<open>off\<close> and with previous block
  \<open>pv\<close>, the links of \<open>m\<close> run through exactly the blocks \<open>bs\<close>, and end with last block
  \<open>pv'\<close> and next pointer \<open>cur'\<close>.
\<close>

fun seg :: "hmem \<Rightarrow> nat option \<Rightarrow> nat option \<Rightarrow> nat \<Rightarrow> blocks \<Rightarrow> nat option \<Rightarrow> nat option \<Rightarrow> bool" where
  "seg m pv cur off [] pv' cur' \<longleftrightarrow> pv' = pv \<and> cur' = cur"
| "seg m pv cur off ((s, a) # bs) pv' cur' \<longleftrightarrow>
     cur = Some off \<and> HDR \<le> s \<and>
     (\<exists>nx. m off = Some \<lparr>hb_size = s, hb_alloc = a, hb_next = nx, hb_prev = pv\<rparr>
         \<and> seg m (Some off) nx (off + s) bs pv' cur')"

definition bytes_of :: "blocks \<Rightarrow> nat" where
  "bytes_of bs = sum_list (map fst bs)"

lemma bytes_of_simps [simp]:
  "bytes_of [] = 0" "bytes_of (b # bs) = fst b + bytes_of bs"
  "bytes_of (as @ bs) = bytes_of as + bytes_of bs"
  by (simp_all add: bytes_of_def)

definition heap_rep :: "heap \<Rightarrow> blocks \<Rightarrow> bool" where
  "heap_rep h bs \<longleftrightarrow>
     (\<exists>pv. seg (heap_mem h) None (heap_head h) 0 bs pv None) \<and> bytes_of bs = HEAP_SIZE"

text \<open>No two free blocks are neighbours.\<close>

fun coalesced :: "blocks \<Rightarrow> bool" where
  "coalesced ((_, a) # (s, b) # bs) \<longleftrightarrow> (a \<or> b) \<and> coalesced ((s, b) # bs)"
| "coalesced _ \<longleftrightarrow> True"

definition heap_inv :: "heap \<Rightarrow> bool" where
  "heap_inv h \<longleftrightarrow> (\<exists>bs. heap_rep h bs \<and> coalesced bs)"

fun alloc_list :: "nat \<Rightarrow> nat \<Rightarrow> blocks \<Rightarrow> nat option \<times> blocks" where
  "alloc_list t off [] = (None, [])"
| "alloc_list t off ((s, a) # bs) =
     (if \<not> a \<and> t \<le> s
      then (Some (off + HDR),
            if s > t + HDR then (t, True) # (s - t, False) # bs else (s, True) # bs)
      else let (r, bs') = alloc_list t (off + s) bs in (r, (s, a) # bs'))"

fun merge_fwd :: "nat \<Rightarrow> blocks \<Rightarrow> nat \<times> blocks" where
  "merge_fwd s ((s2, False) # bs) = (s + s2, bs)"
| "merge_fwd s bs = (s, bs)"

definition free_list :: "blocks \<Rightarrow> nat \<Rightarrow> blocks \<Rightarrow> blocks" where
  "free_list pre s post =
     (let (s', post') = merge_fwd s post in
      if pre \<noteq> [] \<and> \<not> snd (last pre)
      then butlast pre @ (fst (last pre) + s', False) # post'
      else pre @ (s', False) # post')"

text \<open>The allocated blocks: payload offset and payload capacity.\<close>

fun live_from :: "nat \<Rightarrow> blocks \<Rightarrow> (nat \<times> nat) list" where
  "live_from off [] = []"
| "live_from off ((s, a) # bs) =
     (if a then [(off + HDR, s - HDR)] else []) @ live_from (off + s) bs"

definition live :: "heap \<Rightarrow> (nat \<times> nat) set" where
  "live h = {x. \<exists>bs. heap_rep h bs \<and> x \<in> set (live_from 0 bs)}"

definition owned :: "heap \<Rightarrow> nat set" where
  "owned h = fst ` live h"

subsection \<open>Segments\<close>

lemma seg_append:
  "seg m pv cur off (as @ bs) pv' cur' \<longleftrightarrow>
     (\<exists>pv1 cur1. seg m pv cur off as pv1 cur1 \<and> seg m pv1 cur1 (off + bytes_of as) bs pv' cur')"
proof (induction as arbitrary: pv cur off)
  case Nil
  then show ?case by simp
next
  case (Cons x as)
  then show ?case by (cases x) (simp add: add.assoc, blast)
qed

lemma seg_cong:
  "(\<And>a. off \<le> a \<Longrightarrow> a < off + bytes_of bs \<Longrightarrow> m' a = m a) \<Longrightarrow>
     seg m' pv cur off bs pv' cur' = seg m pv cur off bs pv' cur'"
proof (induction bs arbitrary: pv cur off)
  case Nil
  then show ?case by simp
next
  case (Cons b bs)
  obtain s a where b: "b = (s, a)" by (cases b)
  show ?case
  proof (cases "HDR \<le> s")
    case True
    then have "m' off = m off" using Cons.prems b by (auto simp: HDR_def)
    moreover have "seg m' (Some off) nx (off + s) bs pv' cur' = seg m (Some off) nx (off + s) bs pv' cur'" for nx
      using Cons.prems b by (intro Cons.IH) auto
    ultimately show ?thesis by (simp add: b)
  next
    case False
    then show ?thesis by (simp add: b)
  qed
qed

lemma seg_upd:
  "a < off \<or> off + bytes_of bs \<le> a \<Longrightarrow>
     seg (m(a \<mapsto> b)) pv cur off bs pv' cur' = seg m pv cur off bs pv' cur'"
  by (rule seg_cong) auto

lemma seg_det:
  "seg m pv cur off bs pv1 None \<Longrightarrow> seg m pv cur off bs' pv2 None \<Longrightarrow> bs = bs'"
proof (induction bs arbitrary: pv cur off bs')
  case Nil
  then show ?case by (cases bs') auto
next
  case (Cons x bs)
  from Cons.prems obtain y ys where bs': "bs' = y # ys" by (cases x; cases bs') auto
  with Cons.prems have "x = y" by (cases x; cases y) auto
  then show ?case using Cons.prems Cons.IH [of "Some off"] by (cases x) (auto simp: bs')
qed

lemma heap_rep_unique: "heap_rep h bs \<Longrightarrow> heap_rep h bs' \<Longrightarrow> bs = bs'"
  by (auto simp: heap_rep_def intro: seg_det)

lemma live_eq: "heap_rep h bs \<Longrightarrow> live h = set (live_from 0 bs)"
  by (auto simp: live_def dest: heap_rep_unique)

lemma seg_sizes: "seg m pv cur off bs pv' cur' \<Longrightarrow> (s, a) \<in> set bs \<Longrightarrow> HDR \<le> s"
  by (induction bs arbitrary: pv cur off) auto

subsection \<open>\<open>heap_alloc\<close> implements \<open>alloc_list\<close>\<close>

lemma set_prev_seg:
  assumes "seg m pv cur off bs pv' None"
  shows "\<exists>m' pv''. set_prev m cur q = Some m' \<and> seg m' q cur off bs pv'' None
     \<and> (\<forall>a. a < off \<or> off + bytes_of bs \<le> a \<longrightarrow> m' a = m a)"
proof (cases bs)
  case Nil
  with assms show ?thesis by (simp add: set_prev_def)
next
  case (Cons b rest)
  obtain s a where b: "b = (s, a)" by (cases b)
  with Cons assms obtain nx where cur: "cur = Some off" and s: "HDR \<le> s"
    and m: "m off = Some \<lparr>hb_size = s, hb_alloc = a, hb_next = nx, hb_prev = pv\<rparr>"
    and rest: "seg m (Some off) nx (off + s) rest pv' None"
    by auto
  let ?m' = "m(off \<mapsto> \<lparr>hb_size = s, hb_alloc = a, hb_next = nx, hb_prev = q\<rparr>)"
  have "seg ?m' (Some off) nx (off + s) rest pv' None"
    using rest s by (subst seg_cong [of "off + s" rest ?m' m]) (auto simp: HDR_def)
  then show ?thesis
    using Cons b cur s m by (auto simp: set_prev_def HDR_def)
qed

lemma heap_take_seg:
  fixes s a nx pv
  defines "b \<equiv> \<lparr>hb_size = s, hb_alloc = a, hb_next = nx, hb_prev = pv\<rparr>"
  assumes s: "HDR \<le> s"
    and rest: "seg m (Some off) nx (off + s) bs pv' None"
    and t: "HDR \<le> t" "t \<le> s"
  shows "\<exists>m' pv''. heap_take m off b t = Some m'
     \<and> seg m' pv (Some off) off
         (if s > t + HDR then (t, True) # (s - t, False) # bs else (s, True) # bs) pv'' None
     \<and> (\<forall>a. a < off \<or> off + s + bytes_of bs \<le> a \<longrightarrow> m' a = m a)"
proof (cases "s > t + HDR")
  case False
  let ?m' = "m(off \<mapsto> b\<lparr>hb_alloc := True\<rparr>)"
  have "seg ?m' (Some off) (nx) (off + s) bs pv' None"
    using rest s by (subst seg_cong [of "off + s" bs ?m' m]) (auto simp: HDR_def)
  with False s show ?thesis by (auto simp: heap_take_def b_def HDR_def)
next
  case True
  let ?new = "off + t"
  let ?m1 = "m(?new \<mapsto> \<lparr>hb_size = s - t, hb_alloc = False, hb_next = nx, hb_prev = Some off\<rparr>)"
  have "seg ?m1 (Some off) (nx) (off + s) bs pv' None"
    using rest True by (simp add: seg_upd HDR_def)
  then obtain m2 pv2 where m2: "set_prev ?m1 (nx) (Some ?new) = Some m2"
    "seg m2 (Some ?new) (nx) (off + s) bs pv2 None"
    "\<forall>a. a < off + s \<or> off + s + bytes_of bs \<le> a \<longrightarrow> m2 a = ?m1 a"
    using set_prev_seg [of ?m1 "Some off" "nx" "off + s" bs pv' "Some ?new"] by auto
  let ?m3 = "m2(off \<mapsto> b\<lparr>hb_next := Some ?new, hb_size := t, hb_alloc := True\<rparr>)"
  have rest3: "seg ?m3 (Some ?new) (nx) (off + s) bs pv2 None"
    using m2(2) s by (simp add: seg_upd HDR_def)
  have "m2 ?new = ?m1 ?new" using m2(3) True by (simp add: HDR_def)
  then have "seg ?m3 pv (Some off) off ((t, True) # (s - t, False) # bs) pv2 None"
    using rest3 True t s by (auto simp: HDR_def b_def)
  moreover have "heap_take m off b t = Some ?m3"
    using True t m2(1) by (simp add: heap_take_def Let_def b_def)
  moreover have "\<forall>a. a < off \<or> off + s + bytes_of bs \<le> a \<longrightarrow> ?m3 a = m a"
    using m2(3) True s by (auto simp: HDR_def)
  ultimately show ?thesis
    using True by (intro exI [of _ ?m3] exI [of _ pv2] conjI) (simp_all only: if_True)
qed

lemma heap_alloc_loop_seg:
  assumes "seg (heap_mem h) pv cur off bs pv' None" and t: "HDR \<le> t"
  shows "\<exists>m' pv''. heap_alloc_loop h cur t = Some (fst (alloc_list t off bs), h\<lparr>heap_mem := m'\<rparr>)
     \<and> seg m' pv cur off (snd (alloc_list t off bs)) pv'' None
     \<and> (\<forall>a. a < off \<or> off + bytes_of bs \<le> a \<longrightarrow> m' a = heap_mem h a)"
  using assms(1)
proof (induction bs arbitrary: pv cur off)
  case Nil
  then show ?case by (auto simp: heap_alloc_loop.simps intro!: exI [of _ "heap_mem h"])
next
  case (Cons x bs)
  obtain s a where x: "x = (s, a)" by (cases x)
  with Cons.prems obtain nx where cur: "cur = Some off" and s: "HDR \<le> s"
    and m: "heap_mem h off = Some \<lparr>hb_size = s, hb_alloc = a, hb_next = nx, hb_prev = pv\<rparr>"
    and rest: "seg (heap_mem h) (Some off) nx (off + s) bs pv' None"
    by auto
  show ?case
  proof (cases "\<not> a \<and> t \<le> s")
    case True
    obtain m' pv'' where
      "heap_take (heap_mem h) off \<lparr>hb_size = s, hb_alloc = a, hb_next = nx, hb_prev = pv\<rparr> t = Some m'"
      "seg m' pv (Some off) off
         (if s > t + HDR then (t, True) # (s - t, False) # bs else (s, True) # bs) pv'' None"
      "\<forall>a. a < off \<or> off + s + bytes_of bs \<le> a \<longrightarrow> m' a = heap_mem h a"
      using heap_take_seg [OF s rest t, of a pv] True by auto
    with True x cur m show ?thesis
      by (subst heap_alloc_loop.simps) (auto simp: add.assoc split del: if_split)
  next
    case False
    obtain m' pv'' where IH:
      "heap_alloc_loop h nx t = Some (fst (alloc_list t (off + s) bs), h\<lparr>heap_mem := m'\<rparr>)"
      "seg m' (Some off) nx (off + s) (snd (alloc_list t (off + s) bs)) pv'' None"
      "\<forall>a. a < off + s \<or> off + s + bytes_of bs \<le> a \<longrightarrow> m' a = heap_mem h a"
      using Cons.IH [OF rest] by auto
    have "m' off = heap_mem h off" using IH(3) s by (simp add: HDR_def)
    moreover have "heap_alloc_loop h cur t = heap_alloc_loop h nx t"
      using False cur m by (subst heap_alloc_loop.simps) auto
    ultimately show ?thesis
      using False x cur m s IH by (auto simp: split_beta intro!: exI [of _ m'])
  qed
qed

lemma bytes_alloc_list: "bytes_of (snd (alloc_list t off bs)) = bytes_of bs"
  by (induction bs arbitrary: off) (auto simp: split_beta)

text \<open>A failing allocation leaves the heap as it is.\<close>

lemma heap_alloc_loop_None:
  "seg (heap_mem h) pv cur off bs pv' None \<Longrightarrow> fst (alloc_list t off bs) = None \<Longrightarrow>
     heap_alloc_loop h cur t = Some (None, h)"
proof (induction bs arbitrary: pv cur off)
  case Nil
  then show ?case by (simp add: heap_alloc_loop.simps)
next
  case (Cons x bs)
  obtain s a where x: "x = (s, a)" by (cases x)
  with Cons.prems have no: "\<not> (\<not> a \<and> t \<le> s)" and "fst (alloc_list t (off + s) bs) = None"
    by (auto simp: split_beta split: if_splits)
  with Cons x no show ?case
    by (subst heap_alloc_loop.simps) (auto simp del: alloc_list.simps)
qed

text \<open>The size the code computes, when it does not wrap.\<close>

definition fits :: "u32 \<Rightarrow> bool" where
  "fits sz \<longleftrightarrow> unat sz + HDR < 2 ^ 32"

lemma heap_alloc_rep:
  assumes rep: "heap_rep h bs" and f: "fits sz"
  obtains h' where "heap_alloc h sz = Some (fst (alloc_list (unat sz + HDR) 0 bs), h')"
    and "heap_rep h' (snd (alloc_list (unat sz + HDR) 0 bs))"
proof -
  from rep obtain pv where "seg (heap_mem h) None (heap_head h) 0 bs pv None"
    and sz: "bytes_of bs = HEAP_SIZE"
    by (auto simp: heap_rep_def)
  from heap_alloc_loop_seg [OF this(1), of "unat sz + HDR"] obtain m' pv'' where
    1: "heap_alloc_loop h (heap_head h) (unat sz + HDR)
      = Some (fst (alloc_list (unat sz + HDR) 0 bs), h\<lparr>heap_mem := m'\<rparr>)" and
    2: "seg m' None (heap_head h) 0 (snd (alloc_list (unat sz + HDR) 0 bs)) pv'' None"
    by (auto simp: HDR_def)
  have m: "(unat sz + HDR) mod 2 ^ 32 = unat sz + HDR"
    using f by (simp add: fits_def)
  have "heap_alloc h sz = Some (fst (alloc_list (unat sz + HDR) 0 bs), h\<lparr>heap_mem := m'\<rparr>)"
    unfolding heap_alloc_def m by (rule 1)
  moreover have "heap_rep (h\<lparr>heap_mem := m'\<rparr>) (snd (alloc_list (unat sz + HDR) 0 bs))"
    unfolding heap_rep_def using 2 sz by (auto simp: bytes_alloc_list)
  ultimately show ?thesis by (rule that)
qed

lemma heap_alloc_fails:
  assumes "heap_rep h bs" "fits sz" "fst (alloc_list (unat sz + HDR) 0 bs) = None"
  shows "heap_alloc h sz = Some (None, h)"
  using assms heap_alloc_loop_None [of h None "heap_head h" 0 bs]
  by (auto simp: heap_rep_def heap_alloc_def fits_def)

lemma coalesced_Cons:
  "coalesced (x # bs) \<longleftrightarrow> (bs = [] \<or> snd x \<or> snd (hd bs)) \<and> coalesced bs"
  by (cases x; cases bs) auto

lemma alloc_list_hd:
  "bs \<noteq> [] \<Longrightarrow> snd (alloc_list t off bs) \<noteq> [] \<and> (snd (hd bs) \<longrightarrow> snd (hd (snd (alloc_list t off bs))))"
  by (cases bs) (auto simp: split_beta split: if_splits)

lemma coalesced_alloc_list: "coalesced bs \<Longrightarrow> coalesced (snd (alloc_list t off bs))"
proof (induction bs arbitrary: off)
  case Nil
  then show ?case by simp
next
  case (Cons x bs)
  obtain s a where x: "x = (s, a)" by (cases x)
  from Cons have "coalesced (snd (alloc_list t (off + s) bs))" and "coalesced bs"
    by (auto simp: coalesced_Cons)
  moreover have "bs = [] \<longrightarrow> snd (alloc_list t (off + s) bs) = []" by simp
  ultimately show ?case
    using Cons.prems x alloc_list_hd [of bs t "off + s"]
    by (cases "bs = []") (auto simp: coalesced_Cons split_beta)
qed

subsection \<open>\<open>heap_free\<close> implements \<open>free_list\<close>\<close>

lemma merge_fwd_bytes: "fst (merge_fwd s bs) + bytes_of (snd (merge_fwd s bs)) = s + bytes_of bs"
  by (cases "(s, bs)" rule: merge_fwd.cases) auto

lemma merge_fwd_le: "s \<le> fst (merge_fwd s bs)"
  by (cases "(s, bs)" rule: merge_fwd.cases) auto

lemma merge_next_seg:
  fixes s nx pv
  defines "b \<equiv> \<lparr>hb_size = s, hb_alloc = False, hb_next = nx, hb_prev = pv\<rparr>"
  assumes m: "m off = Some b" and s: "HDR \<le> s"
    and rest: "seg m (Some off) nx (off + s) post pv' None"
    and small: "s + bytes_of post < 2 ^ 32"
  shows "\<exists>m' nx' pv''. merge_next_block m off b = Some
       (\<lparr>hb_size = fst (merge_fwd s post), hb_alloc = False, hb_next = nx', hb_prev = pv\<rparr>, m')
     \<and> m' off = Some \<lparr>hb_size = fst (merge_fwd s post), hb_alloc = False, hb_next = nx', hb_prev = pv\<rparr>
     \<and> seg m' (Some off) nx' (off + fst (merge_fwd s post)) (snd (merge_fwd s post)) pv'' None
     \<and> (\<forall>a<off. m' a = m a)"
proof (cases "\<exists>s2 rest. post = (s2, False) # rest")
  case False
  then have "merge_fwd s post = (s, post)" by (cases "(s, post)" rule: merge_fwd.cases) auto
  moreover have "merge_next_block m off b = Some (b, m)"
    using False rest by (cases post) (auto simp: merge_next_block_def b_def)
  ultimately show ?thesis using m rest by (auto simp: b_def)
next
  case True
  then obtain s2 r where post: "post = (s2, False) # r" by auto
  with rest obtain nx2 where nx: "nx = Some (off + s)" and s2: "HDR \<le> s2"
    and m2: "m (off + s) = Some \<lparr>hb_size = s2, hb_alloc = False, hb_next = nx2, hb_prev = Some off\<rparr>"
    and r: "seg m (Some (off + s)) nx2 (off + s + s2) r pv' None" by auto
  let ?b = "\<lparr>hb_size = s + s2, hb_alloc = False, hb_next = nx2, hb_prev = pv\<rparr>"
  let ?m = "m(off \<mapsto> ?b)"
  have "seg ?m (Some (off + s)) nx2 (off + s + s2) r pv' None"
    using r s by (simp add: seg_upd HDR_def)
  then obtain m' pv'' where m': "set_prev ?m nx2 (Some off) = Some m'"
    "seg m' (Some off) nx2 (off + s + s2) r pv'' None"
    "\<forall>a. a < off + s + s2 \<or> off + s + s2 + bytes_of r \<le> a \<longrightarrow> m' a = ?m a"
    using set_prev_seg by blast
  have "(s + s2) mod 2 ^ 32 = s + s2" using small post by simp
  then have "merge_next_block m off b = Some (?b, m')"
    using nx m2 m' by (simp add: merge_next_block_def b_def)
  moreover have "m' off = Some ?b" "\<forall>a<off. m' a = m a" using m'(3) s by (auto simp: HDR_def)
  ultimately show ?thesis using m'(2) post by (auto simp: add.assoc)
qed

lemma merge_prev_seg:
  fixes s nx pv
  defines "b \<equiv> \<lparr>hb_size = s, hb_alloc = False, hb_next = nx, hb_prev = pv\<rparr>"
  assumes pre: "seg m None hd0 0 pre pv (Some off)"
    and off: "off = bytes_of pre" and s: "HDR \<le> s" and m: "m off = Some b"
    and rest: "seg m (Some off) nx (off + s) post pv' None"
    and small: "bytes_of pre + s < 2 ^ 32"
  shows "\<exists>m' pv''. merge_prev_block m b = Some m' \<and> seg m' None hd0 0
       (if pre \<noteq> [] \<and> \<not> snd (last pre) then butlast pre @ (fst (last pre) + s, False) # post
        else pre @ (s, False) # post) pv'' None"
proof (cases "pre \<noteq> [] \<and> \<not> snd (last pre)")
  case False
  have "seg m None hd0 0 (pre @ (s, False) # post) pv' None"
    using pre rest m s off by (auto simp: seg_append b_def)
  moreover have "merge_prev_block m b = Some m"
  proof (cases pre rule: rev_cases)
    case Nil
    with pre show ?thesis by (simp add: merge_prev_block_def b_def)
  next
    case (snoc ys y)
    with pre False show ?thesis by (cases y) (auto simp: seg_append merge_prev_block_def b_def)
  qed
  ultimately show ?thesis by (auto simp only: False if_False)
next
  case True
  then have "pre = butlast pre @ [(fst (last pre), False)]"
    by (metis (full_types) append_butlast_last_id prod.collapse)
  then obtain ys sq where ys: "pre = ys @ [(sq, False)]"
    by blast
  let ?q = "bytes_of ys"
  from pre ys obtain pq where q: "seg m None hd0 0 ys pq (Some ?q)" and sq: "HDR \<le> sq"
    and pv: "pv = Some ?q"
    and mq: "m ?q = Some \<lparr>hb_size = sq, hb_alloc = False, hb_next = Some off, hb_prev = pq\<rparr>"
    by (auto simp: seg_append)
  have offq: "off = ?q + sq" using off ys by simp
  let ?m = "m(?q \<mapsto> \<lparr>hb_size = sq + s, hb_alloc = False, hb_next = nx, hb_prev = pq\<rparr>)"
  have "seg ?m (Some off) nx (off + s) post pv' None"
    using rest offq s by (simp add: seg_upd HDR_def)
  then obtain m' pv'' where m': "set_prev ?m nx (Some ?q) = Some m'"
    "seg m' (Some ?q) nx (off + s) post pv'' None"
    "\<forall>a. a < off + s \<or> off + s + bytes_of post \<le> a \<longrightarrow> m' a = ?m a"
    using set_prev_seg by blast
  have "(sq + s) mod 2 ^ 32 = sq + s" using small ys by simp
  then have "merge_prev_block m b = Some m'"
    using m' pv mq by (simp add: merge_prev_block_def b_def)
  moreover have "seg m' None hd0 0 ys pq (Some ?q)"
    using q m'(3) offq by (subst seg_cong [of 0 ys m' m]) auto
  moreover have "m' ?q = Some \<lparr>hb_size = sq + s, hb_alloc = False, hb_next = nx, hb_prev = pq\<rparr>"
    using m'(3) offq s by (auto simp: HDR_def)
  ultimately show ?thesis
    using m'(2) offq ys sq by (auto simp: seg_append add.assoc)
qed

lemma heap_free_rep:
  assumes rep: "heap_rep h (pre @ (s, a) # post)"
  obtains h' where "heap_free h (Some (bytes_of pre + HDR)) = Some h'"
    and "heap_rep h' (free_list pre s post)"
proof -
  let ?off = "bytes_of pre" and ?m = "heap_mem h"
  from rep obtain pv0 nx pv where pre: "seg ?m None (heap_head h) 0 pre pv (Some ?off)"
    and s: "HDR \<le> s"
    and moff: "?m ?off = Some \<lparr>hb_size = s, hb_alloc = a, hb_next = nx, hb_prev = pv\<rparr>"
    and rest: "seg ?m (Some ?off) nx (?off + s) post pv0 None"
    and tot: "bytes_of pre + s + bytes_of post = HEAP_SIZE"
    by (auto simp: heap_rep_def seg_append)
  let ?b = "\<lparr>hb_size = s, hb_alloc = False, hb_next = nx, hb_prev = pv\<rparr>"
  let ?m0 = "?m(?off \<mapsto> ?b)"
  have rest0: "seg ?m0 (Some ?off) nx (?off + s) post pv0 None"
    using rest s by (simp add: seg_upd HDR_def)
  let ?s = "fst (merge_fwd s post)" and ?post = "snd (merge_fwd s post)"
  have small: "s + bytes_of post < 2 ^ 32" using tot by (simp add: HEAP_SIZE_def)
  obtain m1 nx1 pv1 where
    m1: "merge_next_block ?m0 ?off ?b = Some (\<lparr>hb_size = ?s, hb_alloc = False, hb_next = nx1, hb_prev = pv\<rparr>, m1)"
      "m1 ?off = Some \<lparr>hb_size = ?s, hb_alloc = False, hb_next = nx1, hb_prev = pv\<rparr>"
      "seg m1 (Some ?off) nx1 (?off + ?s) ?post pv1 None"
      "\<forall>a<?off. m1 a = ?m0 a"
    using merge_next_seg [of ?m0 ?off s nx pv, OF _ s rest0 small] by auto
  have pre1: "seg m1 None (heap_head h) 0 pre pv (Some ?off)"
  proof -
    have "seg m1 None (heap_head h) 0 pre pv (Some ?off) = seg ?m0 None (heap_head h) 0 pre pv (Some ?off)"
      using m1(4) by (intro seg_cong) simp
    with pre show ?thesis by (simp add: seg_upd)
  qed
  have s1: "HDR \<le> ?s" using s merge_fwd_le [of s post] by simp
  have small1: "?off + ?s < 2 ^ 32"
    using merge_fwd_bytes [of s post] tot by (simp add: HEAP_SIZE_def)
  obtain m2 pv2 where m2: "merge_prev_block m1 \<lparr>hb_size = ?s, hb_alloc = False, hb_next = nx1, hb_prev = pv\<rparr> = Some m2"
      "seg m2 None (heap_head h) 0 (free_list pre s post) pv2 None"
    using merge_prev_seg [OF pre1 refl s1 m1(2) m1(3) small1]
    by (auto simp: free_list_def split_beta split del: if_split)
  have "heap_free h (Some (bytes_of pre + HDR)) = Some (h\<lparr>heap_mem := m2\<rparr>)"
    using moff m1(1) m2(1) by (simp add: heap_free_def get_header_def HDR_def)
  moreover have "bytes_of (free_list pre s post) = HEAP_SIZE"
    using tot merge_fwd_bytes [of s post]
    by (cases pre rule: rev_cases) (auto simp: free_list_def split_beta)
  with m2(2) have "heap_rep (h\<lparr>heap_mem := m2\<rparr>) (free_list pre s post)"
    by (auto simp: heap_rep_def)
  ultimately show ?thesis by (rule that)
qed

lemma coalesced_append:
  "coalesced (as @ bs) \<longleftrightarrow> coalesced as \<and> coalesced bs
     \<and> (as = [] \<or> bs = [] \<or> snd (last as) \<or> snd (hd bs))"
  by (induction as) (auto simp: coalesced_Cons)

lemma coalesced_butlast: "coalesced as \<Longrightarrow> coalesced (butlast as)"
  by (cases as rule: rev_cases) (auto simp: coalesced_append)

lemma coalesced_merge_fwd:
  "coalesced post \<Longrightarrow> coalesced ((x, False) # snd (merge_fwd s post))"
  by (cases "(s, post)" rule: merge_fwd.cases) (auto simp: coalesced_Cons)

lemma coalesced_free_list:
  assumes "coalesced (pre @ (s, True) # post)"
  shows "coalesced (free_list pre s post)"
proof -
  have "coalesced pre" "coalesced post"
    using assms by (auto simp: coalesced_append coalesced_Cons)
  moreover have "coalesced (butlast pre @ (x, False) # ys)"
    if "coalesced ((x, False) # ys)" "pre \<noteq> []" "\<not> snd (last pre)" for x ys
  proof -
    obtain zs z where pre: "pre = zs @ [z]" using \<open>pre \<noteq> []\<close> by (cases pre rule: rev_cases) auto
    with \<open>coalesced pre\<close> that show ?thesis by (auto simp: coalesced_append)
  qed
  ultimately show ?thesis
    by (auto simp: free_list_def split_beta coalesced_append intro: coalesced_merge_fwd)
qed

subsection \<open>The live blocks\<close>

definition sized :: "blocks \<Rightarrow> bool" where
  "sized bs \<longleftrightarrow> (\<forall>b \<in> set bs. HDR \<le> fst b)"

lemma heap_rep_sized: "heap_rep h bs \<Longrightarrow> sized bs"
  by (auto simp: heap_rep_def sized_def dest: seg_sizes)

lemma live_from_append:
  "live_from off (as @ bs) = live_from off as @ live_from (off + bytes_of as) bs"
  by (induction as arbitrary: off) (auto simp: add.assoc)

lemma live_from_bounds:
  "sized bs \<Longrightarrow> (p, n) \<in> set (live_from off bs) \<Longrightarrow> off + HDR \<le> p \<and> p + n \<le> off + bytes_of bs"
  by (induction bs arbitrary: off) (fastforce simp: sized_def split: if_splits)+

lemma live_from_disjoint:
  "sized bs \<Longrightarrow> (p, n) \<in> set (live_from off bs) \<Longrightarrow> (q, k) \<in> set (live_from off bs) \<Longrightarrow>
     (p, n) = (q, k) \<or> p + n + HDR \<le> q \<or> q + k + HDR \<le> p"
proof (induction bs arbitrary: off)
  case Nil
  then show ?case by simp
next
  case (Cons x bs)
  obtain s a where x: "x = (s, a)" by (cases x)
  have sz: "sized bs" "HDR \<le> s" using Cons.prems x by (auto simp: sized_def)
  have b: "off + s + HDR \<le> r" if "(r, l) \<in> set (live_from (off + s) bs)" for r l
    using live_from_bounds [OF sz(1) that] by simp
  show ?case
    using Cons.prems(2,3) Cons.IH [OF sz(1), of "off + s"] b [of p n] b [of q k] sz(2) x
    by (auto split: if_splits)
qed

lemma live_from_split:
  "sized bs \<Longrightarrow> (p, n) \<in> set (live_from off bs) \<Longrightarrow>
     \<exists>pre post. bs = pre @ (n + HDR, True) # post \<and> p = off + bytes_of pre + HDR"
proof (induction bs arbitrary: off)
  case Nil
  then show ?case by simp
next
  case (Cons x bs)
  obtain s a where x: "x = (s, a)" by (cases x)
  have sz: "sized bs" "HDR \<le> s" using Cons.prems x by (auto simp: sized_def)
  show ?case
  proof (cases "a \<and> p = off + HDR \<and> n = s - HDR")
    case True
    with x sz show ?thesis by (intro exI [of _ "[]"] exI [of _ bs]) simp
  next
    case False
    with Cons.prems x have "(p, n) \<in> set (live_from (off + s) bs)" by (auto split: if_splits)
    from Cons.IH [OF sz(1) this] obtain pre post where
      "bs = pre @ (n + HDR, True) # post" "p = off + s + bytes_of pre + HDR" by auto
    with x show ?thesis by (intro exI [of _ "x # pre"] exI [of _ post]) auto
  qed
qed

lemma alloc_list_None: "fst (alloc_list t off bs) = None \<Longrightarrow> snd (alloc_list t off bs) = bs"
  by (induction bs arbitrary: off) (auto simp: split_beta split: if_splits)

lemma alloc_list_sized: "sized bs \<Longrightarrow> HDR \<le> t \<Longrightarrow> sized (snd (alloc_list t off bs))"
proof (induction bs arbitrary: off)
  case (Cons x bs)
  then have "sized (snd (alloc_list t (off + fst x) bs))" by (auto simp: sized_def)
  with Cons.prems show ?case by (cases x) (auto simp: sized_def split_beta)
qed (simp add: sized_def)

lemma alloc_list_Some:
  "sized bs \<Longrightarrow> HDR \<le> t \<Longrightarrow> fst (alloc_list t off bs) = Some p \<Longrightarrow>
     \<exists>n. t - HDR \<le> n \<and> p \<notin> fst ` set (live_from off bs)
       \<and> set (live_from off (snd (alloc_list t off bs))) = insert (p, n) (set (live_from off bs))"
proof (induction bs arbitrary: off)
  case Nil
  then show ?case by simp
next
  case (Cons x bs)
  obtain s a where x: "x = (s, a)" by (cases x)
  have sz: "sized bs" "HDR \<le> s" using Cons.prems x by (auto simp: sized_def)
  show ?case
  proof (cases "\<not> a \<and> t \<le> s")
    case True
    have "off + HDR \<notin> fst ` set (live_from (off + s) bs)"
      using sz live_from_bounds [OF sz(1), of _ _ "off + s"] by (force simp: HDR_def)
    with True Cons.prems x show ?thesis
      by (intro exI [of _ "(if s > t + HDR then t else s) - HDR"]) auto
  next
    case False
    with Cons.prems x have "fst (alloc_list t (off + s) bs) = Some p" by (auto simp: split_beta)
    from Cons.IH [OF sz(1) Cons.prems(2) this] obtain n where
      n: "t - HDR \<le> n" "p \<notin> fst ` set (live_from (off + s) bs)"
        "set (live_from (off + s) (snd (alloc_list t (off + s) bs))) = insert (p, n) (set (live_from (off + s) bs))"
      by blast
    have "snd (alloc_list t off (x # bs)) = x # snd (alloc_list t (off + s) bs)"
      using False x by (auto simp: split_beta)
    moreover have "sized (snd (alloc_list t (off + s) bs)) \<Longrightarrow> off + s + HDR \<le> p"
      using live_from_bounds [of "snd (alloc_list t (off + s) bs)" p n "off + s"] n(3) by auto
    moreover have "sized (snd (alloc_list t (off + s) bs))"
      using sz(1) Cons.prems(2) by (rule alloc_list_sized)
    ultimately show ?thesis
      using n x sz by (intro exI [of _ n]) (auto simp: HDR_def)
  qed
qed

lemma live_from_free_list:
  "set (live_from 0 (free_list pre s post))
     = set (live_from 0 pre) \<union> set (live_from (bytes_of pre + s) post)"
proof -
  have fwd: "live_from (o' + fst (merge_fwd s post)) (snd (merge_fwd s post)) = live_from (o' + s) post"
    for o'
    by (cases "(s, post)" rule: merge_fwd.cases) (auto simp: add.assoc)
  have fwd2: "live_from (x + (y + fst (merge_fwd s post))) (snd (merge_fwd s post))
      = live_from (x + (y + s)) post" for x y
    using fwd [of "x + y"] by (simp add: add.assoc)
  show ?thesis
    by (cases pre rule: rev_cases)
      (auto simp: free_list_def split_beta live_from_append add.assoc fwd [simplified] fwd2
        fwd [of 0, simplified])
qed

section \<open>What clients rely on\<close>

text \<open>
  \<open>live h\<close> is the set of allocated blocks, each with its address and capacity. A client
  may count on: an allocation returns fresh memory of at least the requested size or leaves
  the heap alone; freeing a live block removes exactly it; live blocks, with the \<open>hdr\<close> bytes
  in front of each, never overlap and stay below \<open>lim\<close>.
\<close>

locale allocator =
  fixes wf :: "'h \<Rightarrow> bool"
    and blocks_of :: "'h \<Rightarrow> (nat \<times> nat) set"
    and hdr :: nat and lim :: nat
    and malloc :: "'h \<Rightarrow> u32 \<Rightarrow> (nat option \<times> 'h) option"
    and free :: "'h \<Rightarrow> nat option \<Rightarrow> 'h option"
  assumes malloc_ok: "wf h \<Longrightarrow> fits sz \<Longrightarrow> \<exists>r h'. malloc h sz = Some (r, h') \<and> wf h'"
    and malloc_None: "wf h \<Longrightarrow> fits sz \<Longrightarrow> malloc h sz = Some (None, h') \<Longrightarrow> h' = h"
    and malloc_Some: "wf h \<Longrightarrow> fits sz \<Longrightarrow> malloc h sz = Some (Some p, h') \<Longrightarrow>
      \<exists>n. unat sz \<le> n \<and> p \<notin> fst ` blocks_of h \<and> blocks_of h' = insert (p, n) (blocks_of h)"
    and free_ok: "wf h \<Longrightarrow> (p, n) \<in> blocks_of h \<Longrightarrow>
      \<exists>h'. free h (Some p) = Some h' \<and> wf h' \<and> blocks_of h' = blocks_of h - {(p, n)}"
    and free_null: "free h None = Some h"
    and disjoint: "wf h \<Longrightarrow> (p, n) \<in> blocks_of h \<Longrightarrow> (q, k) \<in> blocks_of h \<Longrightarrow>
      (p, n) = (q, k) \<or> p + n + hdr \<le> q \<or> q + k + hdr \<le> p"
    and inside: "wf h \<Longrightarrow> (p, n) \<in> blocks_of h \<Longrightarrow> hdr \<le> p \<and> p + n \<le> lim"
    and hdr_pos: "0 < hdr"
begin

definition addrs :: "'h \<Rightarrow> nat set" where
  "addrs h = fst ` blocks_of h"

lemma malloc_cases:
  assumes "wf h" "fits sz"
  obtains "malloc h sz = Some (None, h)"
  | p n h' where "malloc h sz = Some (Some p, h')" "wf h'" "unat sz \<le> n" "p \<notin> addrs h"
      "blocks_of h' = insert (p, n) (blocks_of h)"
proof -
  obtain r h' where r: "malloc h sz = Some (r, h')" "wf h'"
    using malloc_ok [OF assms] by blast
  show ?thesis
  proof (cases r)
    case None
    then show ?thesis using that(1) r malloc_None [OF assms] by auto
  next
    case (Some p)
    then show ?thesis using that(2) r malloc_Some [OF assms] unfolding addrs_def by blast
  qed
qed

lemma free_addrs:
  assumes "wf h" "p \<in> addrs h"
  shows "\<exists>h'. free h (Some p) = Some h' \<and> wf h' \<and> addrs h' = addrs h - {p}"
proof -
  from assms obtain n where n: "(p, n) \<in> blocks_of h" by (auto simp: addrs_def)
  have uniq: "(p, m) \<in> blocks_of h \<Longrightarrow> m = n" for m
    using disjoint [OF assms(1) n, of p m] hdr_pos by auto
  obtain h' where "free h (Some p) = Some h'" "wf h'" "blocks_of h' = blocks_of h - {(p, n)}"
    using free_ok [OF assms(1) n] by blast
  moreover have "fst ` (blocks_of h - {(p, n)}) = fst ` blocks_of h - {p}"
    by (auto dest: uniq)
  ultimately show ?thesis by (auto simp: addrs_def)
qed

text \<open>What is allocated and freed again leaves the live blocks as they were.\<close>

lemma malloc_free:
  assumes "wf h" "fits sz" "malloc h sz = Some (Some p, h')"
  shows "\<exists>h''. free h' (Some p) = Some h'' \<and> wf h'' \<and> blocks_of h'' = blocks_of h"
proof -
  obtain n where n: "p \<notin> fst ` blocks_of h" "blocks_of h' = insert (p, n) (blocks_of h)"
    using malloc_Some [OF assms] by blast
  have "wf h'" using malloc_ok [OF assms(1,2)] assms(3) by auto
  moreover have "(p, n) \<notin> blocks_of h" using n(1) by (auto simp: image_iff)
  ultimately show ?thesis using n free_ok [of h' p n] by auto
qed

text \<open>At most \<open>lim div (hdr + k)\<close> blocks of capacity at least \<open>k\<close> are live at a time.\<close>

lemma live_count:
  assumes wf: "wf h" and B: "B \<subseteq> blocks_of h" "finite B" and k: "\<forall>(p, n) \<in> B. k \<le> n"
  shows "card B * (hdr + k) \<le> lim"
proof -
  let ?I = "\<lambda>(p, n). {p - hdr..<p + k}"
  have k': "(p, n) \<in> B \<Longrightarrow> k \<le> n" for p n using k by auto
  have dis: "disjoint_family_on ?I B" unfolding disjoint_family_on_def
  proof (intro ballI impI)
    fix x y assume xy: "x \<in> B" "y \<in> B" "x \<noteq> y"
    obtain p n q m where x: "x = (p, n)" "y = (q, m)" by (cases x, cases y)
    have "p + n + hdr \<le> q \<or> q + m + hdr \<le> p"
      using disjoint [OF wf, of p n q m] xy x B(1) by auto
    moreover have "hdr \<le> p" "hdr \<le> q" using inside [OF wf] xy x B(1) by auto
    ultimately show "?I x \<inter> ?I y = {}" using k' xy x by fastforce
  qed
  have "card (?I x) = hdr + k" if "x \<in> B" for x
    using that inside [OF wf] B(1) by (cases x) (force simp: card_atLeastLessThan)
  then have "card B * (hdr + k) = (\<Sum>x\<in>B. card (?I x))" by simp
  also have "\<dots> = card (\<Union>x\<in>B. ?I x)"
    using dis by (intro card_UN_disjoint [symmetric] B) (auto simp: disjoint_family_on_def)
  also have "\<dots> \<le> card {..<lim}"
    using inside [OF wf] k' B(1) by (intro card_mono) (fastforce)+
  finally show ?thesis by simp
qed

end

lemma heap_inv_live: "heap_inv h \<Longrightarrow> \<exists>bs. heap_rep h bs \<and> coalesced bs \<and> live h = set (live_from 0 bs)"
  by (auto simp: heap_inv_def live_eq)

lemma heap_alloc_inv:
  assumes "heap_inv h" "fits sz"
  obtains r h' bs where "heap_alloc h sz = Some (r, h')" "heap_inv h'" "heap_rep h bs" "coalesced bs"
    "r = fst (alloc_list (unat sz + HDR) 0 bs)" "heap_rep h' (snd (alloc_list (unat sz + HDR) 0 bs))"
proof -
  obtain bs where bs: "heap_rep h bs" "coalesced bs" using assms(1) by (auto simp: heap_inv_def)
  from heap_alloc_rep [OF bs(1) assms(2)] obtain h' where
    h': "heap_alloc h sz = Some (fst (alloc_list (unat sz + HDR) 0 bs), h')"
      "heap_rep h' (snd (alloc_list (unat sz + HDR) 0 bs))" by blast
  have "heap_inv h'" using h'(2) coalesced_alloc_list [OF bs(2)] by (auto simp: heap_inv_def)
  then show ?thesis using that h' bs by blast
qed

lemma heap_free_live:
  assumes "heap_inv h" "(p, n) \<in> live h"
  shows "\<exists>h'. heap_free h (Some p) = Some h' \<and> heap_inv h' \<and> live h' = live h - {(p, n)}"
proof -
  obtain bs where bs: "heap_rep h bs" "coalesced bs" "live h = set (live_from 0 bs)"
    using assms(1) heap_inv_live by blast
  have sz: "sized bs" using bs(1) by (rule heap_rep_sized)
  obtain pre post where split: "bs = pre @ (n + HDR, True) # post" "p = 0 + bytes_of pre + HDR"
    using live_from_split [OF sz, of p n 0] assms(2) bs(3) by blast
  from bs(1) [unfolded split(1)] obtain h' where h': "heap_free h (Some p) = Some h'"
    "heap_rep h' (free_list pre (n + HDR) post)"
    using heap_free_rep split(2) by (metis add_0)
  have "heap_inv h'"
    using h'(2) coalesced_free_list [OF bs(2) [unfolded split(1)]] by (auto simp: heap_inv_def)
  moreover have "live h' = live h - {(p, n)}"
  proof -
    have "(p, n) \<notin> set (live_from 0 pre) \<union> set (live_from (bytes_of pre + (n + HDR)) post)"
      using live_from_bounds [of pre p n 0] live_from_bounds [of post p n "bytes_of pre + (n + HDR)"]
        sz split by (auto simp: sized_def HDR_def)
    then show ?thesis
      using live_eq [OF h'(2)] bs(3) split
      by (auto simp: live_from_free_list live_from_append)
  qed
  ultimately show ?thesis using h'(1) by blast
qed

interpretation hp: allocator heap_inv live HDR HEAP_SIZE heap_alloc heap_free
proof
  fix h h' :: heap and sz :: u32 and p n q k :: nat
  show "heap_inv h \<Longrightarrow> fits sz \<Longrightarrow> \<exists>r h'. heap_alloc h sz = Some (r, h') \<and> heap_inv h'"
    by (erule (1) heap_alloc_inv) blast
  show "heap_inv h \<Longrightarrow> fits sz \<Longrightarrow> heap_alloc h sz = Some (None, h') \<Longrightarrow> h' = h"
    by (erule (1) heap_alloc_inv) (auto dest: heap_alloc_fails)
  show "heap_inv h \<Longrightarrow> fits sz \<Longrightarrow> heap_alloc h sz = Some (Some p, h') \<Longrightarrow>
      \<exists>n. unat sz \<le> n \<and> p \<notin> fst ` live h \<and> live h' = insert (p, n) (live h)"
    by (erule (1) heap_alloc_inv)
      (frule alloc_list_Some [OF heap_rep_sized, of _ _ "unat sz + HDR" 0 p], auto simp: live_eq)
  show "heap_inv h \<Longrightarrow> (p, n) \<in> live h \<Longrightarrow>
      \<exists>h'. heap_free h (Some p) = Some h' \<and> heap_inv h' \<and> live h' = live h - {(p, n)}"
    by (rule heap_free_live)
  show "heap_free h None = Some h" by (simp add: heap_free_def)
  show "heap_inv h \<Longrightarrow> (p, n) \<in> live h \<Longrightarrow> (q, k) \<in> live h \<Longrightarrow>
      (p, n) = (q, k) \<or> p + n + HDR \<le> q \<or> q + k + HDR \<le> p"
    using heap_inv_live heap_rep_sized live_from_disjoint by metis
  show "heap_inv h \<Longrightarrow> (p, n) \<in> live h \<Longrightarrow> HDR \<le> p \<and> p + n \<le> HEAP_SIZE"
    using heap_inv_live live_from_bounds [OF heap_rep_sized, of h _ p n 0]
    by (fastforce simp: heap_rep_def)
  show "0 < HDR" by (simp add: HDR_def)
qed

lemma heap_init_rep: "heap_rep (heap_init h) [(HEAP_SIZE, False)]"
  by (simp add: heap_rep_def heap_init_def HDR_def HEAP_SIZE_def)

lemma heap_init_inv: "heap_inv (heap_init h)"
  using heap_init_rep [of h] unfolding heap_inv_def by (intro exI conjI) auto

section \<open>Clients' runs\<close>

text \<open>
  A client run: allocations, and frees of addresses that are live at that moment. A free of
  any other address is a client error and ends the run with \<open>None\<close>.
\<close>

datatype heap_call = Malloc u32 | Free nat

fun heap_run :: "heap \<Rightarrow> heap_call list \<Rightarrow> heap option" where
  "heap_run h [] = Some h"
| "heap_run h (Malloc sz # cs) = do { (r, h') \<leftarrow> heap_alloc h sz; heap_run h' cs }"
| "heap_run h (Free p # cs) = do { h' \<leftarrow> heap_free h (Some p); heap_run h' cs }"

text \<open>The calls a well-behaved client makes, given the heap they run on.\<close>

fun legal :: "heap \<Rightarrow> heap_call list \<Rightarrow> bool" where
  "legal h [] \<longleftrightarrow> True"
| "legal h (Malloc sz # cs) \<longleftrightarrow>
     fits sz \<and> (\<forall>r h'. heap_alloc h sz = Some (r, h') \<longrightarrow> legal h' cs)"
| "legal h (Free p # cs) \<longleftrightarrow>
     p \<in> owned h \<and> (\<forall>h'. heap_free h (Some p) = Some h' \<longrightarrow> legal h' cs)"

lemma hp_addrs: "hp.addrs h = owned h"
  by (simp add: hp.addrs_def owned_def)

lemma heap_run_ok: "heap_inv h \<Longrightarrow> legal h cs \<Longrightarrow> \<exists>h'. heap_run h cs = Some h' \<and> heap_inv h'"
proof (induction cs arbitrary: h)
  case Nil
  then show ?case by simp
next
  case (Cons c cs)
  show ?case
  proof (cases c)
    case (Malloc sz)
    with Cons.prems obtain r h1 where "heap_alloc h sz = Some (r, h1)" "heap_inv h1"
      using hp.malloc_ok [of h sz] by auto
    with Cons Malloc show ?thesis by auto
  next
    case (Free p)
    with Cons.prems obtain h1 where "heap_free h (Some p) = Some h1" "heap_inv h1"
      using hp.free_addrs [of h p] by (auto simp: hp_addrs)
    with Cons Free show ?thesis by auto
  qed
qed

lemma no_live_all_free: "live_from off bs = [] \<Longrightarrow> (s, a) \<in> set bs \<Longrightarrow> \<not> a"
  by (induction bs arbitrary: off) (auto split: if_splits)

lemma coalesced_all_free:
  "coalesced bs \<Longrightarrow> \<forall>(s, a) \<in> set bs. \<not> a \<Longrightarrow> bs = [] \<or> (\<exists>s. bs = [(s, False)])"
  by (cases bs rule: coalesced.cases) auto

lemma heap_drained:
  assumes "heap_inv h" "live h = {}"
  shows "heap_rep h [(HEAP_SIZE, False)]"
proof -
  obtain bs where bs: "heap_rep h bs" "coalesced bs" "live_from 0 bs = []"
    using heap_inv_live [OF assms(1)] assms(2) by auto
  then have "bs = [] \<or> (\<exists>s. bs = [(s, False)])"
    by (intro coalesced_all_free) (auto dest: no_live_all_free)
  then show ?thesis using bs(1) by (auto simp: heap_rep_def HEAP_SIZE_def)
qed

section \<open>Properties\<close>

text \<open>C2: \<open>heap_alloc\<close> implements first fit. On a heap whose links describe the blocks \<open>bs\<close>,
  and for a size that does not wrap, the pointer it returns and the blocks it leaves are those
  of \<open>alloc_list\<close>: the first free block that is large enough is taken, and split when more than
  a header remains.\<close>

theorem heap_alloc_first_fit:
  assumes "heap_rep h bs" and "fits sz"
  shows "\<exists>h'. heap_alloc h sz = Some (fst (alloc_list (unat sz + HDR) 0 bs), h')
    \<and> heap_rep h' (snd (alloc_list (unat sz + HDR) 0 bs))"
  using heap_alloc_rep [OF assms] by blast

lemma heap_alloc_first_fit_witness:
  "\<exists>h'. heap_alloc (heap_init \<lparr>heap_head = None, heap_mem = Map.empty\<rparr>) 100
      = Some (Some 24, h') \<and> heap_rep h' [(124, True), (102276, False)]"
  using heap_alloc_first_fit [OF heap_init_rep, of 100]
  by (simp add: fits_def HDR_def HEAP_SIZE_def)

text \<open>C3: \<open>heap_free\<close> coalesces. Freeing the block whose payload follows the blocks \<open>pre\<close> ends
  with the links describing \<open>free_list pre s post\<close>: the block is free and merged with its right
  and its left neighbour exactly when they are free.\<close>

theorem heap_free_coalesces:
  assumes "heap_rep h (pre @ (s, True) # post)"
  shows "\<exists>h'. heap_free h (Some (bytes_of pre + HDR)) = Some h' \<and> heap_rep h' (free_list pre s post)"
  using heap_free_rep [OF assms] by blast

lemma heap_free_coalesces_witness:
  "\<exists>h h'. heap_free h (Some 24) = Some h' \<and> heap_rep h' [(HEAP_SIZE, False)]"
proof -
  let ?h = "\<lparr>heap_head = Some 0, heap_mem = [0 \<mapsto>
      \<lparr>hb_size = 124, hb_alloc = True, hb_next = Some 124, hb_prev = None\<rparr>, 124 \<mapsto>
      \<lparr>hb_size = HEAP_SIZE - 124, hb_alloc = False, hb_next = None, hb_prev = Some 0\<rparr>]\<rparr>"
  have "heap_rep ?h ([] @ (124, True) # [(HEAP_SIZE - 124, False)])"
    by (simp add: heap_rep_def HDR_def HEAP_SIZE_def)
  from heap_free_coalesces [OF this] show ?thesis
    by (auto simp: free_list_def HDR_def HEAP_SIZE_def)
qed

text \<open>C1: No run of allocations and frees breaks the heap. Starting from \<open>heap_init\<close>, a client
  that frees only live addresses and asks for no size that wraps never makes the code follow a
  dangling pointer or loop; afterwards the live blocks, headers included, are pairwise disjoint
  and inside the heap, and if all of them were freed the heap is one free block again, so
  nothing is lost to fragmentation.\<close>

theorem heap_run_safe:
  assumes "legal (heap_init h0) cs"
  shows "\<exists>h. heap_run (heap_init h0) cs = Some h
    \<and> (\<forall>(p, n) \<in> live h. HDR \<le> p \<and> p + n \<le> HEAP_SIZE)
    \<and> (\<forall>(p, n) \<in> live h. \<forall>(q, k) \<in> live h.
         (p, n) = (q, k) \<or> p + n + HDR \<le> q \<or> q + k + HDR \<le> p)
    \<and> (live h = {} \<longrightarrow> heap_rep h [(HEAP_SIZE, False)])"
proof -
  obtain h where h: "heap_run (heap_init h0) cs = Some h" "heap_inv h"
    using heap_run_ok [OF heap_init_inv assms] by blast
  have "\<forall>(p, n) \<in> live h. HDR \<le> p \<and> p + n \<le> HEAP_SIZE"
    using hp.inside [OF h(2)] by blast
  moreover have "\<forall>(p, n) \<in> live h. \<forall>(q, k) \<in> live h.
         (p, n) = (q, k) \<or> p + n + HDR \<le> q \<or> q + k + HDR \<le> p"
    using hp.disjoint [OF h(2)] by fast
  ultimately show ?thesis using h heap_drained by blast
qed

lemma heap_run_safe_witness:
  "\<exists>h. heap_run (heap_init \<lparr>heap_head = None, heap_mem = Map.empty\<rparr>) [Malloc 100, Malloc 8] = Some h
     \<and> (\<forall>(p, n) \<in> live h. HDR \<le> p \<and> p + n \<le> HEAP_SIZE)"
proof -
  let ?h = "heap_init \<lparr>heap_head = None, heap_mem = Map.empty\<rparr>"
  have "legal ?h [Malloc 100, Malloc 8]" by (simp add: fits_def HDR_def)
  from heap_run_safe [OF this] show ?thesis by (elim exE conjE, intro exI conjI)
qed

text \<open>A request of \<open>2 ^ 32 - 1\<close> bytes can succeed. The header size is added in 32 bits, so the
  total wraps to 23: once a block of at most 47 bytes is free, the call returns it, with six
  bytes of payload.\<close>

theorem heap_alloc_size_wraps:
  "\<exists>h1 h2. heap_alloc (heap_init h0) 102346 = Some (Some 24, h1)
     \<and> heap_alloc h1 0xFFFFFFFF = Some (Some 102394, h2) \<and> (102394, 6) \<in> live h2"
proof -
  let ?b0 = "\<lparr>hb_size = 102370, hb_alloc = True, hb_next = Some 102370, hb_prev = None\<rparr>"
  let ?b1 = "\<lambda>a. \<lparr>hb_size = 30, hb_alloc = a, hb_next = None, hb_prev = Some 0\<rparr>"
  let ?h = "\<lambda>a. \<lparr>heap_head = Some 0, heap_mem = (heap_mem h0)(0 \<mapsto> ?b0, 102370 \<mapsto> ?b1 a)\<rparr>"
  have 1: "heap_alloc (heap_init h0) 102346 = Some (Some 24, ?h False)"
    unfolding heap_alloc_def heap_init_def
    by (subst heap_alloc_loop.simps)
      (simp add: HDR_def HEAP_SIZE_def heap_take_def set_prev_def fun_eq_iff)
  have "heap_alloc_loop (?h False) (Some 102370) 23 = Some (Some 102394, ?h True)"
    by (subst heap_alloc_loop.simps) (simp add: heap_take_def HDR_def)
  then have 2: "heap_alloc (?h False) 0xFFFFFFFF = Some (Some 102394, ?h True)"
    unfolding heap_alloc_def by (subst heap_alloc_loop.simps) (simp add: HDR_def)
  have "heap_rep (?h True) [(102370, True), (30, True)]"
    by (simp add: heap_rep_def HDR_def HEAP_SIZE_def)
  then have "(102394, 6) \<in> live (?h True)"
    by (simp add: live_eq HDR_def)
  with 1 2 show ?thesis by blast
qed

end
