(* ===== verification/BPT.thy ===== *)
theory BPT
  imports CString Alloc
begin

text \<open>
  The B+ tree of \<^verbatim>\<open>src/tools/fs.c\<close> that maps file names to file numbers. A node is a
  112-byte heap block; its key is the FNV-1a hash of the name, and the djb2 hash is stored
  beside it as a second check. Order \<open>MAX_BPT_NODE_NUM = 4\<close>: at most three keys per node.

  The state holds the heap and the node stored at each heap address; freeing a node removes
  its entry, so touching it afterwards is \<open>None\<close> (undefined). \<^verbatim>\<open>bpt_node *\<close> is an optional
  address. The loops that shift or copy the fixed arrays of a node are written as list
  operations with the same bounds: an index beyond the array is \<open>None\<close>. The climbing and
  descending loops are \<^theory_text>\<open>partial_function (option)\<close>.
\<close>

definition MAX_BPT_NODE_NUM :: nat where
  "MAX_BPT_NODE_NUM = 4"

text \<open>\<^verbatim>\<open>sizeof(bpt_node)\<close>.\<close>

definition BPT_NODE_SIZE :: u32 where
  "BPT_NODE_SIZE = 112"

record bpt_node =
  bn_num :: nat
  bn_leaf :: bool
  bn_fnv :: "u64 list"
  bn_djb :: "u64 list"
  bn_data :: "u16 list"
  bn_parent :: "nat option"
  bn_child :: "nat option list"
  bn_next :: "nat option"

type_synonym nodes = "nat \<Rightarrow> bpt_node option"

record bpt =
  bp_heap :: heap
  bp_nd :: nodes

text \<open>\<open>clear\<close>: every byte of the node becomes zero.\<close>

definition zero_node :: bpt_node where
  "zero_node =
     \<lparr>bn_num = 0, bn_leaf = False, bn_fnv = [0, 0, 0], bn_djb = [0, 0, 0], bn_data = [0, 0, 0],
      bn_parent = None, bn_child = [None, None, None, None], bn_next = None\<rparr>"

text \<open>Dereferencing a node pointer; a null or dangling one is undefined.\<close>

definition deref :: "nodes \<Rightarrow> nat option \<Rightarrow> bpt_node option" where
  "deref m q = (case q of None \<Rightarrow> None | Some a \<Rightarrow> m a)"

definition child_of :: "bpt_node \<Rightarrow> nat \<Rightarrow> nat option option" where
  "child_of n i = aget (bn_child n) i"

definition set_parent :: "nodes \<Rightarrow> nat option \<Rightarrow> nat option \<Rightarrow> nodes option" where
  "set_parent m q par =
     (case q of None \<Rightarrow> None
      | Some a \<Rightarrow> do { n \<leftarrow> m a; Some (m(a \<mapsto> n\<lparr>bn_parent := par\<rparr>)) })"

definition create_node :: "bpt \<Rightarrow> bool \<Rightarrow> (nat option \<times> bpt) option" where
  "create_node s leaf = do {
     (p, h) \<leftarrow> heap_alloc (bp_heap s) BPT_NODE_SIZE;
     (case p of
        None \<Rightarrow> Some (None, s\<lparr>bp_heap := h\<rparr>)
      | Some a \<Rightarrow>
          Some (Some a, s\<lparr>bp_heap := h, bp_nd := (bp_nd s)(a \<mapsto> zero_node\<lparr>bn_leaf := leaf\<rparr>)\<rparr>))
   }"

text \<open>How many leading cells satisfy \<open>P\<close>: the index at which a scanning loop stops.\<close>

definition scan :: "('a \<Rightarrow> bool) \<Rightarrow> 'a list \<Rightarrow> nat" where
  "scan P xs = length (takeWhile P xs)"

text \<open>
  \<open>search_leaf\<close>, from a non-null node. The result is \<open>Some None\<close> when a child pointer on the
  path is null.
\<close>

partial_function (option) search_leaf_loop :: "nodes \<Rightarrow> nat \<Rightarrow> u64 \<Rightarrow> nat option option" where
  "search_leaf_loop m current key = do {
     n \<leftarrow> m current;
     if bn_leaf n then Some (Some current)
     else do {
       ks \<leftarrow> aprefix (bn_fnv n) (bn_num n);
       c \<leftarrow> child_of n (scan (\<lambda>k. key \<ge> k) ks);
       (case c of None \<Rightarrow> Some None | Some a \<Rightarrow> search_leaf_loop m a key)
     }
   }"

definition search_leaf :: "nodes \<Rightarrow> nat option \<Rightarrow> u64 \<Rightarrow> nat option option" where
  "search_leaf m root key =
     (case root of None \<Rightarrow> Some None | Some r \<Rightarrow> search_leaf_loop m r key)"

definition put_leaf :: "nodes \<Rightarrow> nat \<Rightarrow> u64 list \<Rightarrow> u64 list \<Rightarrow> u16 list \<Rightarrow> nat \<Rightarrow> nodes option" where
  "put_leaf m leaf fks dks vals cnt = do {
     n \<leftarrow> m leaf;
     fk \<leftarrow> aprefix fks cnt; dk \<leftarrow> aprefix dks cnt; vs \<leftarrow> aprefix vals cnt;
     f \<leftarrow> awrite (bn_fnv n) fk; d \<leftarrow> awrite (bn_djb n) dk; v \<leftarrow> awrite (bn_data n) vs;
     Some (m(leaf \<mapsto> n\<lparr>bn_leaf := True, bn_num := cnt, bn_fnv := f, bn_djb := d, bn_data := v\<rparr>))
   }"

text \<open>\<open>put_inner\<close> fills the node, then points the parent link of every child at it.\<close>

fun set_parents :: "nodes \<Rightarrow> nat option list \<Rightarrow> nat option \<Rightarrow> nodes option" where
  "set_parents m [] par = Some m"
| "set_parents m (c # cs) par = do { m' \<leftarrow> set_parent m c par; set_parents m' cs par }"

definition put_inner :: "nodes \<Rightarrow> nat \<Rightarrow> u64 list \<Rightarrow> nat option list \<Rightarrow> nat \<Rightarrow> nodes option" where
  "put_inner m internal keys children cnt = do {
     n \<leftarrow> m internal;
     ks \<leftarrow> aprefix keys cnt; cs \<leftarrow> aprefix children (cnt + 1);
     f \<leftarrow> awrite (bn_fnv n) ks; c \<leftarrow> awrite (bn_child n) cs;
     set_parents (m(internal \<mapsto> n\<lparr>bn_leaf := False, bn_num := cnt, bn_fnv := f, bn_child := c\<rparr>))
       cs (Some internal)
   }"

section \<open>Insertion\<close>

text \<open>Inserting at an index into a copied array, as the loops over the local arrays do.\<close>

definition insert_at :: "nat \<Rightarrow> 'a \<Rightarrow> 'a list \<Rightarrow> 'a list" where
  "insert_at i x xs = take i xs @ x # drop i xs"

partial_function (option) add_parent ::
  "bpt \<Rightarrow> nat \<Rightarrow> nat \<Rightarrow> u64 \<Rightarrow> nat \<Rightarrow> (bool \<times> bpt) option" where
  "add_parent s root left separator right = do {
     ln \<leftarrow> bp_nd s left;
     (case bn_parent ln of
        None \<Rightarrow> Some (False, s)
      | Some parent \<Rightarrow> do {
          pn \<leftarrow> bp_nd s parent;
          let old = bn_num pn;
          pcs \<leftarrow> aprefix (bn_child pn) (old + 1);
          pks \<leftarrow> aprefix (bn_fnv pn) old;
          let idx = scan (\<lambda>c. c \<noteq> Some left) pcs;
          if idx > old then Some (False, s)
          else do {
            let keys = insert_at idx separator pks;
            let children = insert_at (idx + 1) (Some right) pcs;
            let cnt = old + 1;
            if cnt < MAX_BPT_NODE_NUM
            then do {
              m \<leftarrow> put_inner (bp_nd s) parent keys children cnt;
              Some (True, s\<lparr>bp_nd := m\<rparr>)
            }
            else do {
              (rq, s1) \<leftarrow> create_node s False;
              (case rq of
                 None \<Rightarrow> Some (False, s1)
               | Some ri \<Rightarrow>
                   let middle = cnt div 2; lcnt = middle; rcnt = cnt - middle - 1 in
                   if parent = root
                   then do {
                     (lq, s2) \<leftarrow> create_node s1 False;
                     (case lq of
                        None \<Rightarrow> Some (False, s2)
                      | Some li \<Rightarrow> do {
                          m1 \<leftarrow> put_inner (bp_nd s2) li keys children lcnt;
                          m2 \<leftarrow> put_inner m1 ri (drop (middle + 1) keys) (drop (middle + 1) children) rcnt;
                          km \<leftarrow> aget keys middle;
                          m2 root;
                          let m3 = m2(root \<mapsto> zero_node\<lparr>bn_leaf := False, bn_num := 1,
                                     bn_fnv := [km, 0, 0],
                                     bn_child := [Some li, Some ri, None, None]\<rparr>);
                          m4 \<leftarrow> set_parent m3 (Some li) (Some root);
                          m5 \<leftarrow> set_parent m4 (Some ri) (Some root);
                          Some (True, s2\<lparr>bp_nd := m5\<rparr>)
                        })
                   }
                   else (case bn_parent pn of
                           None \<Rightarrow> Some (False, s1)
                         | Some grandparent \<Rightarrow> do {
                             m1 \<leftarrow> put_inner (bp_nd s1) parent keys children lcnt;
                             m2 \<leftarrow> put_inner m1 ri (drop (middle + 1) keys) (drop (middle + 1) children) rcnt;
                             m3 \<leftarrow> set_parent m2 (Some ri) (Some grandparent);
                             km \<leftarrow> aget keys middle;
                             add_parent (s1\<lparr>bp_nd := m3\<rparr>) root parent km ri
                           }))
            }
          }
        })
   }"

definition bpt_insert :: "bpt \<Rightarrow> nat option \<Rightarrow> cstr option \<Rightarrow> u16 \<Rightarrow> (bool \<times> bpt) option" where
  "bpt_insert s root name val =
     (case (root, name) of
        (Some r, Some nm) \<Rightarrow> do {
          fk \<leftarrow> fnv1a_hash_64 nm;
          dk \<leftarrow> djb2_hash_64 nm;
          lq \<leftarrow> search_leaf (bp_nd s) (Some r) fk;
          (case lq of
             None \<Rightarrow> Some (False, s)
           | Some leaf \<Rightarrow> do {
               n \<leftarrow> bp_nd s leaf;
               let num = bn_num n;
               fks \<leftarrow> aprefix (bn_fnv n) num;
               let pos = scan (\<lambda>k. k < fk) fks;
               if pos < num \<and> fks ! pos = fk then Some (False, s)
               else do {
                 dks \<leftarrow> aprefix (bn_djb n) num;
                 vs \<leftarrow> aprefix (bn_data n) num;
                 let fks' = insert_at pos fk fks;
                 let dks' = insert_at pos dk dks;
                 let vs' = insert_at pos val vs;
                 if num < MAX_BPT_NODE_NUM - 1
                 then do {
                   f \<leftarrow> awrite (bn_fnv n) fks'; d \<leftarrow> awrite (bn_djb n) dks'; v \<leftarrow> awrite (bn_data n) vs';
                   Some (True, s\<lparr>bp_nd := (bp_nd s)(leaf \<mapsto>
                      n\<lparr>bn_fnv := f, bn_djb := d, bn_data := v, bn_num := num + 1\<rparr>)\<rparr>)
                 }
                 else do {
                   (rq, s1) \<leftarrow> create_node s True;
                   (case rq of
                      None \<Rightarrow> Some (False, s1)
                    | Some rl \<Rightarrow>
                        let lcnt = (MAX_BPT_NODE_NUM + 1) div 2; rcnt = MAX_BPT_NODE_NUM - lcnt in
                        if leaf = r
                        then do {
                          (lq, s2) \<leftarrow> create_node s1 True;
                          (case lq of
                             None \<Rightarrow> Some (False, s2)
                           | Some ll \<Rightarrow> do {
                               m1 \<leftarrow> put_leaf (bp_nd s2) ll fks' dks' vs' lcnt;
                               m2 \<leftarrow> put_leaf m1 rl (drop lcnt fks') (drop lcnt dks') (drop lcnt vs') rcnt;
                               lln \<leftarrow> m2 ll;
                               let m3 = m2(ll \<mapsto> lln\<lparr>bn_next := Some rl\<rparr>);
                               rln \<leftarrow> m3 rl;
                               m3 r;
                               let m4 = m3(r \<mapsto> zero_node\<lparr>bn_leaf := False, bn_num := 1,
                                          bn_fnv := [bn_fnv rln ! 0, 0, 0],
                                          bn_child := [Some ll, Some rl, None, None]\<rparr>);
                               m5 \<leftarrow> set_parent m4 (Some ll) (Some r);
                               m6 \<leftarrow> set_parent m5 (Some rl) (Some r);
                               Some (True, s2\<lparr>bp_nd := m6\<rparr>)
                             })
                        }
                        else (case bn_parent n of
                                None \<Rightarrow> Some (False, s1)
                              | Some parent \<Rightarrow> do {
                                  m1 \<leftarrow> put_leaf (bp_nd s1) leaf fks' dks' vs' lcnt;
                                  m2 \<leftarrow> put_leaf m1 rl (drop lcnt fks') (drop lcnt dks') (drop lcnt vs') rcnt;
                                  lfn \<leftarrow> m2 leaf;
                                  let m3 = m2(leaf \<mapsto> lfn\<lparr>bn_next := Some rl\<rparr>);
                                  rln \<leftarrow> m3 rl;
                                  let m4 = m3(rl \<mapsto> rln\<lparr>bn_next := bn_next n, bn_parent := Some parent\<rparr>);
                                  sep \<leftarrow> aget (bn_fnv rln) 0;
                                  add_parent (s1\<lparr>bp_nd := m4\<rparr>) r leaf sep rl
                                }))
                 }
               }
             })
        }
      | _ \<Rightarrow> Some (False, s))"

section \<open>Search\<close>

text \<open>\<open>bpt_search\<close> returns a pointer into the data array: the leaf's address and an index.\<close>

definition bpt_search :: "nodes \<Rightarrow> nat option \<Rightarrow> cstr option \<Rightarrow> (nat \<times> nat) option option" where
  "bpt_search m root name =
     (case (root, name) of
        (Some r, Some nm) \<Rightarrow> do {
          fk \<leftarrow> fnv1a_hash_64 nm;
          dk \<leftarrow> djb2_hash_64 nm;
          lq \<leftarrow> search_leaf m (Some r) fk;
          (case lq of
             None \<Rightarrow> Some None
           | Some leaf \<Rightarrow> do {
               n \<leftarrow> m leaf;
               fks \<leftarrow> aprefix (bn_fnv n) (bn_num n);
               dks \<leftarrow> aprefix (bn_djb n) (bn_num n);
               let i = scan (\<lambda>(f, d). \<not> (f = fk \<and> d = dk)) (zip fks dks);
               Some (if i < bn_num n then Some (leaf, i) else None)
             })
        }
      | _ \<Rightarrow> Some None)"

text \<open>Reading through the pointer \<open>bpt_search\<close> returned, as its callers do.\<close>

definition bpt_read :: "nodes \<Rightarrow> (nat \<times> nat) option \<Rightarrow> u16 option" where
  "bpt_read m q =
     (case q of None \<Rightarrow> None | Some (leaf, i) \<Rightarrow> do { n \<leftarrow> m leaf; aget (bn_data n) i })"

section \<open>Deletion\<close>

text \<open>The two array shifts: \<open>xs[i] = xs[i - 1]\<close> for \<open>i = k, ..., 1\<close>, and \<open>xs[i] = xs[i + 1]\<close>
  for \<open>i = a, ..., b - 1\<close>.\<close>

definition shift_up :: "'a list \<Rightarrow> nat \<Rightarrow> 'a list option" where
  "shift_up xs k =
     (if k < length xs then Some (take 1 xs @ take k xs @ drop (k + 1) xs)
      else if k = 0 then Some xs else None)"

definition shift_down :: "'a list \<Rightarrow> nat \<Rightarrow> nat \<Rightarrow> 'a list option" where
  "shift_down xs a b =
     (if a \<ge> b then Some xs
      else if b < length xs then Some (take a xs @ take (b - a) (drop (a + 1) xs) @ drop b xs)
      else None)"

definition set_child :: "nodes \<Rightarrow> nat \<Rightarrow> nat \<Rightarrow> nat option \<Rightarrow> nodes option" where
  "set_child m p i c = do {
     n \<leftarrow> m p; cs \<leftarrow> aset (bn_child n) i c; Some (m(p \<mapsto> n\<lparr>bn_child := cs\<rparr>)) }"

definition set_num :: "nodes \<Rightarrow> nat \<Rightarrow> nat \<Rightarrow> nodes option" where
  "set_num m p k = do { n \<leftarrow> m p; Some (m(p \<mapsto> n\<lparr>bn_num := k\<rparr>)) }"

partial_function (option) min_key :: "nodes \<Rightarrow> nat option \<Rightarrow> u64 option" where
  "min_key m node = do {
     n \<leftarrow> deref m node;
     if bn_leaf n then aget (bn_fnv n) 0
     else do { c \<leftarrow> child_of n 0; min_key m c }
   }"

fun fix_keys_at :: "nodes \<Rightarrow> nat \<Rightarrow> nat list \<Rightarrow> nodes option" where
  "fix_keys_at m p [] = Some m"
| "fix_keys_at m p (i # is) = do {
     n \<leftarrow> m p;
     c \<leftarrow> child_of n (i + 1);
     k \<leftarrow> min_key m c;
     f \<leftarrow> aset (bn_fnv n) i k;
     fix_keys_at (m(p \<mapsto> n\<lparr>bn_fnv := f\<rparr>)) p is
   }"

definition fix_keys :: "nodes \<Rightarrow> nat \<Rightarrow> nodes option" where
  "fix_keys m p = do { n \<leftarrow> m p; fix_keys_at m p [0..<bn_num n] }"

partial_function (option) fix_up :: "nodes \<Rightarrow> nat option \<Rightarrow> nodes option" where
  "fix_up m node =
     (case node of
        None \<Rightarrow> Some m
      | Some a \<Rightarrow> do {
          n \<leftarrow> m a;
          m' \<leftarrow> (if bn_leaf n then Some m else fix_keys m a);
          n' \<leftarrow> m' a;
          fix_up m' (bn_parent n')
        })"

definition child_idx :: "bpt_node \<Rightarrow> nat \<Rightarrow> nat option option" where
  "child_idx pn child = do {
     cs \<leftarrow> aprefix (bn_child pn) (bn_num pn + 1);
     let i = scan (\<lambda>c. c \<noteq> Some child) cs;
     Some (if i \<le> bn_num pn then Some i else None)
   }"

definition drop_child :: "nodes \<Rightarrow> nat \<Rightarrow> nat \<Rightarrow> nodes option" where
  "drop_child m parent idx = do {
     pn \<leftarrow> m parent;
     let old = bn_num pn;
     let sep = (if idx > 0 then idx - 1 else 0);
     f \<leftarrow> shift_down (bn_fnv pn) sep (old - 1);
     c \<leftarrow> shift_down (bn_child pn) idx old;
     c' \<leftarrow> aset c old None;
     Some (m(parent \<mapsto> pn\<lparr>bn_fnv := f, bn_child := c', bn_num := old - 1\<rparr>))
   }"

definition free_node :: "bpt \<Rightarrow> nat \<Rightarrow> bpt option" where
  "free_node s a = do {
     h \<leftarrow> heap_free (bp_heap s) (Some a);
     Some (s\<lparr>bp_heap := h, bp_nd := (bp_nd s)(a := None)\<rparr>)
   }"

text \<open>\<open>left\<close> and \<open>right\<close> siblings of child \<open>idx\<close>; the null pointer when there is none.\<close>

definition siblings :: "bpt_node \<Rightarrow> nat \<Rightarrow> (nat option \<times> nat option) option" where
  "siblings pn idx = do {
     l \<leftarrow> (if idx > 0 then child_of pn (idx - 1) else Some None);
     r \<leftarrow> (if idx < bn_num pn then child_of pn (idx + 1) else Some None);
     Some (l, r)
   }"

text \<open>The number of keys of an optional sibling, tested with \<^verbatim>\<open>!= NULL &&\<close>.\<close>

definition more_than :: "nodes \<Rightarrow> nat option \<Rightarrow> nat \<Rightarrow> bool option" where
  "more_than m q k = (case q of None \<Rightarrow> Some False | Some a \<Rightarrow> do { n \<leftarrow> m a; Some (bn_num n > k) })"

definition borrow_left_inner :: "nodes \<Rightarrow> nat \<Rightarrow> nat \<Rightarrow> nat \<Rightarrow> nodes option" where
  "borrow_left_inner m node left parent = do {
     n \<leftarrow> m node; ln \<leftarrow> m left;
     cs \<leftarrow> shift_up (bn_child n) (bn_num n + 1);
     lc \<leftarrow> child_of ln (bn_num ln);
     cs' \<leftarrow> aset cs 0 lc;
     m1 \<leftarrow> set_parent (m(node \<mapsto> n\<lparr>bn_child := cs'\<rparr>)) lc (Some node);
     m2 \<leftarrow> set_num m1 left (bn_num ln - 1);
     m3 \<leftarrow> set_num m2 node (bn_num n + 1);
     m4 \<leftarrow> set_child m3 left (bn_num ln) None;
     m5 \<leftarrow> fix_keys m4 left;
     m6 \<leftarrow> fix_keys m5 node;
     fix_up m6 (Some parent)
   }"

definition borrow_right_inner :: "nodes \<Rightarrow> nat \<Rightarrow> nat \<Rightarrow> nat \<Rightarrow> nodes option" where
  "borrow_right_inner m node right parent = do {
     n \<leftarrow> m node; rn \<leftarrow> m right;
     rc \<leftarrow> child_of rn 0;
     m1 \<leftarrow> set_child m node (bn_num n + 1) rc;
     m2 \<leftarrow> set_parent m1 rc (Some node);
     m3 \<leftarrow> set_num m2 node (bn_num n + 1);
     cs \<leftarrow> shift_down (bn_child rn) 0 (bn_num rn);
     cs' \<leftarrow> aset cs (bn_num rn) None;
     m4 \<leftarrow> Some (m3(right \<mapsto> rn\<lparr>bn_child := cs', bn_num := bn_num rn - 1\<rparr>));
     m5 \<leftarrow> fix_keys m4 node;
     m6 \<leftarrow> fix_keys m5 right;
     fix_up m6 (Some parent)
   }"

text \<open>Appending all children of \<open>src\<close> to \<open>dst\<close> and recomputing its keys.\<close>

fun move_children :: "nodes \<Rightarrow> nat \<Rightarrow> nat \<Rightarrow> nat option list \<Rightarrow> nodes option" where
  "move_children m dst i [] = Some m"
| "move_children m dst i (c # cs) = do {
     m1 \<leftarrow> set_child m dst i c;
     m2 \<leftarrow> set_parent m1 c (Some dst);
     move_children m2 dst (i + 1) cs
   }"

definition merge_inner :: "nodes \<Rightarrow> nat \<Rightarrow> nat \<Rightarrow> nodes option" where
  "merge_inner m dst src = do {
     dn \<leftarrow> m dst; sn \<leftarrow> m src;
     cs \<leftarrow> aprefix (bn_child sn) (bn_num sn + 1);
     m1 \<leftarrow> move_children m dst (bn_num dn + 1) cs;
     m2 \<leftarrow> set_num m1 dst (bn_num dn + bn_num sn + 1);
     fix_keys m2 dst
   }"

definition collapse_root :: "bpt \<Rightarrow> nat \<Rightarrow> bpt option" where
  "collapse_root s root = do {
     rn \<leftarrow> bp_nd s root;
     c \<leftarrow> child_of rn 0;
     (case c of
        None \<Rightarrow> Some s
      | Some only \<Rightarrow> do {
          cn \<leftarrow> bp_nd s only;
          let m = (bp_nd s)(root \<mapsto> cn\<lparr>bn_parent := None\<rparr>);
          m' \<leftarrow> (if bn_leaf cn then Some m
                else do { cs \<leftarrow> aprefix (bn_child cn) (bn_num cn + 1); set_parents m cs (Some root) });
          free_node (s\<lparr>bp_nd := m'\<rparr>) only
        })
   }"

partial_function (option) balance_inner :: "bpt \<Rightarrow> nat \<Rightarrow> nat \<Rightarrow> bpt option" where
  "balance_inner s root node = do {
     n \<leftarrow> bp_nd s node;
     let minimum_keys = (MAX_BPT_NODE_NUM + 1) div 2 - 1;
     if node = root
     then (if \<not> bn_leaf n \<and> bn_num n = 0 then collapse_root s root
           else do { m \<leftarrow> fix_keys (bp_nd s) root; Some (s\<lparr>bp_nd := m\<rparr>) })
     else if bn_num n \<ge> minimum_keys
     then do { m \<leftarrow> fix_up (bp_nd s) (Some node); Some (s\<lparr>bp_nd := m\<rparr>) }
     else (case bn_parent n of
             None \<Rightarrow> Some s
           | Some parent \<Rightarrow> do {
               pn \<leftarrow> bp_nd s parent;
               iq \<leftarrow> child_idx pn node;
               (case iq of
                  None \<Rightarrow> Some s
                | Some idx \<Rightarrow> do {
                    (left, right) \<leftarrow> siblings pn idx;
                    lrich \<leftarrow> more_than (bp_nd s) left minimum_keys;
                    rrich \<leftarrow> more_than (bp_nd s) right minimum_keys;
                    (case (left, right) of
                       (Some l, _) \<Rightarrow>
                         if lrich then do {
                           m \<leftarrow> borrow_left_inner (bp_nd s) node l parent; Some (s\<lparr>bp_nd := m\<rparr>) }
                         else if rrich then do {
                           m \<leftarrow> borrow_right_inner (bp_nd s) node (the right) parent; Some (s\<lparr>bp_nd := m\<rparr>) }
                         else do {
                           m1 \<leftarrow> merge_inner (bp_nd s) l node;
                           m2 \<leftarrow> drop_child m1 parent idx;
                           s' \<leftarrow> free_node (s\<lparr>bp_nd := m2\<rparr>) node;
                           balance_inner s' root parent
                         }
                     | (None, Some r) \<Rightarrow>
                         if rrich then do {
                           m \<leftarrow> borrow_right_inner (bp_nd s) node r parent; Some (s\<lparr>bp_nd := m\<rparr>) }
                         else do {
                           m1 \<leftarrow> merge_inner (bp_nd s) node r;
                           m2 \<leftarrow> drop_child m1 parent (idx + 1);
                           s' \<leftarrow> free_node (s\<lparr>bp_nd := m2\<rparr>) r;
                           balance_inner s' root parent
                         }
                     | (None, None) \<Rightarrow> Some s)
                  })
             })
   }"

definition borrow_left_leaf :: "nodes \<Rightarrow> nat \<Rightarrow> nat \<Rightarrow> nat \<Rightarrow> nodes option" where
  "borrow_left_leaf m leaf left parent = do {
     n \<leftarrow> m leaf; ln \<leftarrow> m left;
     f \<leftarrow> shift_up (bn_fnv n) (bn_num n); d \<leftarrow> shift_up (bn_djb n) (bn_num n);
     v \<leftarrow> shift_up (bn_data n) (bn_num n);
     let lst = bn_num ln - 1;
     lf \<leftarrow> aget (bn_fnv ln) lst; ld \<leftarrow> aget (bn_djb ln) lst; lv \<leftarrow> aget (bn_data ln) lst;
     f' \<leftarrow> aset f 0 lf; d' \<leftarrow> aset d 0 ld; v' \<leftarrow> aset v 0 lv;
     m1 \<leftarrow> Some (m(left \<mapsto> ln\<lparr>bn_num := bn_num ln - 1\<rparr>,
        leaf \<mapsto> n\<lparr>bn_fnv := f', bn_djb := d', bn_data := v', bn_num := bn_num n + 1\<rparr>));
     fix_up m1 (Some parent)
   }"

definition borrow_right_leaf :: "nodes \<Rightarrow> nat \<Rightarrow> nat \<Rightarrow> nat \<Rightarrow> nodes option" where
  "borrow_right_leaf m leaf right parent = do {
     n \<leftarrow> m leaf; rn \<leftarrow> m right;
     rf \<leftarrow> aget (bn_fnv rn) 0; rd \<leftarrow> aget (bn_djb rn) 0; rv \<leftarrow> aget (bn_data rn) 0;
     f \<leftarrow> aset (bn_fnv n) (bn_num n) rf; d \<leftarrow> aset (bn_djb n) (bn_num n) rd;
     v \<leftarrow> aset (bn_data n) (bn_num n) rv;
     f' \<leftarrow> shift_down (bn_fnv rn) 0 (bn_num rn - 1); d' \<leftarrow> shift_down (bn_djb rn) 0 (bn_num rn - 1);
     v' \<leftarrow> shift_down (bn_data rn) 0 (bn_num rn - 1);
     m1 \<leftarrow> Some (m(leaf \<mapsto> n\<lparr>bn_fnv := f, bn_djb := d, bn_data := v, bn_num := bn_num n + 1\<rparr>,
        right \<mapsto> rn\<lparr>bn_fnv := f', bn_djb := d', bn_data := v', bn_num := bn_num rn - 1\<rparr>));
     fix_up m1 (Some parent)
   }"

text \<open>Writing \<open>ys\<close> into \<open>xs\<close> from index \<open>k\<close> on.\<close>

definition awrite_at :: "'a list \<Rightarrow> nat \<Rightarrow> 'a list \<Rightarrow> 'a list option" where
  "awrite_at xs k ys =
     (if ys = [] then Some xs
      else if k + length ys \<le> length xs then Some (take k xs @ ys @ drop (k + length ys) xs)
      else None)"

definition merge_leaf :: "nodes \<Rightarrow> nat \<Rightarrow> nat \<Rightarrow> nodes option" where
  "merge_leaf m dst src = do {
     dn \<leftarrow> m dst; sn \<leftarrow> m src;
     sf \<leftarrow> aprefix (bn_fnv sn) (bn_num sn); sd \<leftarrow> aprefix (bn_djb sn) (bn_num sn);
     sv \<leftarrow> aprefix (bn_data sn) (bn_num sn);
     f \<leftarrow> awrite_at (bn_fnv dn) (bn_num dn) sf; d \<leftarrow> awrite_at (bn_djb dn) (bn_num dn) sd;
     v \<leftarrow> awrite_at (bn_data dn) (bn_num dn) sv;
     Some (m(dst \<mapsto> dn\<lparr>bn_fnv := f, bn_djb := d, bn_data := v,
        bn_num := bn_num dn + bn_num sn, bn_next := bn_next sn\<rparr>))
   }"

definition balance_leaf :: "bpt \<Rightarrow> nat \<Rightarrow> nat \<Rightarrow> bpt option" where
  "balance_leaf s root leaf =
     (let minimum_keys = MAX_BPT_NODE_NUM div 2 in
      if leaf = root then Some s
      else do {
        n \<leftarrow> bp_nd s leaf;
        (case bn_parent n of
           None \<Rightarrow> Some s
         | Some parent \<Rightarrow>
             if bn_num n \<ge> minimum_keys
             then do { m \<leftarrow> fix_up (bp_nd s) (Some parent); Some (s\<lparr>bp_nd := m\<rparr>) }
             else do {
               pn \<leftarrow> bp_nd s parent;
               iq \<leftarrow> child_idx pn leaf;
               (case iq of
                  None \<Rightarrow> Some s
                | Some idx \<Rightarrow> do {
                    (left, right) \<leftarrow> siblings pn idx;
                    lrich \<leftarrow> more_than (bp_nd s) left minimum_keys;
                    rrich \<leftarrow> more_than (bp_nd s) right minimum_keys;
                    (case (left, right) of
                       (Some l, _) \<Rightarrow>
                         if lrich then do {
                           m \<leftarrow> borrow_left_leaf (bp_nd s) leaf l parent; Some (s\<lparr>bp_nd := m\<rparr>) }
                         else if rrich then do {
                           m \<leftarrow> borrow_right_leaf (bp_nd s) leaf (the right) parent; Some (s\<lparr>bp_nd := m\<rparr>) }
                         else do {
                           m1 \<leftarrow> merge_leaf (bp_nd s) l leaf;
                           m2 \<leftarrow> drop_child m1 parent idx;
                           s' \<leftarrow> free_node (s\<lparr>bp_nd := m2\<rparr>) leaf;
                           balance_inner s' root parent
                         }
                     | (None, Some r) \<Rightarrow>
                         if rrich then do {
                           m \<leftarrow> borrow_right_leaf (bp_nd s) leaf r parent; Some (s\<lparr>bp_nd := m\<rparr>) }
                         else do {
                           m1 \<leftarrow> merge_leaf (bp_nd s) leaf r;
                           m2 \<leftarrow> drop_child m1 parent (idx + 1);
                           s' \<leftarrow> free_node (s\<lparr>bp_nd := m2\<rparr>) r;
                           balance_inner s' root parent
                         }
                     | (None, None) \<Rightarrow> Some s)
                  })
             })
      })"

definition bpt_delete :: "bpt \<Rightarrow> nat option \<Rightarrow> cstr option \<Rightarrow> (bool \<times> bpt) option" where
  "bpt_delete s root name =
     (case (root, name) of
        (Some r, Some nm) \<Rightarrow> do {
          fk \<leftarrow> fnv1a_hash_64 nm;
          dk \<leftarrow> djb2_hash_64 nm;
          lq \<leftarrow> search_leaf (bp_nd s) (Some r) fk;
          (case lq of
             None \<Rightarrow> Some (False, s)
           | Some leaf \<Rightarrow> do {
               n \<leftarrow> bp_nd s leaf;
               fks \<leftarrow> aprefix (bn_fnv n) (bn_num n);
               dks \<leftarrow> aprefix (bn_djb n) (bn_num n);
               let pos = scan (\<lambda>(f, d). f \<noteq> fk \<or> d \<noteq> dk) (zip fks dks);
               if pos = bn_num n then Some (False, s)
               else do {
                 f \<leftarrow> shift_down (bn_fnv n) pos (bn_num n - 1);
                 d \<leftarrow> shift_down (bn_djb n) pos (bn_num n - 1);
                 v \<leftarrow> shift_down (bn_data n) pos (bn_num n - 1);
                 s' \<leftarrow> balance_leaf (s\<lparr>bp_nd := (bp_nd s)(leaf \<mapsto>
                        n\<lparr>bn_fnv := f, bn_djb := d, bn_data := v, bn_num := bn_num n - 1\<rparr>)\<rparr>) r leaf;
                 Some (True, s')
               }
             })
        }
      | _ \<Rightarrow> Some (False, s))"

end
