(* ===== verification/BPT_Inv.thy ===== *)
theory BPT_Inv
  imports BPT
begin

text \<open>
  The invariant of a B+ tree in the node store, and search under it. A tree is a root \<open>r\<close>,
  the set \<open>T\<close> of its node addresses and a ghost geometry \<open>g\<close> that gives each node the
  interval of keys it is responsible for and its height. All conditions are local to a node
  and its children, so an operation has to re-establish only those of the nodes it touches.
  The abstract value of a tree is the finite map from the FNV hash to the djb2 hash and the
  value (\<open>bpt_rep\<close>).
\<close>

type_synonym geo = "nat \<Rightarrow> nat \<times> nat \<times> nat"

abbreviation g_lo :: "geo \<Rightarrow> nat \<Rightarrow> nat" where "g_lo g p \<equiv> fst (g p)"
abbreviation g_hi :: "geo \<Rightarrow> nat \<Rightarrow> nat" where "g_hi g p \<equiv> fst (snd (g p))"
abbreviation g_ht :: "geo \<Rightarrow> nat \<Rightarrow> nat" where "g_ht g p \<equiv> snd (snd (g p))"

definition wf_node :: "bpt_node \<Rightarrow> bool" where
  "wf_node n \<longleftrightarrow> length (bn_fnv n) = 3 \<and> length (bn_djb n) = 3 \<and> length (bn_data n) = 3
     \<and> length (bn_child n) = 4 \<and> bn_num n \<le> 3"

definition nkeys :: "bpt_node \<Rightarrow> u64 list" where
  "nkeys n = take (bn_num n) (bn_fnv n)"

definition nkids :: "bpt_node \<Rightarrow> nat option list" where
  "nkids n = (if bn_leaf n then [] else take (bn_num n + 1) (bn_child n))"

definition items :: "bpt_node \<Rightarrow> (u64 \<times> u64 \<times> u16) list" where
  "items n = take (bn_num n) (zip (bn_fnv n) (zip (bn_djb n) (bn_data n)))"

text \<open>The children \<open>cs\<close> tile the interval from \<open>l\<close> to \<open>h\<close>, with the keys \<open>ks\<close> between them.\<close>

definition covers :: "geo \<Rightarrow> nat \<Rightarrow> nat list \<Rightarrow> nat list \<Rightarrow> nat \<Rightarrow> bool" where
  "covers g l cs ks h \<longleftrightarrow> map (g_lo g) cs = l # ks \<and> map (g_hi g) cs = ks @ [h]"

definition node_ok :: "nodes \<Rightarrow> nat set \<Rightarrow> geo \<Rightarrow> nat \<Rightarrow> bpt_node \<Rightarrow> bool" where
  "node_ok m T g p n \<longleftrightarrow> wf_node n \<and> g_lo g p < g_hi g p \<and>
     (if bn_leaf n
      then g_ht g p = 0 \<and> sorted_wrt (<) (nkeys n)
        \<and> (\<forall>k \<in> set (nkeys n). g_lo g p \<le> unat k \<and> unat k < g_hi g p)
      else \<exists>cs. nkids n = map Some cs \<and> covers g (g_lo g p) cs (map unat (nkeys n)) (g_hi g p)
        \<and> (\<forall>c \<in> set cs. c \<in> T \<and> Suc (g_ht g c) = g_ht g p
             \<and> (\<exists>cn. m c = Some cn \<and> bn_parent cn = Some p)))"

definition has_parent :: "nodes \<Rightarrow> nat set \<Rightarrow> nat \<Rightarrow> bool" where
  "has_parent m T p \<longleftrightarrow> (\<exists>q \<in> T. \<exists>qn. m q = Some qn \<and> Some p \<in> set (nkids qn))"

definition root_ok :: "nodes \<Rightarrow> nat \<Rightarrow> nat set \<Rightarrow> geo \<Rightarrow> bool" where
  "root_ok m r T g \<longleftrightarrow> r \<in> T \<and> finite T \<and> g_lo g r = 0 \<and> g_hi g r = 2 ^ 64
     \<and> (\<exists>rn. m r = Some rn \<and> bn_parent rn = None) \<and> (\<forall>p \<in> T. g_ht g p \<le> g_ht g r)"

definition tree_ok :: "nodes \<Rightarrow> nat \<Rightarrow> nat set \<Rightarrow> geo \<Rightarrow> bool" where
  "tree_ok m r T g \<longleftrightarrow> root_ok m r T g
     \<and> (\<forall>p \<in> T. \<exists>n. m p = Some n \<and> node_ok m T g p n)
     \<and> (\<forall>p \<in> T. p \<noteq> r \<longrightarrow> has_parent m T p)"

definition litems :: "bpt_node option \<Rightarrow> (u64 \<times> u64 \<times> u16) set" where
  "litems x = (case x of Some n \<Rightarrow> if bn_leaf n then set (items n) else {} | None \<Rightarrow> {})"

definition entries :: "nodes \<Rightarrow> nat set \<Rightarrow> (u64 \<times> u64 \<times> u16) set" where
  "entries m T = (\<Union>p \<in> T. litems (m p))"

text \<open>Occupancy: a leaf other than the root has two items, an inner node one key.\<close>

definition fills :: "nat \<Rightarrow> nat \<Rightarrow> bpt_node \<Rightarrow> bool" where
  "fills r p n \<longleftrightarrow> (if bn_leaf n then p = r \<or> 2 \<le> bn_num n else 1 \<le> bn_num n)"

definition filled :: "nodes \<Rightarrow> nat \<Rightarrow> nat set \<Rightarrow> bool" where
  "filled m r T \<longleftrightarrow> (\<forall>p \<in> T. \<forall>n. m p = Some n \<longrightarrow> fills r p n)"

type_synonym index_map = "u64 \<Rightarrow> (u64 \<times> u16) option"

definition bpt_rep :: "bpt \<Rightarrow> nat \<Rightarrow> nat set \<Rightarrow> index_map \<Rightarrow> bool" where
  "bpt_rep s r T M \<longleftrightarrow> heap_inv (bp_heap s) \<and> T \<subseteq> owned (bp_heap s)
     \<and> (\<exists>g. tree_ok (bp_nd s) r T g) \<and> filled (bp_nd s) r T
     \<and> entries (bp_nd s) T = {(k, dv). M k = Some dv}"

subsection \<open>Basic facts\<close>

lemma covers_length: "covers g l cs ks h \<Longrightarrow> length cs = Suc (length ks)"
  by (auto simp: covers_def dest: map_eq_imp_length_eq)

lemma covers_nth:
  assumes "covers g l cs ks h" "i < length cs"
  shows "g_lo g (cs ! i) = (l # ks) ! i" "g_hi g (cs ! i) = (ks @ [h]) ! i"
  using assms by (metis covers_def nth_map)+

lemma scan_le: "scan P xs \<le> length xs"
  by (simp add: scan_def length_takeWhile_le)

lemma scan_nth: "i < scan P xs \<Longrightarrow> P (xs ! i)"
  by (metis nth_mem scan_def set_takeWhileD takeWhile_nth)

lemma scan_stop: "scan P xs < length xs \<Longrightarrow> \<not> P (xs ! scan P xs)"
  by (simp add: scan_def nth_length_takeWhile)

lemma covers_scan:
  assumes "covers g l cs ks h" "l \<le> x" "x < h"
  shows "scan (\<lambda>k. k \<le> x) ks < length cs
    \<and> g_lo g (cs ! scan (\<lambda>k. k \<le> x) ks) \<le> x \<and> x < g_hi g (cs ! scan (\<lambda>k. k \<le> x) ks)"
proof -
  let ?i = "scan (\<lambda>k. k \<le> x) ks"
  have i: "?i \<le> length ks" by (rule scan_le)
  then have lt: "?i < length cs" using covers_length [OF assms(1)] by simp
  have "(l # ks) ! ?i \<le> x"
  proof (cases ?i)
    case (Suc j)
    then have "ks ! j \<le> x" using scan_nth [of j "\<lambda>k. k \<le> x" ks] by simp
    with Suc show ?thesis by simp
  qed (use assms in simp)
  moreover have "x < (ks @ [h]) ! ?i"
    using scan_stop [of "\<lambda>k. k \<le> x" ks] i assms(3)
    by (cases "?i < length ks") (auto simp: nth_append)
  ultimately show ?thesis using covers_nth [OF assms(1) lt] lt by simp
qed

text \<open>Intervals that overlap belong to the same child.\<close>

lemma covers_mono:
  assumes cov: "covers g l cs ks h" and ne: "\<forall>c \<in> set cs. g_lo g c < g_hi g c"
    and "i < j" "j < length cs"
  shows "g_hi g (cs ! i) \<le> g_lo g (cs ! j)"
  using assms(3,4)
proof (induction j)
  case (Suc j)
  have step: "g_lo g (cs ! Suc j) = g_hi g (cs ! j)"
    using covers_nth [OF cov, of "Suc j"] covers_nth [OF cov, of j] Suc.prems covers_length [OF cov]
    by (simp add: nth_append)
  show ?case
  proof (cases "i = j")
    case False
    then have "g_hi g (cs ! i) \<le> g_lo g (cs ! j)" using Suc by simp
    also have "\<dots> < g_hi g (cs ! j)" using ne Suc.prems by simp
    finally show ?thesis using step by simp
  qed (simp add: step)
qed simp

lemma covers_unique:
  assumes "covers g l cs ks h" "\<forall>c \<in> set cs. g_lo g c < g_hi g c"
    and "i < length cs" "j < length cs"
    and "g_lo g (cs ! i) \<le> x" "x < g_hi g (cs ! i)" "g_lo g (cs ! j) \<le> x" "x < g_hi g (cs ! j)"
  shows "i = j"
  using covers_mono [OF assms(1,2), of i j] covers_mono [OF assms(1,2), of j i] assms(3-)
  by (metis linorder_neqE_nat not_le order.strict_trans1)

lemma covers_distinct:
  assumes "covers g l cs ks h" "\<forall>c \<in> set cs. g_lo g c < g_hi g c"
  shows "distinct cs"
  unfolding distinct_conv_nth
proof (intro allI impI)
  fix i j assume "i < length cs" "j < length cs" "i \<noteq> j"
  then show "cs ! i \<noteq> cs ! j"
    using covers_unique [OF assms, of i j "g_lo g (cs ! i)"] assms(2) by (metis nth_mem order_refl)
qed

lemma covers_inside:
  assumes "covers g l cs ks h" "\<forall>c \<in> set cs. g_lo g c < g_hi g c" "c \<in> set cs"
  shows "l \<le> g_lo g c \<and> g_hi g c \<le> h"
proof -
  from assms(3) obtain j where j: "j < length cs" "c = cs ! j" by (auto simp: in_set_conv_nth)
  have len: "length cs = Suc (length ks)" by (rule covers_length [OF assms(1)])
  have "l \<le> g_lo g c"
  proof (cases "j = 0")
    case True
    then show ?thesis using covers_nth [OF assms(1), of 0] j by simp
  next
    case False
    then have "g_hi g (cs ! 0) \<le> g_lo g c" using covers_mono [OF assms(1,2), of 0 j] j by simp
    moreover have "g_lo g (cs ! 0) < g_hi g (cs ! 0)" using assms(2) len by simp
    ultimately show ?thesis using covers_nth(1) [OF assms(1), of 0] len by simp
  qed
  moreover have "g_hi g c \<le> h"
  proof (cases "j = length ks")
    case True
    then show ?thesis using covers_nth [OF assms(1), of j] j by simp
  next
    case False
    then have "g_hi g c \<le> g_lo g (cs ! length ks)"
      using covers_mono [OF assms(1,2), of j "length ks"] j len by simp
    moreover have "g_lo g (cs ! length ks) < g_hi g (cs ! length ks)" using assms(2) len by simp
    ultimately show ?thesis using covers_nth(2) [OF assms(1), of "length ks"] len by simp
  qed
  ultimately show ?thesis by simp
qed

lemma tree_node:
  "tree_ok m r T g \<Longrightarrow> p \<in> T \<Longrightarrow> \<exists>n. m p = Some n \<and> node_ok m T g p n"
  by (auto simp: tree_ok_def)

lemma tree_interval: "tree_ok m r T g \<Longrightarrow> p \<in> T \<Longrightarrow> g_lo g p < g_hi g p"
  by (drule (1) tree_node) (auto simp: node_ok_def)

lemma node_ok_inner:
  assumes "node_ok m T g p n" "\<not> bn_leaf n"
  obtains cs where "nkids n = map Some cs" "covers g (g_lo g p) cs (map unat (nkeys n)) (g_hi g p)"
    "\<forall>c \<in> set cs. c \<in> T \<and> Suc (g_ht g c) = g_ht g p \<and> (\<exists>cn. m c = Some cn \<and> bn_parent cn = Some p)"
  using assms by (auto simp: node_ok_def)

lemma node_ok_wf: "node_ok m T g p n \<Longrightarrow> wf_node n"
  by (simp add: node_ok_def)

lemma wf_lengths [simp]:
  assumes "wf_node n"
  shows "length (bn_fnv n) = 3" "length (bn_djb n) = 3" "length (bn_data n) = 3"
    "length (bn_child n) = 4" "bn_num n \<le> 3" "length (nkeys n) = bn_num n" "length (items n) = bn_num n"
  using assms by (auto simp: wf_node_def nkeys_def items_def)

lemma map_fst_items: "wf_node n \<Longrightarrow> map fst (items n) = nkeys n"
  by (simp add: items_def nkeys_def take_map [symmetric])

subsection \<open>Search\<close>

lemma scan_map: "scan P (map f xs) = scan (P \<circ> f) xs"
  by (simp add: scan_def takeWhile_map)

lemma search_leaf_loop_ok:
  assumes tree: "tree_ok m r T g"
  shows "p \<in> T \<Longrightarrow> g_lo g p \<le> unat k \<Longrightarrow> unat k < g_hi g p \<Longrightarrow>
     \<exists>q n. search_leaf_loop m p k = Some (Some q) \<and> q \<in> T \<and> m q = Some n \<and> bn_leaf n
       \<and> g_lo g q \<le> unat k \<and> unat k < g_hi g q"
proof (induction "g_ht g p" arbitrary: p rule: less_induct)
  case less
  obtain n where n: "m p = Some n" "node_ok m T g p n" using tree_node [OF tree less.prems(1)] by blast
  show ?case
  proof (cases "bn_leaf n")
    case True
    with n less.prems show ?thesis by (subst search_leaf_loop.simps) auto
  next
    case False
    then obtain cs where cs: "nkids n = map Some cs"
      "covers g (g_lo g p) cs (map unat (nkeys n)) (g_hi g p)"
      "\<forall>c \<in> set cs. c \<in> T \<and> Suc (g_ht g c) = g_ht g p \<and> (\<exists>cn. m c = Some cn \<and> bn_parent cn = Some p)"
      using node_ok_inner [OF n(2)] by blast
    let ?i = "scan (\<lambda>x. x \<le> k) (nkeys n)"
    have i: "scan (\<lambda>x. x \<le> unat k) (map unat (nkeys n)) = ?i"
      by (simp add: scan_map comp_def word_le_nat_alt)
    from covers_scan [OF cs(2) less.prems(2,3)] have lt: "?i < length cs"
      and int: "g_lo g (cs ! ?i) \<le> unat k" "unat k < g_hi g (cs ! ?i)"
      by (auto simp: i)
    have wf: "wf_node n" using n(2) by (rule node_ok_wf)
    have "length cs \<le> 4" using cs(1) wf by (metis length_map nkids_def False length_take min.cobounded1 min.commute wf_lengths(4))
    then have "child_of n ?i = Some (Some (cs ! ?i))"
      using cs(1) lt wf False unfolding child_of_def aget_def
      by (simp add: nkids_def) (metis length_map length_take lt min_less_iff_conj nth_map nth_take)
    then have "search_leaf_loop m p k = search_leaf_loop m (cs ! ?i) k"
      using n False wf by (subst search_leaf_loop.simps) (simp add: nkeys_def)
    moreover have "cs ! ?i \<in> T" "g_ht g (cs ! ?i) < g_ht g p"
      using cs(3) nth_mem [OF lt] by (auto simp: less_Suc_eq_le [symmetric] Suc_le_eq)
    ultimately show ?thesis using less.hyps [of "cs ! ?i"] int by simp
  qed
qed

text \<open>Two nodes of the same height that share a key are the same node.\<close>

lemma interval_unique:
  assumes tree: "tree_ok m r T g"
  shows "p \<in> T \<Longrightarrow> q \<in> T \<Longrightarrow> g_ht g p = g_ht g q \<Longrightarrow>
     g_lo g p \<le> x \<Longrightarrow> x < g_hi g p \<Longrightarrow> g_lo g q \<le> x \<Longrightarrow> x < g_hi g q \<Longrightarrow> p = q"
proof (induction "g_ht g r - g_ht g p" arbitrary: p q rule: less_induct)
  case less
  have up: "\<exists>P n cs. P \<in> T \<and> m P = Some n \<and> c \<in> set cs \<and> g_ht g P = Suc (g_ht g c)
      \<and> nkids n = map Some cs
      \<and> covers g (g_lo g P) cs (map unat (nkeys n)) (g_hi g P)
      \<and> (\<forall>c \<in> set cs. g_lo g c < g_hi g c) \<and> g_lo g P \<le> g_lo g c \<and> g_hi g c \<le> g_hi g P"
    if "c \<in> T" "c \<noteq> r" for c
  proof -
    from that tree obtain P n where P: "P \<in> T" "m P = Some n" "Some c \<in> set (nkids n)"
      by (auto simp: tree_ok_def has_parent_def)
    then have inner: "\<not> bn_leaf n" by (auto simp: nkids_def)
    have okP: "node_ok m T g P n" using tree_node [OF tree P(1)] P(2) by auto
    obtain cs where cs: "nkids n = map Some cs"
      "covers g (g_lo g P) cs (map unat (nkeys n)) (g_hi g P)"
      "\<forall>c \<in> set cs. c \<in> T \<and> Suc (g_ht g c) = g_ht g P \<and> (\<exists>cn. m c = Some cn \<and> bn_parent cn = Some P)"
      using node_ok_inner [OF okP inner] by blast
    have c: "c \<in> set cs" using P(3) cs(1) by auto
    have ne: "\<forall>c \<in> set cs. g_lo g c < g_hi g c" using cs(3) tree_interval [OF tree] by blast
    have ht: "g_ht g P = Suc (g_ht g c)" using cs(3) c by auto
    show ?thesis
      by (intro exI [of _ P] exI [of _ n] exI [of _ cs] conjI P(1,2) c ht cs(1,2) ne
          covers_inside [OF cs(2) ne c, THEN conjunct1] covers_inside [OF cs(2) ne c, THEN conjunct2])
  qed
  have root: "\<forall>p \<in> T. g_ht g p \<le> g_ht g r" using tree by (simp add: tree_ok_def root_ok_def)
  show ?case
  proof (cases "p = r \<or> q = r")
    case True
    have below: "g_ht g c < g_ht g r" if "c \<in> T" "c \<noteq> r" for c
      using up [OF that] root by (auto simp: Suc_le_eq [symmetric])
    from True show ?thesis
      using below [of p] below [of q] less.prems(1,2,3) by (cases "p = r"; cases "q = r") auto
  next
    case False
    obtain P n cs where P: "P \<in> T" "m P = Some n" "p \<in> set cs" "g_ht g P = Suc (g_ht g p)"
      "nkids n = map Some cs" "covers g (g_lo g P) cs (map unat (nkeys n)) (g_hi g P)"
      "\<forall>c \<in> set cs. g_lo g c < g_hi g c" "g_lo g P \<le> g_lo g p" "g_hi g p \<le> g_hi g P"
      using up [OF less.prems(1)] False by blast
    obtain Q n' cs' where Q: "Q \<in> T" "m Q = Some n'" "q \<in> set cs'" "g_ht g Q = Suc (g_ht g q)"
      "nkids n' = map Some cs'" "g_lo g Q \<le> g_lo g q" "g_hi g q \<le> g_hi g Q"
      using up [OF less.prems(2)] False by blast
    have "g_ht g p < g_ht g r" using root P(1,4) by fastforce
    then have "P = Q" using less.hyps [of P Q] P Q less.prems by simp
    then have "cs' = cs" using P(2,5) Q(2,5) by (simp add: inj_map_eq_map)
    with P(3) Q(3) obtain i j where "i < length cs" "p = cs ! i" "j < length cs" "q = cs ! j"
      by (auto simp: in_set_conv_nth)
    with covers_unique [OF P(6,7), of i j x] less.prems show ?thesis by simp
  qed
qed

lemma leaf_ht: "node_ok m T g p n \<Longrightarrow> bn_leaf n \<Longrightarrow> g_ht g p = 0"
  by (simp add: node_ok_def)

lemma item_key: "wf_node n \<Longrightarrow> (k, d, v) \<in> set (items n) \<Longrightarrow> k \<in> set (nkeys n)"
  using map_fst_items [of n] by (metis fst_conv imageI list.set_map)

text \<open>All entries with key \<open>k\<close> are in the leaf whose interval contains \<open>k\<close>.\<close>

lemma entries_at_leaf:
  assumes tree: "tree_ok m r T g" and q: "q \<in> T" "m q = Some n" "bn_leaf n"
    and k: "g_lo g q \<le> unat k" "unat k < g_hi g q"
  shows "(k, dv) \<in> entries m T \<longleftrightarrow> (k, dv) \<in> set (items n)"
proof
  assume "(k, dv) \<in> set (items n)"
  with q show "(k, dv) \<in> entries m T" by (auto simp: entries_def litems_def intro!: bexI [of _ q])
next
  assume "(k, dv) \<in> entries m T"
  then obtain p n' where p: "p \<in> T" "m p = Some n'" "bn_leaf n'" "(k, dv) \<in> set (items n')"
    by (auto simp: entries_def litems_def split: option.splits if_splits)
  have ok: "node_ok m T g p n'" using tree_node [OF tree p(1)] p(2) by auto
  then have "k \<in> set (nkeys n')" using p(4) item_key [OF node_ok_wf] by (cases dv) auto
  then have int: "g_lo g p \<le> unat k" "unat k < g_hi g p"
    using ok p(3) by (auto simp: node_ok_def)
  have "node_ok m T g q n" using tree_node [OF tree q(1)] q(2) by auto
  then have "g_ht g p = g_ht g q" using leaf_ht ok p(3) q(3) by metis
  then have "p = q" using interval_unique [OF tree p(1) q(1) _ int k] by simp
  with p q show "(k, dv) \<in> set (items n)" by simp
qed

lemma search_leaf_rep:
  assumes "tree_ok m r T g"
  obtains q n where "search_leaf m (Some r) k = Some (Some q)" "q \<in> T" "m q = Some n" "bn_leaf n"
    "node_ok m T g q n" "g_lo g q \<le> unat k" "unat k < g_hi g q"
    "\<And>dv. (k, dv) \<in> entries m T \<longleftrightarrow> (k, dv) \<in> set (items n)"
proof -
  have r: "r \<in> T" "g_lo g r = 0" "g_hi g r = 2 ^ 64" using assms by (auto simp: tree_ok_def root_ok_def)
  have "unat k < 2 ^ 64" using unsigned_less [of k] by simp
  then obtain q n where q: "search_leaf_loop m r k = Some (Some q)" "q \<in> T" "m q = Some n" "bn_leaf n"
    "g_lo g q \<le> unat k" "unat k < g_hi g q"
    using search_leaf_loop_ok [OF assms r(1), of k] r by auto
  moreover have "node_ok m T g q n" using tree_node [OF assms q(2)] q(3) by auto
  ultimately show ?thesis
    using that entries_at_leaf [OF assms q(2,3,4,5,6)] by (simp add: search_leaf_def)
qed

end
