(* ===== verification/BPT_Insert.thy ===== *)
theory BPT_Insert
  imports BPT_Inv
begin

text \<open>
  \<open>bpt_insert\<close> keeps the tree invariant and adds exactly one entry. The climb of
  \<open>add_parent\<close> is proved against \<open>pending\<close>: the invariant of a tree one of whose nodes
  \<open>left\<close> has been split, the right half \<open>right\<close> being complete but not yet linked from the
  parent \<open>P\<close>.
\<close>

section \<open>Lists\<close>

lemma insert_at_0 [simp]: "insert_at 0 x xs = x # xs"
  by (simp add: insert_at_def)

lemma insert_at_Suc [simp]: "insert_at (Suc i) x (y # ys) = y # insert_at i x ys"
  by (simp add: insert_at_def)

lemma length_insert_at [simp]: "length (insert_at i x xs) = Suc (length xs)"
  by (simp add: insert_at_def)

lemma map_insert_at: "map f (insert_at i x xs) = insert_at i (f x) (map f xs)"
  by (simp add: insert_at_def take_map drop_map)

lemma insert_at_length [simp]: "insert_at (length xs) x (xs @ ys) = xs @ x # ys"
  by (simp add: insert_at_def)

lemma insert_at_after [simp]: "insert_at (Suc (length xs)) x (xs @ y # ys) = xs @ y # x # ys"
  by (simp add: insert_at_def)

lemma zip_insert_at:
  "length xs = length ys \<Longrightarrow> zip (insert_at i x xs) (insert_at i y ys) = insert_at i (x, y) (zip xs ys)"
  by (simp add: insert_at_def take_zip drop_zip)

lemma set_insert_at: "set (insert_at i x xs) = insert x (set xs)"
proof -
  have "set (insert_at i x xs) = insert x (set (take i xs @ drop i xs))"
    by (simp add: insert_at_def del: append_take_drop_id)
  then show ?thesis by simp
qed

lemma scan_Cons [simp]: "scan P (x # xs) = (if P x then Suc (scan P xs) else 0)"
  by (simp add: scan_def)

lemma scan_Nil [simp]: "scan P [] = 0"
  by (simp add: scan_def)

lemma scan_first: "x \<notin> set as \<Longrightarrow> scan (\<lambda>c. c \<noteq> x) (as @ x # bs) = length as"
  by (induction as) auto

lemma sorted_insert_at:
  fixes x :: u64
  shows "sorted_wrt (<) ks \<Longrightarrow>
     \<not> (scan (\<lambda>k. k < x) ks < length ks \<and> ks ! scan (\<lambda>k. k < x) ks = x) \<Longrightarrow>
     sorted_wrt (<) (insert_at (scan (\<lambda>k. k < x) ks) x ks)"
proof (induction ks)
  case (Cons k ks)
  show ?case
  proof (cases "k < x")
    case True
    with Cons have "sorted_wrt (<) (insert_at (scan (\<lambda>k. k < x) ks) x ks)" by simp
    with True Cons.prems(1) show ?thesis by (auto simp: set_insert_at)
  next
    case False
    with Cons.prems have "x < k" by simp
    with False Cons.prems(1) show ?thesis by auto
  qed
qed simp

lemma scan_lt_absent:
  fixes x :: u64
  assumes "sorted_wrt (<) ks" "\<not> (scan (\<lambda>k. k < x) ks < length ks \<and> ks ! scan (\<lambda>k. k < x) ks = x)"
  shows "x \<notin> set ks"
  using assms
proof (induction ks)
  case (Cons k ks)
  then show ?case by (cases "k < x") auto
qed simp

section \<open>Changing nodes\<close>

definition reparent :: "nodes \<Rightarrow> nat set \<Rightarrow> nat option \<Rightarrow> nodes" where
  "reparent m A par = (\<lambda>a. if a \<in> A then map_option (\<lambda>n. n\<lparr>bn_parent := par\<rparr>) (m a) else m a)"

lemma set_parents_eq:
  "\<forall>c \<in> set cs. m c \<noteq> None \<Longrightarrow> set_parents m (map Some cs) par = Some (reparent m (set cs) par)"
proof (induction cs arbitrary: m)
  case Nil
  then show ?case by (simp add: reparent_def)
next
  case (Cons c cs)
  then obtain n where n: "m c = Some n" by auto
  have "set_parents (m(c \<mapsto> n\<lparr>bn_parent := par\<rparr>)) (map Some cs) par
      = Some (reparent (m(c \<mapsto> n\<lparr>bn_parent := par\<rparr>)) (set cs) par)"
    using Cons.prems by (intro Cons.IH) auto
  moreover have "reparent (m(c \<mapsto> n\<lparr>bn_parent := par\<rparr>)) (set cs) par = reparent m (set (c # cs)) par"
    using n by (auto simp: reparent_def)
  ultimately show ?case using n by (simp add: set_parent_def)
qed

definition inner_of :: "bpt_node \<Rightarrow> u64 list \<Rightarrow> nat list \<Rightarrow> bpt_node" where
  "inner_of n ks cs = n\<lparr>bn_leaf := False, bn_num := length ks,
     bn_fnv := ks @ drop (length ks) (bn_fnv n),
     bn_child := map Some cs @ drop (length cs) (bn_child n)\<rparr>"

lemma put_inner_eq:
  assumes n: "m p = Some n" "wf_node n" and len: "length cs = Suc (length ks)" "length ks \<le> 3"
    and dom: "\<forall>c \<in> set cs. m c \<noteq> None"
  shows "put_inner m p (ks @ kx) (map Some cs @ cx) (length ks)
    = Some (reparent (m(p \<mapsto> inner_of n ks cs)) (set cs) (Some p))"
proof -
  have "set_parents (m(p \<mapsto> inner_of n ks cs)) (map Some cs) (Some p)
      = Some (reparent (m(p \<mapsto> inner_of n ks cs)) (set cs) (Some p))"
    using dom by (intro set_parents_eq) auto
  then show ?thesis
    using n len by (simp add: put_inner_def inner_of_def)
qed

lemma inner_of_view [simp]:
  assumes "wf_node n" "length cs = Suc (length ks)" "length ks \<le> 3"
  shows "wf_node (inner_of n ks cs)" "bn_leaf (inner_of n ks cs) = False"
    "nkeys (inner_of n ks cs) = ks" "nkids (inner_of n ks cs) = map Some cs"
    "bn_parent (inner_of n ks cs) = bn_parent n"
  using assms by (auto simp: wf_node_def inner_of_def nkeys_def nkids_def simp del: wf_lengths)

lemma node_view_parent [simp]:
  "wf_node (n\<lparr>bn_parent := x\<rparr>) = wf_node n" "nkeys (n\<lparr>bn_parent := x\<rparr>) = nkeys n"
  "nkids (n\<lparr>bn_parent := x\<rparr>) = nkids n" "items (n\<lparr>bn_parent := x\<rparr>) = items n"
  by (simp_all add: wf_node_def nkeys_def nkids_def items_def del: wf_lengths)

lemma node_view_next [simp]:
  "wf_node (n\<lparr>bn_next := x\<rparr>) = wf_node n" "nkeys (n\<lparr>bn_next := x\<rparr>) = nkeys n"
  "nkids (n\<lparr>bn_next := x\<rparr>) = nkids n" "items (n\<lparr>bn_next := x\<rparr>) = items n"
  by (simp_all add: wf_node_def nkeys_def nkids_def items_def del: wf_lengths)

lemma node_ok_parent [simp]: "node_ok m T g p (n\<lparr>bn_parent := x\<rparr>) = node_ok m T g p n"
  by (simp add: node_ok_def)

lemma node_ok_next [simp]: "node_ok m T g p (n\<lparr>bn_next := x\<rparr>) = node_ok m T g p n"
  by (simp add: node_ok_def)

lemma node_ok_frame:
  assumes ok: "node_ok m T g p n" and T: "T \<subseteq> T'" and g: "g' p = g p"
    and kids: "\<And>c cn. Some c \<in> set (nkids n) \<Longrightarrow> m c = Some cn \<Longrightarrow> bn_parent cn = Some p \<Longrightarrow>
      g' c = g c \<and> (\<exists>cn'. m' c = Some cn' \<and> bn_parent cn' = Some p)"
  shows "node_ok m' T' g' p n"
proof (cases "bn_leaf n")
  case True
  with ok g show ?thesis by (simp add: node_ok_def)
next
  case False
  then obtain cs where cs: "nkids n = map Some cs"
    "covers g (g_lo g p) cs (map unat (nkeys n)) (g_hi g p)"
    "\<forall>c \<in> set cs. c \<in> T \<and> Suc (g_ht g c) = g_ht g p \<and> (\<exists>cn. m c = Some cn \<and> bn_parent cn = Some p)"
    using node_ok_inner [OF ok] by blast
  have k: "g' c = g c \<and> (\<exists>cn'. m' c = Some cn' \<and> bn_parent cn' = Some p)" if "c \<in> set cs" for c
    using kids [of c] cs(1,3) that by auto
  then have "map (g_lo g') cs = map (g_lo g) cs" "map (g_hi g') cs = map (g_hi g) cs" by auto
  with cs(2) g have "covers g' (g_lo g' p) cs (map unat (nkeys n)) (g_hi g' p)"
    by (simp add: covers_def)
  with ok False cs(1,3) k T g show ?thesis
    unfolding node_ok_def by (auto intro!: exI [of _ cs])
qed

lemma node_ok_kid:
  assumes "node_ok m T g p n" "Some c \<in> set (nkids n)"
  shows "c \<in> T" "Suc (g_ht g c) = g_ht g p" "\<exists>cn. m c = Some cn \<and> bn_parent cn = Some p"
proof -
  have inner: "\<not> bn_leaf n" using assms(2) by (auto simp: nkids_def)
  obtain cs where "nkids n = map Some cs"
    "covers g (g_lo g p) cs (map unat (nkeys n)) (g_hi g p)"
    "\<forall>c \<in> set cs. c \<in> T \<and> Suc (g_ht g c) = g_ht g p \<and> (\<exists>cn. m c = Some cn \<and> bn_parent cn = Some p)"
    using node_ok_inner [OF assms(1) inner] by blast
  with assms(2) show "c \<in> T" "Suc (g_ht g c) = g_ht g p" "\<exists>cn. m c = Some cn \<and> bn_parent cn = Some p"
    by auto
qed

section \<open>A split node waiting for its parent\<close>

definition pending ::
  "nodes \<Rightarrow> nat \<Rightarrow> nat set \<Rightarrow> geo \<Rightarrow> nat \<Rightarrow> nat \<Rightarrow> u64 \<Rightarrow> nat \<Rightarrow> bool" where
  "pending m r T g P left sep right \<longleftrightarrow>
     root_ok m r T g \<and> P \<in> T \<and> left \<in> T \<and> right \<notin> T \<and> left \<noteq> r
     \<and> g_hi g left = unat sep \<and> g_lo g right = unat sep \<and> g_ht g right = g_ht g left
     \<and> (\<forall>p \<in> T - {P}. \<exists>n. m p = Some n \<and> node_ok m T g p n)
     \<and> (\<exists>n. m right = Some n \<and> node_ok m T g right n)
     \<and> (\<exists>pn. m P = Some pn \<and> \<not> bn_leaf pn \<and> Some left \<in> set (nkids pn)
          \<and> node_ok m T (g(left := (g_lo g left, g_hi g right, g_ht g left))) P pn)
     \<and> (\<forall>p \<in> T. p \<noteq> r \<longrightarrow> has_parent m (insert right T) p)"

lemma pending_parent:
  assumes "pending m r T g P left sep right"
  obtains pn as bs ks where "m P = Some pn" "\<not> bn_leaf pn" "wf_node pn"
    "nkids pn = map Some (as @ left # bs)" "nkeys pn = ks" "length ks = length as + length bs"
    "left \<notin> set as" "distinct (as @ left # right # bs)" "g_lo g P < g_hi g P"
    "covers g (g_lo g P) (as @ left # right # bs) (insert_at (length as) (unat sep) (map unat ks)) (g_hi g P)"
    "\<forall>c \<in> set (as @ left # bs). c \<in> T \<and> Suc (g_ht g c) = g_ht g P \<and> (\<exists>cn. m c = Some cn \<and> bn_parent cn = Some P)"
    "Suc (g_ht g right) = g_ht g P" "P \<notin> set (as @ left # right # bs)"
proof -
  let ?g = "g(left := (g_lo g left, g_hi g right, g_ht g left))"
  from assms obtain pn where pn: "m P = Some pn" "\<not> bn_leaf pn" "Some left \<in> set (nkids pn)"
    and ok: "node_ok m T ?g P pn" and others: "\<forall>p \<in> T - {P}. \<exists>n. m p = Some n \<and> node_ok m T g p n"
    and hi: "g_hi g left = unat sep" "g_lo g right = unat sep" "g_ht g right = g_ht g left"
    and right: "right \<notin> T" "\<exists>n. m right = Some n \<and> node_ok m T g right n"
    and PT: "P \<in> T" "left \<in> T"
    unfolding pending_def by blast
  obtain cs where cs: "nkids pn = map Some cs"
    "covers ?g (g_lo ?g P) cs (map unat (nkeys pn)) (g_hi ?g P)"
    "\<forall>c \<in> set cs. c \<in> T \<and> Suc (g_ht ?g c) = g_ht ?g P \<and> (\<exists>cn. m c = Some cn \<and> bn_parent cn = Some P)"
    using node_ok_inner [OF ok pn(2)] by blast
  have left: "left \<in> set cs" using pn(3) cs(1) by auto
  have neP: "left \<noteq> P" using cs(3) left by fastforce
  have ht: "\<forall>c \<in> set cs. c \<in> T \<and> Suc (g_ht g c) = g_ht g P \<and> (\<exists>cn. m c = Some cn \<and> bn_parent cn = Some P)"
    using cs(3) neP by (auto split: if_splits)
  have notP: "P \<notin> set cs" using ht by fastforce
  have int: "g_lo g c < g_hi g c" if "c \<in> T - {P}" for c
    using others that by (fastforce simp: node_ok_def)
  have l: "g_lo g left < unat sep" using int [of left] PT neP hi by simp
  have r: "unat sep < g_hi g right" using right(2) hi by (auto simp: node_ok_def)
  have ne: "\<forall>c \<in> set cs. g_lo ?g c < g_hi ?g c"
    using int ht notP l r by auto
  have dist: "distinct cs" by (rule covers_distinct [OF cs(2) ne])
  from left obtain as bs where split: "cs = as @ left # bs" by (auto simp: in_set_conv_decomp)
  let ?ks = "map unat (nkeys pn)"
  have len: "length ?ks = length as + length bs" using covers_length [OF cs(2)] split by simp
  have nl: "left \<notin> set as" "left \<notin> set bs" using dist split by auto
  then have mp: "map (g_lo ?g) as = map (g_lo g) as" "map (g_lo ?g) bs = map (g_lo g) bs"
    "map (g_hi ?g) as = map (g_hi g) as" "map (g_hi ?g) bs = map (g_hi g) bs" by auto
  have lo: "map (g_lo g) as @ g_lo g left # map (g_lo g) bs = g_lo g P # ?ks"
    and hi2: "map (g_hi g) as @ g_hi g right # map (g_hi g) bs = ?ks @ [g_hi g P]"
    using cs(2) split neP mp unfolding covers_def by (simp_all only: map_append list.map fun_upd_same fun_upd_other fst_conv snd_conv not_False_eq_True)
  have "map (g_lo g) bs = drop (length as) ?ks"
    using arg_cong [OF lo, of "drop (Suc (length as))"] by simp
  moreover have "map (g_lo g) as @ [g_lo g left] = g_lo g P # take (length as) ?ks"
    using arg_cong [OF lo, of "take (Suc (length as))"] by simp
  moreover have "map (g_hi g) as = take (length as) ?ks"
    using arg_cong [OF hi2, of "take (length as)"] len by simp
  moreover have "g_hi g right # map (g_hi g) bs = drop (length as) ?ks @ [g_hi g P]"
    using arg_cong [OF hi2, of "drop (length as)"] len by simp
  ultimately have cov: "covers g (g_lo g P) (as @ left # right # bs)
      (insert_at (length as) (unat sep) ?ks) (g_hi g P)"
    using hi by (simp add: covers_def insert_at_def)
  have "right \<notin> set cs" using ht right(1) by blast
  with dist split have "distinct (as @ left # right # bs)" by auto
  moreover have "P \<notin> set (as @ left # right # bs)" using notP split right(1) PT by auto
  moreover have "g_lo g P < g_hi g P" using ok neP by (auto simp: node_ok_def)
  moreover have "Suc (g_ht g right) = g_ht g P" using ht left hi by simp
  ultimately show ?thesis
    using that [of pn as bs "nkeys pn"] pn(1,2) node_ok_wf [OF ok] cs(1) split len nl cov ht by auto
qed

text \<open>
  From \<open>m\<close> to \<open>m'\<close> the nodes of \<open>S\<close> other than \<open>P\<close> keep everything but their parent link,
  and that changes only for the nodes of \<open>K\<close>.
\<close>

definition kids_moved :: "nodes \<Rightarrow> nodes \<Rightarrow> nat set \<Rightarrow> nat \<Rightarrow> nat set \<Rightarrow> bool" where
  "kids_moved m m' S P K \<longleftrightarrow>
     (\<forall>a \<in> S - {P}. \<exists>n x. m a = Some n \<and> m' a = Some (n\<lparr>bn_parent := x\<rparr>)
        \<and> (a \<notin> K \<longrightarrow> x = bn_parent n))
     \<and> (\<exists>x y. m P = Some x \<and> m' P = Some y \<and> bn_parent y = bn_parent x)"

lemma kids_moved_node:
  "kids_moved m m' S P K \<Longrightarrow> a \<in> S \<Longrightarrow> a \<noteq> P \<Longrightarrow> m a = Some n \<Longrightarrow>
     \<exists>x. m' a = Some (n\<lparr>bn_parent := x\<rparr>) \<and> (a \<notin> K \<longrightarrow> x = bn_parent n)"
  by (force simp: kids_moved_def)

lemma kids_moved_parent:
  "kids_moved m m' S P K \<Longrightarrow> a \<in> S \<Longrightarrow> a \<notin> K \<Longrightarrow> m a = Some n \<Longrightarrow> \<exists>n'. m' a = Some n' \<and> bn_parent n' = bn_parent n"
  by (cases "a = P") (force simp: kids_moved_def)+

lemma other_ok:
  assumes mv: "kids_moved m m' S P K" and p: "p \<in> S" "p \<noteq> P" and n: "m p = Some n" "node_ok m T g p n"
    and T: "T \<subseteq> S" "S \<subseteq> T'" and g: "g' p = g p" "\<And>c. Some c \<in> set (nkids n) \<Longrightarrow> g' c = g c"
    and K: "\<forall>c \<in> K \<inter> T. \<exists>cn. m c = Some cn \<and> bn_parent cn = Some P"
  shows "\<exists>n'. m' p = Some n' \<and> node_ok m' T' g' p n' \<and> nkids n' = nkids n \<and> bn_leaf n' = bn_leaf n"
proof -
  obtain x where x: "m' p = Some (n\<lparr>bn_parent := x\<rparr>)" using kids_moved_node [OF mv p n(1)] by blast
  have "node_ok m' T' g' p n"
  proof (rule node_ok_frame [OF n(2)])
    show "T \<subseteq> T'" using T by blast
    show "g' p = g p" by (rule g)
    fix c cn assume c: "Some c \<in> set (nkids n)" "m c = Some cn" "bn_parent cn = Some p"
    have "c \<in> T" using node_ok_kid(1) [OF n(2) c(1)] .
    moreover have "c \<notin> K" using K c(2,3) \<open>c \<in> T\<close> p(2) by (metis IntI option.inject)
    ultimately have "\<exists>cn'. m' c = Some cn' \<and> bn_parent cn' = Some p"
      using kids_moved_parent [OF mv, of c cn] c T by auto
    with g(2) [OF c(1)] show "g' c = g c \<and> (\<exists>cn'. m' c = Some cn' \<and> bn_parent cn' = Some p)" by blast
  qed
  with x show ?thesis by auto
qed

lemma moved_reach:
  assumes mv: "kids_moved m m' S P K" and p: "has_parent m S p" "p \<notin> K" and S: "S \<subseteq> T'"
    and PK: "m P = Some pn" "\<forall>c. Some c \<in> set (nkids pn) \<longrightarrow> c \<in> K"
  shows "has_parent m' T' p"
proof -
  obtain q qn where q: "q \<in> S" "m q = Some qn" "Some p \<in> set (nkids qn)"
    using p(1) by (auto simp: has_parent_def)
  have "q \<noteq> P" using q PK p(2) by auto
  then obtain x where "m' q = Some (qn\<lparr>bn_parent := x\<rparr>)" using kids_moved_node [OF mv q(1) _ q(2)] by blast
  with q S show ?thesis by (auto simp: has_parent_def intro!: bexI [of _ q])
qed

lemma moved_litems:
  assumes "kids_moved m m' S P K" "m P = Some pn" "\<not> bn_leaf pn" "m' P = Some pn'" "\<not> bn_leaf pn'"
  shows "entries m' S = entries m S"
proof -
  have "litems (m' a) = litems (m a)" if "a \<in> S" for a
  proof (cases "a = P")
    case True
    with assms show ?thesis by (simp add: litems_def)
  next
    case False
    have "\<forall>a \<in> S - {P}. \<exists>n x. m a = Some n \<and> m' a = Some (n\<lparr>bn_parent := x\<rparr>)"
      using assms(1) unfolding kids_moved_def by meson
    with False that have "\<exists>n x. m a = Some n \<and> m' a = Some (n\<lparr>bn_parent := x\<rparr>)" by blast
    then show ?thesis by (auto simp: litems_def split: if_splits)
  qed
  then show ?thesis by (simp add: entries_def)
qed

lemma moved_filled:
  assumes "kids_moved m m' S P K" "filled m r S" "m' P = Some pn" "\<not> bn_leaf pn" "1 \<le> bn_num pn"
  shows "filled m' r S"
  unfolding filled_def
proof (intro ballI allI impI)
  fix p n assume p: "p \<in> S" "m' p = Some n"
  show "fills r p n"
  proof (cases "p = P")
    case True
    with p assms(3-5) show ?thesis by (simp add: fills_def)
  next
    case False
    then obtain n0 x where "m p = Some n0" "m' p = Some (n0\<lparr>bn_parent := x\<rparr>)"
      using assms(1) p(1) unfolding kids_moved_def by blast
    with assms(2) p show ?thesis by (auto simp: filled_def fills_def)
  qed
qed

lemma num_inner_of [simp]: "bn_num (inner_of n ks cs) = length ks"
  by (simp add: inner_of_def)

lemma filled_insert: "filled m r (insert p T) \<longleftrightarrow> (\<forall>n. m p = Some n \<longrightarrow> fills r p n) \<and> filled m r T"
  by (auto simp: filled_def)

lemma node_ok_innerI:
  assumes "wf_node n" "g_lo g p < g_hi g p" "\<not> bn_leaf n" "nkids n = map Some cs"
    "covers g (g_lo g p) cs (map unat (nkeys n)) (g_hi g p)"
    "\<And>c. c \<in> set cs \<Longrightarrow> c \<in> T \<and> Suc (g_ht g c) = g_ht g p \<and> (\<exists>cn. m c = Some cn \<and> bn_parent cn = Some p)"
  shows "node_ok m T g p n"
  using assms by (auto simp: node_ok_def)

text \<open>The facts about a pending split that the three continuations share.\<close>

lemma pending_facts:
  assumes "pending m r T g P left sep right"
  shows "root_ok m r T g" "P \<in> T" "left \<in> T" "right \<notin> T" "left \<noteq> r"
    "\<And>p. p \<in> insert right T \<Longrightarrow> p \<noteq> P \<Longrightarrow> \<exists>n. m p = Some n \<and> node_ok m T g p n"
    "\<And>p. p \<in> T \<Longrightarrow> p \<noteq> r \<Longrightarrow> has_parent m (insert right T) p"
  using assms by (auto simp: pending_def)

text \<open>The parent has room: the right half is linked and the tree is whole.\<close>

lemma pending_room:
  assumes pend: "pending m r T g P left sep right"
    and pn: "m P = Some pn" "\<not> bn_leaf pn" "wf_node pn" "nkids pn = map Some (as @ left # bs)"
    and cov: "covers g (g_lo g P) (as @ left # right # bs) (map unat ks) (g_hi g P)"
    and kids: "\<forall>c \<in> set (as @ left # bs). c \<in> T \<and> Suc (g_ht g c) = g_ht g P
      \<and> (\<exists>cn. m c = Some cn \<and> bn_parent cn = Some P)"
    and right: "Suc (g_ht g right) = g_ht g P" and P: "P \<notin> set (as @ left # right # bs)"
    and int: "g_lo g P < g_hi g P" and len: "length ks \<le> 3"
  defines "cs \<equiv> as @ left # right # bs"
  defines "m' \<equiv> reparent (m(P \<mapsto> inner_of pn ks cs)) (set cs) (Some P)"
  shows "tree_ok m' r (insert right T) g" "entries m' (insert right T) = entries m (insert right T)"
    "filled m r (insert right T) \<Longrightarrow> filled m' r (insert right T)"
proof -
  note pf = pending_facts [OF pend]
  let ?S = "insert right T" and ?K = "set cs"
  have lencs: "length cs = Suc (length ks)" using covers_length [OF cov] by (simp add: cs_def)
  have PS: "P \<in> ?S" and Pr: "P \<noteq> right" using pf by auto
  have mP: "m' P = Some (inner_of pn ks cs)" using P by (simp add: m'_def reparent_def cs_def)
  have dom: "\<exists>n. m a = Some n" if "a \<in> ?S" for a using pf(6) [OF that] pn by (cases "a = P") auto
  have mv: "kids_moved m m' ?S P ?K"
    unfolding kids_moved_def
  proof (intro conjI ballI)
    fix a assume a: "a \<in> ?S - {P}"
    then obtain n where "m a = Some n" using dom by blast
    with a show "\<exists>n x. m a = Some n \<and> m' a = Some (n\<lparr>bn_parent := x\<rparr>) \<and> (a \<notin> ?K \<longrightarrow> x = bn_parent n)"
      by (intro exI [of _ n] exI [of _ "if a \<in> ?K then Some P else bn_parent n"])
        (auto simp: m'_def reparent_def)
  next
    show "\<exists>x y. m P = Some x \<and> m' P = Some y \<and> bn_parent y = bn_parent x"
      using pn(1,3) mP lencs len by simp
  qed
  have K: "\<forall>c \<in> ?K \<inter> T. \<exists>cn. m c = Some cn \<and> bn_parent cn = Some P"
    using kids pf(4) by (auto simp: cs_def)
  have PK: "\<forall>c. Some c \<in> set (nkids pn) \<longrightarrow> c \<in> ?K" using pn(4) by (auto simp: cs_def)
  show "entries m' ?S = entries m ?S"
    by (rule moved_litems [OF mv pn(1,2) mP]) (use pn len lencs in simp)
  have "1 \<le> length ks" using lencs by (simp add: cs_def)
  then show "filled m' r ?S" if "filled m r ?S"
    using pn(3) lencs len by (intro moved_filled [OF mv that mP]) simp_all
  have kid: "c \<in> ?S \<and> Suc (g_ht g c) = g_ht g P \<and> (\<exists>cn. m' c = Some cn \<and> bn_parent cn = Some P)"
    if "c \<in> set cs" for c
  proof -
    have "c \<in> ?S" "Suc (g_ht g c) = g_ht g P" using that kids right by (auto simp: cs_def)
    moreover have "c \<noteq> P" using that P by (auto simp: cs_def)
    ultimately show ?thesis using dom [of c] that by (auto simp: m'_def reparent_def)
  qed
  have okP: "node_ok m' ?S g P (inner_of pn ks cs)"
    using pn(3) lencs len int cov kid by (intro node_ok_innerI [where cs = cs]) (auto simp: cs_def)
  have ok: "\<exists>n. m' p = Some n \<and> node_ok m' ?S g p n" if p: "p \<in> ?S" for p
  proof (cases "p = P")
    case True
    with mP okP show ?thesis by simp
  next
    case False
    obtain n where n: "m p = Some n" "node_ok m T g p n" using pf(6) [OF p False] by blast
    show ?thesis
      using other_ok [OF mv p False n, of ?S g] K by auto
  qed
  have reach: "has_parent m' ?S p" if p: "p \<in> ?S" "p \<noteq> r" for p
  proof (cases "p \<in> ?K")
    case True
    with mP pn(3) lencs len PS show ?thesis by (auto simp: has_parent_def intro!: bexI [of _ P])
  next
    case False
    then have "p \<in> T" using p by (auto simp: cs_def)
    then show ?thesis using moved_reach [OF mv _ False order_refl pn(1) PK] pf(7) p(2) by blast
  qed
  obtain rn where rn: "m r = Some rn" "bn_parent rn = None" "r \<in> T" using pf(1) by (auto simp: root_ok_def)
  have "r \<notin> ?K"
  proof
    assume "r \<in> ?K"
    with K rn(3) have "\<exists>cn. m r = Some cn \<and> bn_parent cn = Some P" by blast
    with rn show False by simp
  qed
  then have "\<exists>rn. m' r = Some rn \<and> bn_parent rn = None"
    using kids_moved_parent [OF mv, of r rn] rn by auto
  moreover have "g_ht g right \<le> g_ht g r" using pf(1,2) right by (force simp: root_ok_def)
  ultimately have "root_ok m' r ?S g" using pf(1) by (simp add: root_ok_def)
  with ok reach show "tree_ok m' r ?S g" by (simp add: tree_ok_def)
qed

lemma covers_split:
  assumes "covers g l cs ks h" "i < length ks"
  shows "g_lo g (cs ! 0) = l"
    "map (g_lo g) (take (Suc i) cs) = l # take i ks" "map (g_hi g) (take (Suc i) cs) = take i ks @ [ks ! i]"
    "map (g_lo g) (drop (Suc i) cs) = ks ! i # drop (Suc i) ks"
    "map (g_hi g) (drop (Suc i) cs) = drop (Suc i) ks @ [h]"
proof -
  have lo: "map (g_lo g) cs = l # ks" and hi: "map (g_hi g) cs = ks @ [h]"
    using assms(1) by (auto simp: covers_def)
  show "g_lo g (cs ! 0) = l" using lo by (cases cs) auto
  show "map (g_lo g) (take (Suc i) cs) = l # take i ks" using lo by (simp add: take_map [symmetric])
  show "map (g_hi g) (take (Suc i) cs) = take i ks @ [ks ! i]"
    using hi assms(2) by (simp add: take_map [symmetric] take_Suc_conv_app_nth)
  show "map (g_lo g) (drop (Suc i) cs) = ks ! i # drop (Suc i) ks"
    using lo assms(2) by (simp add: drop_map [symmetric] Cons_nth_drop_Suc)
  show "map (g_hi g) (drop (Suc i) cs) = drop (Suc i) ks @ [h]"
    using hi assms(2) by (simp add: drop_map [symmetric])
qed

lemma covers_nonempty:
  assumes "covers g l cs ks h" "\<forall>c \<in> set cs. g_lo g c < g_hi g c"
  shows "l < h"
proof -
  have "cs \<noteq> []" using covers_length [OF assms(1)] by auto
  then have c: "hd cs \<in> set cs" by simp
  have "l \<le> g_lo g (hd cs) \<and> g_hi g (hd cs) \<le> h" by (rule covers_inside [OF assms c])
  moreover have "g_lo g (hd cs) < g_hi g (hd cs)" using assms(2) c by blast
  ultimately show ?thesis by simp
qed

lemma covers_cong:
  "covers g l cs ks h \<Longrightarrow> \<forall>c \<in> set cs. g' c = g c \<Longrightarrow> covers g' l cs ks h"
  by (simp add: covers_def cong: map_cong)

text \<open>The parent is full and has a parent itself: it splits, and its right half is pending.\<close>

lemma pending_split:
  assumes pend: "pending m r T g P left sep right"
    and pn: "m P = Some pn" "\<not> bn_leaf pn" "wf_node pn" "nkids pn = map Some (as @ left # bs)"
    and cov: "covers g (g_lo g P) (as @ left # right # bs) (map unat ks) (g_hi g P)"
    and kids: "\<forall>c \<in> set (as @ left # bs). c \<in> T \<and> Suc (g_ht g c) = g_ht g P
      \<and> (\<exists>cn. m c = Some cn \<and> bn_parent cn = Some P)"
    and right: "Suc (g_ht g right) = g_ht g P" and P: "P \<notin> set (as @ left # right # bs)"
    and int: "g_lo g P < g_hi g P" and len: "length ks = 4"
    and R: "m R = Some rz" "wf_node rz" "R \<notin> insert right T"
    and Pr: "P \<noteq> r" and G: "bn_parent pn = Some G"
  defines "cs \<equiv> as @ left # right # bs"
  defines "m1 \<equiv> reparent (m(P \<mapsto> inner_of pn (take 2 ks) (take 3 cs))) (set (take 3 cs)) (Some P)"
  defines "rn \<equiv> (inner_of rz (drop 3 ks) (drop 3 cs))\<lparr>bn_parent := Some G\<rparr>"
  defines "m' \<equiv> (reparent (m1(R \<mapsto> inner_of rz (drop 3 ks) (drop 3 cs))) (set (drop 3 cs)) (Some R))(R \<mapsto> rn)"
  shows "\<exists>g'. pending m' r (insert right T) g' G P (ks ! 2) R \<and> g_ht g' r - g_ht g' G < g_ht g r - g_ht g P"
    and "entries m' (insert R (insert right T)) = entries m (insert right T)"
    and "filled m r (insert right T) \<Longrightarrow> filled m' r (insert R (insert right T))"
proof -
  note pf = pending_facts [OF pend]
  let ?S = "insert right T" and ?K = "set cs"
  let ?A = "set (take 3 cs)" and ?B = "set (drop 3 cs)"
  have lencs: "length cs = 5" using covers_length [OF cov] len by (simp add: cs_def)
  have tk: "length (take 3 cs) = Suc (length (take 2 ks))" "length (take 2 ks) \<le> 3"
    "length (drop 3 cs) = Suc (length (drop 3 ks))" "length (drop 3 ks) \<le> 3"
    using lencs len by auto
  have AB: "?A \<union> ?B = ?K" by (metis append_take_drop_id set_append)
  have KS: "?K \<subseteq> ?S" using kids by (auto simp: cs_def)
  have PS: "P \<in> ?S" and PR: "P \<noteq> R" using pf R by auto
  have dist: "distinct cs"
  proof -
    have "\<forall>c \<in> set cs. g_lo g c < g_hi g c"
    proof
      fix c assume "c \<in> set cs"
      then have "c \<in> ?S" "c \<noteq> P" using KS P by (auto simp: cs_def)
      then show "g_lo g c < g_hi g c" using pf(6) [of c] by (auto simp: node_ok_def)
    qed
    with cov show ?thesis unfolding cs_def by (rule covers_distinct)
  qed
  then have disj: "?A \<inter> ?B = {}" by (metis append_take_drop_id distinct_append)
  have notin: "P \<notin> ?K" "R \<notin> ?K" using P KS R(3) by (auto simp: cs_def)
  have m1R: "m1 R = Some rz" using R PR notin AB by (auto simp: m1_def reparent_def)
  have mP: "m' P = Some (inner_of pn (take 2 ks) (take 3 cs))"
    using notin AB PR by (auto simp: m'_def m1_def reparent_def)
  have mR: "m' R = Some rn" by (simp add: m'_def)
  have mo: "m' a = (if a \<in> ?A then map_option (\<lambda>n. n\<lparr>bn_parent := Some P\<rparr>) (m a)
      else if a \<in> ?B then map_option (\<lambda>n. n\<lparr>bn_parent := Some R\<rparr>) (m a) else m a)"
    if "a \<noteq> P" "a \<noteq> R" for a
    using that disj by (auto simp: m'_def m1_def reparent_def)
  have dom: "\<exists>n. m a = Some n" if "a \<in> ?S" for a using pf(6) [OF that] pn by (cases "a = P") auto
  have mv: "kids_moved m m' ?S P ?K"
    unfolding kids_moved_def
  proof (intro conjI ballI)
    fix a assume a: "a \<in> ?S - {P}"
    then obtain n where "m a = Some n" using dom by blast
    moreover have "a \<noteq> R" using a R(3) by auto
    ultimately show "\<exists>n x. m a = Some n \<and> m' a = Some (n\<lparr>bn_parent := x\<rparr>) \<and> (a \<notin> ?K \<longrightarrow> x = bn_parent n)"
      using a AB mo [of a]
      by (intro exI [of _ n] exI [of _ "if a \<in> ?A then Some P else if a \<in> ?B then Some R else bn_parent n"])
        auto
  next
    show "\<exists>x y. m P = Some x \<and> m' P = Some y \<and> bn_parent y = bn_parent x"
      using pn(1,3) mP tk by simp
  qed
  have K: "\<forall>c \<in> ?K \<inter> T. \<exists>cn. m c = Some cn \<and> bn_parent cn = Some P"
    using kids pf(4) by (auto simp: cs_def)
  have PK: "\<forall>c. Some c \<in> set (nkids pn) \<longrightarrow> c \<in> ?K" using pn(4) by (auto simp: cs_def)
  have "entries m' ?S = entries m ?S"
    by (rule moved_litems [OF mv pn(1,2) mP]) (use pn tk in simp)
  moreover have "litems (m' R) = {}" using mR R(2) tk by (simp add: rn_def litems_def)
  ultimately show "entries m' (insert R ?S) = entries m ?S" by (simp add: entries_def)
  show "filled m' r (insert R ?S)" if "filled m r ?S"
    unfolding filled_insert [of m' r R] using pn(3) tk len R(2) mR
    by (intro conjI moved_filled [OF mv that mP]) (simp_all add: rn_def fills_def)
  \<comment> \<open>the grandparent\<close>
  obtain q qn where q: "q \<in> ?S" "m q = Some qn" "Some P \<in> set (nkids qn)"
    using pf(7) [OF pf(2) Pr] by (auto simp: has_parent_def)
  have qP: "q \<noteq> P" using q PK pn(1) notin by auto
  obtain qn' where "m q = Some qn'" "node_ok m T g q qn'" using pf(6) [OF q(1) qP] by blast
  with q have okq: "node_ok m T g q qn" by simp
  have "q = G" using node_ok_kid(3) [OF okq q(3)] pn(1) G by simp
  note q = q [unfolded this] and qP = qP [unfolded this] and okG = okq [unfolded this]
  have htG: "g_ht g G = Suc (g_ht g P)" using node_ok_kid(2) [OF okG q(3)] by simp
  have GT: "G \<in> T" using q(1) htG right by auto
  \<comment> \<open>the new geometry\<close>
  define g' where "g' = g(P := (g_lo g P, unat (ks ! 2), g_ht g P), R := (unat (ks ! 2), g_hi g P, g_ht g P))"
  have g'o: "g' a = g a" if "a \<noteq> P" "a \<noteq> R" for a using that by (simp add: g'_def)
  have g'K: "\<forall>c \<in> ?K. g' c = g c" using notin g'o by metis
  have i2: "2 < length (map unat ks)" using len by simp
  note cv = covers_split [OF cov [folded cs_def] i2, simplified]
  have cvA: "covers g (g_lo g P) (take 3 cs) (map unat (take 2 ks)) (unat (ks ! 2))"
    and cvB: "covers g (unat (ks ! 2)) (drop 3 cs) (map unat (drop 3 ks)) (g_hi g P)"
    using cv len by (simp_all add: covers_def take_map drop_map)
  have ne: "\<forall>c \<in> ?K. g_lo g c < g_hi g c"
  proof
    fix c assume "c \<in> ?K"
    then have "c \<in> ?S" "c \<noteq> P" using KS notin by auto
    then show "g_lo g c < g_hi g c" using pf(6) [of c] by (auto simp: node_ok_def)
  qed
  have neA: "\<forall>c \<in> ?A. g_lo g c < g_hi g c" and neB: "\<forall>c \<in> ?B. g_lo g c < g_hi g c"
    using ne AB by blast+
  have intA: "g_lo g P < unat (ks ! 2)" by (rule covers_nonempty [OF cvA neA])
  have intB: "unat (ks ! 2) < g_hi g P" by (rule covers_nonempty [OF cvB neB])
  have kid: "c \<in> ?S \<and> Suc (g_ht g' c) = g_ht g P
      \<and> (\<exists>cn. m' c = Some cn \<and> bn_parent cn = Some (if c \<in> ?A then P else R))"
    if c: "c \<in> ?K" for c
  proof -
    have "c \<in> ?S" "Suc (g_ht g c) = g_ht g P" using c kids right by (auto simp: cs_def)
    moreover have "c \<noteq> P" "c \<noteq> R" using c notin by auto
    moreover have "c \<notin> ?A \<Longrightarrow> c \<in> ?B" using c AB by auto
    ultimately show ?thesis using dom [of c] mo [of c] g'o by auto
  qed
  have gPR: "g' P = (g_lo g P, unat (ks ! 2), g_ht g P)" "g' R = (unat (ks ! 2), g_hi g P, g_ht g P)"
    using PR by (simp_all add: g'_def)
  have kidA: "c \<in> ?S \<and> Suc (g_ht g' c) = g_ht g P \<and> (\<exists>cn. m' c = Some cn \<and> bn_parent cn = Some P)"
    if "c \<in> ?A" for c using kid [of c] that AB by auto
  have kidB: "c \<in> ?S \<and> Suc (g_ht g' c) = g_ht g P \<and> (\<exists>cn. m' c = Some cn \<and> bn_parent cn = Some R)"
    if "c \<in> ?B" for c
  proof -
    have "c \<in> ?K" "c \<notin> ?A" using that AB disj by auto
    then show ?thesis using kid [of c] by simp
  qed
  have "covers g' (g_lo g P) (take 3 cs) (map unat (take 2 ks)) (unat (ks ! 2))"
    "covers g' (unat (ks ! 2)) (drop 3 cs) (map unat (drop 3 ks)) (g_hi g P)"
    using covers_cong [OF cvA, of g'] covers_cong [OF cvB, of g'] g'K AB by blast+
  note cvAB = this
  have okP: "node_ok m' ?S g' P (inner_of pn (take 2 ks) (take 3 cs))"
    using pn(3) tk intA cvAB kidA
    by (intro node_ok_innerI [where cs = "take 3 cs"]) (simp_all add: gPR)
  have okR: "node_ok m' ?S g' R rn"
    unfolding rn_def node_ok_parent
    using R(2) tk intB cvAB kidB
    by (intro node_ok_innerI [where cs = "drop 3 cs"]) (simp_all add: gPR)
  have ok: "\<exists>n. m' p = Some n \<and> node_ok m' ?S g' p n" if p: "p \<in> ?S" "p \<noteq> G" for p
  proof (cases "p = P")
    case True
    with mP okP show ?thesis by simp
  next
    case False
    obtain n where n: "m p = Some n" "node_ok m T g p n" using pf(6) [OF p(1) False] by blast
    have pR: "p \<noteq> R" using p R(3) by auto
    have "g' c = g c" if "Some c \<in> set (nkids n)" for c
    proof -
      have "c \<in> T" "c \<noteq> P" using node_ok_kid [OF n(2) that] pn(1) G p(2) by auto
      then show ?thesis using R(3) by (intro g'o) auto
    qed
    then show ?thesis
      using other_ok [OF mv p(1) False n, of ?S g'] K g'o [OF False pR] by auto
  qed
  have okG': "\<exists>n. m' G = Some n \<and> \<not> bn_leaf n \<and> Some P \<in> set (nkids n)
      \<and> node_ok m' ?S (g'(P := (g_lo g' P, g_hi g' R, g_ht g' P))) G n"
  proof -
    let ?g = "g'(P := (g_lo g' P, g_hi g' R, g_ht g' P))"
    have gP: "?g a = g a" if "a \<noteq> R" for a using that PR by (simp add: g'_def)
    have GR: "G \<noteq> R" using GT R(3) by auto
    have "?g c = g c" if "Some c \<in> set (nkids qn)" for c
      using node_ok_kid(1) [OF okG that] R(3) by (intro gP) auto
    then obtain n' where "m' G = Some n'" "node_ok m' ?S ?g G n'" "nkids n' = nkids qn" "bn_leaf n' = bn_leaf qn"
      using other_ok [OF mv q(1) qP q(2) okG, of ?S ?g] K gP [OF GR] by auto
    moreover have "\<not> bn_leaf qn" using q(3) by (auto simp: nkids_def)
    ultimately show ?thesis using q(3) by auto
  qed
  have reach: "has_parent m' (insert R ?S) p" if p: "p \<in> ?S" "p \<noteq> r" for p
  proof (cases "p \<in> ?K")
    case True
    then have "p \<in> ?A \<or> p \<in> ?B" using AB by auto
    then show ?thesis
      unfolding has_parent_def using mP mR pn(3) R(2) tk PS
      by (auto simp: rn_def intro: bexI [of _ P] bexI [of _ R])
  next
    case False
    then have "p \<in> T" using p by (auto simp: cs_def)
    then show ?thesis using moved_reach [OF mv _ False _ pn(1) PK] pf(7) p(2) by blast
  qed
  obtain rt where rt: "m r = Some rt" "bn_parent rt = None" "r \<in> T" using pf(1) by (auto simp: root_ok_def)
  have "r \<notin> ?K"
  proof
    assume "r \<in> ?K"
    with K rt(3) have "\<exists>cn. m r = Some cn \<and> bn_parent cn = Some P" by blast
    with rt show False by simp
  qed
  then have "\<exists>rn. m' r = Some rn \<and> bn_parent rn = None"
    using kids_moved_parent [OF mv, of r rt] rt by auto
  moreover have htr: "\<forall>p \<in> T. g_ht g p \<le> g_ht g r" using pf(1) by (simp add: root_ok_def)
  moreover have "g_ht g right \<le> g_ht g r" using htr pf(2) right by force
  moreover have gr: "g' r = g r" using Pr R(3) rt(3) by (intro g'o) auto
  moreover have "\<forall>p \<in> ?S. g_ht g' p = g_ht g p" using R(3) by (auto simp: g'_def)
  ultimately have root: "root_ok m' r ?S g'"
    using pf(1) by (simp add: root_ok_def)
  have "pending m' r ?S g' G P (ks ! 2) R"
    unfolding pending_def
    using root GT PS R(3) Pr ok okG' reach mR okR PR
    by (auto simp: g'_def)
  moreover have "g_ht g' r - g_ht g' G < g_ht g r - g_ht g P"
  proof -
    have "g' G = g G" using GT R(3) qP by (intro g'o) auto
    moreover have "g_ht g G \<le> g_ht g r" using htr GT by blast
    ultimately show ?thesis using gr htG by simp
  qed
  ultimately show "\<exists>g'. pending m' r ?S g' G P (ks ! 2) R \<and> g_ht g' r - g_ht g' G < g_ht g r - g_ht g P"
    by blast
qed

definition root_node :: "u64 \<Rightarrow> nat \<Rightarrow> nat \<Rightarrow> bpt_node" where
  "root_node k l ri = zero_node\<lparr>bn_leaf := False, bn_num := 1, bn_fnv := [k, 0, 0],
     bn_child := [Some l, Some ri, None, None]\<rparr>"

lemma root_node_view [simp]:
  "wf_node (root_node k l ri)" "bn_leaf (root_node k l ri) = False" "nkeys (root_node k l ri) = [k]"
  "nkids (root_node k l ri) = map Some [l, ri]" "bn_parent (root_node k l ri) = None"
  by (simp_all add: root_node_def zero_node_def wf_node_def nkeys_def nkids_def del: wf_lengths)

text \<open>The parent is the full root: two new nodes take its halves and the tree grows.\<close>

lemma pending_root:
  assumes pend: "pending m r T g P left sep right"
    and pn: "m P = Some pn" "\<not> bn_leaf pn" "wf_node pn" "nkids pn = map Some (as @ left # bs)"
    and cov: "covers g (g_lo g P) (as @ left # right # bs) (map unat ks) (g_hi g P)"
    and kids: "\<forall>c \<in> set (as @ left # bs). c \<in> T \<and> Suc (g_ht g c) = g_ht g P
      \<and> (\<exists>cn. m c = Some cn \<and> bn_parent cn = Some P)"
    and right: "Suc (g_ht g right) = g_ht g P" and P: "P \<notin> set (as @ left # right # bs)"
    and len: "length ks = 4" and Pr: "P = r"
    and R: "m R = Some rz" "wf_node rz" "R \<notin> insert right T"
    and L: "m L = Some lz" "wf_node lz" "L \<notin> insert right T" "L \<noteq> R"
  defines "cs \<equiv> as @ left # right # bs"
  defines "m1 \<equiv> reparent (m(L \<mapsto> inner_of lz (take 2 ks) (take 3 cs))) (set (take 3 cs)) (Some L)"
  defines "m2 \<equiv> reparent (m1(R \<mapsto> inner_of rz (drop 3 ks) (drop 3 cs))) (set (drop 3 cs)) (Some R)"
  defines "ln \<equiv> (inner_of lz (take 2 ks) (take 3 cs))\<lparr>bn_parent := Some r\<rparr>"
  defines "rn \<equiv> (inner_of rz (drop 3 ks) (drop 3 cs))\<lparr>bn_parent := Some r\<rparr>"
  defines "m' \<equiv> m2(r \<mapsto> root_node (ks ! 2) L R, L \<mapsto> ln, R \<mapsto> rn)"
  shows "\<exists>g'. tree_ok m' r (insert L (insert R (insert right T))) g'"
    and "entries m' (insert L (insert R (insert right T))) = entries m (insert right T)"
    and "m2 L = Some (inner_of lz (take 2 ks) (take 3 cs))"
    and "m2 R = Some (inner_of rz (drop 3 ks) (drop 3 cs))"
    and "m2 r \<noteq> None"
    and "filled m r (insert right T) \<Longrightarrow> filled m' r (insert L (insert R (insert right T)))"
proof -
  note pf = pending_facts [OF pend]
  let ?S = "insert right T" and ?K = "set cs"
  let ?T = "insert L (insert R ?S)"
  let ?A = "set (take 3 cs)" and ?B = "set (drop 3 cs)"
  have lencs: "length cs = 5" using covers_length [OF cov] len by (simp add: cs_def)
  have tk: "length (take 3 cs) = Suc (length (take 2 ks))" "length (take 2 ks) \<le> 3"
    "length (drop 3 cs) = Suc (length (drop 3 ks))" "length (drop 3 ks) \<le> 3"
    using lencs len by auto
  have AB: "?A \<union> ?B = ?K" by (metis append_take_drop_id set_append)
  have KS: "?K \<subseteq> ?S" using kids by (auto simp: cs_def)
  have rS: "r \<in> ?S" "r \<in> T" using pf Pr by auto
  have nr: "r \<noteq> L" "r \<noteq> R" using rS R(3) L(3) by auto
  have ne: "\<forall>c \<in> ?K. g_lo g c < g_hi g c"
  proof
    fix c assume "c \<in> ?K"
    then have "c \<in> ?S" "c \<noteq> P" using KS P by (auto simp: cs_def)
    then show "g_lo g c < g_hi g c" using pf(6) [of c] by (auto simp: node_ok_def)
  qed
  have dist: "distinct cs" using cov ne unfolding cs_def by (rule covers_distinct)
  then have disj: "?A \<inter> ?B = {}" by (metis append_take_drop_id distinct_append)
  have notin: "r \<notin> ?K" "R \<notin> ?K" "L \<notin> ?K" using P Pr KS R(3) L(3) by (auto simp: cs_def)
  have m1R: "m1 R = Some rz" using R L notin AB by (auto simp: m1_def reparent_def)
  show m2L: "m2 L = Some (inner_of lz (take 2 ks) (take 3 cs))"
    using L notin AB by (auto simp: m2_def m1_def reparent_def)
  show m2R: "m2 R = Some (inner_of rz (drop 3 ks) (drop 3 cs))"
    using L notin AB by (auto simp: m2_def reparent_def)
  show "m2 r \<noteq> None"
    using notin AB nr pn(1) Pr by (auto simp: m2_def m1_def reparent_def)
  have mL: "m' L = Some ln" and mR: "m' R = Some rn" and mr: "m' r = Some (root_node (ks ! 2) L R)"
    using nr L by (auto simp: m'_def)
  have mo: "m' a = (if a \<in> ?A then map_option (\<lambda>n. n\<lparr>bn_parent := Some L\<rparr>) (m a)
      else if a \<in> ?B then map_option (\<lambda>n. n\<lparr>bn_parent := Some R\<rparr>) (m a) else m a)"
    if "a \<noteq> L" "a \<noteq> R" "a \<noteq> r" for a
    using that disj by (auto simp: m'_def m2_def m1_def reparent_def)
  have dom: "\<exists>n. m a = Some n" if "a \<in> ?S" for a using pf(6) [OF that] pn by (cases "a = P") auto
  obtain rt where rt: "m r = Some rt" "bn_parent rt = None" using pf(1) by (auto simp: root_ok_def)
  have mv: "kids_moved m m' ?S r ?K"
    unfolding kids_moved_def
  proof (intro conjI ballI)
    fix a assume a: "a \<in> ?S - {r}"
    then obtain n where "m a = Some n" using dom by blast
    moreover have "a \<noteq> R" "a \<noteq> L" using a R(3) L(3) by auto
    ultimately show "\<exists>n x. m a = Some n \<and> m' a = Some (n\<lparr>bn_parent := x\<rparr>) \<and> (a \<notin> ?K \<longrightarrow> x = bn_parent n)"
      using a AB mo [of a]
      by (intro exI [of _ n] exI [of _ "if a \<in> ?A then Some L else if a \<in> ?B then Some R else bn_parent n"])
        auto
  next
    show "\<exists>x y. m r = Some x \<and> m' r = Some y \<and> bn_parent y = bn_parent x"
      using rt mr by simp
  qed
  have K: "\<forall>c \<in> ?K \<inter> T. \<exists>cn. m c = Some cn \<and> bn_parent cn = Some r"
    using kids pf(4) Pr by (auto simp: cs_def)
  have PK: "\<forall>c. Some c \<in> set (nkids pn) \<longrightarrow> c \<in> ?K" using pn(4) by (auto simp: cs_def)
  have "entries m' ?S = entries m ?S"
    by (rule moved_litems [OF mv pn(1) [unfolded Pr] pn(2) mr]) simp
  moreover have "litems (m' R) = {}" "litems (m' L) = {}"
    using mR mL R(2) L(2) tk by (simp_all add: rn_def ln_def litems_def)
  ultimately show "entries m' ?T = entries m ?S" by (simp add: entries_def)
  show "filled m' r ?T" if "filled m r ?S"
    unfolding filled_insert [of m' r L] filled_insert [of m' r R] using tk len R(2) L(2) mR mL
    by (intro conjI moved_filled [OF mv that mr]) (simp_all add: rn_def ln_def fills_def root_node_def)
  define H where "H = g_ht g r"
  define g' where "g' = g(r := (0, 2 ^ 64, Suc H), L := (0, unat (ks ! 2), H), R := (unat (ks ! 2), 2 ^ 64, H))"
  have g'o: "g' a = g a" if "a \<noteq> r" "a \<noteq> L" "a \<noteq> R" for a using that by (simp add: g'_def)
  have g'K: "\<forall>c \<in> ?K. g' c = g c" using notin g'o by metis
  have gr: "g_lo g P = 0" "g_hi g P = 2 ^ 64" using pf(1) Pr by (auto simp: root_ok_def)
  have i2: "2 < length (map unat ks)" using len by simp
  note cv = covers_split [OF cov [folded cs_def] i2, simplified]
  have cvA: "covers g 0 (take 3 cs) (map unat (take 2 ks)) (unat (ks ! 2))"
    and cvB: "covers g (unat (ks ! 2)) (drop 3 cs) (map unat (drop 3 ks)) (2 ^ 64)"
    using cv len gr by (simp_all add: covers_def take_map drop_map)
  have neA: "\<forall>c \<in> ?A. g_lo g c < g_hi g c" and neB: "\<forall>c \<in> ?B. g_lo g c < g_hi g c"
    using ne AB by blast+
  have intA: "0 < unat (ks ! 2)" by (rule covers_nonempty [OF cvA neA])
  have intB: "unat (ks ! 2) < 2 ^ 64" by (rule covers_nonempty [OF cvB neB])
  have kid: "c \<in> ?S \<and> Suc (g_ht g' c) = H
      \<and> (\<exists>cn. m' c = Some cn \<and> bn_parent cn = Some (if c \<in> ?A then L else R))"
    if c: "c \<in> ?K" for c
  proof -
    have "c \<in> ?S" "Suc (g_ht g c) = H" using c kids right Pr by (auto simp: cs_def H_def)
    moreover have "c \<noteq> r" "c \<noteq> L" "c \<noteq> R" using c notin by auto
    moreover have "c \<notin> ?A \<Longrightarrow> c \<in> ?B" using c AB by auto
    ultimately show ?thesis using dom [of c] mo [of c] g'o by auto
  qed
  have gLR: "g' L = (0, unat (ks ! 2), H)" "g' R = (unat (ks ! 2), 2 ^ 64, H)"
    "g' r = (0, 2 ^ 64, Suc H)"
    using L nr by (simp_all add: g'_def)
  have kidA: "c \<in> ?T \<and> Suc (g_ht g' c) = H \<and> (\<exists>cn. m' c = Some cn \<and> bn_parent cn = Some L)"
    if "c \<in> ?A" for c using kid [of c] that AB by auto
  have kidB: "c \<in> ?T \<and> Suc (g_ht g' c) = H \<and> (\<exists>cn. m' c = Some cn \<and> bn_parent cn = Some R)"
    if "c \<in> ?B" for c
  proof -
    have "c \<in> ?K" "c \<notin> ?A" using that AB disj by auto
    then show ?thesis using kid [of c] by simp
  qed
  have "covers g' 0 (take 3 cs) (map unat (take 2 ks)) (unat (ks ! 2))"
    "covers g' (unat (ks ! 2)) (drop 3 cs) (map unat (drop 3 ks)) (2 ^ 64)"
    using covers_cong [OF cvA, of g'] covers_cong [OF cvB, of g'] g'K AB by blast+
  note cvAB = this
  have okL: "node_ok m' ?T g' L ln"
    unfolding ln_def node_ok_parent
    using L tk intA cvAB kidA
    by (intro node_ok_innerI [where cs = "take 3 cs"]) (simp_all add: gLR)
  have okR: "node_ok m' ?T g' R rn"
    unfolding rn_def node_ok_parent
    using R(2) tk intB cvAB kidB
    by (intro node_ok_innerI [where cs = "drop 3 cs"]) (simp_all add: gLR)
  have okr: "node_ok m' ?T g' r (root_node (ks ! 2) L R)"
    using mL mR
    by (intro node_ok_innerI [where cs = "[L, R]"]) (auto simp: gLR covers_def ln_def rn_def)
  have ok: "\<exists>n. m' p = Some n \<and> node_ok m' ?T g' p n" if p: "p \<in> ?T" for p
  proof (cases "p = r \<or> p = L \<or> p = R")
    case True
    with mr mL mR okr okL okR show ?thesis by auto
  next
    case False
    then have pS: "p \<in> ?S" and pr: "p \<noteq> r" using p by auto
    then obtain n where n: "m p = Some n" "node_ok m T g p n" using pf(6) [OF pS] Pr by blast
    have "g' c = g c" if "Some c \<in> set (nkids n)" for c
    proof -
      have "c \<in> T" "c \<noteq> r" using node_ok_kid [OF n(2) that] rt by auto
      then show ?thesis using R(3) L(3) by (intro g'o) auto
    qed
    then show ?thesis
      using other_ok [OF mv pS pr n, of ?T g'] K g'o [of p] False by auto
  qed
  have reach: "has_parent m' ?T p" if p: "p \<in> ?T" "p \<noteq> r" for p
  proof (cases "p \<in> ?K \<or> p = L \<or> p = R")
    case True
    then have "p \<in> ?A \<or> p \<in> ?B \<or> p = L \<or> p = R" using AB by auto
    then show ?thesis
      unfolding has_parent_def using mL mR mr L(2) R(2) tk rS
      by (auto simp: rn_def ln_def intro: bexI [of _ L] bexI [of _ R] bexI [of _ r])
  next
    case False
    then have "p \<in> T" using p by (auto simp: cs_def)
    then have hp: "has_parent m ?S p" using p(2) by (rule pf(7))
    have pK: "p \<notin> ?K" using False by blast
    show ?thesis by (rule moved_reach [OF mv hp pK _ pn(1) [unfolded Pr] PK]) auto
  qed
  have htr: "\<forall>p \<in> T. g_ht g p \<le> H" using pf(1) by (simp add: root_ok_def H_def)
  have "g_ht g' p \<le> Suc H" if "p \<in> ?T" for p
    using htr that right Pr by (auto simp: g'_def H_def)
  then have "root_ok m' r ?T g'"
    using pf(1) mr nr by (auto simp: root_ok_def g'_def)
  with ok reach have "tree_ok m' r ?T g'" by (simp add: tree_ok_def)
  then show "\<exists>g'. tree_ok m' r ?T g'" by blast
qed

end
