(* ===== verification/BPT_Climb.thy ===== *)
theory BPT_Climb
  imports BPT_Insert
begin

text \<open>
  \<open>add_parent\<close> meets its contract: from a pending split it either links everything up to a
  well-formed tree with the same entries, or stops because the heap has no room for a node.
  Everything outside the tree is left alone (\<open>touched\<close>).
\<close>

section \<open>Allocation of nodes\<close>

text \<open>The heap has no room for another node.\<close>

definition full :: "bpt \<Rightarrow> bool" where
  "full s \<longleftrightarrow> heap_alloc (bp_heap s) BPT_NODE_SIZE = Some (None, bp_heap s)"

lemma node_size_fits: "fits BPT_NODE_SIZE"
  by (simp add: fits_def BPT_NODE_SIZE_def HDR_def)

lemma create_node_cases:
  assumes "heap_inv (bp_heap s)"
  obtains "create_node s l = Some (None, s)" "full s"
  | a s' where "create_node s l = Some (Some a, s')" "heap_inv (bp_heap s')"
      "a \<notin> owned (bp_heap s)" "owned (bp_heap s') = insert a (owned (bp_heap s))"
      "bp_nd s' = (bp_nd s)(a \<mapsto> zero_node\<lparr>bn_leaf := l\<rparr>)"
      "live (bp_heap s) \<subseteq> live (bp_heap s')"
  using hp.malloc_cases [OF assms node_size_fits]
proof (cases)
  case 1
  with that(1) show ?thesis by (simp add: create_node_def full_def)
next
  case (2 a n h')
  let ?s = "s\<lparr>bp_heap := h', bp_nd := (bp_nd s)(a \<mapsto> zero_node\<lparr>bn_leaf := l\<rparr>)\<rparr>"
  have "create_node s l = Some (Some a, ?s)" using 2 by (simp add: create_node_def)
  moreover have "owned h' = insert a (owned (bp_heap s))" using 2 by (simp add: owned_def)
  ultimately show ?thesis using 2 by (intro that(2) [of a ?s]) (auto simp: hp_addrs)
qed

lemma zero_node_wf [simp]: "wf_node zero_node" "bn_leaf zero_node = False"
  by (simp_all add: zero_node_def wf_node_def)

lemma zero_leaf_wf [simp]: "wf_node (zero_node\<lparr>bn_leaf := l\<rparr>)"
  by (simp add: zero_node_def wf_node_def)

definition touched :: "nat set \<Rightarrow> bpt \<Rightarrow> bpt \<Rightarrow> bool" where
  "touched U s s' \<longleftrightarrow> heap_inv (bp_heap s') \<and> owned (bp_heap s) \<subseteq> owned (bp_heap s')
     \<and> (\<forall>a \<in> owned (bp_heap s) - U. bp_nd s' a = bp_nd s a)
     \<and> live (bp_heap s) \<subseteq> live (bp_heap s')"

lemma touched_refl: "heap_inv (bp_heap s) \<Longrightarrow> touched U s s"
  by (simp add: touched_def)

lemma touched_trans:
  assumes "touched U s s1" "touched U' s1 s2" "U' \<inter> owned (bp_heap s) \<subseteq> U"
  shows "touched U s s2"
proof -
  have "bp_nd s2 a = bp_nd s a" if a: "a \<in> owned (bp_heap s) - U" for a
  proof -
    have "a \<in> owned (bp_heap s1) - U'" using a assms by (auto simp: touched_def)
    then have "bp_nd s2 a = bp_nd s1 a" using assms(2) by (simp add: touched_def)
    with a assms(1) show ?thesis by (simp add: touched_def)
  qed
  moreover have "owned (bp_heap s) \<subseteq> owned (bp_heap s2)" "heap_inv (bp_heap s2)"
    "live (bp_heap s) \<subseteq> live (bp_heap s2)"
    using assms(1,2) by (auto simp: touched_def)
  ultimately show ?thesis by (simp add: touched_def)
qed

section \<open>Locality\<close>

lemma node_ok_local:
  assumes "node_ok m T g p n" "\<forall>a \<in> T. m' a = m a"
  shows "node_ok m' T g p n"
proof (rule node_ok_frame [OF assms(1)])
  fix c cn assume "Some c \<in> set (nkids n)" "m c = Some cn" "bn_parent cn = Some p"
  then show "g c = g c \<and> (\<exists>cn'. m' c = Some cn' \<and> bn_parent cn' = Some p)"
    using node_ok_kid(1) [OF assms(1)] assms(2) by simp
qed simp_all

lemma has_parent_local: "has_parent m T p \<Longrightarrow> \<forall>a \<in> T. m' a = m a \<Longrightarrow> has_parent m' T p"
  by (auto simp: has_parent_def)

lemma root_ok_local: "root_ok m r T g \<Longrightarrow> \<forall>a \<in> T. m' a = m a \<Longrightarrow> root_ok m' r T g"
  by (auto simp: root_ok_def)

lemma tree_ok_local:
  assumes "tree_ok m r T g" "\<forall>a \<in> T. m' a = m a"
  shows "tree_ok m' r T g"
  unfolding tree_ok_def
proof (intro conjI ballI impI)
  show "root_ok m' r T g" using assms root_ok_local by (auto simp: tree_ok_def)
next
  fix p assume p: "p \<in> T"
  then obtain n where "m p = Some n" "node_ok m T g p n" using assms(1) by (auto simp: tree_ok_def)
  with assms(2) p show "\<exists>n. m' p = Some n \<and> node_ok m' T g p n" by (auto intro: node_ok_local)
next
  fix p assume "p \<in> T" "p \<noteq> r"
  then show "has_parent m' T p" using assms has_parent_local by (auto simp: tree_ok_def)
qed

lemma filled_local: "filled m r T \<Longrightarrow> \<forall>a \<in> T. m' a = m a \<Longrightarrow> filled m' r T"
  by (simp add: filled_def)

lemma entries_local: "\<forall>a \<in> T. m' a = m a \<Longrightarrow> entries m' T = entries m T"
  by (simp add: entries_def)

lemma pending_local:
  assumes pend: "pending m r T g P left sep right" and eq: "\<forall>a \<in> insert right T. m' a = m a"
  shows "pending m' r T g P left sep right"
proof -
  have eqT: "\<forall>a \<in> T. m' a = m a" using eq by blast
  have 1: "root_ok m' r T g" using pend eqT root_ok_local by (auto simp: pending_def)
  have 2: "\<forall>p \<in> T - {P}. \<exists>n. m' p = Some n \<and> node_ok m' T g p n"
  proof
    fix p assume "p \<in> T - {P}"
    moreover then obtain n where "m p = Some n" "node_ok m T g p n" using pend unfolding pending_def by blast
    ultimately show "\<exists>n. m' p = Some n \<and> node_ok m' T g p n" using eqT node_ok_local by auto
  qed
  have 3: "\<exists>n. m' right = Some n \<and> node_ok m' T g right n"
  proof -
    obtain n where "m right = Some n" "node_ok m T g right n" using pend unfolding pending_def by blast
    then show ?thesis using eq node_ok_local [OF _ eqT] by auto
  qed
  have 4: "\<exists>pn. m' P = Some pn \<and> \<not> bn_leaf pn \<and> Some left \<in> set (nkids pn)
          \<and> node_ok m' T (g(left := (g_lo g left, g_hi g right, g_ht g left))) P pn"
  proof -
    obtain pn where "m P = Some pn" "\<not> bn_leaf pn" "Some left \<in> set (nkids pn)"
      "node_ok m T (g(left := (g_lo g left, g_hi g right, g_ht g left))) P pn" "P \<in> T"
      using pend unfolding pending_def by blast
    then show ?thesis using eqT node_ok_local [OF _ eqT] by auto
  qed
  have 5: "\<forall>p \<in> T. p \<noteq> r \<longrightarrow> has_parent m' (insert right T) p"
    using pend eq has_parent_local unfolding pending_def by blast
  show ?thesis
    using pend 1 2 3 4 5 unfolding pending_def by blast
qed

section \<open>The climb\<close>

lemma reparent_dom: "m c \<noteq> None \<Longrightarrow> reparent (m(p \<mapsto> x)) A q c \<noteq> None"
  by (auto simp: reparent_def)

lemma put_inner_halves:
  assumes "m p = Some n" "wf_node n" "length ks = 4" "length cs = 5" "\<forall>c \<in> set cs. m c \<noteq> None"
  shows "put_inner m p ks (map Some cs) 2
      = Some (reparent (m(p \<mapsto> inner_of n (take 2 ks) (take 3 cs))) (set (take 3 cs)) (Some p))"
    and "put_inner m p (drop 3 ks) (drop 3 (map Some cs)) 1
      = Some (reparent (m(p \<mapsto> inner_of n (drop 3 ks) (drop 3 cs))) (set (drop 3 cs)) (Some p))"
proof -
  have dom: "\<forall>c \<in> set (take 3 cs). m c \<noteq> None" "\<forall>c \<in> set (drop 3 cs). m c \<noteq> None"
    using assms(5) by (meson in_set_takeD in_set_dropD)+
  have "put_inner m p (take 2 ks @ drop 2 ks) (map Some (take 3 cs) @ map Some (drop 3 cs)) (length (take 2 ks))
      = Some (reparent (m(p \<mapsto> inner_of n (take 2 ks) (take 3 cs))) (set (take 3 cs)) (Some p))"
    by (rule put_inner_eq [OF assms(1,2) _ _ dom(1)]) (use assms in simp_all)
  then show "put_inner m p ks (map Some cs) 2
      = Some (reparent (m(p \<mapsto> inner_of n (take 2 ks) (take 3 cs))) (set (take 3 cs)) (Some p))"
    using assms(3) by (simp add: map_append [symmetric] del: map_append)
  have "put_inner m p (drop 3 ks @ []) (map Some (drop 3 cs) @ []) (length (drop 3 ks))
      = Some (reparent (m(p \<mapsto> inner_of n (drop 3 ks) (drop 3 cs))) (set (drop 3 cs)) (Some p))"
    by (rule put_inner_eq [OF assms(1,2) _ _ dom(2)]) (use assms in simp_all)
  then show "put_inner m p (drop 3 ks) (drop 3 (map Some cs)) 1
      = Some (reparent (m(p \<mapsto> inner_of n (drop 3 ks) (drop 3 cs))) (set (drop 3 cs)) (Some p))"
    using assms(3) by (simp add: drop_map)
qed

lemma node_reads:
  assumes "wf_node n" "\<not> bn_leaf n"
  shows "aprefix (bn_fnv n) (bn_num n) = Some (nkeys n)"
    "aprefix (bn_child n) (Suc (bn_num n)) = Some (nkids n)"
  using assms by (simp_all add: nkeys_def nkids_def)

text \<open>What \<open>add_parent\<close> promises for a tree with nodes \<open>T\<close> and a pending node \<open>right\<close>.\<close>

definition climbed :: "nat \<Rightarrow> nat set \<Rightarrow> bpt \<Rightarrow> bool \<Rightarrow> bpt \<Rightarrow> bool" where
  "climbed r S s b s' \<longleftrightarrow> touched S s s' \<and>
     (if b then \<exists>T' g'. S \<subseteq> T' \<and> T' \<subseteq> owned (bp_heap s') \<and> T' \<inter> owned (bp_heap s) = S
          \<and> tree_ok (bp_nd s') r T' g' \<and> entries (bp_nd s') T' = entries (bp_nd s) S \<and> filled (bp_nd s') r T'
      else full s')"

lemma climbed_TrueI:
  "touched S s s' \<Longrightarrow> S \<subseteq> T' \<Longrightarrow> T' \<subseteq> owned (bp_heap s') \<Longrightarrow> T' \<inter> owned (bp_heap s) = S \<Longrightarrow>
     tree_ok (bp_nd s') r T' g' \<Longrightarrow> entries (bp_nd s') T' = entries (bp_nd s) S \<Longrightarrow> filled (bp_nd s') r T' \<Longrightarrow>
     climbed r S s True s'"
  by (auto simp: climbed_def)

lemma climbed_same_heap:
  assumes "heap_inv (bp_heap s)" "S \<subseteq> owned (bp_heap s)" "\<forall>a. a \<notin> S \<longrightarrow> m' a = bp_nd s a"
    "tree_ok m' r S g'" "entries m' S = entries (bp_nd s) S" "filled m' r S"
  shows "climbed r S s True (s\<lparr>bp_nd := m'\<rparr>)"
  using assms by (auto simp: climbed_def touched_def)

lemma climbed_step:
  assumes t: "touched S s s2" and c: "climbed r (insert R S) s2 b s'"
    and R: "R \<notin> owned (bp_heap s)" and own: "S \<subseteq> owned (bp_heap s)"
    and ent: "entries (bp_nd s2) (insert R S) = entries (bp_nd s) S"
  shows "climbed r S s b s'"
proof -
  have t2: "touched (insert R S) s2 s'" using c by (simp add: climbed_def)
  have "touched S s s'" by (rule touched_trans [OF t t2]) (use R in auto)
  moreover have T': "T' \<inter> owned (bp_heap s) = S" if "T' \<inter> owned (bp_heap s2) = insert R S" for T'
  proof -
    have "owned (bp_heap s) \<subseteq> owned (bp_heap s2)" using t by (simp add: touched_def)
    then have "T' \<inter> owned (bp_heap s) = (T' \<inter> owned (bp_heap s2)) \<inter> owned (bp_heap s)" by blast
    also have "\<dots> = S" unfolding that using R own by blast
    finally show ?thesis .
  qed
  moreover have "\<exists>T' g'. S \<subseteq> T' \<and> T' \<subseteq> owned (bp_heap s') \<and> T' \<inter> owned (bp_heap s) = S
      \<and> tree_ok (bp_nd s') r T' g' \<and> entries (bp_nd s') T' = entries (bp_nd s) S \<and> filled (bp_nd s') r T'" if b
  proof -
    obtain T' g' where "insert R S \<subseteq> T'" "T' \<subseteq> owned (bp_heap s')"
      "T' \<inter> owned (bp_heap s2) = insert R S" "tree_ok (bp_nd s') r T' g'"
      "entries (bp_nd s') T' = entries (bp_nd s2) (insert R S)" "filled (bp_nd s') r T'"
      using c \<open>b\<close> unfolding climbed_def by auto
    with T' ent show ?thesis by (intro exI [of _ T'] exI [of _ g']) auto
  qed
  ultimately show ?thesis using c unfolding climbed_def by simp
qed

text \<open>The common start of the climb: the parent is read and the two local arrays are filled.\<close>

definition climb_rest :: "bpt \<Rightarrow> nat \<Rightarrow> nat \<Rightarrow> bpt_node \<Rightarrow> u64 list \<Rightarrow> nat option list \<Rightarrow> (bool \<times> bpt) option" where
  "climb_rest s root parent pn keys children =
     (let cnt = bn_num pn + 1 in
      if cnt < MAX_BPT_NODE_NUM
      then do { m \<leftarrow> put_inner (bp_nd s) parent keys children cnt; Some (True, s\<lparr>bp_nd := m\<rparr>) }
      else do {
        (rq, s1) \<leftarrow> create_node s False;
        (case rq of
           None \<Rightarrow> Some (False, s1)
         | Some ri \<Rightarrow>
             let middle = cnt div 2; lcnt = middle; rcnt = cnt - middle - 1 in
             if parent = root
             then do {
               (lq, s2) \<leftarrow> create_node s1 False;
               (case lq of
                  None \<Rightarrow> Some (False, s2)
                | Some li \<Rightarrow> do {
                    m1 \<leftarrow> put_inner (bp_nd s2) li keys children lcnt;
                    m2 \<leftarrow> put_inner m1 ri (drop (middle + 1) keys) (drop (middle + 1) children) rcnt;
                    km \<leftarrow> aget keys middle;
                    m2 root;
                    let m3 = m2(root \<mapsto> zero_node\<lparr>bn_leaf := False, bn_num := 1,
                               bn_fnv := [km, 0, 0], bn_child := [Some li, Some ri, None, None]\<rparr>);
                    m4 \<leftarrow> set_parent m3 (Some li) (Some root);
                    m5 \<leftarrow> set_parent m4 (Some ri) (Some root);
                    Some (True, s2\<lparr>bp_nd := m5\<rparr>)
                  })
             }
             else (case bn_parent pn of
                     None \<Rightarrow> Some (False, s1)
                   | Some grandparent \<Rightarrow> do {
                       m1 \<leftarrow> put_inner (bp_nd s1) parent keys children lcnt;
                       m2 \<leftarrow> put_inner m1 ri (drop (middle + 1) keys) (drop (middle + 1) children) rcnt;
                       m3 \<leftarrow> set_parent m2 (Some ri) (Some grandparent);
                       km \<leftarrow> aget keys middle;
                       add_parent (s1\<lparr>bp_nd := m3\<rparr>) root parent km ri
                     }))
      })"

lemma climb_rest_split:
  assumes "bn_num pn = 3" "create_node s False = Some (Some R, s1)" "P \<noteq> r" "bn_parent pn = Some G"
    "put_inner (bp_nd s1) P ks ch 2 = Some p1" "put_inner p1 R (drop 3 ks) (drop 3 ch) 1 = Some p2"
    "set_parent p2 (Some R) (Some G) = Some p3" "length ks = 4"
  shows "climb_rest s r P pn ks ch = add_parent (s1\<lparr>bp_nd := p3\<rparr>) r P (ks ! 2) R"
  using assms by (simp add: climb_rest_def MAX_BPT_NODE_NUM_def Let_def)

lemma climb_rest_root:
  assumes "bn_num pn = 3" "create_node s False = Some (Some R, s1)" "P = r"
    "create_node s1 False = Some (Some L, s2)"
    "put_inner (bp_nd s2) L ks ch 2 = Some p1" "put_inner p1 R (drop 3 ks) (drop 3 ch) 1 = Some p2"
    "p2 r = Some x" "set_parent (p2(r \<mapsto> root_node (ks ! 2) L R)) (Some L) (Some r) = Some p3"
    "set_parent p3 (Some R) (Some r) = Some p4" "length ks = 4"
  shows "climb_rest s r P pn ks ch = Some (True, s2\<lparr>bp_nd := p4\<rparr>)"
  using assms by (simp add: climb_rest_def MAX_BPT_NODE_NUM_def Let_def root_node_def)

lemma add_parent_start:
  assumes "bp_nd s left = Some ln" "bn_parent ln = Some P" "bp_nd s P = Some pn" "wf_node pn" "\<not> bn_leaf pn"
    and kids: "nkids pn = map Some (as @ left # bs)" "left \<notin> set as" and num: "bn_num pn = length as + length bs"
  shows "add_parent s r left sep right
    = climb_rest s r P pn (insert_at (length as) sep (nkeys pn)) (map Some (as @ left # right # bs))"
proof -
  have idx: "scan (\<lambda>c. c \<noteq> Some left) (nkids pn) = length as"
    unfolding kids(1) using scan_first [of "Some left" "map Some as" "map Some bs"] kids(2) by auto
  have ch: "insert_at (Suc (length as)) (Some right) (nkids pn) = map Some (as @ left # right # bs)"
    unfolding kids(1) using insert_at_after [of "map Some as"] by simp
  show ?thesis
    using assms(1-5) num
    by (subst add_parent.simps)
      (simp add: node_reads [OF assms(4,5), unfolded num] idx ch climb_rest_def Let_def
        del: map_append)
qed

lemma add_parent_ok:
  "pending (bp_nd s) r T g P left sep right \<Longrightarrow> heap_inv (bp_heap s) \<Longrightarrow>
     insert right T \<subseteq> owned (bp_heap s) \<Longrightarrow> filled (bp_nd s) r (insert right T) \<Longrightarrow>
     \<exists>b s'. add_parent s r left sep right = Some (b, s') \<and> climbed r (insert right T) s b s'"
proof (induction "g_ht g r - g_ht g P" arbitrary: s T g P left sep right rule: less_induct)
  case less
  note pend = less.prems(1) and inv = less.prems(2) and own = less.prems(3) and fill = less.prems(4)
  note pf = pending_facts [OF pend]
  let ?m = "bp_nd s" and ?S = "insert right T"
  obtain pn as bs ks where pn: "?m P = Some pn" "\<not> bn_leaf pn" "wf_node pn"
    "nkids pn = map Some (as @ left # bs)" "nkeys pn = ks" "length ks = length as + length bs"
    "left \<notin> set as" "distinct (as @ left # right # bs)" and int: "g_lo g P < g_hi g P"
    and cov: "covers g (g_lo g P) (as @ left # right # bs) (insert_at (length as) (unat sep) (map unat ks)) (g_hi g P)"
    and kids: "\<forall>c \<in> set (as @ left # bs). c \<in> T \<and> Suc (g_ht g c) = g_ht g P
      \<and> (\<exists>cn. ?m c = Some cn \<and> bn_parent cn = Some P)"
    and right: "Suc (g_ht g right) = g_ht g P" and notP: "P \<notin> set (as @ left # right # bs)"
    by (rule pending_parent [OF pend])
  let ?cs = "as @ left # right # bs" and ?ks = "insert_at (length as) sep ks"
  have cov: "covers g (g_lo g P) ?cs (map unat ?ks) (g_hi g P)"
    using cov by (simp add: map_insert_at)
  have num: "bn_num pn = length ks" "length ks \<le> 3" using pn(3,5) wf_lengths by metis+
  have dom: "\<exists>n. ?m a = Some n" if "a \<in> ?S" for a using pf(6) [OF that] pn(1) by (cases "a = P") auto
  have domcs: "\<forall>c \<in> set ?cs. ?m c \<noteq> None"
    using kids dom [of right] by auto
  have lcs: "length ?cs = Suc (length ?ks)" using pn(6) by simp
  obtain ln where ln: "?m left = Some ln" "bn_parent ln = Some P" using kids by auto
  have start: "add_parent s r left sep right = climb_rest s r P pn ?ks (map Some ?cs)"
    using add_parent_start [OF ln pn(1,3,2,4,7)] num pn(5,6) by simp
  have KS: "set ?cs \<subseteq> ?S" using kids by auto
  show ?case
  proof (cases "length ks < 3")
    case True
    have "put_inner ?m P (?ks @ []) (map Some ?cs @ []) (length ?ks)
        = Some (reparent (?m(P \<mapsto> inner_of pn ?ks ?cs)) (set ?cs) (Some P))"
      by (rule put_inner_eq [OF pn(1,3) lcs _ domcs]) (use True in simp)
    then have eq: "add_parent s r left sep right
        = Some (True, s\<lparr>bp_nd := reparent (?m(P \<mapsto> inner_of pn ?ks ?cs)) (set ?cs) (Some P)\<rparr>)"
      unfolding start climb_rest_def using True num by (simp add: MAX_BPT_NODE_NUM_def)
    have room: "length ?ks \<le> 3" using True by simp
    note pr = pending_room [OF pend pn(1-4) cov kids right notP int room]
    have "climbed r ?S s True (s\<lparr>bp_nd := reparent (?m(P \<mapsto> inner_of pn ?ks ?cs)) (set ?cs) (Some P)\<rparr>)"
      using KS pf(2) by (intro climbed_same_heap [OF inv own _ pr]) (auto simp: reparent_def fill)
    with eq show ?thesis by blast
  next
    case False
    then have len: "length ks = 3" using num by simp
    then have len4: "length ?ks = 4" "length ?cs = 5" using lcs by auto
    show ?thesis
      using create_node_cases [OF inv, of False]
    proof (cases)
      case 1
      then have "add_parent s r left sep right = Some (False, s)"
        unfolding start climb_rest_def using len num by (simp add: MAX_BPT_NODE_NUM_def)
      with 1 inv show ?thesis by (auto simp: climbed_def touched_refl)
    next
      case (2 R s1)
      let ?m1 = "bp_nd s1"
      have RS: "R \<notin> ?S" using 2(3) own by blast
      have eq1: "\<forall>a \<in> ?S. ?m1 a = ?m a" using 2(5) RS by auto
      have pend1: "pending ?m1 r T g P left sep right" by (rule pending_local [OF pend eq1])
      have mR: "?m1 R = Some (zero_node\<lparr>bn_leaf := False\<rparr>)" using 2(5) by simp
      have PS: "P \<in> ?S" using pf(2) by simp
      have pn1: "?m1 P = Some pn" using eq1 [rule_format, OF PS] pn(1) by simp
      have kids1: "\<forall>c \<in> set (as @ left # bs). c \<in> T \<and> Suc (g_ht g c) = g_ht g P
        \<and> (\<exists>cn. ?m1 c = Some cn \<and> bn_parent cn = Some P)"
        using kids eq1 by auto
      have domcs1: "\<forall>c \<in> set ?cs. ?m1 c \<noteq> None" using domcs eq1 KS by auto
      have ent1: "entries ?m1 ?S = entries ?m ?S" by (rule entries_local [OF eq1])
      have K: "P \<notin> set ?cs" "R \<notin> set ?cs" using notP RS KS by auto
      have tk: "set (take 3 ?cs) \<subseteq> set ?cs" "set (drop 3 ?cs) \<subseteq> set ?cs"
        by (meson set_take_subset set_drop_subset)+
      show ?thesis
      proof (cases "P = r")
        case False
        obtain G where G: "bn_parent pn = Some G"
        proof -
          obtain q qn where q: "q \<in> ?S" "?m q = Some qn" "Some P \<in> set (nkids qn)"
            using pf(7) [OF pf(2) False] by (auto simp: has_parent_def)
          have "q \<noteq> P" using q pn(1,4) K(1) by auto
          then have okq: "node_ok ?m T g q qn" using pf(6) [OF q(1)] q(2) by auto
          have "bn_parent pn = Some q" using node_ok_kid(3) [OF okq q(3)] pn(1) by simp
          then show ?thesis by (rule that)
        qed
        let ?p1 = "reparent (?m1(P \<mapsto> inner_of pn (take 2 ?ks) (take 3 ?cs))) (set (take 3 ?cs)) (Some P)"
        let ?p2 = "reparent (?p1(R \<mapsto> inner_of (zero_node\<lparr>bn_leaf := False\<rparr>) (drop 3 ?ks) (drop 3 ?cs)))
          (set (drop 3 ?cs)) (Some R)"
        let ?rn = "(inner_of (zero_node\<lparr>bn_leaf := False\<rparr>) (drop 3 ?ks) (drop 3 ?cs))\<lparr>bn_parent := Some G\<rparr>"
        let ?p3 = "?p2(R \<mapsto> ?rn)"
        have PR: "P \<noteq> R" using RS PS by auto
        have p1: "put_inner ?m1 P ?ks (map Some ?cs) 2 = Some ?p1"
          by (rule put_inner_halves(1) [OF pn1 pn(3) len4 domcs1])
        have p1R: "?p1 R = Some (zero_node\<lparr>bn_leaf := False\<rparr>)"
          using mR PR K tk by (auto simp: reparent_def)
        have p1dom: "\<forall>c \<in> set ?cs. ?p1 c \<noteq> None"
          using domcs1 by (intro ballI reparent_dom) blast
        have p2: "put_inner ?p1 R (drop 3 ?ks) (drop 3 (map Some ?cs)) 1 = Some ?p2"
          by (rule put_inner_halves(2) [OF p1R zero_leaf_wf len4 p1dom])
        have "?p2 R = Some (inner_of (zero_node\<lparr>bn_leaf := False\<rparr>) (drop 3 ?ks) (drop 3 ?cs))"
          using K tk by (auto simp: reparent_def)
        then have p3: "set_parent ?p2 (Some R) (Some G) = Some ?p3"
          by (simp add: set_parent_def)
        let ?s2 = "s1\<lparr>bp_nd := ?p3\<rparr>"
        have "add_parent s r left sep right = add_parent ?s2 r P (?ks ! 2) R"
          unfolding start
          by (rule climb_rest_split [OF _ 2(1) False G p1 p2 p3 len4(1)]) (simp add: num len)
        moreover obtain g' where g': "pending ?p3 r ?S g' G P (?ks ! 2) R"
          "g_ht g' r - g_ht g' G < g_ht g r - g_ht g P"
          using pending_split(1) [OF pend1 pn1 pn(2,3,4) cov kids1 right notP int len4(1) mR
              zero_leaf_wf RS False G] by blast
        have fill3: "filled ?p3 r (insert R ?S)"
          by (rule pending_split(3) [OF pend1 pn1 pn(2,3,4) cov kids1 right notP int len4(1) mR
              zero_leaf_wf RS False G filled_local [OF fill eq1]])
        have ent: "entries ?p3 (insert R ?S) = entries ?m ?S"
          using pending_split(2) [OF pend1 pn1 pn(2,3,4) cov kids1 right notP int len4(1) mR
              zero_leaf_wf RS False G] ent1 by simp
        have "insert R ?S \<subseteq> owned (bp_heap ?s2)" using own 2(4) by auto
        then obtain b s' where s': "add_parent ?s2 r P (?ks ! 2) R = Some (b, s')"
          "climbed r (insert R ?S) ?s2 b s'"
          using less.hyps [of g' G ?s2 ?S P "?ks ! 2" R] g' 2(2) fill3 by auto
        moreover have "touched ?S s ?s2"
          unfolding touched_def
        proof (intro conjI ballI)
          fix a assume a: "a \<in> owned (bp_heap s) - ?S"
          then have "a \<notin> set ?cs" "a \<noteq> P" "a \<noteq> R" using KS PS 2(3) by blast+
          moreover then have "a \<notin> set (take 3 ?cs)" "a \<notin> set (drop 3 ?cs)" using tk by blast+
          ultimately show "bp_nd ?s2 a = bp_nd s a" using 2(5) by (simp add: reparent_def)
        qed (use 2 in auto)
        ultimately show ?thesis using climbed_step [OF _ s'(2) 2(3) own] ent by auto
      next
        case True
        show ?thesis
          using create_node_cases [OF 2(2), of False]
        proof (cases)
          case 1
          then have "add_parent s r left sep right = Some (False, s1)"
            unfolding start climb_rest_def using len num True 2(1)
            by (simp add: MAX_BPT_NODE_NUM_def Let_def)
          moreover have "touched ?S s s1" using 2 by (auto simp: touched_def)
          ultimately show ?thesis using 1 by (auto simp: climbed_def)
        next
          case (2 L s2)
          note L = this and s1 = \<open>heap_inv (bp_heap s1)\<close> \<open>R \<notin> owned (bp_heap s)\<close>
            \<open>owned (bp_heap s1) = insert R (owned (bp_heap s))\<close>
            \<open>bp_nd s1 = (bp_nd s)(R \<mapsto> zero_node\<lparr>bn_leaf := False\<rparr>)\<close>
            \<open>create_node s False = Some (Some R, s1)\<close> \<open>live (bp_heap s) \<subseteq> live (bp_heap s1)\<close>
          let ?m2 = "bp_nd s2"
          have LS: "L \<notin> ?S" "L \<noteq> R" using L(3) s1(3) own by blast+
          have eq2: "\<forall>a \<in> ?S. ?m2 a = ?m a" using L(5) eq1 LS by auto
          have pend2: "pending ?m2 r T g P left sep right" by (rule pending_local [OF pend eq2])
          have mR2: "?m2 R = Some (zero_node\<lparr>bn_leaf := False\<rparr>)" using L(5) LS mR by simp
          have mL2: "?m2 L = Some (zero_node\<lparr>bn_leaf := False\<rparr>)" using L(5) by simp
          have pn2: "?m2 P = Some pn" using eq2 [rule_format, OF PS] pn(1) by simp
          have kids2: "\<forall>c \<in> set (as @ left # bs). c \<in> T \<and> Suc (g_ht g c) = g_ht g P
            \<and> (\<exists>cn. ?m2 c = Some cn \<and> bn_parent cn = Some P)"
            using kids eq2 by auto
          have domcs2: "\<forall>c \<in> set ?cs. ?m2 c \<noteq> None" using domcs eq2 KS by auto
          have KL: "L \<notin> set ?cs" using LS KS by auto
          let ?z = "zero_node\<lparr>bn_leaf := False\<rparr>"
          let ?p1 = "reparent (?m2(L \<mapsto> inner_of ?z (take 2 ?ks) (take 3 ?cs))) (set (take 3 ?cs)) (Some L)"
          let ?p2 = "reparent (?p1(R \<mapsto> inner_of ?z (drop 3 ?ks) (drop 3 ?cs))) (set (drop 3 ?cs)) (Some R)"
          let ?ln = "(inner_of ?z (take 2 ?ks) (take 3 ?cs))\<lparr>bn_parent := Some r\<rparr>"
          let ?rn = "(inner_of ?z (drop 3 ?ks) (drop 3 ?cs))\<lparr>bn_parent := Some r\<rparr>"
          let ?p3 = "?p2(r \<mapsto> root_node (?ks ! 2) L R, L \<mapsto> ?ln, R \<mapsto> ?rn)"
          note root = pending_root [OF pend2 pn2 pn(2,3,4) cov kids2 right notP len4(1) True mR2
              zero_leaf_wf RS mL2 zero_leaf_wf LS]
          have nr: "r \<noteq> L" "r \<noteq> R" using True PS RS LS by auto
          have p1: "put_inner ?m2 L ?ks (map Some ?cs) 2 = Some ?p1"
            by (rule put_inner_halves(1) [OF mL2 zero_leaf_wf len4 domcs2])
          have p1R: "?p1 R = Some ?z"
            using mR2 LS K tk by (auto simp: reparent_def)
          have p1dom: "\<forall>c \<in> set ?cs. ?p1 c \<noteq> None"
            using domcs2 by (intro ballI reparent_dom) blast
          have p2: "put_inner ?p1 R (drop 3 ?ks) (drop 3 (map Some ?cs)) 1 = Some ?p2"
            by (rule put_inner_halves(2) [OF p1R zero_leaf_wf len4 p1dom])
          obtain x where x: "?p2 r = Some x" using root(5) by blast
          have p3: "set_parent (?p2(r \<mapsto> root_node (?ks ! 2) L R)) (Some L) (Some r)
              = Some (?p2(r \<mapsto> root_node (?ks ! 2) L R, L \<mapsto> ?ln))"
            using root(3) nr by (simp add: set_parent_def)
          have p4: "set_parent (?p2(r \<mapsto> root_node (?ks ! 2) L R, L \<mapsto> ?ln)) (Some R) (Some r) = Some ?p3"
            using root(4) nr LS by (simp add: set_parent_def)
          let ?s3 = "s2\<lparr>bp_nd := ?p3\<rparr>"
          have "add_parent s r left sep right = Some (True, ?s3)"
            unfolding start
            by (rule climb_rest_root [OF _ s1(5) True L(1) p1 p2 x p3 p4 len4(1)]) (simp add: num len)
          moreover have "touched ?S s ?s3"
            unfolding touched_def
          proof (intro conjI ballI)
            fix a assume a: "a \<in> owned (bp_heap s) - ?S"
            then have "a \<notin> set ?cs" "a \<noteq> P" "a \<noteq> R" "a \<noteq> L" using KS PS s1(2,3) L(3) by blast+
            moreover then have "a \<notin> set (take 3 ?cs)" "a \<notin> set (drop 3 ?cs)" using tk by blast+
            ultimately show "bp_nd ?s3 a = bp_nd s a" using L(5) s1(4) True by (simp add: reparent_def)
          qed (use L s1 in auto)
          moreover have "insert L (insert R ?S) \<subseteq> owned (bp_heap ?s3)"
            "insert L (insert R ?S) \<inter> owned (bp_heap s) = ?S"
            using L(3,4) s1(2,3) own by auto
          moreover obtain g' where "tree_ok (bp_nd ?s3) r (insert L (insert R ?S)) g'"
            using root(1) by auto
          moreover have "entries (bp_nd ?s3) (insert L (insert R ?S)) = entries (bp_nd s) ?S"
            using root(2) entries_local [OF eq2] by simp
          moreover have "filled (bp_nd ?s3) r (insert L (insert R ?S))"
            using root(6) [OF filled_local [OF fill eq2]] by simp
          ultimately have "climbed r ?S s True ?s3"
            by (intro climbed_TrueI [where T' = "insert L (insert R ?S)"]) blast+
          with \<open>add_parent s r left sep right = Some (True, ?s3)\<close> show ?thesis by blast
        qed
      qed
    qed
  qed
qed

end
