(* ===== verification/BPT_Correct.thy ===== *)
theory BPT_Correct
  imports BPT_Climb
begin

text \<open>
  \<open>bpt_insert\<close> and \<open>bpt_search\<close> implement the finite map of \<open>bpt_rep\<close>. The locale
  \<open>name_index\<close> is the contract the file manager relies on; it is interpreted on the tree.
\<close>

section \<open>Leaves\<close>

definition leaf_with :: "bpt_node \<Rightarrow> (u64 \<times> u64 \<times> u16) list \<Rightarrow> bpt_node" where
  "leaf_with n its = n\<lparr>bn_leaf := True, bn_num := length its,
     bn_fnv := map fst its @ drop (length its) (bn_fnv n),
     bn_djb := map (fst \<circ> snd) its @ drop (length its) (bn_djb n),
     bn_data := map (snd \<circ> snd) its @ drop (length its) (bn_data n)\<rparr>"

lemma zip_unzip: "zip (map fst its) (zip (map (fst \<circ> snd) its) (map (snd \<circ> snd) its)) = its"
  by (induction its) auto

lemma leaf_with_view [simp]:
  assumes "wf_node n" "length its \<le> 3"
  shows "wf_node (leaf_with n its)" "bn_leaf (leaf_with n its)" "items (leaf_with n its) = its"
    "nkeys (leaf_with n its) = map fst its" "nkids (leaf_with n its) = []"
    "bn_parent (leaf_with n its) = bn_parent n" "bn_num (leaf_with n its) = length its"
  using assms
  by (auto simp: leaf_with_def wf_node_def items_def nkeys_def nkids_def zip_append zip_unzip
      simp del: wf_lengths)

lemma put_leaf_eq:
  assumes "m p = Some n" "wf_node n" "length its \<le> 3"
  shows "put_leaf m p (map fst its @ x) (map (fst \<circ> snd) its @ y) (map (snd \<circ> snd) its @ z) (length its)
    = Some (m(p \<mapsto> leaf_with n its))"
  using assms by (simp add: put_leaf_def leaf_with_def)

lemma items_columns:
  assumes "wf_node n"
  shows "take (bn_num n) (bn_fnv n) = map fst (items n)"
    "take (bn_num n) (bn_djb n) = map (fst \<circ> snd) (items n)"
    "take (bn_num n) (bn_data n) = map (snd \<circ> snd) (items n)"
proof -
  have "map fst (zip (bn_fnv n) (zip (bn_djb n) (bn_data n))) = bn_fnv n"
    "map (fst \<circ> snd) (zip (bn_fnv n) (zip (bn_djb n) (bn_data n))) = bn_djb n"
    "map (snd \<circ> snd) (zip (bn_fnv n) (zip (bn_djb n) (bn_data n))) = bn_data n"
    using assms by (simp_all flip: map_map)
  then show "take (bn_num n) (bn_fnv n) = map fst (items n)"
    "take (bn_num n) (bn_djb n) = map (fst \<circ> snd) (items n)"
    "take (bn_num n) (bn_data n) = map (snd \<circ> snd) (items n)"
    by (simp_all add: items_def flip: take_map)
qed

lemma leaf_okI:
  assumes "wf_node n" "length its \<le> 3" "g_lo g p < g_hi g p" "g_ht g p = 0" "sorted_wrt (<) (map fst its)"
    "\<And>k. k \<in> fst ` set its \<Longrightarrow> g_lo g p \<le> unat k \<and> unat k < g_hi g p"
  shows "node_ok m T g p (leaf_with n its)"
  using assms by (auto simp: node_ok_def)

lemma leaf_okD:
  assumes "node_ok m T g p n" "bn_leaf n"
  shows "wf_node n" "g_lo g p < g_hi g p" "g_ht g p = 0" "sorted_wrt (<) (map fst (items n))"
    "\<And>k. k \<in> fst ` set (items n) \<Longrightarrow> g_lo g p \<le> unat k \<and> unat k < g_hi g p"
proof -
  show wf: "wf_node n" using assms(1) by (rule node_ok_wf)
  have keys: "nkeys n = map fst (items n)" using map_fst_items [OF wf] by simp
  show "g_lo g p < g_hi g p" "g_ht g p = 0" "sorted_wrt (<) (map fst (items n))"
    using assms by (simp_all add: node_ok_def flip: keys)
  show "g_lo g p \<le> unat k \<and> unat k < g_hi g p" if "k \<in> fst ` set (items n)" for k
    using assms that by (auto simp: node_ok_def keys)
qed

text \<open>Replacing the contents of one leaf.\<close>

lemma tree_ok_leaf_update:
  assumes tree: "tree_ok m r T g" and q: "q \<in> T" "m q = Some n" "bn_leaf n"
    and n': "node_ok m T g q n'" "bn_leaf n'" "bn_parent n' = bn_parent n"
  shows "tree_ok (m(q \<mapsto> n')) r T g"
  unfolding tree_ok_def
proof (intro conjI ballI impI)
  show "root_ok (m(q \<mapsto> n')) r T g"
    using tree q n' by (auto simp: tree_ok_def root_ok_def)
next
  fix p assume p: "p \<in> T"
  then obtain pn where pn: "m p = Some pn" "node_ok m T g p pn" using tree_node [OF tree] by blast
  have "node_ok (m(q \<mapsto> n')) T g p x" if "node_ok m T g p x" for x
    by (rule node_ok_frame [OF that]) (use q n' in auto)
  with pn n' show "\<exists>n. (m(q \<mapsto> n')) p = Some n \<and> node_ok (m(q \<mapsto> n')) T g p n" by (cases "p = q") auto
next
  fix p assume "p \<in> T" "p \<noteq> r"
  then obtain a an where "a \<in> T" "m a = Some an" "Some p \<in> set (nkids an)"
    using tree by (auto simp: tree_ok_def has_parent_def)
  moreover then have "a \<noteq> q" using q by (auto simp: nkids_def)
  ultimately show "has_parent (m(q \<mapsto> n')) T p" by (auto simp: has_parent_def)
qed

lemma entries_update:
  assumes "q \<in> T" "litems (Some n') = insert e (litems (m q))"
  shows "entries (m(q \<mapsto> n')) T = insert e (entries m T)"
proof -
  have "entries (m(q \<mapsto> n')) T = litems (Some n') \<union> (\<Union>p\<in>T - {q}. litems (m p))"
    using assms(1) by (auto simp: entries_def split: if_splits)
  moreover have "entries m T = litems (m q) \<union> (\<Union>p\<in>T - {q}. litems (m p))"
    using assms(1) by (auto simp: entries_def)
  ultimately show ?thesis by (simp add: assms(2))
qed

section \<open>Search\<close>

lemma sorted_keys_inj:
  fixes its :: "(u64 \<times> u64 \<times> u16) list"
  assumes "sorted_wrt (<) (map fst its)" "(k, x) \<in> set its" "(k, y) \<in> set its"
  shows "x = y"
proof -
  have "distinct (map fst its)"
    using assms(1) by (simp add: strict_sorted_iff)
  with assms(2,3) show ?thesis by (meson eq_key_imp_eq_value)
qed

lemma scan_in: "scan P xs < length xs \<Longrightarrow> xs ! scan P xs \<in> set xs"
  by simp

lemma scan_all: "\<not> scan P xs < length xs \<Longrightarrow> x \<in> set xs \<Longrightarrow> P x"
  by (metis in_set_conv_nth leI le_less_trans scan_le scan_nth order.strict_trans2)

definition stored :: "index_map \<Rightarrow> u64 \<Rightarrow> u64 \<Rightarrow> u16 option" where
  "stored M fk dk = (case M fk of Some (d, v) \<Rightarrow> if d = dk then Some v else None | None \<Rightarrow> None)"

lemma bpt_search_ok:
  assumes rep: "bpt_rep s r T M" and h: "fnv1a_hash_64 nm = Some fk" "djb2_hash_64 nm = Some dk"
  shows "\<exists>q. bpt_search (bp_nd s) (Some r) (Some nm) = Some q \<and> bpt_read (bp_nd s) q = stored M fk dk
    \<and> (q = None \<longleftrightarrow> stored M fk dk = None)"
proof -
  obtain g where tree: "tree_ok (bp_nd s) r T g" using rep by (auto simp: bpt_rep_def)
  obtain q n where q: "search_leaf (bp_nd s) (Some r) fk = Some (Some q)" "bp_nd s q = Some n" "bn_leaf n"
    "node_ok (bp_nd s) T g q n" and ent: "\<And>dv. (fk, dv) \<in> entries (bp_nd s) T \<longleftrightarrow> (fk, dv) \<in> set (items n)"
    using search_leaf_rep [OF tree, of fk] by metis
  have M: "M fk = Some dv \<longleftrightarrow> (fk, dv) \<in> set (items n)" for dv
    using rep ent [of dv] by (auto simp: bpt_rep_def)
  note lf = leaf_okD [OF q(4,3)]
  let ?P = "\<lambda>(f, d). \<not> (f = fk \<and> d = dk)"
  let ?zs = "zip (nkeys n) (take (bn_num n) (bn_djb n))"
  let ?i = "scan ?P ?zs"
  have zs: "?zs = map (\<lambda>x. (fst x, fst (snd x))) (items n)"
    using items_columns [OF lf(1)] by (simp add: nkeys_def zip_map_map zip_same_conv_map comp_def)
  have len: "length ?zs = bn_num n" using lf(1) by simp
  have eq: "bpt_search (bp_nd s) (Some r) (Some nm) = Some (if ?i < bn_num n then Some (q, ?i) else None)"
    using h q lf(1) by (simp add: bpt_search_def nkeys_def [symmetric])
  show ?thesis
  proof (cases "?i < bn_num n")
    case True
    then have "?i < length ?zs" by (simp only: len)
    then have "\<not> ?P (?zs ! ?i)" by (rule scan_stop)
    moreover have it: "?zs ! i = (fst (items n ! i), fst (snd (items n ! i)))" if "i < bn_num n" for i
      using that by (simp only: zs nth_map wf_lengths(7) [OF lf(1)])
    note it [OF True]
    ultimately have "items n ! ?i = (fk, dk, snd (snd (items n ! ?i)))" by (auto simp: prod_eq_iff)
    moreover have "items n ! ?i \<in> set (items n)" using True lf(1) by simp
    ultimately have "stored M fk dk = Some (snd (snd (items n ! ?i)))"
      using M [of "(dk, snd (snd (items n ! ?i)))"] by (simp add: stored_def)
    moreover have "bn_data n ! ?i = snd (snd (items n ! ?i))"
    proof -
      have "map (snd \<circ> snd) (items n) ! ?i = bn_data n ! ?i"
        using items_columns(3) [OF lf(1)] True by (metis nth_take)
      then show ?thesis using True lf(1) by simp
    qed
    moreover have "?i < 3" using True wf_lengths(5) [OF lf(1)] by simp
    ultimately show ?thesis using eq True q(2) lf(1) by (simp add: bpt_read_def)
  next
    case False
    have "(fk, dk, v) \<notin> set (items n)" for v
    proof
      assume "(fk, dk, v) \<in> set (items n)"
      then have "(fk, dk) \<in> set ?zs" unfolding zs by force
      with scan_all [of ?P ?zs "(fk, dk)"] False len show False by simp
    qed
    then have "stored M fk dk = None"
      using M by (auto simp: stored_def split: option.splits)
    with eq False show ?thesis by (simp add: bpt_read_def)
  qed
qed

section \<open>Insertion\<close>

text \<open>The leaf has room.\<close>

lemma insert_room:
  assumes tree: "tree_ok m r T g" and q: "q \<in> T" "m q = Some n" "bn_leaf n" "node_ok m T g q n"
    and k: "g_lo g q \<le> unat k" "unat k < g_hi g q"
    and its: "sorted_wrt (<) (map fst its)" "set its = insert (k, dv) (set (items n))" "length its \<le> 3"
  shows "tree_ok (m(q \<mapsto> leaf_with n its)) r T g"
    and "entries (m(q \<mapsto> leaf_with n its)) T = insert (k, dv) (entries m T)"
    and "filled m r T \<Longrightarrow> bn_num n \<le> length its \<Longrightarrow> filled (m(q \<mapsto> leaf_with n its)) r T"
proof -
  note lf = leaf_okD [OF q(4,3)]
  have "node_ok m T g q (leaf_with n its)"
    using lf k its by (intro leaf_okI) auto
  then show "tree_ok (m(q \<mapsto> leaf_with n its)) r T g"
    using lf(1) its(3) by (intro tree_ok_leaf_update [OF tree q(1,2,3)]) simp_all
  show "entries (m(q \<mapsto> leaf_with n its)) T = insert (k, dv) (entries m T)"
    using lf(1) its q by (intro entries_update) (auto simp: litems_def)
  assume "filled m r T" "bn_num n \<le> length its"
  then show "filled (m(q \<mapsto> leaf_with n its)) r T"
    using lf(1) its q by (auto simp: filled_def fills_def)
qed

text \<open>The full leaf is the root: the tree is that leaf only, and grows to height one.\<close>

lemma leaf_root_alone:
  assumes tree: "tree_ok m r T g" and q: "m r = Some n" "bn_leaf n"
  shows "T = {r}"
proof -
  have r: "r \<in> T" "\<forall>p \<in> T. g_ht g p \<le> g_ht g r" using tree by (auto simp: tree_ok_def root_ok_def)
  then have "node_ok m T g r n" using tree_node [OF tree r(1)] q(1) by auto
  then have h: "g_ht g r = 0" using q(2) leaf_ht by blast
  have "p = r" if p: "p \<in> T" for p
  proof (rule ccontr)
    assume "p \<noteq> r"
    then obtain a an where a: "a \<in> T" "m a = Some an" "Some p \<in> set (nkids an)"
      using tree p by (auto simp: tree_ok_def has_parent_def)
    then have "node_ok m T g a an" using tree_node [OF tree a(1)] by auto
    then have "g_ht g a = Suc (g_ht g p)" using node_ok_kid(2) a(3) by metis
    with r(2) a(1) h show False by force
  qed
  with r(1) show ?thesis by blast
qed

lemma split_items:
  fixes its :: "(u64 \<times> u64 \<times> u16) list"
  assumes "length its = 4" "sorted_wrt (<) (map fst its)"
  shows "sorted_wrt (<) (map fst (take 2 its))" "sorted_wrt (<) (map fst (drop 2 its))"
    "k \<in> fst ` set (take 2 its) \<Longrightarrow> k < fst (its ! 2)" "k \<in> fst ` set (drop 2 its) \<Longrightarrow> fst (its ! 2) \<le> k"
    "set (take 2 its) \<union> set (drop 2 its) = set its"
    "fst (its ! 0) \<in> fst ` set (take 2 its)" "fst (its ! 2) \<in> fst ` set (drop 2 its)"
proof -
  obtain a b c d where i: "its = [a, b, c, d]"
    using assms(1) by (auto simp: numeral_eq_Suc length_Suc_conv)
  show "sorted_wrt (<) (map fst (take 2 its))" "sorted_wrt (<) (map fst (drop 2 its))"
    "k \<in> fst ` set (take 2 its) \<Longrightarrow> k < fst (its ! 2)" "k \<in> fst ` set (drop 2 its) \<Longrightarrow> fst (its ! 2) \<le> k"
    "set (take 2 its) \<union> set (drop 2 its) = set its"
    "fst (its ! 0) \<in> fst ` set (take 2 its)" "fst (its ! 2) \<in> fst ` set (drop 2 its)"
    using assms(2) unfolding i by auto
qed

lemma insert_split_root:
  fixes nx :: "nat option"
  assumes tree: "tree_ok m r T g" and q: "m r = Some n" "bn_leaf n"
    and its: "length its = 4" "sorted_wrt (<) (map fst its)" "set its = insert e (set (items n))"
    and L: "L \<noteq> r" "R \<noteq> r" "L \<noteq> R" and z: "wf_node lz" "wf_node rz"
  defines "m' \<equiv> m(r \<mapsto> root_node (fst (its ! 2)) L R,
     L \<mapsto> (leaf_with lz (take 2 its))\<lparr>bn_next := nx, bn_parent := Some r\<rparr>,
     R \<mapsto> (leaf_with rz (drop 2 its))\<lparr>bn_parent := Some r\<rparr>)"
  shows "\<exists>g'. tree_ok m' r {r, L, R} g'" "entries m' {r, L, R} = insert e (entries m T)"
    "filled m' r {r, L, R}"
proof -
  have T: "T = {r}" by (rule leaf_root_alone [OF tree q])
  let ?k = "fst (its ! 2)"
  note sp = split_items [OF its(1,2)]
  have len: "length (take 2 its) \<le> 3" "length (drop 2 its) \<le> 3" using its(1) by auto
  define g' :: geo where "g' = (\<lambda>a. if a = L then (0, unat ?k, 0) else if a = R then (unat ?k, 2 ^ 64, 0) else (0, 2 ^ 64, 1))"
  have gs: "g' L = (0, unat ?k, 0)" "g' R = (unat ?k, 2 ^ 64, 0)" "g' r = (0, 2 ^ 64, 1)"
    using L by (auto simp: g'_def)
  have k0: "0 < unat ?k" using sp(3) [OF sp(6)] by (simp add: word_less_nat_alt)
  have k64: "unat x < 2 ^ 64" for x :: u64 using unsigned_less [of x] by simp
  have ms: "m' L = Some ((leaf_with lz (take 2 its))\<lparr>bn_next := nx, bn_parent := Some r\<rparr>)"
    "m' R = Some ((leaf_with rz (drop 2 its))\<lparr>bn_parent := Some r\<rparr>)" "m' r = Some (root_node ?k L R)"
    using L by (auto simp: m'_def)
  have okL: "node_ok m' {r, L, R} g' L ((leaf_with lz (take 2 its))\<lparr>bn_next := nx, bn_parent := Some r\<rparr>)"
    unfolding node_ok_parent node_ok_next
    using sp(1,3) len z k0 by (intro leaf_okI) (auto simp: gs word_less_nat_alt)
  have okR: "node_ok m' {r, L, R} g' R ((leaf_with rz (drop 2 its))\<lparr>bn_parent := Some r\<rparr>)"
    unfolding node_ok_parent
    using sp(2,4) len z k64 by (intro leaf_okI) (auto simp: gs word_le_nat_alt)
  have okr: "node_ok m' {r, L, R} g' r (root_node ?k L R)"
    using ms by (intro node_ok_innerI [where cs = "[L, R]"]) (auto simp: gs covers_def)
  have "root_ok m' r {r, L, R} g'" using ms gs by (auto simp: root_ok_def)
  moreover have "has_parent m' {r, L, R} p" if "p \<in> {r, L, R}" "p \<noteq> r" for p
    using that ms by (auto simp: has_parent_def intro!: bexI [of _ r])
  ultimately have "tree_ok m' r {r, L, R} g'"
    using okL okR okr ms unfolding tree_ok_def by blast
  then show "\<exists>g'. tree_ok m' r {r, L, R} g'" by blast
  have "entries m' {r, L, R} = set (take 2 its) \<union> set (drop 2 its)"
    using ms len z by (auto simp: entries_def litems_def)
  also have "\<dots> = insert e (entries m T)"
    unfolding sp(5) its(3) T using q by (simp add: entries_def litems_def)
  finally show "entries m' {r, L, R} = insert e (entries m T)" .
  show "filled m' r {r, L, R}"
    using ms len z its(1) by (auto simp: filled_def fills_def root_node_def)
qed

text \<open>The full leaf is not the root: its right half is pending.\<close>

lemma insert_split_leaf:
  fixes nx ny :: "nat option"
  assumes tree: "tree_ok m r T g" and q: "q \<in> T" "m q = Some n" "bn_leaf n" "node_ok m T g q n" "q \<noteq> r"
    and k: "g_lo g q \<le> unat k" "unat k < g_hi g q" and P: "bn_parent n = Some P"
    and its: "length its = 4" "sorted_wrt (<) (map fst its)" "set its = insert (k, dv) (set (items n))"
    and R: "R \<notin> T" and z: "wf_node rz"
  defines "m' \<equiv> m(q \<mapsto> (leaf_with n (take 2 its))\<lparr>bn_next := nx\<rparr>,
     R \<mapsto> (leaf_with rz (drop 2 its))\<lparr>bn_next := ny, bn_parent := Some P\<rparr>)"
  shows "\<exists>g'. pending m' r T g' P q (fst (its ! 2)) R"
    "entries m' (insert R T) = insert (k, dv) (entries m T)"
    "filled m r T \<Longrightarrow> filled m' r (insert R T)"
proof -
  let ?k = "fst (its ! 2)"
  note sp = split_items [OF its(1,2)]
  note lf = leaf_okD [OF q(4,3)]
  have len: "length (take 2 its) \<le> 3" "length (drop 2 its) \<le> 3" using its(1) by auto
  have bnd: "g_lo g q \<le> unat x \<and> unat x < g_hi g q" if "x \<in> fst ` set its" for x
    using that k lf(5) unfolding its(3) by auto
  have sub: "fst ` set (take 2 its) \<subseteq> fst ` set its" "fst ` set (drop 2 its) \<subseteq> fst ` set its"
    using sp(5) by auto
  have bnd1: "g_lo g q \<le> unat x \<and> unat x < g_hi g q" if "x \<in> fst ` set (take 2 its)" for x
    using that sub bnd by blast
  have bnd2: "g_lo g q \<le> unat x \<and> unat x < g_hi g q" if "x \<in> fst ` set (drop 2 its)" for x
    using that sub bnd by blast
  have klo: "g_lo g q < unat ?k"
  proof -
    have "fst (its ! 0) \<in> fst ` set its" using sp(6) sub by blast
    then have "g_lo g q \<le> unat (fst (its ! 0))" using bnd by blast
    moreover have "unat (fst (its ! 0)) < unat ?k" using sp(3) [OF sp(6)] by (simp add: word_less_nat_alt)
    ultimately show ?thesis by simp
  qed
  have khi: "unat ?k < g_hi g q" using bnd [of ?k] sp(7) sub by blast
  have qR: "q \<noteq> R" using q(1) R by auto
  define g' where "g' = g(q := (g_lo g q, unat ?k, 0), R := (unat ?k, g_hi g q, 0))"
  have gs: "g' q = (g_lo g q, unat ?k, 0)" "g' R = (unat ?k, g_hi g q, 0)" using qR by (auto simp: g'_def)
  have go: "g' a = g a" if "a \<noteq> q" "a \<noteq> R" for a using that by (simp add: g'_def)
  have ms: "m' q = Some ((leaf_with n (take 2 its))\<lparr>bn_next := nx\<rparr>)"
    "m' R = Some ((leaf_with rz (drop 2 its))\<lparr>bn_next := ny, bn_parent := Some P\<rparr>)"
    using qR by (auto simp: m'_def)
  have mo: "m' a = m a" if "a \<noteq> q" "a \<noteq> R" for a using that by (simp add: m'_def)
  have okq: "node_ok m' T g' q ((leaf_with n (take 2 its))\<lparr>bn_next := nx\<rparr>)"
    unfolding node_ok_next
    using sp(1,3) len lf(1) klo bnd1 by (intro leaf_okI) (simp_all add: gs word_less_nat_alt)
  have okR: "node_ok m' T g' R ((leaf_with rz (drop 2 its))\<lparr>bn_next := ny, bn_parent := Some P\<rparr>)"
    unfolding node_ok_parent node_ok_next
    using sp(2,4) len z khi bnd2 by (intro leaf_okI) (simp_all add: gs word_le_nat_alt)
  \<comment> \<open>the parent\<close>
  obtain a an where a: "a \<in> T" "m a = Some an" "Some q \<in> set (nkids an)"
    using tree q(1,5) by (auto simp: tree_ok_def has_parent_def)
  have oka: "node_ok m T g a an" using tree_node [OF tree a(1)] a(2) by auto
  have "a = P" using node_ok_kid(3) [OF oka a(3)] q(2) P by simp
  note a = a [unfolded this] and oka = oka [unfolded this]
  have inner: "\<not> bn_leaf an" using a(3) by (auto simp: nkids_def)
  have Pq: "P \<noteq> q" using a(2) q(2,3) inner by auto
  have PR: "P \<noteq> R" using a(1) R by auto
  have kid: "c \<in> T \<and> c \<noteq> R \<and> (\<exists>cn. m' c = Some cn \<and> bn_parent cn = Some p)"
    if ok: "node_ok m T g p x" and c: "Some c \<in> set (nkids x)" for p x c
  proof -
    have "c \<in> T" by (rule node_ok_kid(1) [OF ok c])
    moreover from this R have "c \<noteq> R" by blast
    ultimately show ?thesis
      using node_ok_kid(3) [OF ok c] q(2) ms mo [of c] lf(1) len by (cases "c = q") auto
  qed
  have okP: "node_ok m' T (g'(q := (g_lo g' q, g_hi g' R, g_ht g' q))) P an"
  proof (rule node_ok_frame [OF oka order_refl])
    show "(g'(q := (g_lo g' q, g_hi g' R, g_ht g' q))) P = g P" using Pq go [OF Pq PR] by simp
    fix c cn assume c: "Some c \<in> set (nkids an)"
    have "(g'(q := (g_lo g' q, g_hi g' R, g_ht g' q))) c = g c"
      using kid [OF oka c] go [of c] lf(3) by (cases "c = q") (auto simp: gs prod_eq_iff)
    with kid [OF oka c] show "(g'(q := (g_lo g' q, g_hi g' R, g_ht g' q))) c = g c
        \<and> (\<exists>cn'. m' c = Some cn' \<and> bn_parent cn' = Some P)" by blast
  qed
  have ok: "\<exists>n. m' p = Some n \<and> node_ok m' T g' p n" if p: "p \<in> T - {P}" for p
  proof (cases "p = q")
    case True
    with ms okq show ?thesis by simp
  next
    case False
    have pR: "p \<noteq> R" using p R by auto
    obtain x where x: "m p = Some x" "node_ok m T g p x" using tree_node [OF tree] p by blast
    have "node_ok m' T g' p x"
    proof (rule node_ok_frame [OF x(2) order_refl])
      show "g' p = g p" using False pR by (rule go)
      fix c cn assume c: "Some c \<in> set (nkids x)" "m c = Some cn" "bn_parent cn = Some p"
      have "c \<noteq> q" using c(2,3) q(2) P p by auto
      then show "g' c = g c \<and> (\<exists>cn'. m' c = Some cn' \<and> bn_parent cn' = Some p)"
        using kid [OF x(2) c(1)] go [of c] by blast
    qed
    with x mo [OF False pR] show ?thesis by simp
  qed
  have reach: "has_parent m' (insert R T) p" if p: "p \<in> T" "p \<noteq> r" for p
  proof -
    obtain b bn where b: "b \<in> T" "m b = Some bn" "Some p \<in> set (nkids bn)"
      using tree p by (auto simp: tree_ok_def has_parent_def)
    then have "b \<noteq> q" "b \<noteq> R" using q(2,3) R by (auto simp: nkids_def)
    with b mo show ?thesis by (auto simp: has_parent_def)
  qed
  have rR: "r \<noteq> R" using tree R by (auto simp: tree_ok_def root_ok_def)
  have "root_ok m r T g" using tree by (simp add: tree_ok_def)
  moreover have "\<forall>p \<in> T. g_ht g' p = g_ht g p" using R lf(3) by (auto simp: g'_def)
  ultimately have root: "root_ok m' r T g'"
    using q(5) rR mo [of r] go [of r] by (simp add: root_ok_def)
  have "pending m' r T g' P q ?k R"
    unfolding pending_def
    using root a(1,3) q(1,5) R ok okR okP reach ms(2) mo [OF Pq PR] a(2) inner gs
    by (intro conjI ballI impI) auto
  then show "\<exists>g'. pending m' r T g' P q ?k R" by blast
  have Un: "entries m' (insert R T)
      = litems (m' R) \<union> (litems (m' q) \<union> (\<Union>p\<in>T - {q}. litems (m p)))"
  proof -
    have "m' p = m p" if "p \<in> T - {q}" for p using that R by (intro mo) auto
    then have "(\<Union>p\<in>T - {q}. litems (m' p)) = (\<Union>p\<in>T - {q}. litems (m p))" by simp
    then show ?thesis using q(1) by (auto simp: entries_def)
  qed
  have "litems (m' R) \<union> litems (m' q) = insert (k, dv) (litems (m q))"
    using ms len z lf(1) sp(5) its(3) q(2,3) by (auto simp: litems_def)
  moreover have "entries m T = litems (m q) \<union> (\<Union>p\<in>T - {q}. litems (m p))"
    using q(1) by (auto simp: entries_def)
  ultimately show "entries m' (insert R T) = insert (k, dv) (entries m T)"
    unfolding Un by auto
  assume fill: "filled m r T"
  have "fills r p x" if "p \<in> insert R T" "m' p = Some x" for p x
  proof (cases "p = q \<or> p = R")
    case True
    with that ms len z lf(1) its(1) show ?thesis by (auto simp: fills_def)
  next
    case False
    with that mo [of p] fill show ?thesis by (auto simp: filled_def)
  qed
  then show "filled m' r (insert R T)" by (simp add: filled_def)
qed

text \<open>What an insertion of \<open>(fk, dk, v)\<close> promises.\<close>

definition inserted :: "nat \<Rightarrow> nat set \<Rightarrow> index_map \<Rightarrow> u64 \<Rightarrow> u64 \<times> u16 \<Rightarrow> bpt \<Rightarrow> bool \<Rightarrow> bpt \<Rightarrow> bool" where
  "inserted r T M fk dv s b s' \<longleftrightarrow> touched T s s' \<and>
     (if b then M fk = None \<and> (\<exists>T'. T \<subseteq> T' \<and> T' \<inter> owned (bp_heap s) = T \<and> bpt_rep s' r T' (M(fk \<mapsto> dv)))
      else (M fk \<noteq> None \<and> s' = s) \<or> (M fk = None \<and> full s'))"

lemma insertedI:
  assumes "touched T s s'" "M fk = None" "T \<subseteq> T'" "T' \<inter> owned (bp_heap s) = T" "T' \<subseteq> owned (bp_heap s')"
    "tree_ok (bp_nd s') r T' g" "entries (bp_nd s') T' = insert (fk, dv) (entries (bp_nd s) T)"
    "entries (bp_nd s) T = {(k, dv). M k = Some dv}" "filled (bp_nd s') r T'"
  shows "inserted r T M fk dv s True s'"
proof -
  have "entries (bp_nd s') T' = {(k, x). (M(fk \<mapsto> dv)) k = Some x}"
    using assms(2,7,8) by (auto split: if_splits)
  then have "bpt_rep s' r T' (M(fk \<mapsto> dv))"
    using assms by (auto simp: bpt_rep_def touched_def)
  with assms show ?thesis by (auto simp: inserted_def)
qed

text \<open>The part of \<open>bpt_insert\<close> after the leaf has been found not to hold the key.\<close>

definition insert_rest ::
  "bpt \<Rightarrow> nat \<Rightarrow> nat \<Rightarrow> bpt_node \<Rightarrow> u64 list \<Rightarrow> u64 list \<Rightarrow> u16 list \<Rightarrow> (bool \<times> bpt) option" where
  "insert_rest s r leaf n fks' dks' vs' =
     (let num = bn_num n in
      if num < MAX_BPT_NODE_NUM - 1
      then do {
        f \<leftarrow> awrite (bn_fnv n) fks'; d \<leftarrow> awrite (bn_djb n) dks'; v \<leftarrow> awrite (bn_data n) vs';
        Some (True, s\<lparr>bp_nd := (bp_nd s)(leaf \<mapsto>
           n\<lparr>bn_fnv := f, bn_djb := d, bn_data := v, bn_num := num + 1\<rparr>)\<rparr>)
      }
      else do {
        (rq, s1) \<leftarrow> create_node s True;
        (case rq of
           None \<Rightarrow> Some (False, s1)
         | Some rl \<Rightarrow>
             let lcnt = (MAX_BPT_NODE_NUM + 1) div 2; rcnt = MAX_BPT_NODE_NUM - lcnt in
             if leaf = r
             then do {
               (lq, s2) \<leftarrow> create_node s1 True;
               (case lq of
                  None \<Rightarrow> Some (False, s2)
                | Some ll \<Rightarrow> do {
                    m1 \<leftarrow> put_leaf (bp_nd s2) ll fks' dks' vs' lcnt;
                    m2 \<leftarrow> put_leaf m1 rl (drop lcnt fks') (drop lcnt dks') (drop lcnt vs') rcnt;
                    lln \<leftarrow> m2 ll;
                    let m3 = m2(ll \<mapsto> lln\<lparr>bn_next := Some rl\<rparr>);
                    rln \<leftarrow> m3 rl;
                    m3 r;
                    let m4 = m3(r \<mapsto> zero_node\<lparr>bn_leaf := False, bn_num := 1,
                               bn_fnv := [bn_fnv rln ! 0, 0, 0],
                               bn_child := [Some ll, Some rl, None, None]\<rparr>);
                    m5 \<leftarrow> set_parent m4 (Some ll) (Some r);
                    m6 \<leftarrow> set_parent m5 (Some rl) (Some r);
                    Some (True, s2\<lparr>bp_nd := m6\<rparr>)
                  })
             }
             else (case bn_parent n of
                     None \<Rightarrow> Some (False, s1)
                   | Some parent \<Rightarrow> do {
                       m1 \<leftarrow> put_leaf (bp_nd s1) leaf fks' dks' vs' lcnt;
                       m2 \<leftarrow> put_leaf m1 rl (drop lcnt fks') (drop lcnt dks') (drop lcnt vs') rcnt;
                       lfn \<leftarrow> m2 leaf;
                       let m3 = m2(leaf \<mapsto> lfn\<lparr>bn_next := Some rl\<rparr>);
                       rln \<leftarrow> m3 rl;
                       let m4 = m3(rl \<mapsto> rln\<lparr>bn_next := bn_next n, bn_parent := Some parent\<rparr>);
                       sep \<leftarrow> aget (bn_fnv rln) 0;
                       add_parent (s1\<lparr>bp_nd := m4\<rparr>) r leaf sep rl
                     }))
      })"

lemma bpt_insert_start:
  fixes v :: u16
  assumes h: "fnv1a_hash_64 nm = Some fk" "djb2_hash_64 nm = Some dk"
    and q: "search_leaf (bp_nd s) (Some r) fk = Some (Some q)" "bp_nd s q = Some n" and wf: "wf_node n"
  defines "pos \<equiv> scan (\<lambda>k. k < fk) (nkeys n)"
  defines "its \<equiv> insert_at pos (fk, dk, v) (items n)"
  shows "bpt_insert s (Some r) (Some nm) v =
    (if pos < bn_num n \<and> nkeys n ! pos = fk then Some (False, s)
     else insert_rest s r q n (map fst its) (map (fst \<circ> snd) its) (map (snd \<circ> snd) its))"
proof -
  have cols: "aprefix (bn_djb n) (bn_num n) = Some (map (fst \<circ> snd) (items n))"
    "aprefix (bn_data n) (bn_num n) = Some (map (snd \<circ> snd) (items n))"
    "aprefix (bn_fnv n) (bn_num n) = Some (nkeys n)" "nkeys n = map fst (items n)"
    using items_columns [OF wf] wf map_fst_items [OF wf] by (simp_all add: nkeys_def)
  have its: "map fst its = insert_at pos fk (nkeys n)"
    "map (fst \<circ> snd) its = insert_at pos dk (map (fst \<circ> snd) (items n))"
    "map (snd \<circ> snd) its = insert_at pos v (map (snd \<circ> snd) (items n))"
    by (simp_all add: its_def map_insert_at cols(4))
  show ?thesis
    unfolding its
    by (simp add: bpt_insert_def insert_rest_def Let_def h q cols(1-3) pos_def)
qed

abbreviation insert_rest_items :: "bpt \<Rightarrow> nat \<Rightarrow> nat \<Rightarrow> bpt_node \<Rightarrow> (u64 \<times> u64 \<times> u16) list \<Rightarrow> (bool \<times> bpt) option" where
  "insert_rest_items s r q n its \<equiv>
     insert_rest s r q n (map fst its) (map (fst \<circ> snd) its) (map (snd \<circ> snd) its)"

lemma insert_rest_room:
  assumes "wf_node n" "bn_leaf n" "length its = Suc (bn_num n)" "bn_num n < 3"
  shows "insert_rest_items s r q n its = Some (True, s\<lparr>bp_nd := (bp_nd s)(q \<mapsto> leaf_with n its)\<rparr>)"
proof -
  have "leaf_with n its = n\<lparr>bn_fnv := map fst its @ drop (length its) (bn_fnv n),
     bn_djb := map (fst \<circ> snd) its @ drop (length its) (bn_djb n),
     bn_data := map (snd \<circ> snd) its @ drop (length its) (bn_data n), bn_num := length its\<rparr>"
    using assms(2) by (cases n) (simp add: leaf_with_def)
  with assms show ?thesis by (simp add: insert_rest_def MAX_BPT_NODE_NUM_def Let_def)
qed

lemma put_leaf_halves:
  assumes "m p = Some n" "wf_node n" "length its = 4"
  shows "put_leaf m p (map fst its) (map (fst \<circ> snd) its) (map (snd \<circ> snd) its) 2
      = Some (m(p \<mapsto> leaf_with n (take 2 its)))"
    and "put_leaf m p (drop 2 (map fst its)) (drop 2 (map (fst \<circ> snd) its)) (drop 2 (map (snd \<circ> snd) its)) 2
      = Some (m(p \<mapsto> leaf_with n (drop 2 its)))"
proof -
  have l: "length (take 2 its) = 2" "length (drop 2 its) = 2" using assms(3) by auto
  have "put_leaf m p (map fst (take 2 its) @ map fst (drop 2 its))
       (map (fst \<circ> snd) (take 2 its) @ map (fst \<circ> snd) (drop 2 its))
       (map (snd \<circ> snd) (take 2 its) @ map (snd \<circ> snd) (drop 2 its)) 2
      = Some (m(p \<mapsto> leaf_with n (take 2 its)))"
    using put_leaf_eq [where m = m and p = p and n = n and its = "take 2 its"] assms l by simp
  then show "put_leaf m p (map fst its) (map (fst \<circ> snd) its) (map (snd \<circ> snd) its) 2
      = Some (m(p \<mapsto> leaf_with n (take 2 its)))"
    by (simp flip: map_append)
  show "put_leaf m p (drop 2 (map fst its)) (drop 2 (map (fst \<circ> snd) its)) (drop 2 (map (snd \<circ> snd) its)) 2
      = Some (m(p \<mapsto> leaf_with n (drop 2 its)))"
    using put_leaf_eq [where m = m and p = p and n = n and its = "drop 2 its" and x = "[]" and y = "[]" and z = "[]"] assms l by (simp add: drop_map)
qed

lemma leaf_with_first: "length its \<ge> 1 \<Longrightarrow> bn_fnv (leaf_with n its) ! 0 = fst (its ! 0)"
  by (cases its) (simp_all add: leaf_with_def)

lemma aget_0_leaf_with: "length its \<ge> 1 \<Longrightarrow> aget (bn_fnv (leaf_with n its)) 0 = Some (fst (its ! 0))"
  by (cases its) (simp_all add: leaf_with_def)

lemma insert_rest_no_room:
  assumes "bn_num n = 3" "create_node s True = Some (None, s)"
  shows "insert_rest_items s r q n its = Some (False, s)"
  using assms by (simp add: insert_rest_def MAX_BPT_NODE_NUM_def Let_def)

lemma insert_rest_leaf:
  assumes num: "bn_num n = 3" and c: "create_node s True = Some (Some R, s1)" and q: "q \<noteq> r" "q \<noteq> R"
    and P: "bn_parent n = Some P" and nq: "bp_nd s1 q = Some n" "wf_node n"
    and nR: "bp_nd s1 R = Some rz" "wf_node rz" and its: "length its = 4"
  shows "insert_rest_items s r q n its =
    add_parent (s1\<lparr>bp_nd := (bp_nd s1)(q \<mapsto> (leaf_with n (take 2 its))\<lparr>bn_next := Some R\<rparr>,
       R \<mapsto> (leaf_with rz (drop 2 its))\<lparr>bn_next := bn_next n, bn_parent := Some P\<rparr>)\<rparr>)
      r q (fst (its ! 2)) R"
proof -
  let ?m1 = "(bp_nd s1)(q \<mapsto> leaf_with n (take 2 its))"
  have m1R: "?m1 R = Some rz" using nR q by simp
  have tw: "?m1(R \<mapsto> x, q \<mapsto> y, R \<mapsto> z) = (bp_nd s1)(q \<mapsto> y, R \<mapsto> z)" for x y z
    using q by (auto simp: fun_eq_iff)
  show ?thesis
    using num c q P its put_leaf_halves(1) [where m = "bp_nd s1" and p = q, OF nq its]
      put_leaf_halves(2) [where m = ?m1 and p = R, OF m1R nR(2) its]
    by (simp add: insert_rest_def MAX_BPT_NODE_NUM_def Let_def aget_0_leaf_with tw)
qed

lemma insert_rest_root:
  assumes num: "bn_num n = 3" and c: "create_node s True = Some (Some R, s1)" "create_node s1 True = Some (Some L, s2)"
    and LR: "L \<noteq> r" "R \<noteq> r" "L \<noteq> R"
    and r: "bp_nd s2 r = Some n" and nL: "bp_nd s2 L = Some lz" "wf_node lz"
    and nR: "bp_nd s2 R = Some rz" "wf_node rz" and its: "length its = 4"
  shows "insert_rest_items s r r n its =
    Some (True, s2\<lparr>bp_nd := (bp_nd s2)(r \<mapsto> root_node (fst (its ! 2)) L R,
     L \<mapsto> (leaf_with lz (take 2 its))\<lparr>bn_next := Some R, bn_parent := Some r\<rparr>,
     R \<mapsto> (leaf_with rz (drop 2 its))\<lparr>bn_parent := Some r\<rparr>)\<rparr>)"
proof -
  let ?m1 = "(bp_nd s2)(L \<mapsto> leaf_with lz (take 2 its))"
  have m1R: "?m1 R = Some rz" using nR LR by simp
  have tw: "?m1(R \<mapsto> x, L \<mapsto> a, r \<mapsto> w, L \<mapsto> y, R \<mapsto> z) = (bp_nd s2)(r \<mapsto> w, L \<mapsto> y, R \<mapsto> z)" for x y z w a
    using LR by (auto simp: fun_eq_iff)
  show ?thesis
    using num c LR r its put_leaf_halves(1) [where m = "bp_nd s2" and p = L, OF nL its]
      put_leaf_halves(2) [where m = ?m1 and p = R, OF m1R nR(2) its]
    by (simp add: insert_rest_def MAX_BPT_NODE_NUM_def Let_def leaf_with_first tw set_parent_def root_node_def)
qed

lemma bpt_insert_ok:
  assumes rep: "bpt_rep s r T M" and h: "fnv1a_hash_64 nm = Some fk" "djb2_hash_64 nm = Some dk"
  shows "\<exists>b s'. bpt_insert s (Some r) (Some nm) v = Some (b, s') \<and> inserted r T M fk (dk, v) s b s'"
proof -
  let ?m = "bp_nd s"
  obtain g where tree: "tree_ok ?m r T g" using rep by (auto simp: bpt_rep_def)
  have inv: "heap_inv (bp_heap s)" and own: "T \<subseteq> owned (bp_heap s)"
    and abs: "entries ?m T = {(k, dv). M k = Some dv}" and fill: "filled ?m r T"
    using rep by (auto simp: bpt_rep_def)
  obtain q n where q: "search_leaf ?m (Some r) fk = Some (Some q)" "q \<in> T" "?m q = Some n" "bn_leaf n"
    "node_ok ?m T g q n" and k: "g_lo g q \<le> unat fk" "unat fk < g_hi g q"
    and ent: "\<And>dv. (fk, dv) \<in> entries ?m T \<longleftrightarrow> (fk, dv) \<in> set (items n)"
    using search_leaf_rep [OF tree, of fk] by metis
  note lf = leaf_okD [OF q(5,4)]
  have M: "M fk = Some dv \<longleftrightarrow> (fk, dv) \<in> set (items n)" for dv
    using abs ent [of dv] by auto
  have keys: "nkeys n = map fst (items n)" using map_fst_items [OF lf(1)] by simp
  let ?pos = "scan (\<lambda>k. k < fk) (nkeys n)"
  let ?its = "insert_at ?pos (fk, dk, v) (items n)"
  note start = bpt_insert_start [OF h q(1,3) lf(1), of v]
  show ?thesis
  proof (cases "?pos < bn_num n \<and> nkeys n ! ?pos = fk")
    case True
    then have "fk \<in> set (nkeys n)" using lf(1) nth_mem [of ?pos "nkeys n"] by simp
    then obtain dv where "(fk, dv) \<in> set (items n)" unfolding keys by auto
    then have "M fk = Some dv" by (simp only: M)
    then have "M fk \<noteq> None" by simp
    with start True inv show ?thesis by (auto simp: inserted_def touched_refl)
  next
    case False
    then have absent: "\<not> (?pos < length (nkeys n) \<and> nkeys n ! ?pos = fk)" using lf(1) by simp
    have srt: "sorted_wrt (<) (nkeys n)" using lf(4) keys by simp
    have "fk \<notin> set (nkeys n)" by (rule scan_lt_absent [OF srt absent])
    then have Mk: "M fk = None" using M unfolding keys by (cases "M fk") force+
    have its: "sorted_wrt (<) (map fst ?its)" "set ?its = insert (fk, dk, v) (set (items n))"
      "length ?its = Suc (bn_num n)"
      using sorted_insert_at [OF srt absent] lf(1) by (simp_all add: map_insert_at keys set_insert_at)
    have eq: "bpt_insert s (Some r) (Some nm) v = insert_rest_items s r q n ?its"
      using start False by (simp only: if_False)
    show ?thesis
    proof (cases "bn_num n < 3")
      case True
      let ?s = "s\<lparr>bp_nd := ?m(q \<mapsto> leaf_with n ?its)\<rparr>"
      have len: "length ?its \<le> 3" using its(3) True by simp
      note ir = insert_room [OF tree q(2-5) k its(1,2) len]
      have "inserted r T M fk (dk, v) s True ?s"
        by (rule insertedI [where T' = T and g = g]) (use ir fill its(3) own inv abs Mk q(2) in \<open>auto simp: touched_def\<close>)
      with eq insert_rest_room [OF lf(1) q(4) its(3) True, of s r q] show ?thesis by auto
    next
      case False
      then have num: "bn_num n = 3" using wf_lengths(5) [OF lf(1)] by simp
      then have len: "length ?its = 4" using its(3) by simp
      show ?thesis
        using create_node_cases [OF inv, of True]
      proof (cases)
        case 1
        with eq insert_rest_no_room [OF num 1(1), of r q ?its] Mk inv show ?thesis
          by (auto simp: inserted_def touched_refl)
      next
        case (2 R s1)
        have RT: "R \<notin> T" using 2(3) own by blast
        have eq1: "\<forall>a \<in> T. bp_nd s1 a = ?m a" using 2(5) RT by auto
        have tree1: "tree_ok (bp_nd s1) r T g" by (rule tree_ok_local [OF tree eq1])
        have ok1: "node_ok (bp_nd s1) T g q n" by (rule node_ok_local [OF q(5) eq1])
        have n1: "bp_nd s1 q = Some n" using eq1 q(2,3) by simp
        have R1: "bp_nd s1 R = Some (zero_node\<lparr>bn_leaf := True\<rparr>)" using 2(5) by simp
        have rT: "r \<in> T" using tree by (simp add: tree_ok_def root_ok_def)
        show ?thesis
        proof (cases "q = r")
          case False
          have qR: "q \<noteq> R" using RT q(2) by blast
          obtain P where P: "bn_parent n = Some P"
          proof -
            obtain a an where a: "a \<in> T" "?m a = Some an" "Some q \<in> set (nkids an)"
              using tree q(2) False by (auto simp: tree_ok_def has_parent_def)
            then have "node_ok ?m T g a an" using tree_node [OF tree a(1)] by auto
            from node_ok_kid(3) [OF this a(3)] q(3) that show ?thesis by auto
          qed
          let ?m2 = "(bp_nd s1)(q \<mapsto> (leaf_with n (take 2 ?its))\<lparr>bn_next := Some R\<rparr>,
            R \<mapsto> (leaf_with (zero_node\<lparr>bn_leaf := True\<rparr>) (drop 2 ?its))\<lparr>bn_next := bn_next n, bn_parent := Some P\<rparr>)"
          let ?s2 = "s1\<lparr>bp_nd := ?m2\<rparr>"
          note sl = insert_split_leaf [OF tree1 q(2) n1 q(4) ok1 False k P len its(1,2) RT zero_leaf_wf,
              of "Some R" "bn_next n"]
          obtain g' where pend: "pending (bp_nd ?s2) r T g' P q (fst (?its ! 2)) R" using sl(1) by auto
          have own2: "insert R T \<subseteq> owned (bp_heap ?s2)" using 2(4) own by auto
          have fill2: "filled (bp_nd ?s2) r (insert R T)" using sl(3) [OF filled_local [OF fill eq1]] by simp
          obtain b s' where s': "add_parent ?s2 r q (fst (?its ! 2)) R = Some (b, s')"
            "climbed r (insert R T) ?s2 b s'"
            using add_parent_ok [OF pend _ own2 fill2] 2(2) by auto
          have call: "bpt_insert s (Some r) (Some nm) v = Some (b, s')"
            using eq insert_rest_leaf [OF num 2(1) False qR P n1 lf(1) R1 zero_leaf_wf len] s'(1) by simp
          have t1: "touched T s ?s2"
            using 2(2-6) q(2) by (auto simp: touched_def)
          have t: "touched T s s'"
          proof (rule touched_trans [OF t1])
            show "touched (insert R T) ?s2 s'" using s'(2) by (simp add: climbed_def)
          qed (use 2(3) in auto)
          show ?thesis
          proof (cases b)
            case False
            with t Mk s'(2) call show ?thesis by (auto simp: inserted_def climbed_def)
          next
            case True
            with s'(2) obtain T' g'' where T': "insert R T \<subseteq> T'" "T' \<subseteq> owned (bp_heap s')"
              "T' \<inter> owned (bp_heap ?s2) = insert R T" "tree_ok (bp_nd s') r T' g''"
              "entries (bp_nd s') T' = entries (bp_nd ?s2) (insert R T)" "filled (bp_nd s') r T'"
              by (auto simp: climbed_def)
            have "T' \<inter> owned (bp_heap s) = T"
            proof -
              have "T' \<inter> owned (bp_heap s) = (T' \<inter> owned (bp_heap ?s2)) \<inter> owned (bp_heap s)"
                using 2(4) by auto
              also have "\<dots> = T" unfolding T'(3) using 2(3) own by blast
              finally show ?thesis .
            qed
            moreover have "entries (bp_nd s') T' = insert (fk, dk, v) (entries ?m T)"
              using T'(5) sl(2) entries_local [OF eq1] by simp
            ultimately have "inserted r T M fk (dk, v) s True s'"
              using t Mk T'(1,2,4,6) abs by (intro insertedI [where T' = T' and g = g'']) auto
            with call True show ?thesis by (intro exI [of _ b] exI [of _ s']) simp
          qed
        next
          case True
          note qr = this
          have nR: "R \<noteq> r" using rT RT by blast
          show ?thesis
            using create_node_cases [OF 2(2), of True]
          proof (cases)
            case 1
            then have "insert_rest_items s r q n ?its = Some (False, s1)"
              unfolding qr insert_rest_def using num 2(1) by (simp add: MAX_BPT_NODE_NUM_def Let_def)
            moreover have "touched T s s1" using 2(2-6) RT by (auto simp: touched_def)
            ultimately show ?thesis using eq 1 Mk by (auto simp: inserted_def)
          next
            case (2 L s2)
            note L = this and s1 = \<open>R \<notin> owned (bp_heap s)\<close> \<open>owned (bp_heap s1) = insert R (owned (bp_heap s))\<close>
              \<open>bp_nd s1 = (bp_nd s)(R \<mapsto> zero_node\<lparr>bn_leaf := True\<rparr>)\<close> \<open>create_node s True = Some (Some R, s1)\<close>
              \<open>live (bp_heap s) \<subseteq> live (bp_heap s1)\<close>
            have LR: "L \<noteq> r" "L \<noteq> R" using L(3) s1(2) own rT by auto
            have LT: "L \<notin> T" using L(3) s1(2) own by auto
            have eq2: "\<forall>a \<in> T. bp_nd s2 a = ?m a" using L(5) eq1 LT by auto
            have tree2: "tree_ok (bp_nd s2) r T g" by (rule tree_ok_local [OF tree eq2])
            have r2: "bp_nd s2 r = Some n" using eq2 rT q(3) qr by simp
            have L2: "bp_nd s2 L = Some (zero_node\<lparr>bn_leaf := True\<rparr>)" using L(5) by simp
            have R2: "bp_nd s2 R = Some (zero_node\<lparr>bn_leaf := True\<rparr>)" using L(5) LR R1 by simp
            note call = insert_rest_root [OF num s1(4) L(1) LR(1) nR LR(2) r2 L2 zero_leaf_wf R2 zero_leaf_wf len]
            let ?z = "zero_node\<lparr>bn_leaf := True\<rparr>"
            let ?m3 = "(bp_nd s2)(r \<mapsto> root_node (fst (?its ! 2)) L R,
               L \<mapsto> (leaf_with ?z (take 2 ?its))\<lparr>bn_next := Some R, bn_parent := Some r\<rparr>,
               R \<mapsto> (leaf_with ?z (drop 2 ?its))\<lparr>bn_parent := Some r\<rparr>)"
            let ?s3 = "s2\<lparr>bp_nd := ?m3\<rparr>"
            note sr = insert_split_root [OF tree2 r2 q(4) len its(1,2) LR(1) nR LR(2) zero_leaf_wf [of True]
                zero_leaf_wf [of True], where nx = "Some R"]
            obtain g' where tree3: "tree_ok (bp_nd ?s3) r {r, L, R} g'" using sr(1) by auto
            have T: "T = {r}" using leaf_root_alone [OF tree] q(3,4) qr by simp
            have "touched T s ?s3"
              unfolding touched_def using L(2-6) s1 T by auto
            moreover have "entries (bp_nd ?s3) {r, L, R} = insert (fk, dk, v) (entries ?m T)"
              using sr(2) entries_local [OF eq2] by simp
            ultimately have "inserted r T M fk (dk, v) s True ?s3"
              using Mk abs tree3 T own L(3,4) s1(1,2) sr(3)
              by (intro insertedI [where T' = "{r, L, R}" and g = g']) auto
            with eq call qr show ?thesis by auto
          qed
        qed
      qed
    qed
  qed
qed

section \<open>A fresh index\<close>

definition name_key :: "cstr \<Rightarrow> (u64 \<times> u64) option" where
  "name_key nm = do { f \<leftarrow> fnv1a_hash_64 nm; d \<leftarrow> djb2_hash_64 nm; Some (f, d) }"

lemma bpt_rep_new:
  assumes "heap_inv (bp_heap s)" "create_node s True = Some (Some a, s')"
  shows "bpt_rep s' a {a} Map.empty" "a \<notin> owned (bp_heap s)"
proof -
  have n: "heap_inv (bp_heap s') \<and> a \<notin> owned (bp_heap s) \<and> owned (bp_heap s') = insert a (owned (bp_heap s))
    \<and> bp_nd s' = (bp_nd s)(a \<mapsto> zero_node\<lparr>bn_leaf := True\<rparr>)"
    by (rule create_node_cases [OF assms(1), of True]) (use assms(2) in simp_all)
  show "a \<notin> owned (bp_heap s)" using n by blast
  have "tree_ok (bp_nd s') a {a} (\<lambda>_. (0, 2 ^ 64, 0))"
    using n
    by (simp add: tree_ok_def root_ok_def node_ok_def zero_node_def wf_node_def nkeys_def del: wf_lengths)
  moreover have "filled (bp_nd s') a {a}" using n by (simp add: filled_def fills_def)
  moreover have "entries (bp_nd s') {a} = {}"
    using n by (simp add: entries_def litems_def items_def zero_node_def)
  ultimately show "bpt_rep s' a {a} Map.empty"
    using n by (auto simp: bpt_rep_def)
qed

lemma bpt_insert_empty:
  assumes "bp_nd s r = Some (zero_node\<lparr>bn_leaf := True\<rparr>)" "name_key nm = Some (f, d)"
  shows "\<exists>m. bpt_insert s (Some r) (Some nm) v = Some (True, s\<lparr>bp_nd := m\<rparr>)"
proof -
  let ?n = "zero_node\<lparr>bn_leaf := True\<rparr>"
  have h: "fnv1a_hash_64 nm = Some f" "djb2_hash_64 nm = Some d"
    using assms(2) by (auto simp: name_key_def bind_eq_Some_conv)
  have "search_leaf (bp_nd s) (Some r) f = Some (Some r)"
    using assms(1) by (simp add: search_leaf_def search_leaf_loop.simps)
  note start = bpt_insert_start [OF h this assms(1) zero_leaf_wf, of v]
  have e: "items ?n = []" "bn_num ?n = 0" by (simp_all add: items_def zero_node_def)
  show ?thesis
    using start insert_rest_room [of ?n "[(f, d, v)]" s r r]
    by (auto simp: e insert_at_def intro: exI [of _ "(bp_nd s)(r \<mapsto> leaf_with ?n [(f, d, v)])"])
qed

section \<open>The contract of a name index\<close>

text \<open>
  Several indexes live in one store; \<open>rep s r T M\<close> says that the index at \<open>r\<close> uses the nodes
  \<open>T\<close> and holds the map \<open>M\<close>. The key of a name is a pair of hashes, of which the first is
  the map's key and the second is compared on lookup.
\<close>

locale name_index =
  fixes rep :: "'s \<Rightarrow> nat \<Rightarrow> nat set \<Rightarrow> index_map \<Rightarrow> bool"
    and alloc :: "'s \<Rightarrow> nat set"
    and key :: "cstr \<Rightarrow> (u64 \<times> u64) option"
    and lookup :: "'s \<Rightarrow> nat \<Rightarrow> cstr \<Rightarrow> u16 option option"
    and store :: "'s \<Rightarrow> nat \<Rightarrow> cstr \<Rightarrow> u16 \<Rightarrow> (bool \<times> 's) option"
  assumes rep_alloc: "rep s r T M \<Longrightarrow> T \<subseteq> alloc s"
    and lookup_rep: "rep s r T M \<Longrightarrow> key nm = Some (f, d) \<Longrightarrow> lookup s r nm = Some (stored M f d)"
    and store_total: "rep s r T M \<Longrightarrow> key nm = Some (f, d) \<Longrightarrow> \<exists>b s'. store s r nm v = Some (b, s')"
    and store_True: "rep s r T M \<Longrightarrow> key nm = Some (f, d) \<Longrightarrow> store s r nm v = Some (True, s') \<Longrightarrow>
      M f = None \<and> (\<exists>T'. T \<subseteq> T' \<and> T' \<inter> alloc s = T \<and> rep s' r T' (M(f \<mapsto> (d, v))))"
    and store_dup: "rep s r T M \<Longrightarrow> key nm = Some (f, d) \<Longrightarrow> M f \<noteq> None \<Longrightarrow> store s r nm v = Some (False, s)"
    and store_frame: "rep s r T M \<Longrightarrow> key nm = Some (f, d) \<Longrightarrow> store s r nm v = Some (b, s') \<Longrightarrow>
      rep s r2 T2 M2 \<Longrightarrow> T \<inter> T2 = {} \<Longrightarrow> rep s' r2 T2 M2"
begin

lemma lookup_stored:
  assumes "rep s r T M" "key nm = Some (f, d)" "store s r nm v = Some (True, s')"
  shows "lookup s' r nm = Some (Some v)"
proof -
  obtain T' where "rep s' r T' (M(f \<mapsto> (d, v)))" using store_True [OF assms] by blast
  from lookup_rep [OF this assms(2)] show ?thesis by (simp add: stored_def)
qed

lemma lookup_other:
  assumes "rep s r T M" "key nm = Some (f, d)" "store s r nm v = Some (True, s')"
    and "key nm' = Some (f', d')" "f' \<noteq> f"
  shows "lookup s' r nm' = lookup s r nm'"
proof -
  obtain T' where "rep s' r T' (M(f \<mapsto> (d, v)))" using store_True [OF assms(1-3)] by blast
  from lookup_rep [OF this assms(4)] lookup_rep [OF assms(1,4)] assms(5) show ?thesis
    by (simp add: stored_def)
qed

text \<open>Two indexes in one store: storing in the first keeps both, with disjoint nodes.\<close>

lemma store_pair:
  assumes "rep s r T M" "rep s r2 T2 M2" "T \<inter> T2 = {}" "key nm = Some (f, d)"
    and "store s r nm v = Some (True, s')"
  shows "\<exists>T'. rep s' r T' (M(f \<mapsto> (d, v))) \<and> rep s' r2 T2 M2 \<and> T' \<inter> T2 = {}"
proof -
  obtain T' where "T \<subseteq> T'" "T' \<inter> alloc s = T" "rep s' r T' (M(f \<mapsto> (d, v)))"
    using store_True [OF assms(1,4,5)] by blast
  moreover have "T2 \<subseteq> alloc s" using assms(2) by (rule rep_alloc)
  ultimately show ?thesis using store_frame [OF assms(1,4,5,2,3)] assms(3) by blast
qed

lemma lookup_pair:
  assumes "rep s r T M" "rep s r2 T2 M2" "T \<inter> T2 = {}" "key nm = Some (f, d)"
    and "store s r nm v = Some (b, s')" "key nm' = Some (f', d')"
  shows "lookup s' r2 nm' = lookup s r2 nm'"
  using lookup_rep [OF store_frame [OF assms(1,4,5,2,3)] assms(6)] lookup_rep [OF assms(2,6)] by simp

end

text \<open>What a caller does: search, and read through the pointer unless it is null.\<close>

definition bpt_lookup :: "bpt \<Rightarrow> nat \<Rightarrow> cstr \<Rightarrow> u16 option option" where
  "bpt_lookup s r nm = do {
     q \<leftarrow> bpt_search (bp_nd s) (Some r) (Some nm);
     (case q of None \<Rightarrow> Some None | Some _ \<Rightarrow> do { v \<leftarrow> bpt_read (bp_nd s) q; Some (Some v) })
   }"

definition bpt_store :: "bpt \<Rightarrow> nat \<Rightarrow> cstr \<Rightarrow> u16 \<Rightarrow> (bool \<times> bpt) option" where
  "bpt_store s r nm v = bpt_insert s (Some r) (Some nm) v"

lemma name_key_Some: "name_key nm = Some (f, d) \<longleftrightarrow> fnv1a_hash_64 nm = Some f \<and> djb2_hash_64 nm = Some d"
  by (auto simp: name_key_def bind_eq_Some_conv)

lemma name_key_terminated: "terminated nm n \<Longrightarrow> \<exists>f d. name_key nm = Some (f, d)"
  using fnv1a_hash_64_eq djb2_hash_64_eq by (simp add: name_key_def)

text \<open>An index keeps its map as long as nobody touches its nodes.\<close>

lemma bpt_rep_local:
  assumes "bpt_rep s r T M" and eq: "\<forall>a \<in> T. bp_nd s' a = bp_nd s a"
    and heap: "T \<subseteq> owned (bp_heap s')" "heap_inv (bp_heap s')"
  shows "bpt_rep s' r T M"
proof -
  obtain g where "tree_ok (bp_nd s) r T g" using assms(1) by (auto simp: bpt_rep_def)
  then have "\<exists>g. tree_ok (bp_nd s') r T g" using tree_ok_local [OF _ eq] by blast
  moreover have "entries (bp_nd s') T = entries (bp_nd s) T" by (rule entries_local [OF eq])
  moreover have "filled (bp_nd s') r T" using assms(1) filled_local [OF _ eq] by (simp add: bpt_rep_def)
  ultimately show ?thesis using assms(1) heap by (simp add: bpt_rep_def)
qed

lemma bpt_rep_touched:
  assumes "bpt_rep s r2 T2 M2" "touched T s s'" "T \<inter> T2 = {}"
  shows "bpt_rep s' r2 T2 M2"
proof (rule bpt_rep_local [OF assms(1)])
  have own: "T2 \<subseteq> owned (bp_heap s)" using assms(1) by (simp add: bpt_rep_def)
  show "\<forall>a \<in> T2. bp_nd s' a = bp_nd s a" using own assms(2,3) by (auto simp: touched_def)
  show "T2 \<subseteq> owned (bp_heap s')" "heap_inv (bp_heap s')" using own assms(2) by (auto simp: touched_def)
qed

lemma bpt_store_ok:
  assumes "bpt_rep s r T M" "name_key nm = Some (f, d)"
  shows "\<exists>b s'. bpt_store s r nm v = Some (b, s') \<and> inserted r T M f (d, v) s b s'"
  using bpt_insert_ok [OF assms(1)] assms(2) by (simp add: name_key_Some bpt_store_def)

lemma bpt_lookup_ok:
  assumes "bpt_rep s r T M" "name_key nm = Some (f, d)"
  shows "bpt_lookup s r nm = Some (stored M f d)"
proof -
  have h: "fnv1a_hash_64 nm = Some f" "djb2_hash_64 nm = Some d"
    using assms(2) by (simp_all add: name_key_Some)
  obtain q where q: "bpt_search (bp_nd s) (Some r) (Some nm) = Some q"
    "bpt_read (bp_nd s) q = stored M f d" "q = None \<longleftrightarrow> stored M f d = None"
    using bpt_search_ok [OF assms(1) h] by (elim exE conjE)
  then show ?thesis
    by (cases q; cases "stored M f d") (auto simp: bpt_lookup_def)
qed

lemma bpt_store_inserted:
  assumes "bpt_rep s r T M" "name_key nm = Some (f, d)" "bpt_store s r nm v = Some (b, s')"
  shows "inserted r T M f (d, v) s b s'"
  using bpt_store_ok [OF assms(1,2), of v] assms(3) by simp

interpretation ix: name_index bpt_rep "\<lambda>s. owned (bp_heap s)" name_key bpt_lookup bpt_store
proof
  fix s s' :: bpt and r T M nm f d v b r2 T2 M2
  show "bpt_rep s r T M \<Longrightarrow> T \<subseteq> owned (bp_heap s)" by (simp add: bpt_rep_def)
  show "bpt_rep s r T M \<Longrightarrow> name_key nm = Some (f, d) \<Longrightarrow> bpt_lookup s r nm = Some (stored M f d)"
    by (rule bpt_lookup_ok)
  show "bpt_rep s r T M \<Longrightarrow> name_key nm = Some (f, d) \<Longrightarrow> \<exists>b s'. bpt_store s r nm v = Some (b, s')"
    by (drule (1) bpt_store_ok) blast
  show "bpt_rep s r T M \<Longrightarrow> name_key nm = Some (f, d) \<Longrightarrow> bpt_store s r nm v = Some (True, s') \<Longrightarrow>
      M f = None \<and> (\<exists>T'. T \<subseteq> T' \<and> T' \<inter> owned (bp_heap s) = T \<and> bpt_rep s' r T' (M(f \<mapsto> (d, v))))"
    by (drule (2) bpt_store_inserted) (simp add: inserted_def)
  show "bpt_store s r nm v = Some (False, s)"
    if pre: "bpt_rep s r T M" "name_key nm = Some (f, d)" "M f \<noteq> None"
  proof -
    obtain b s' where "bpt_store s r nm v = Some (b, s')" "inserted r T M f (d, v) s b s'"
      using bpt_store_ok [OF pre(1,2)] by blast
    with pre(3) show ?thesis by (cases b) (auto simp: inserted_def)
  qed
  show "bpt_rep s r T M \<Longrightarrow> name_key nm = Some (f, d) \<Longrightarrow> bpt_store s r nm v = Some (b, s') \<Longrightarrow>
      bpt_rep s r2 T2 M2 \<Longrightarrow> T \<inter> T2 = {} \<Longrightarrow> bpt_rep s' r2 T2 M2"
    by (drule (2) bpt_store_inserted) (rule bpt_rep_touched, auto simp: inserted_def)
qed

section \<open>Properties\<close>

text \<open>C6: Searching the B+ tree is a map lookup. On every tree that represents the map \<open>M\<close>,
  \<open>bpt_search\<close> returns for every name that has hashes; the pointer it gives is null exactly when
  the map has no entry for the FNV hash or the stored djb2 hash differs, and reading through it
  gives the stored value otherwise.\<close>

theorem bpt_search_refines_map:
  assumes "bpt_rep s r T M" and "name_key nm = Some (f, d)"
  shows "\<exists>q. bpt_search (bp_nd s) (Some r) (Some nm) = Some q
    \<and> (case M f of Some (d', v) \<Rightarrow> (if d' = d then q \<noteq> None \<and> bpt_read (bp_nd s) q = Some v else q = None)
       | None \<Rightarrow> q = None)"
proof -
  have h: "fnv1a_hash_64 nm = Some f" "djb2_hash_64 nm = Some d"
    using assms(2) by (simp_all add: name_key_Some)
  from bpt_search_ok [OF assms(1) h] show ?thesis
    by (cases "M f") (auto simp: stored_def)
qed

text \<open>C7: Inserting into the B+ tree is a map update. On a tree that represents \<open>M\<close> the call
  returns: with success only if the name's FNV hash was absent, and then the tree (every split and
  every level of \<open>add_parent\<close> included) represents \<open>M\<close> with the new entry; without success either
  because the hash was present, and nothing changed, or because the heap has no room for a node.
  Nodes outside the tree are never touched, so any other tree in the same heap keeps its map.\<close>

theorem bpt_insert_refines_map:
  assumes "bpt_rep s r T M" and "name_key nm = Some (f, d)"
  shows "\<exists>b s'. bpt_insert s (Some r) (Some nm) v = Some (b, s')
    \<and> (if b then M f = None \<and> (\<exists>T'. T \<subseteq> T' \<and> bpt_rep s' r T' (M(f \<mapsto> (d, v))))
       else (M f \<noteq> None \<and> s' = s)
         \<or> (M f = None \<and> heap_alloc (bp_heap s') BPT_NODE_SIZE = Some (None, bp_heap s')))
    \<and> (\<forall>r2 T2 M2. bpt_rep s r2 T2 M2 \<and> T \<inter> T2 = {} \<longrightarrow> bpt_rep s' r2 T2 M2)"
proof -
  obtain b s' where s': "bpt_store s r nm v = Some (b, s')" "inserted r T M f (d, v) s b s'"
    using bpt_store_ok [OF assms] by blast
  have "if b then M f = None \<and> (\<exists>T'. T \<subseteq> T' \<and> bpt_rep s' r T' (M(f \<mapsto> (d, v))))
       else (M f \<noteq> None \<and> s' = s)
         \<or> (M f = None \<and> heap_alloc (bp_heap s') BPT_NODE_SIZE = Some (None, bp_heap s'))"
    using s'(2) by (auto simp: inserted_def full_def split: if_splits)
  moreover have "\<forall>r2 T2 M2. bpt_rep s r2 T2 M2 \<and> T \<inter> T2 = {} \<longrightarrow> bpt_rep s' r2 T2 M2"
    using ix.store_frame [OF assms s'(1)] by blast
  ultimately show ?thesis using s'(1) unfolding bpt_store_def by blast
qed

lemma fresh_index_node:
  obtains s where "bpt_rep s 24 {24} Map.empty" "bp_nd s 24 = Some (zero_node\<lparr>bn_leaf := True\<rparr>)"
proof -
  let ?s = "\<lparr>bp_heap = heap_init \<lparr>heap_head = None, heap_mem = Map.empty\<rparr>, bp_nd = Map.empty\<rparr>"
  have "fst (alloc_list (unat BPT_NODE_SIZE + HDR) 0 [(HEAP_SIZE, False)]) = Some 24"
    by (simp add: HDR_def HEAP_SIZE_def BPT_NODE_SIZE_def)
  then obtain h' where "heap_alloc (bp_heap ?s) BPT_NODE_SIZE = Some (Some 24, h')"
    using heap_alloc_rep [OF heap_init_rep node_size_fits] by (metis bpt.select_convs(1))
  then have "create_node ?s True = Some (Some 24, ?s\<lparr>bp_heap := h', bp_nd := [24 \<mapsto> zero_node\<lparr>bn_leaf := True\<rparr>]\<rparr>)"
    by (simp add: create_node_def)
  from that [OF bpt_rep_new(1) [OF _ this]] show ?thesis by (simp add: heap_init_inv)
qed

lemma fresh_index:
  obtains s where "bpt_rep s 24 {24} Map.empty"
  by (rule fresh_index_node)

lemma name_a: "name_key (cstr_of [97]) = Some (0xAF63DC4C8601EC8C, 177670)"
proof -
  have t: "terminated (cstr_of [97]) 1" by (rule terminated_cstr_of) simp_all
  show ?thesis
    using fnv1a_hash_64_eq [OF t] djb2_hash_64_eq [OF t]
    by (simp add: name_key_Some fnv1a_spec_def djb2_spec_def cbytes_Suc cbytes_def cstr_of_def
        FNV_OFFSET_BASIS_64_def FNV_PRIME_64_def)
qed

lemma bpt_search_refines_map_witness:
  "\<exists>s :: bpt. bpt_search (bp_nd s) (Some 24) (Some (cstr_of [97])) = Some None"
proof -
  obtain s where "bpt_rep s 24 {24} Map.empty" by (rule fresh_index)
  from bpt_search_refines_map [OF this name_a] show ?thesis by auto
qed

lemma bpt_insert_refines_map_witness:
  "\<exists>s b s'. bpt_insert s (Some 24) (Some (cstr_of [97])) 7 = Some (b, s')
     \<and> (b \<longrightarrow> (\<exists>T'. bpt_rep s' 24 T' [0xAF63DC4C8601EC8C \<mapsto> (177670, 7)]))"
proof -
  obtain s where "bpt_rep s 24 {24} Map.empty" by (rule fresh_index)
  from bpt_insert_refines_map [OF this name_a, of 7] show ?thesis by fastforce
qed

end
