(* ===== verification/BPT_Tree.thy ===== *)
theory BPT_Tree
  imports BPT_Correct "HOL-Library.Multiset"
begin

text \<open>
  The B+ tree as a value. Deletion moves separators on a whole path, so its proof works on trees of the
  data type \<open>btree\<close> instead of on intervals: \<open>tree_at m t\<close> says that the store holds the tree \<open>t\<close>, and
  a node store satisfies \<open>tree_ok\<close> and \<open>filled\<close> exactly when it holds a tree (\<open>rep_tree\<close>, \<open>tree_rep\<close>).
  A node on the way to the root is reached with a context, the list of its ancestors with their other
  children (\<open>plug\<close>).
\<close>

type_synonym item = "u64 \<times> u64 \<times> u16"

datatype btree = Lf nat "item list" | Br nat "u64 list" "btree list"

fun adr :: "btree \<Rightarrow> nat" where
  "adr (Lf p its) = p"
| "adr (Br p ks ts) = p"

fun content :: "btree \<Rightarrow> item list" where
  "content (Lf p its) = its"
| "content (Br p ks ts) = concat (map content ts)"

fun nodes_of :: "btree \<Rightarrow> nat list" where
  "nodes_of (Lf p its) = [p]"
| "nodes_of (Br p ks ts) = p # concat (map nodes_of ts)"

fun level :: "nat \<Rightarrow> btree \<Rightarrow> bool" where
  "level h (Lf p its) \<longleftrightarrow> h = 0"
| "level h (Br p ks ts) \<longleftrightarrow> (case h of 0 \<Rightarrow> False | Suc h' \<Rightarrow> \<forall>t \<in> set ts. level h' t)"

text \<open>The keys of a node part the contents of its children.\<close>

definition parted :: "u64 list \<Rightarrow> btree list \<Rightarrow> bool" where
  "parted ks ts \<longleftrightarrow> length ts = Suc (length ks)
     \<and> (\<forall>i < length ks. (\<forall>x \<in> fst ` set (content (ts ! i)). x < ks ! i) \<and> (\<forall>x \<in> fst ` set (content (ts ! Suc i)). ks ! i \<le> x))"

fun sep_ok :: "btree \<Rightarrow> bool" where
  "sep_ok (Lf p its) \<longleftrightarrow> True"
| "sep_ok (Br p ks ts) \<longleftrightarrow> parted ks ts \<and> (\<forall>t \<in> set ts. sep_ok t)"

fun fat :: "btree \<Rightarrow> bool" where
  "fat (Lf p its) \<longleftrightarrow> 2 \<le> length its"
| "fat (Br p ks ts) \<longleftrightarrow> 1 \<le> length ks \<and> (\<forall>t \<in> set ts. fat t)"

fun root_fat :: "btree \<Rightarrow> bool" where
  "root_fat (Lf p its) \<longleftrightarrow> True"
| "root_fat (Br p ks ts) \<longleftrightarrow> fat (Br p ks ts)"

text \<open>No leaf is empty.\<close>

fun ne :: "btree \<Rightarrow> bool" where
  "ne (Lf p its) \<longleftrightarrow> its \<noteq> []"
| "ne (Br p ks ts) \<longleftrightarrow> ts \<noteq> [] \<and> (\<forall>t \<in> set ts. ne t)"

section \<open>Trees in a store\<close>

definition leaf_node :: "bpt_node \<Rightarrow> item list \<Rightarrow> nat option \<Rightarrow> bool" where
  "leaf_node n its par \<longleftrightarrow> wf_node n \<and> bn_leaf n \<and> items n = its \<and> bn_parent n = par"

definition inner_node :: "bpt_node \<Rightarrow> u64 list \<Rightarrow> nat list \<Rightarrow> nat option \<Rightarrow> bool" where
  "inner_node n ks cs par \<longleftrightarrow> wf_node n \<and> \<not> bn_leaf n \<and> nkeys n = ks \<and> nkids n = map Some cs \<and> bn_parent n = par"

fun lives :: "nodes \<Rightarrow> nat option \<Rightarrow> btree \<Rightarrow> bool" where
  "lives m par (Lf p its) \<longleftrightarrow> (\<exists>n. m p = Some n \<and> leaf_node n its par)"
| "lives m par (Br p ks ts) \<longleftrightarrow> (\<exists>n. m p = Some n \<and> inner_node n ks (map adr ts) par) \<and> (\<forall>t \<in> set ts. lives m (Some p) t)"

definition tree_at :: "nodes \<Rightarrow> btree \<Rightarrow> bool" where
  "tree_at m t \<longleftrightarrow> lives m None t \<and> distinct (nodes_of t) \<and> (\<exists>h. level h t) \<and> sep_ok t
     \<and> sorted_wrt (<) (map fst (content t)) \<and> root_fat t"

lemma adr_node [simp]: "adr t \<in> set (nodes_of t)"
  by (cases t) simp_all

lemma inner_node_length: "inner_node n ks cs par \<Longrightarrow> length cs = Suc (length ks) \<and> length ks \<le> 3 \<and> bn_num n = length ks"
proof -
  assume n: "inner_node n ks cs par"
  then have wf: "wf_node n" by (simp add: inner_node_def)
  have "length (nkids n) = Suc (bn_num n)" using n wf_lengths [OF wf] by (simp add: nkids_def inner_node_def)
  then show ?thesis using n wf_lengths [OF wf] by (auto simp: inner_node_def)
qed

lemma leaf_node_length: "leaf_node n its par \<Longrightarrow> bn_num n = length its \<and> length its \<le> 3"
  using wf_lengths [of n] by (auto simp: leaf_node_def)

lemma lives_frame: "lives m par t \<Longrightarrow> \<forall>a \<in> set (nodes_of t). m' a = m a \<Longrightarrow> lives m' par t"
proof (induction t arbitrary: par)
  case (Br p ks ts)
  then show ?case by simp
qed simp

lemma fat_ne: "fat t \<Longrightarrow> lives m par t \<Longrightarrow> ne t"
proof (induction t arbitrary: par)
  case (Br p ks ts)
  then show ?case using inner_node_length by (cases ts) force+
qed auto

lemma ne_content: "ne t \<Longrightarrow> content t \<noteq> []"
proof (induction t)
  case (Br p ks ts)
  then show ?case by (cases ts) auto
qed simp

lemma sorted_wrt_concat:
  "sorted_wrt P (concat xss) \<longleftrightarrow> (\<forall>xs \<in> set xss. sorted_wrt P xs)
     \<and> sorted_wrt (\<lambda>xs ys. \<forall>x \<in> set xs. \<forall>y \<in> set ys. P x y) xss"
  by (induction xss) (auto simp: sorted_wrt_append)

lemma distinct_sorted_wrt: "distinct xs \<longleftrightarrow> sorted_wrt (\<noteq>) xs"
  by (induction xs) auto

lemma sorted_wrt_nthI: "(\<And>i j. i < j \<Longrightarrow> j < length xs \<Longrightarrow> P (xs ! i) (xs ! j)) \<Longrightarrow> sorted_wrt P xs"
  by (simp add: sorted_wrt_iff_nth_less)

lemma lives_entries: "lives m par t \<Longrightarrow> entries m (set (nodes_of t)) = set (content t)"
proof (induction t arbitrary: par)
  case (Lf p its)
  then show ?case by (auto simp: entries_def litems_def leaf_node_def)
next
  case (Br p ks ts)
  have e: "entries m (set (nodes_of t)) = set (content t)" if "t \<in> set ts" for t
    using Br.IH [OF that] Br.prems that by auto
  have "litems (m p) = {}" using Br.prems by (auto simp: litems_def inner_node_def)
  then have "entries m (set (nodes_of (Br p ks ts))) = (\<Union>t \<in> set ts. entries m (set (nodes_of t)))"
    by (simp add: entries_def)
  then show ?case using e by simp
qed

lemma lives_kid:
  "lives m par t \<Longrightarrow> q \<in> set (nodes_of t) \<Longrightarrow> m q = Some n \<Longrightarrow> Some c \<in> set (nkids n) \<Longrightarrow> c \<in> set (nodes_of t)"
proof (induction t arbitrary: par)
  case (Lf p its)
  then show ?case by (auto simp: leaf_node_def nkids_def)
next
  case (Br p ks ts)
  show ?case
  proof (cases "q = p")
    case True
    then have "c \<in> adr ` set ts" using Br.prems by (auto simp: inner_node_def)
    then show ?thesis using adr_node by fastforce
  next
    case False
    then obtain t where "t \<in> set ts" "q \<in> set (nodes_of t)" using Br.prems(2) by auto
    then show ?thesis using Br.IH [of t "Some p"] Br.prems by auto
  qed
qed

section \<open>From a well-formed store to a tree\<close>

definition subtree :: "nodes \<Rightarrow> nat \<Rightarrow> nat set \<Rightarrow> geo \<Rightarrow> nat \<Rightarrow> nat option \<Rightarrow> btree \<Rightarrow> bool" where
  "subtree m r T g p par t \<longleftrightarrow> adr t = p \<and> lives m par t \<and> level (g_ht g p) t \<and> sep_ok t \<and> root_fat t
     \<and> (p \<noteq> r \<longrightarrow> fat t) \<and> distinct (nodes_of t) \<and> sorted_wrt (<) (map fst (content t))
     \<and> (\<forall>x \<in> fst ` set (content t). g_lo g p \<le> unat x \<and> unat x < g_hi g p)
     \<and> (\<forall>q \<in> set (nodes_of t). q \<in> T \<and> g_lo g p \<le> g_lo g q \<and> g_hi g q \<le> g_hi g p \<and> g_ht g q \<le> g_ht g p)"

lemma subtree_leaf:
  assumes "node_ok m T g p n" "m p = Some n" "p \<in> T" "bn_leaf n" "fills r p n"
  shows "subtree m r T g p (bn_parent n) (Lf p (items n))"
proof -
  note lf = leaf_okD [OF assms(1,4)]
  show ?thesis using lf assms by (auto simp: subtree_def leaf_node_def fills_def)
qed

lemma subtree_inner:
  assumes tree: "tree_ok m r T g" and p: "p \<in> T" "m p = Some n" "\<not> bn_leaf n" "fills r p n"
    and cs: "nkids n = map Some cs" "covers g (g_lo g p) cs (map unat (nkeys n)) (g_hi g p)"
    and sub: "\<And>c. c \<in> set cs \<Longrightarrow> Suc (g_ht g c) = g_ht g p \<and> c \<noteq> r \<and> subtree m r T g c (Some p) (f c)"
  shows "subtree m r T g p (bn_parent n) (Br p (nkeys n) (map f cs))"
proof -
  have ok: "node_ok m T g p n" using tree_node [OF tree p(1)] p(2) by auto
  have wf: "wf_node n" by (rule node_ok_wf [OF ok])
  have iv: "\<forall>c \<in> set cs. g_lo g c < g_hi g c"
  proof
    fix c assume "c \<in> set cs"
    then have "c \<in> T" using sub [of c] adr_node [of "f c"] by (auto simp: subtree_def)
    then show "g_lo g c < g_hi g c" by (rule tree_interval [OF tree])
  qed
  have len: "length cs = Suc (length (nkeys n))" using covers_length [OF cs(2)] by simp
  have ins: "g_lo g p \<le> g_lo g c \<and> g_hi g c \<le> g_hi g p" if "c \<in> set cs" for c
    by (rule covers_inside [OF cs(2) iv that])
  have S: "adr (f c) = c" "lives m (Some p) (f c)" "level (g_ht g c) (f c)" "sep_ok (f c)" "fat (f c)"
    "distinct (nodes_of (f c))" "sorted_wrt (<) (map fst (content (f c)))"
    "\<And>x. x \<in> fst ` set (content (f c)) \<Longrightarrow> g_lo g c \<le> unat x \<and> unat x < g_hi g c"
    "\<And>q. q \<in> set (nodes_of (f c)) \<Longrightarrow> q \<in> T \<and> g_lo g c \<le> g_lo g q \<and> g_hi g q \<le> g_hi g c \<and> g_ht g q \<le> g_ht g c"
    if "c \<in> set cs" for c using sub [OF that] by (auto simp: subtree_def)
  have ht: "g_ht g p = Suc (g_ht g c)" if "c \<in> set cs" for c using sub [OF that] by simp
  have apart: "g_hi g (cs ! i) \<le> g_lo g (cs ! j)" if "i < j" "j < length cs" for i j
    by (rule covers_mono [OF cs(2) iv that])
  have "lives m (bn_parent n) (Br p (nkeys n) (map f cs))"
    using p wf cs(1) S(1,2) by (auto simp: inner_node_def comp_def cong: map_cong)
  moreover have "level (g_ht g p) (Br p (nkeys n) (map f cs))"
  proof -
    have "cs \<noteq> []" using len by auto
    then obtain h where "g_ht g p = Suc h" using ht [of "hd cs"] by auto
    then show ?thesis using S(3) ht by auto
  qed
  moreover have "parted (nkeys n) (map f cs)"
    unfolding parted_def
  proof (intro conjI allI impI ballI)
    show "length (map f cs) = Suc (length (nkeys n))" using len by simp
    fix i x assume i: "i < length (nkeys n)"
    have c: "cs ! i \<in> set cs" "cs ! Suc i \<in> set cs" using i len by simp_all
    have k: "g_hi g (cs ! i) = unat (nkeys n ! i)" "g_lo g (cs ! Suc i) = unat (nkeys n ! i)"
      using covers_nth [OF cs(2), of i] covers_nth [OF cs(2), of "Suc i"] i len by (simp_all add: nth_append)
    show "x < nkeys n ! i" if "x \<in> fst ` set (content (map f cs ! i))"
      using S(8) [OF c(1), of x] that k(1) i len by (simp add: word_less_nat_alt)
    show "nkeys n ! i \<le> x" if "x \<in> fst ` set (content (map f cs ! Suc i))"
      using S(8) [OF c(2), of x] that k(2) i len by (simp add: word_le_nat_alt)
  qed
  moreover have "distinct (nodes_of (Br p (nkeys n) (map f cs)))"
  proof -
    have "p \<notin> set (nodes_of (f c))" if "c \<in> set cs" for c using S(9) [OF that, of p] ht [OF that] by auto
    moreover have "sorted_wrt (\<lambda>xs ys. \<forall>x\<in>set xs. \<forall>y\<in>set ys. x \<noteq> y) (map nodes_of (map f cs))"
    proof (rule sorted_wrt_nthI, intro ballI notI)
      fix i j x y assume ij: "i < j" "j < length (map nodes_of (map f cs))"
        and x: "x \<in> set (map nodes_of (map f cs) ! i)" and y: "y \<in> set (map nodes_of (map f cs) ! j)" and xy: "x = y"
      have c: "cs ! i \<in> set cs" "cs ! j \<in> set cs" using ij by simp_all
      have "g_hi g x \<le> g_hi g (cs ! i)" "g_lo g (cs ! j) \<le> g_lo g x" "x \<in> T"
        using S(9) [OF c(1), of x] S(9) [OF c(2), of x] x y xy ij by simp_all
      then show False using apart [of i j] ij tree_interval [OF tree, of x] by simp
    qed
    ultimately show ?thesis using S(6) by (auto simp: distinct_sorted_wrt [of "concat _"] sorted_wrt_concat distinct_sorted_wrt)
  qed
  moreover have "sorted_wrt (<) (map fst (content (Br p (nkeys n) (map f cs))))"
  proof -
    have "sorted_wrt (\<lambda>xs ys. \<forall>x\<in>set xs. \<forall>y\<in>set ys. x < y) (map (map fst \<circ> content \<circ> f) cs)"
    proof (rule sorted_wrt_nthI, intro ballI)
      fix i j x y assume ij: "i < j" "j < length (map (map fst \<circ> content \<circ> f) cs)"
        and x: "x \<in> set (map (map fst \<circ> content \<circ> f) cs ! i)" and y: "y \<in> set (map (map fst \<circ> content \<circ> f) cs ! j)"
      have c: "cs ! i \<in> set cs" "cs ! j \<in> set cs" using ij by simp_all
      have "unat x < g_hi g (cs ! i)" "g_lo g (cs ! j) \<le> unat y"
        using S(8) [OF c(1), of x] S(8) [OF c(2), of y] x y ij by simp_all
      then show "x < y" using apart [of i j] ij by (simp add: word_less_nat_alt)
    qed
    moreover have "map fst (content (Br p (nkeys n) (map f cs))) = concat (map (map fst \<circ> content \<circ> f) cs)"
      by (simp add: map_concat comp_def)
    ultimately show ?thesis using S(7) by (auto simp: sorted_wrt_concat)
  qed
  moreover have "g_lo g p \<le> unat x \<and> unat x < g_hi g p" if x: "x \<in> fst ` set (content (Br p (nkeys n) (map f cs)))" for x
  proof -
    obtain c where "c \<in> set cs" "x \<in> fst ` set (content (f c))" using x by (auto simp: image_UN)
    then show ?thesis using S(8) [of c x] ins [of c] by auto
  qed
  moreover have "q \<in> T \<and> g_lo g p \<le> g_lo g q \<and> g_hi g q \<le> g_hi g p \<and> g_ht g q \<le> g_ht g p"
    if q: "q \<in> set (nodes_of (Br p (nkeys n) (map f cs)))" for q
  proof (cases "q = p")
    case False
    then obtain c where c: "c \<in> set cs" "q \<in> set (nodes_of (f c))" using q by auto
    then show ?thesis using S(9) [OF c] ins [OF c(1)] ht [OF c(1)] by auto
  qed (use p(1) in simp)
  moreover have "1 \<le> length (nkeys n)" using p(3,4) wf by (simp add: fills_def)
  ultimately show ?thesis using S(4,5) unfolding subtree_def by auto
qed

lemma subtree_ex:
  assumes tree: "tree_ok m r T g" and fill: "filled m r T"
  shows "p \<in> T \<Longrightarrow> m p = Some n \<Longrightarrow> \<exists>t. subtree m r T g p (bn_parent n) t"
proof (induction "g_ht g p" arbitrary: p n rule: less_induct)
  case less
  have ok: "node_ok m T g p n" using tree_node [OF tree less.prems(1)] less.prems(2) by auto
  have fl: "fills r p n" using fill less.prems by (auto simp: filled_def)
  show ?case
  proof (cases "bn_leaf n")
    case True
    show ?thesis using subtree_leaf [OF ok less.prems(2,1) True fl] by blast
  next
    case False
    obtain cs where cs: "nkids n = map Some cs" "covers g (g_lo g p) cs (map unat (nkeys n)) (g_hi g p)"
      "\<forall>c \<in> set cs. c \<in> T \<and> Suc (g_ht g c) = g_ht g p \<and> (\<exists>cn. m c = Some cn \<and> bn_parent cn = Some p)"
      using node_ok_inner [OF ok False] by blast
    have root: "\<exists>rn. m r = Some rn \<and> bn_parent rn = None" using tree by (auto simp: tree_ok_def root_ok_def)
    have "\<forall>c \<in> set cs. \<exists>t. Suc (g_ht g c) = g_ht g p \<and> c \<noteq> r \<and> subtree m r T g c (Some p) t"
    proof
      fix c assume c: "c \<in> set cs"
      then obtain cn where cn: "c \<in> T" "Suc (g_ht g c) = g_ht g p" "m c = Some cn" "bn_parent cn = Some p"
        using cs(3) by auto
      then have "c \<noteq> r" "g_ht g c < g_ht g p" using root by auto
      then show "\<exists>t. Suc (g_ht g c) = g_ht g p \<and> c \<noteq> r \<and> subtree m r T g c (Some p) t"
        using less.hyps [OF _ cn(1,3)] cn by auto
    qed
    then obtain f where "\<forall>c \<in> set cs. Suc (g_ht g c) = g_ht g p \<and> c \<noteq> r \<and> subtree m r T g c (Some p) (f c)"
      by metis
    then show ?thesis using subtree_inner [OF tree less.prems False fl cs(1,2), of f] by blast
  qed
qed

lemma rep_tree:
  assumes tree: "tree_ok m r T g" and fill: "filled m r T"
  obtains t where "tree_at m t" "adr t = r" "set (nodes_of t) = T" "set (content t) = entries m T"
proof -
  obtain rn where rn: "r \<in> T" "m r = Some rn" "bn_parent rn = None" and top: "\<forall>p \<in> T. g_ht g p \<le> g_ht g r"
    using tree by (auto simp: tree_ok_def root_ok_def)
  obtain t where t: "subtree m r T g r None t" using subtree_ex [OF tree fill rn(1,2)] rn(3) by auto
  then have l: "lives m None t" and a: "adr t = r" and sub: "set (nodes_of t) \<subseteq> T" by (auto simp: subtree_def)
  have "q \<in> set (nodes_of t)" if "q \<in> T" for q
    using that
  proof (induction "g_ht g r - g_ht g q" arbitrary: q rule: less_induct)
    case less
    show ?case
    proof (cases "q = r")
      case True
      then show ?thesis using a adr_node [of t] by simp
    next
      case False
      obtain P Pn where P: "P \<in> T" "m P = Some Pn" "Some q \<in> set (nkids Pn)"
        using tree less.prems False by (auto simp: tree_ok_def has_parent_def)
      have "node_ok m T g P Pn" using tree_node [OF tree P(1)] P(2) by auto
      then have "g_ht g P = Suc (g_ht g q)" using node_ok_kid(2) P(3) by metis
      then have "P \<in> set (nodes_of t)" using less.hyps [of P] top P(1) by fastforce
      then show ?thesis using lives_kid [OF l _ P(2,3)] by blast
    qed
  qed
  then have T: "set (nodes_of t) = T" using sub by blast
  show ?thesis using that [of t] t l a T lives_entries [OF l] by (auto simp: subtree_def tree_at_def)
qed

section \<open>From a tree to a well-formed store\<close>

text \<open>A geometry for a tree: every node gets the interval the separators above it leave.\<close>

definition placed :: "nodes \<Rightarrow> btree \<Rightarrow> nat \<Rightarrow> nat \<Rightarrow> nat \<Rightarrow> geo \<Rightarrow> bool" where
  "placed m t h lo hi g \<longleftrightarrow> g (adr t) = (lo, hi, h)
     \<and> (\<forall>q \<in> set (nodes_of t). g_ht g q \<le> h \<and> (\<exists>n. m q = Some n \<and> node_ok m (set (nodes_of t)) g q n))"

lemma placed_cong:
  assumes "placed m t h lo hi g" "\<forall>q \<in> set (nodes_of t). g' q = g q"
  shows "placed m t h lo hi g'"
proof -
  have "node_ok m (set (nodes_of t)) g' q n" if q: "q \<in> set (nodes_of t)" "node_ok m (set (nodes_of t)) g q n" for q n
  proof (rule node_ok_frame [OF q(2) order_refl])
    show "g' q = g q" using assms(2) q(1) by blast
    fix c cn assume "Some c \<in> set (nkids n)" "m c = Some cn" "bn_parent cn = Some q"
    then show "g' c = g c \<and> (\<exists>cn'. m c = Some cn' \<and> bn_parent cn' = Some q)"
      using assms(2) node_ok_kid(1) [OF q(2)] by blast
  qed
  then show ?thesis using assms by (auto simp: placed_def)
qed

lemma parted_bounds:
  assumes "parted ks ts" "\<forall>t \<in> set ts. content t \<noteq> []" "\<forall>x \<in> fst ` set (concat (map content ts)). lo \<le> unat x \<and> unat x < hi"
    and "i < length ts"
  shows "\<forall>x \<in> fst ` set (content (ts ! i)). (lo # map unat ks) ! i \<le> unat x \<and> unat x < (map unat ks @ [hi]) ! i"
    "(lo # map unat ks) ! i < (map unat ks @ [hi]) ! i"
proof -
  have len: "length ts = Suc (length ks)" using assms(1) by (simp add: parted_def)
  have mem: "ts ! i \<in> set ts" using assms(4) by simp
  show b: "\<forall>x \<in> fst ` set (content (ts ! i)). (lo # map unat ks) ! i \<le> unat x \<and> unat x < (map unat ks @ [hi]) ! i"
  proof (intro ballI conjI)
    fix x assume x: "x \<in> fst ` set (content (ts ! i))"
    then have all: "lo \<le> unat x" "unat x < hi" using assms(3) mem by auto
    show "(lo # map unat ks) ! i \<le> unat x"
    proof (cases i)
      case (Suc j)
      then have "ks ! j \<le> x" using assms(1,4) len x by (auto simp: parted_def)
      then show ?thesis using Suc assms(4) len by (simp add: word_le_nat_alt)
    qed (use all in simp)
    show "unat x < (map unat ks @ [hi]) ! i"
    proof (cases "i < length ks")
      case True
      then have "x < ks ! i" using assms(1) x by (auto simp: parted_def)
      then show ?thesis using True by (simp add: nth_append word_less_nat_alt)
    qed (use all assms(4) len in \<open>simp add: nth_append\<close>)
  qed
  have "content (ts ! i) \<noteq> []" using assms(2) mem by blast
  then have "fst (hd (content (ts ! i))) \<in> fst ` set (content (ts ! i))" by simp
  with b show "(lo # map unat ks) ! i < (map unat ks @ [hi]) ! i" by (meson le_less_trans)
qed

lemma concat_sortedD:
  "sorted_wrt (<) (map fst (concat (map content ts))) \<Longrightarrow> t \<in> set ts \<Longrightarrow> sorted_wrt (<) (map fst (content t))"
  by (auto simp: map_concat sorted_wrt_concat)

lemma concat_distinctD: "distinct (concat (map f ts)) \<Longrightarrow> t \<in> set ts \<Longrightarrow> distinct (f t)"
  by (auto simp: distinct_sorted_wrt sorted_wrt_concat)

lemma concat_disjointD:
  assumes "distinct (concat (map f ts))" "i < length ts" "j < length ts" "x \<in> set (f (ts ! i))" "x \<in> set (f (ts ! j))"
  shows "i = j"
proof (rule ccontr)
  assume "i \<noteq> j"
  then have "i < j \<or> j < i" by auto
  moreover have w: "sorted_wrt (\<lambda>xs ys. \<forall>x \<in> set xs. \<forall>y \<in> set ys. x \<noteq> y) (map f ts)"
    using assms(1) by (simp add: distinct_sorted_wrt sorted_wrt_concat)
  have "\<not> (a < b \<and> b < length ts \<and> x \<in> set (f (ts ! a)) \<and> x \<in> set (f (ts ! b)))" for a b
    using sorted_wrt_nth_less [OF w, of a b] by auto
  ultimately show False using assms by blast
qed

lemma tree_placed:
  "lives m par t \<Longrightarrow> distinct (nodes_of t) \<Longrightarrow> level h t \<Longrightarrow> sep_ok t \<Longrightarrow> sorted_wrt (<) (map fst (content t)) \<Longrightarrow>
     root_fat t \<Longrightarrow> lo < hi \<Longrightarrow> \<forall>x \<in> fst ` set (content t). lo \<le> unat x \<and> unat x < hi \<Longrightarrow> \<exists>g. placed m t h lo hi g"
proof (induction t arbitrary: par h lo hi)
  case (Lf p its)
  obtain n where n: "m p = Some n" "leaf_node n its par" using Lf.prems(1) by auto
  then have "nkeys n = map fst its" using map_fst_items [of n] by (auto simp: leaf_node_def)
  then have "placed m (Lf p its) h lo hi (\<lambda>_. (lo, hi, 0))"
    using n Lf.prems by (auto simp: placed_def node_ok_def leaf_node_def)
  then show ?case by blast
next
  case (Br p ks ts)
  obtain n where n: "m p = Some n" "inner_node n ks (map adr ts) par" and kids: "\<forall>t \<in> set ts. lives m (Some p) t"
    using Br.prems(1) by auto
  obtain h' where h: "h = Suc h'" "\<forall>t \<in> set ts. level h' t" using Br.prems(3) by (auto split: nat.splits)
  have part: "parted ks ts" and len: "length ts = Suc (length ks)" using Br.prems(4) by (simp_all add: parted_def)
  have full: "\<forall>t \<in> set ts. fat t" using Br.prems(6) by simp
  then have con: "\<forall>t \<in> set ts. content t \<noteq> []" using kids fat_ne ne_content by blast
  have dist: "distinct (concat (map nodes_of ts))" and pn: "p \<notin> set (concat (map nodes_of ts))" using Br.prems(2) by simp_all
  have range: "\<forall>x \<in> fst ` set (concat (map content ts)). lo \<le> unat x \<and> unat x < hi" using Br.prems(8) by simp
  note pb = parted_bounds [OF part con range]
  let ?lo = "\<lambda>i. (lo # map unat ks) ! i" and ?hi = "\<lambda>i. (map unat ks @ [hi]) ! i"
  have "\<exists>g. placed m (ts ! i) h' (?lo i) (?hi i) g" if i: "i < length ts" for i
  proof -
    have t: "ts ! i \<in> set ts" using i by simp
    have "root_fat (ts ! i)" using full t by (cases "ts ! i") force+
    then show ?thesis
      using Br.IH [OF t, of "Some p" h' "?lo i" "?hi i"] kids t concat_distinctD [OF dist t] h(2) Br.prems(4,5)
        concat_sortedD [of ts "ts ! i"] pb [OF i] by simp
  qed
  then obtain G where G: "\<And>i. i < length ts \<Longrightarrow> placed m (ts ! i) h' (?lo i) (?hi i) (G i)" by metis
  define ix where "ix q = (THE i. i < length ts \<and> q \<in> set (nodes_of (ts ! i)))" for q
  have ix: "ix q = i" if "i < length ts" "q \<in> set (nodes_of (ts ! i))" for q i
    unfolding ix_def using that concat_disjointD [OF dist] by (intro the_equality) auto
  define g where "g q = (if q = p then (lo, hi, h) else G (ix q) q)" for q
  have at: "placed m (ts ! i) h' (?lo i) (?hi i) g" if i: "i < length ts" for i
  proof (rule placed_cong [OF G [OF i]], intro ballI)
    fix q assume q: "q \<in> set (nodes_of (ts ! i))"
    then have "q \<noteq> p" using pn i nth_mem by fastforce
    then show "g q = G i q" using ix [OF i q] by (simp add: g_def)
  qed
  have gp: "g p = (lo, hi, h)" by (simp add: g_def)
  let ?T = "set (nodes_of (Br p ks ts))"
  have okp: "node_ok m ?T g p n"
  proof (rule node_ok_innerI [where cs = "map adr ts"])
    have "map (g_lo g) (map adr ts) = lo # map unat ks" "map (g_hi g) (map adr ts) = map unat ks @ [hi]"
      using at len by (auto simp: list_eq_iff_nth_eq placed_def)
    then show "covers g (g_lo g p) (map adr ts) (map unat (nkeys n)) (g_hi g p)"
      using n(2) gp by (simp add: covers_def inner_node_def)
    fix c assume "c \<in> set (map adr ts)"
    then obtain i where i: "i < length ts" "c = adr (ts ! i)" by (auto simp: in_set_conv_nth)
    then have t: "ts ! i \<in> set ts" by simp
    have "\<exists>cn. m c = Some cn \<and> bn_parent cn = Some p"
      using kids t i(2) by (cases "ts ! i") (auto simp: leaf_node_def inner_node_def dest!: bspec)
    moreover have "c \<in> ?T" unfolding i(2) using t adr_node [of "ts ! i"] by (simp del: adr_node) blast
    ultimately show "c \<in> ?T \<and> Suc (g_ht g c) = g_ht g p \<and> (\<exists>cn. m c = Some cn \<and> bn_parent cn = Some p)"
      using at [OF i(1)] i(2) gp h(1) by (simp add: placed_def)
  qed (use n(2) Br.prems(7) gp in \<open>auto simp: inner_node_def\<close>)
  have "g_ht g q \<le> h \<and> (\<exists>n. m q = Some n \<and> node_ok m ?T g q n)" if q: "q \<in> ?T" for q
  proof (cases "q = p")
    case True
    with okp n(1) gp show ?thesis by simp
  next
    case False
    then obtain t where "t \<in> set ts" "q \<in> set (nodes_of t)" using q by auto
    then obtain i where i: "i < length ts" "q \<in> set (nodes_of (ts ! i))" by (metis in_set_conv_nth)
    obtain qn where "m q = Some qn" "node_ok m (set (nodes_of (ts ! i))) g q qn" "g_ht g q \<le> h'"
      using at [OF i(1)] i(2) by (auto simp: placed_def)
    moreover have "set (nodes_of (ts ! i)) \<subseteq> ?T" using i(1) by auto
    ultimately show ?thesis using node_ok_frame [of m _ g q qn ?T g m] h(1) by auto
  qed
  then have "placed m (Br p ks ts) h lo hi g" using gp by (simp add: placed_def)
  then show ?case by blast
qed

lemma lives_parent:
  "lives m par t \<Longrightarrow> q \<in> set (nodes_of t) \<Longrightarrow> q \<noteq> adr t \<Longrightarrow> has_parent m (set (nodes_of t)) q"
proof (induction t arbitrary: par)
  case (Br p ks ts)
  obtain t where t: "t \<in> set ts" "q \<in> set (nodes_of t)" using Br.prems(2,3) by auto
  show ?case
  proof (cases "q = adr t")
    case True
    then show ?thesis using Br.prems(1) t by (auto simp: has_parent_def inner_node_def)
  next
    case False
    then have "has_parent m (set (nodes_of t)) q" using Br.IH [OF t(1), of "Some p"] Br.prems(1) t by simp
    then show ?thesis using t(1) by (fastforce simp: has_parent_def)
  qed
qed simp

lemma fat_fills: "lives m par t \<Longrightarrow> fat t \<Longrightarrow> filled m r (set (nodes_of t))"
proof (induction t arbitrary: par)
  case (Lf p its)
  then show ?case using leaf_node_length by (fastforce simp: filled_def fills_def leaf_node_def)
next
  case (Br p ks ts)
  then have "filled m r (set (nodes_of t))" if "t \<in> set ts" for t using that by auto
  then show ?case using Br.prems inner_node_length by (fastforce simp: filled_def fills_def inner_node_def)
qed

lemma root_fat_fills:
  assumes "lives m par t" "root_fat t"
  shows "filled m (adr t) (set (nodes_of t))"
proof (cases t)
  case (Lf p its)
  then show ?thesis using assms by (auto simp: filled_def fills_def leaf_node_def)
next
  case (Br p ks ts)
  then have "fat t" using assms(2) by simp
  then show ?thesis by (rule fat_fills [OF assms(1)])
qed

lemma tree_rep:
  assumes t: "tree_at m t"
  shows "(\<exists>g. tree_ok m (adr t) (set (nodes_of t)) g) \<and> filled m (adr t) (set (nodes_of t))
    \<and> entries m (set (nodes_of t)) = set (content t)"
proof -
  have l: "lives m None t" and rf: "root_fat t" using t by (simp_all add: tree_at_def)
  obtain h where h: "level h t" using t by (auto simp: tree_at_def)
  have "\<forall>x \<in> fst ` set (content t). 0 \<le> unat x \<and> unat x < 2 ^ 64" using unat_lt_pow [where 'a = 64] by auto
  then obtain g where g: "placed m t h 0 (2 ^ 64) g"
    using tree_placed [OF l _ h, of 0 "2 ^ 64"] t by (auto simp: tree_at_def)
  have "\<exists>rn. m (adr t) = Some rn \<and> bn_parent rn = None"
    using l by (cases t) (auto simp: leaf_node_def inner_node_def)
  then have "tree_ok m (adr t) (set (nodes_of t)) g"
    using g lives_parent [OF l] by (auto simp: tree_ok_def root_ok_def placed_def)
  then show ?thesis using root_fat_fills [OF l rf] lives_entries [OF l] by blast
qed

end
