(* ===== verification/BPT_Path.thy ===== *)
theory BPT_Path
  imports BPT_Tree
begin

text \<open>
  The way from a node to the root: contexts, and \<^verbatim>\<open>fix_keys\<close> and \<^verbatim>\<open>fix_up\<close>, which recompute the separators of
  a node and of all its ancestors. Whatever the separators were before, afterwards they part the contents of
  the children, as long as no leaf is empty and the contents are in order (\<open>refreshed_ok\<close>).
\<close>

section \<open>Contexts\<close>

text \<open>An ancestor: its address, its keys, and its children to the left and to the right of the path.\<close>

type_synonym frame = "nat \<times> u64 list \<times> btree list \<times> btree list"

fun plug :: "btree \<Rightarrow> frame list \<Rightarrow> btree" where
  "plug t [] = t"
| "plug t ((p, ks, ls, rs) # fs) = plug (Br p ks (ls @ t # rs)) fs"

definition up :: "frame list \<Rightarrow> nat option" where
  "up fs = (case fs of [] \<Rightarrow> None | f # _ \<Rightarrow> Some (fst f))"

lemma up_simps [simp]: "up [] = None" "up (f # fs) = Some (fst f)"
  by (simp_all add: up_def)

text \<open>The store holds the ancestors \<open>fs\<close> of the node \<open>q\<close>.\<close>

fun ctx :: "nodes \<Rightarrow> nat \<Rightarrow> frame list \<Rightarrow> bool" where
  "ctx m q [] \<longleftrightarrow> True"
| "ctx m q ((p, ks, ls, rs) # fs) \<longleftrightarrow> (\<exists>n. m p = Some n \<and> inner_node n ks (map adr ls @ q # map adr rs) (up fs))
     \<and> (\<forall>t \<in> set ls \<union> set rs. lives m (Some p) t) \<and> ctx m p fs"

fun cnodes :: "frame list \<Rightarrow> nat list" where
  "cnodes [] = []"
| "cnodes ((p, ks, ls, rs) # fs) = p # concat (map nodes_of (ls @ rs)) @ cnodes fs"

fun clevel :: "nat \<Rightarrow> frame list \<Rightarrow> bool" where
  "clevel h [] \<longleftrightarrow> True"
| "clevel h ((p, ks, ls, rs) # fs) \<longleftrightarrow> (\<forall>t \<in> set ls \<union> set rs. level h t) \<and> clevel (Suc h) fs"

fun lcont :: "frame list \<Rightarrow> item list" where
  "lcont [] = []"
| "lcont ((p, ks, ls, rs) # fs) = lcont fs @ concat (map content ls)"

fun rcont :: "frame list \<Rightarrow> item list" where
  "rcont [] = []"
| "rcont ((p, ks, ls, rs) # fs) = concat (map content rs) @ rcont fs"

text \<open>What deletion keeps of an ancestor: its size and the shape of its other children, not its keys.\<close>

fun frame_ok :: "frame \<Rightarrow> bool" where
  "frame_ok (p, ks, ls, rs) \<longleftrightarrow> length ks = length ls + length rs \<and> ls @ rs \<noteq> []
     \<and> (\<forall>t \<in> set ls \<union> set rs. sep_ok t \<and> fat t)"

lemma lives_plug: "lives m None (plug t fs) \<longleftrightarrow> lives m (up fs) t \<and> ctx m (adr t) fs"
  by (induction t fs rule: plug.induct) (auto simp: ball_Un)

lemma nodes_plug: "mset (nodes_of (plug t fs)) = mset (nodes_of t @ cnodes fs)"
  by (induction t fs rule: plug.induct) simp_all

lemma set_nodes_plug: "set (nodes_of (plug t fs)) = set (nodes_of t) \<union> set (cnodes fs)"
  using nodes_plug [of t fs, THEN mset_eq_setD] by simp

lemma distinct_plug: "distinct (nodes_of (plug t fs)) \<longleftrightarrow> distinct (nodes_of t @ cnodes fs)"
  by (rule mset_eq_imp_distinct_iff [OF nodes_plug])

lemma content_plug: "content (plug t fs) = lcont fs @ content t @ rcont fs"
  by (induction t fs rule: plug.induct) simp_all

lemma level_plug: "level h t \<Longrightarrow> clevel h fs \<Longrightarrow> \<exists>h'. level h' (plug t fs)"
proof (induction t fs arbitrary: h rule: plug.induct)
  case (2 t p ks ls rs fs)
  have "level (Suc h) (Br p ks (ls @ t # rs))" "clevel (Suc h) fs" using 2(2,3) by auto
  then show ?case unfolding plug.simps by (rule 2(1))
qed auto

lemma plug_level: "level h' (plug t fs) \<Longrightarrow> \<exists>h. level h t \<and> clevel h fs"
proof (induction t fs rule: plug.induct)
  case (2 t p ks ls rs fs)
  obtain h where "level h (Br p ks (ls @ t # rs))" "clevel h fs" using 2 by auto
  then show ?case by (cases h) auto
qed auto

lemma plug_append: "plug t (fs @ gs) = plug (plug t fs) gs"
  by (induction t fs rule: plug.induct) simp_all

lemma plug_ex: "q \<in> set (nodes_of t) \<Longrightarrow> \<exists>u fs. t = plug u fs \<and> adr u = q"
proof (induction t)
  case (Lf p its)
  then show ?case by (intro exI [of _ "Lf p its"] exI [of _ "[]"]) simp
next
  case (Br p ks ts)
  show ?case
  proof (cases "q = p")
    case True
    then show ?thesis by (intro exI [of _ "Br p ks ts"] exI [of _ "[]"]) simp
  next
    case False
    then obtain t where t: "t \<in> set ts" "q \<in> set (nodes_of t)" using Br.prems by auto
    obtain ls rs where "ts = ls @ t # rs" using t(1) by (auto simp: in_set_conv_decomp)
    moreover obtain u fs where "t = plug u fs" "adr u = q" using Br.IH [OF t] by blast
    ultimately show ?thesis
      by (intro exI [of _ u] exI [of _ "fs @ [(p, ks, ls, rs)]"]) (simp add: plug_append)
  qed
qed

lemma adr_plug: "adr (plug t fs) = (if fs = [] then adr t else fst (last fs))"
  by (induction t fs rule: plug.induct) auto

lemma plug_inner: "fs \<noteq> [] \<Longrightarrow> \<exists>p ks ts. plug t fs = Br p ks ts"
proof (induction t fs rule: plug.induct)
  case (2 t p ks ls rs fs)
  then show ?case by (cases fs) auto
qed simp

text \<open>The parts of a tree that is taken apart at a node.\<close>

lemma fat_plug: "fs \<noteq> [] \<Longrightarrow> fat (plug t fs) \<longleftrightarrow> fat t \<and>
    (\<forall>(p, ks, ls, rs) \<in> set fs. 1 \<le> length ks \<and> (\<forall>u \<in> set ls \<union> set rs. fat u))"
proof (induction t fs rule: plug.induct)
  case (2 t p ks ls rs fs)
  then show ?case by (cases "fs = []") auto
qed simp

lemma sep_plug: "sep_ok (plug t fs) \<Longrightarrow> sep_ok t \<and> (\<forall>(p, ks, ls, rs) \<in> set fs.
    length ks = length ls + length rs \<and> (\<forall>u \<in> set ls \<union> set rs. sep_ok u))"
  by (induction t fs rule: plug.induct) (auto simp: parted_def)

lemma plug_parts:
  assumes "sep_ok (plug t fs)" "root_fat (plug t fs)"
  shows "sep_ok t" "\<forall>f \<in> set fs. frame_ok f" "fs \<noteq> [] \<Longrightarrow> fat t"
proof -
  note sep = sep_plug [OF assms(1)]
  have fat: "fat (plug t fs)" if "fs \<noteq> []" using plug_inner [OF that, of t] assms(2) by auto
  show "sep_ok t" using sep by blast
  show "fat t" if "fs \<noteq> []" using fat [OF that] fat_plug [OF that] by blast
  show "\<forall>f \<in> set fs. frame_ok f"
  proof
    fix f assume f: "f \<in> set fs"
    obtain p ks ls rs where [simp]: "f = (p, ks, ls, rs)" by (cases f)
    have "fs \<noteq> []" using f by auto
    then have "1 \<le> length ks" "\<forall>u \<in> set ls \<union> set rs. fat u" using fat fat_plug f by fastforce+
    moreover have "length ks = length ls + length rs" "\<forall>u \<in> set ls \<union> set rs. sep_ok u" using sep f by fastforce+
    ultimately show "frame_ok f" by auto
  qed
qed

section \<open>The smallest key of a subtree\<close>

definition minkey :: "btree \<Rightarrow> u64" where
  "minkey t = fst (hd (content t))"

definition mins :: "btree list \<Rightarrow> u64 list" where
  "mins ts = map minkey (tl ts)"

lemma length_mins [simp]: "length (mins ts) = length ts - 1"
  by (simp add: mins_def)

lemma inner_child: "inner_node n ks cs par \<Longrightarrow> i < length cs \<Longrightarrow> child_of n i = Some (Some (cs ! i))"
proof -
  assume n: "inner_node n ks cs par" and i: "i < length cs"
  have wf: "wf_node n" using n by (simp add: inner_node_def)
  have k: "take (bn_num n + 1) (bn_child n) = map Some cs" using n by (auto simp: inner_node_def nkids_def)
  have "length cs = bn_num n + 1" "length cs \<le> 4" using inner_node_length [OF n] by simp_all
  then have "bn_child n ! i = map Some cs ! i" using i k by (metis nth_take)
  then show ?thesis using i wf \<open>length cs \<le> 4\<close> by (simp add: child_of_def)
qed

lemma min_key_ok: "lives m par t \<Longrightarrow> ne t \<Longrightarrow> min_key m (Some (adr t)) = Some (minkey t)"
proof (induction t arbitrary: par)
  case (Lf p its)
  then obtain n where n: "m p = Some n" "leaf_node n its par" by auto
  then have wf: "wf_node n" and k: "take (bn_num n) (bn_fnv n) = map fst its"
    using map_fst_items [of n] by (auto simp: leaf_node_def nkeys_def)
  have "0 < bn_num n" using leaf_node_length [OF n(2)] Lf.prems(2) by simp
  then have "bn_fnv n ! 0 = take (bn_num n) (bn_fnv n) ! 0" by simp
  also have "\<dots> = fst (hd its)" unfolding k using Lf.prems(2) by (cases its) simp_all
  finally have "bn_fnv n ! 0 = fst (hd its)" .
  then show ?case using n wf by (subst min_key.simps) (simp add: deref_def minkey_def leaf_node_def)
next
  case (Br p ks ts)
  then obtain n where n: "m p = Some n" "inner_node n ks (map adr ts) par" by auto
  obtain t us where ts: "ts = t # us" using Br.prems(2) by (cases ts) auto
  have "min_key m (Some (adr t)) = Some (minkey t)" using Br.IH [of t "Some p"] Br.prems ts by simp
  moreover have "child_of n 0 = Some (Some (adr t))" using inner_child [OF n(2), of 0] ts by simp
  moreover have "content t \<noteq> []" using Br.prems(2) ts ne_content by simp
  ultimately show ?case using n ts by (subst min_key.simps) (simp add: deref_def minkey_def inner_node_def)
qed

section \<open>Recomputing the keys of a node\<close>

lemma fold_upd: "k \<le> length f \<Longrightarrow> fold (\<lambda>j f. f[j := K j]) [0..<k] f = map K [0..<k] @ drop k f"
proof (induction k)
  case (Suc k)
  then show ?case by (simp add: list_update_append Cons_nth_drop_Suc [symmetric])
qed simp

lemma fix_keys_at_eq:
  assumes "\<forall>j \<in> set is. j < length f \<and> (\<exists>c. child_of n (Suc j) = Some (Some c)
      \<and> (\<forall>f. min_key (m(p \<mapsto> n\<lparr>bn_fnv := f\<rparr>)) (Some c) = Some (K j)))"
  shows "fix_keys_at (m(p \<mapsto> n\<lparr>bn_fnv := f\<rparr>)) p is = Some (m(p \<mapsto> n\<lparr>bn_fnv := fold (\<lambda>j f. f[j := K j]) is f\<rparr>))"
  using assms
proof (induction "is" arbitrary: f)
  case (Cons i "is")
  have "i \<in> set (i # is)" by simp
  from bspec [OF Cons.prems this] obtain c where c: "child_of n (Suc i) = Some (Some c)" "i < length f"
    "min_key (m(p \<mapsto> n\<lparr>bn_fnv := f\<rparr>)) (Some c) = Some (K i)" by blast
  have ch: "child_of (n\<lparr>bn_fnv := f\<rparr>) (i + 1) = Some (Some c)" using c(1) by (simp add: child_of_def)
  have st: "aset (bn_fnv (n\<lparr>bn_fnv := f\<rparr>)) i (K i) = Some (f[i := K i])" using c(2) by simp
  have rest: "\<forall>j \<in> set is. j < length (f[i := K i]) \<and> (\<exists>c. child_of n (Suc j) = Some (Some c)
      \<and> (\<forall>f. min_key (m(p \<mapsto> n\<lparr>bn_fnv := f\<rparr>)) (Some c) = Some (K j)))"
  proof
    fix j assume "j \<in> set is"
    then have "j \<in> set (i # is)" by simp
    from bspec [OF Cons.prems this] show "j < length (f[i := K i]) \<and> (\<exists>c. child_of n (Suc j) = Some (Some c)
        \<and> (\<forall>f. min_key (m(p \<mapsto> n\<lparr>bn_fnv := f\<rparr>)) (Some c) = Some (K j)))"
      unfolding length_list_update .
  qed
  have up: "n\<lparr>bn_fnv := f\<rparr>\<lparr>bn_fnv := f[i := K i]\<rparr> = n\<lparr>bn_fnv := f[i := K i]\<rparr>" by simp
  from Cons.IH [OF rest]
  have "fix_keys_at ((m(p \<mapsto> n\<lparr>bn_fnv := f\<rparr>))(p \<mapsto> n\<lparr>bn_fnv := f\<rparr>\<lparr>bn_fnv := f[i := K i]\<rparr>)) p is
      = Some (m(p \<mapsto> n\<lparr>bn_fnv := fold (\<lambda>j f. f[j := K j]) is (f[i := K i])\<rparr>))"
    unfolding fun_upd_upd up .
  then show ?case
    unfolding fix_keys_at.simps fun_upd_same bind.bind_lunit ch c(3) st by (simp only: fold_simps)
qed simp

lemma fix_keys_ok:
  assumes l: "lives m par (Br p ks ts)" and full: "\<forall>t \<in> set ts. ne t" and p: "p \<notin> set (concat (map nodes_of ts))"
  shows "\<exists>m'. fix_keys m p = Some m' \<and> (\<forall>a. a \<noteq> p \<longrightarrow> m' a = m a) \<and> lives m' par (Br p (mins ts) ts)"
proof -
  obtain n where n: "m p = Some n" "inner_node n ks (map adr ts) par" and kids: "\<forall>t \<in> set ts. lives m (Some p) t"
    using l by auto
  have wf: "wf_node n" using n(2) by (simp add: inner_node_def)
  have len: "length ts = Suc (bn_num n)" "bn_num n \<le> 3" using inner_node_length [OF n(2)] by simp_all
  let ?K = "\<lambda>j. minkey (ts ! Suc j)"
  let ?f = "map ?K [0..<bn_num n] @ drop (bn_num n) (bn_fnv n)"
  let ?n = "n\<lparr>bn_fnv := ?f\<rparr>"
  have stay: "lives (m(p \<mapsto> x)) (Some p) t" if "t \<in> set ts" for t x
    by (rule lives_frame [of m]) (use kids that p in auto)
  have "\<forall>j \<in> set [0..<bn_num n]. j < length (bn_fnv n) \<and> (\<exists>c. child_of n (Suc j) = Some (Some c)
      \<and> (\<forall>f. min_key (m(p \<mapsto> n\<lparr>bn_fnv := f\<rparr>)) (Some c) = Some (?K j)))"
  proof (intro ballI conjI)
    fix j assume j: "j \<in> set [0..<bn_num n]"
    then have t: "ts ! Suc j \<in> set ts" using len by simp
    show "\<exists>c. child_of n (Suc j) = Some (Some c) \<and> (\<forall>f. min_key (m(p \<mapsto> n\<lparr>bn_fnv := f\<rparr>)) (Some c) = Some (?K j))"
      using inner_child [OF n(2), of "Suc j"] j len min_key_ok [OF stay [OF t]] full t by auto
    have "length (bn_fnv n) = 3" using wf by simp
    then show "j < length (bn_fnv n)" using j len(2) by simp
  qed
  from fix_keys_at_eq [OF this] have "fix_keys_at (m(p \<mapsto> n)) p [0..<bn_num n] = Some (m(p \<mapsto> ?n))"
    using fold_upd [of "bn_num n" "bn_fnv n" ?K] wf len by simp
  then have "fix_keys m p = Some (m(p \<mapsto> ?n))" using n(1) by (simp add: fix_keys_def fun_upd_idem)
  moreover have "map ?K [0..<bn_num n] = mins ts"
    using len by (auto simp: mins_def list_eq_iff_nth_eq nth_tl)
  then have "inner_node ?n (mins ts) (map adr ts) par"
    using n(2) wf len by (auto simp: inner_node_def wf_node_def nkeys_def nkids_def simp del: wf_lengths)
  ultimately show ?thesis using stay by auto
qed

lemma mins_part:
  assumes "sorted_wrt (<) (map fst (concat (map content ts)))" "\<forall>t \<in> set ts. content t \<noteq> []" "ts \<noteq> []"
  shows "parted (mins ts) ts"
  unfolding parted_def
proof (intro conjI allI impI ballI)
  show "length ts = Suc (length (mins ts))" using assms(3) by (cases ts) simp_all
  fix i x assume i: "i < length (mins ts)"
  then have i': "Suc i < length ts" by simp
  have k: "mins ts ! i = fst (hd (content (ts ! Suc i)))" using i by (simp add: mins_def minkey_def nth_tl)
  have c: "content (ts ! Suc i) \<noteq> []" using assms(2) i' by simp
  have w: "sorted_wrt (\<lambda>xs ys. \<forall>x\<in>set xs. \<forall>y\<in>set ys. x < y) (map (map fst \<circ> content) ts)"
    and s: "\<forall>t \<in> set ts. sorted_wrt (<) (map fst (content t))"
    using assms(1) by (auto simp: map_concat sorted_wrt_concat comp_def)
  show "x < mins ts ! i" if "x \<in> fst ` set (content (ts ! i))"
    using sorted_wrt_nth_less [OF w, of i "Suc i"] i' that c k by (auto simp: hd_in_set)
  show "mins ts ! i \<le> x" if x: "x \<in> fst ` set (content (ts ! Suc i))"
  proof -
    have "sorted_wrt (<) (map fst (content (ts ! Suc i)))" using s i' by simp
    with x c show ?thesis unfolding k by (cases "content (ts ! Suc i)") auto
  qed
qed

section \<open>Recomputing the keys of all ancestors\<close>

fun refreshed :: "btree \<Rightarrow> frame list \<Rightarrow> btree" where
  "refreshed t [] = t"
| "refreshed t ((p, ks, ls, rs) # fs) = refreshed (Br p (mins (ls @ t # rs)) (ls @ t # rs)) fs"

lemma refreshed_plug:
  "content (refreshed t fs) = content (plug t fs)" "nodes_of (refreshed t fs) = nodes_of (plug t fs)"
  "level h (refreshed t fs) = level h (plug t fs)" "adr (refreshed t fs) = adr (plug t fs)"
proof -
  have "content u = content t \<Longrightarrow> nodes_of u = nodes_of t \<Longrightarrow> adr u = adr t \<Longrightarrow> (\<forall>h. level h u = level h t) \<Longrightarrow>
    content (refreshed u fs) = content (plug t fs) \<and> nodes_of (refreshed u fs) = nodes_of (plug t fs)
    \<and> adr (refreshed u fs) = adr (plug t fs) \<and> (\<forall>h. level h (refreshed u fs) = level h (plug t fs))" for u
  proof (induction t fs arbitrary: u rule: plug.induct)
    case (2 t p ks ls rs fs)
    show ?case unfolding plug.simps refreshed.simps
      by (rule 2(1)) (use 2(2-) in \<open>auto split: nat.splits\<close>)
  qed simp
  from this [of t] show "content (refreshed t fs) = content (plug t fs)" "nodes_of (refreshed t fs) = nodes_of (plug t fs)"
    "level h (refreshed t fs) = level h (plug t fs)" "adr (refreshed t fs) = adr (plug t fs)" by simp_all
qed

lemma fat_content: "fat t \<Longrightarrow> lives m par t \<Longrightarrow> content t \<noteq> []"
  using fat_ne ne_content by blast

text \<open>With the keys recomputed the tree is well-formed again.\<close>

lemma refreshed_ok:
  assumes "lives m None (refreshed t fs)" "distinct (nodes_of (plug t fs))" "\<exists>h. level h (plug t fs)"
    "sorted_wrt (<) (map fst (content (plug t fs)))" "\<forall>f \<in> set fs. frame_ok f" "sep_ok t" "fat t"
  shows "tree_at m (refreshed t fs)"
proof -
  have "sep_ok (refreshed t fs) \<and> fat (refreshed t fs)"
    using assms(1,4-7)
  proof (induction t fs rule: refreshed.induct)
    case (2 t p ks ls rs fs)
    let ?ts = "ls @ t # rs"
    let ?u = "Br p (mins ?ts) ?ts"
    obtain par where "lives m par ?u"
    proof -
      have *: "\<exists>par. lives m par u" if "lives m None (refreshed u gs)" for u gs
        using that
      proof (induction u gs rule: refreshed.induct)
        case (2 t p ks ls rs fs)
        from 2(1) [OF 2(2) [unfolded refreshed.simps]] show ?case by auto
      qed auto
      show ?thesis using * [of ?u fs] 2(2) that by auto
    qed
    then have l: "\<forall>t \<in> set ?ts. lives m (Some p) t" by simp
    have fr: "frame_ok (p, ks, ls, rs)" using 2(4) by simp
    then have f: "\<forall>t \<in> set ?ts. fat t \<and> sep_ok t" using 2(5,6) by auto
    then have c: "\<forall>t \<in> set ?ts. content t \<noteq> []" using l fat_content by blast
    have cu: "content (plug ?u fs) = content (plug t ((p, ks, ls, rs) # fs))" by (simp add: content_plug)
    have "sorted_wrt (<) (map fst (lcont fs @ content ?u @ rcont fs))"
      using 2(3) unfolding cu [symmetric] content_plug [of ?u] .
    then have "sorted_wrt (<) (map fst (content ?u))" by (simp only: map_append sorted_wrt_append)
    then have "parted (mins ?ts) ?ts" using c by (intro mins_part) simp_all
    moreover have "1 \<le> length (mins ?ts)" using fr by (cases ls; cases rs) auto
    ultimately have "sep_ok ?u" "fat ?u" using f by auto
    moreover have "\<forall>f \<in> set fs. frame_ok f" using 2(4) by simp
    ultimately show ?case using 2(1) 2(2) 2(3) cu by simp
  qed simp
  then show ?thesis using assms(1-4) refreshed_plug [where t = t and fs = fs]
    by (cases "refreshed t fs") (auto simp: tree_at_def)
qed

lemma ctx_frame: "ctx m q fs \<Longrightarrow> \<forall>a \<in> set (cnodes fs). m' a = m a \<Longrightarrow> ctx m' q fs"
proof (induction m q fs rule: ctx.induct)
  case (2 m q p ks ls rs fs)
  have "lives m' (Some p) t" if "t \<in> set ls \<union> set rs" for t
    by (rule lives_frame) (use 2(2,3) that in auto)
  then show ?case using 2 by auto
qed simp

lemma fix_up_None [simp]: "fix_up m None = Some m"
  by (subst fix_up.simps) simp

lemma fix_up_ok:
  "lives m (up fs) t \<Longrightarrow> ctx m (adr t) fs \<Longrightarrow> distinct (nodes_of t @ cnodes fs) \<Longrightarrow> ne t \<Longrightarrow> \<forall>f \<in> set fs. frame_ok f \<Longrightarrow>
     \<exists>m'. fix_up m (up fs) = Some m' \<and> (\<forall>a. a \<notin> fst ` set fs \<longrightarrow> m' a = m a) \<and> lives m' None (refreshed t fs)"
proof (induction t fs arbitrary: m rule: refreshed.induct)
  case (2 t p ks ls rs fs)
  let ?ts = "ls @ t # rs"
  have lp: "lives m (up fs) (Br p ks ?ts)" and cx: "ctx m p fs" using 2(2,3) by (auto simp: ball_Un)
  have kn: "ne u" if "u \<in> set ls \<union> set rs" for u
    using 2(3,6) that fat_ne [of u m "Some p"] by auto
  then have full: "\<forall>u \<in> set ?ts. ne u" using 2(5) by auto
  have d: "p \<notin> set (concat (map nodes_of ?ts))" "p \<notin> set (cnodes fs)" using 2(4) by auto
  obtain m1 where m1: "fix_keys m p = Some m1" "\<forall>a. a \<noteq> p \<longrightarrow> m1 a = m a" "lives m1 (up fs) (Br p (mins ?ts) ?ts)"
    using fix_keys_ok [OF lp full d(1)] by blast
  have "ctx m1 p fs" by (rule ctx_frame [OF cx]) (use m1(2) d(2) in auto)
  moreover have "distinct (nodes_of (Br p (mins ?ts) ?ts) @ cnodes fs)" using 2(4) by auto
  ultimately obtain m2 where m2: "fix_up m1 (up fs) = Some m2" "\<forall>a. a \<notin> fst ` set fs \<longrightarrow> m2 a = m1 a"
    "lives m2 None (refreshed (Br p (mins ?ts) ?ts) fs)"
    using 2(1) [OF m1(3)] full 2(6) by auto
  obtain n where n: "m p = Some n" "\<not> bn_leaf n" using lp by (auto simp: inner_node_def)
  obtain n' where n': "m1 p = Some n'" "bn_parent n' = up fs" using m1(3) by (auto simp: inner_node_def)
  have "fix_up m (Some p) = Some m2"
    by (subst fix_up.simps) (simp add: n n' m1(1) m2(1))
  then show ?case using m1(2) m2(2,3) by auto
qed simp

end
