(* ===== verification/BPT_Repair.thy ===== *)
theory BPT_Repair
  imports BPT_Path
begin

text \<open>
  Repairing a tree after a deletion, up to the choice of a sibling: the state of a tree whose hole and whose
  keys may be wrong (\<open>spot\<close>), what the pointer operations of \<^verbatim>\<open>src/tools/fs.c\<close> do to the nodes they touch,
  two neighbours that share or merge their contents below a common parent, and the root that takes over
  its only child.
\<close>

section \<open>A tree under repair\<close>

text \<open>
  The store holds the tree \<open>plug t fs\<close>, whose hole \<open>t\<close> and whose keys may still be wrong; everything else is
  as the invariant wants it.
\<close>

definition spot :: "bpt \<Rightarrow> btree \<Rightarrow> frame list \<Rightarrow> bool" where
  "spot s t fs \<longleftrightarrow> heap_inv (bp_heap s) \<and> lives (bp_nd s) (up fs) t \<and> ctx (bp_nd s) (adr t) fs
     \<and> distinct (nodes_of t @ cnodes fs) \<and> set (nodes_of t @ cnodes fs) \<subseteq> owned (bp_heap s)
     \<and> (\<exists>h. level h t \<and> clevel h fs) \<and> sorted_wrt (<) (map fst (lcont fs @ content t @ rcont fs))
     \<and> (\<forall>f \<in> set fs. frame_ok f)"

text \<open>Outside \<open>T\<close> no node changed and no block was freed.\<close>

definition keeps :: "nat set \<Rightarrow> bpt \<Rightarrow> bpt \<Rightarrow> bool" where
  "keeps T s s' \<longleftrightarrow> heap_inv (bp_heap s') \<and> owned (bp_heap s) - T \<subseteq> owned (bp_heap s')
     \<and> (\<forall>a. a \<notin> T \<longrightarrow> bp_nd s' a = bp_nd s a)"

definition rebuilt :: "nat set \<Rightarrow> nat \<Rightarrow> item list \<Rightarrow> bpt \<Rightarrow> bpt \<Rightarrow> bool" where
  "rebuilt T r its s s' \<longleftrightarrow> keeps T s s' \<and> (\<exists>t. tree_at (bp_nd s') t \<and> adr t = r \<and> content t = its
     \<and> set (nodes_of t) \<subseteq> T \<inter> owned (bp_heap s'))"

lemma keeps_trans: "keeps T s s1 \<Longrightarrow> keeps T1 s1 s2 \<Longrightarrow> T1 \<subseteq> T \<Longrightarrow> keeps T s s2"
proof -
  assume a: "keeps T s s1" "keeps T1 s1 s2" "T1 \<subseteq> T"
  have "owned (bp_heap s) - T \<subseteq> owned (bp_heap s2)" using a unfolding keeps_def by blast
  moreover have "bp_nd s2 x = bp_nd s x" if "x \<notin> T" for x using a that by (auto simp: keeps_def)
  ultimately show ?thesis using a(2) by (simp add: keeps_def)
qed

lemma keeps_rebuilt: "keeps T s s1 \<Longrightarrow> rebuilt T1 r its s1 s2 \<Longrightarrow> T1 \<subseteq> T \<Longrightarrow> rebuilt T r its s s2"
  unfolding rebuilt_def using keeps_trans [of T s s1 T1 s2] by blast

lemma fst_cnodes: "fst ` set fs \<subseteq> set (cnodes fs)"
  by (induction fs rule: cnodes.induct) auto

lemma spot_up: "spot s t ((p, ks, ls, rs) # fs) \<Longrightarrow> spot s (Br p ks (ls @ t # rs)) fs"
proof -
  assume sp: "spot s t ((p, ks, ls, rs) # fs)"
  obtain h where h: "level h t" "clevel h ((p, ks, ls, rs) # fs)" using sp by (auto simp: spot_def)
  then have "level (Suc h) (Br p ks (ls @ t # rs)) \<and> clevel (Suc h) fs" by auto
  moreover have "distinct (nodes_of (Br p ks (ls @ t # rs)) @ cnodes fs)
      \<longleftrightarrow> distinct (nodes_of t @ cnodes ((p, ks, ls, rs) # fs))"
    by (rule mset_eq_imp_distinct_iff) simp
  ultimately show ?thesis using sp unfolding spot_def by (auto simp: ball_Un)
qed

lemma spot_down: "spot s (Br p ks (ls @ t # rs)) fs \<Longrightarrow> frame_ok (p, ks, ls, rs) \<Longrightarrow> spot s t ((p, ks, ls, rs) # fs)"
proof -
  assume sp: "spot s (Br p ks (ls @ t # rs)) fs" and fr: "frame_ok (p, ks, ls, rs)"
  obtain h where h: "level h (Br p ks (ls @ t # rs))" "clevel h fs" using sp by (auto simp: spot_def)
  then obtain h' where "h = Suc h'" by (cases h) auto
  then have "level h' t \<and> clevel h' ((p, ks, ls, rs) # fs)" using h by auto
  moreover have "distinct (nodes_of (Br p ks (ls @ t # rs)) @ cnodes fs)
      \<longleftrightarrow> distinct (nodes_of t @ cnodes ((p, ks, ls, rs) # fs))"
    by (rule mset_eq_imp_distinct_iff) simp
  ultimately show ?thesis using sp fr unfolding spot_def by (auto simp: ball_Un)
qed

lemma spot_change:
  assumes sp: "spot s t fs" and l: "lives m' (up fs) u" and out: "\<forall>a. a \<notin> set (nodes_of t) \<longrightarrow> m' a = bp_nd s a"
    and u: "distinct (nodes_of u)" "set (nodes_of u) \<subseteq> set (nodes_of t)" "adr u = adr t" "\<forall>h. level h t \<longrightarrow> level h u"
      "sorted_wrt (<) (map fst (lcont fs @ content u @ rcont fs))"
  shows "spot (s\<lparr>bp_nd := m'\<rparr>) u fs"
proof -
  have "ctx m' (adr t) fs" by (rule ctx_frame [of "bp_nd s"]) (use sp out in \<open>auto simp: spot_def\<close>)
  then show ?thesis using sp l u unfolding spot_def by auto
qed

lemma free_node_ok:
  assumes "heap_inv (bp_heap s)" "a \<in> owned (bp_heap s)"
  shows "\<exists>h. free_node s a = Some (s\<lparr>bp_heap := h, bp_nd := (bp_nd s)(a := None)\<rparr>) \<and> heap_inv h
    \<and> owned h = owned (bp_heap s) - {a}"
  using hp.free_addrs [of "bp_heap s" a] assms by (auto simp: free_node_def hp.addrs_def owned_def)

lemma spot_free:
  assumes sp: "spot s t fs" and a: "a \<in> owned (bp_heap s)" "a \<notin> set (nodes_of t @ cnodes fs)"
  shows "\<exists>s'. free_node s a = Some s' \<and> spot s' t fs \<and> keeps {a} s s'"
proof -
  obtain h where h: "free_node s a = Some (s\<lparr>bp_heap := h, bp_nd := (bp_nd s)(a := None)\<rparr>)" "heap_inv h"
    "owned h = owned (bp_heap s) - {a}"
    using free_node_ok [OF _ a(1)] sp by (auto simp: spot_def)
  have "lives ((bp_nd s)(a := None)) (up fs) t" by (rule lives_frame) (use sp a(2) in \<open>auto simp: spot_def\<close>)
  moreover have "ctx ((bp_nd s)(a := None)) (adr t) fs" by (rule ctx_frame) (use sp a(2) in \<open>auto simp: spot_def\<close>)
  ultimately have "spot (s\<lparr>bp_heap := h, bp_nd := (bp_nd s)(a := None)\<rparr>) t fs"
    using sp a(2) h by (auto simp: spot_def)
  then show ?thesis using h by (auto simp: keeps_def)
qed

text \<open>When the children of a node are in order again, \<open>fix_up\<close> on the node finishes the repair.\<close>

lemma spot_fix_up:
  assumes sp: "spot s (Br p ks ts) fs" and ok: "\<forall>t \<in> set ts. fat t \<and> sep_ok t" and two: "2 \<le> length ts"
  shows "\<exists>m. fix_up (bp_nd s) (Some p) = Some m \<and> rebuilt (set (nodes_of (Br p ks ts) @ cnodes fs))
    (adr (plug (Br p ks ts) fs)) (lcont fs @ content (Br p ks ts) @ rcont fs) s (s\<lparr>bp_nd := m\<rparr>)"
proof -
  obtain t us where ts: "ts = t # us" "us \<noteq> []" using two by (cases ts; cases "tl ts") auto
  let ?gs = "(p, ks, [], us) # fs"
  have "length ts = Suc (length ks)" using sp inner_node_length by (fastforce simp: spot_def)
  then have fr: "frame_ok (p, ks, [], us)" using ok ts by simp
  have sp': "spot s t ?gs" by (rule spot_down) (use sp fr ts in simp_all)
  then have l: "lives (bp_nd s) (up ?gs) t" "ctx (bp_nd s) (adr t) ?gs" "distinct (nodes_of t @ cnodes ?gs)"
    "\<forall>f \<in> set ?gs. frame_ok f" "sorted_wrt (<) (map fst (content (plug t ?gs)))" "\<exists>h. level h t \<and> clevel h ?gs"
    unfolding spot_def content_plug by blast+
  have "ne t" using fat_ne [OF _ l(1)] ok ts by simp
  then obtain m where m: "fix_up (bp_nd s) (up ?gs) = Some m" "\<forall>a. a \<notin> fst ` set ?gs \<longrightarrow> m a = bp_nd s a"
    "lives m None (refreshed t ?gs)"
    using fix_up_ok [OF l(1-3) _ l(4)] by blast
  have "\<exists>h. level h (plug t ?gs)" using l(6) level_plug by blast
  moreover have "distinct (nodes_of (plug t ?gs))" using l(3) by (simp only: distinct_plug)
  ultimately have "tree_at m (refreshed t ?gs)"
    using ok ts by (intro refreshed_ok [OF m(3) _ _ l(5,4)]) simp_all
  moreover have pl: "plug t ?gs = plug (Br p ks ts) fs" using ts by simp
  moreover have "set (nodes_of (refreshed t ?gs)) = set (nodes_of (Br p ks ts) @ cnodes fs)"
    by (simp only: refreshed_plug pl set_nodes_plug set_append)
  moreover have "set (nodes_of (Br p ks ts) @ cnodes fs) \<subseteq> owned (bp_heap s)" using sp by (simp only: spot_def)
  ultimately have "\<exists>t. tree_at m t \<and> adr t = adr (plug (Br p ks ts) fs) \<and> content t = lcont fs @ content (Br p ks ts) @ rcont fs
      \<and> set (nodes_of t) \<subseteq> set (nodes_of (Br p ks ts) @ cnodes fs) \<inter> owned (bp_heap s)"
    using refreshed_plug(1,4) [where t = t and fs = ?gs] by (metis content_plug order_refl le_inf_iff)
  moreover have "fst ` set ?gs \<subseteq> set (nodes_of (Br p ks ts) @ cnodes fs)" using fst_cnodes [of fs] by auto
  then have "\<forall>a. a \<notin> set (nodes_of (Br p ks ts) @ cnodes fs) \<longrightarrow> m a = bp_nd s a" using m(2) by blast
  then have "keeps (set (nodes_of (Br p ks ts) @ cnodes fs)) s (s\<lparr>bp_nd := m\<rparr>)"
    using sp unfolding keeps_def spot_def by simp
  ultimately show ?thesis using m(1) by (auto simp: rebuilt_def)
qed

section \<open>Pointer surgery on inner nodes\<close>

lemma kids_prefix: "inner_node n ks cs par \<Longrightarrow> take (Suc (bn_num n)) (bn_child n) = map Some cs \<and> bn_num n \<le> 3 \<and> length (bn_child n) = 4
    \<and> length (bn_fnv n) = 3"
  by (auto simp: inner_node_def nkids_def)

text \<open>A well-formed inner node with given children; its keys are whatever the array holds.\<close>

lemma inner_nodeI:
  assumes "inner_node n ks cs par" "bn_num x = k" "Suc k = length cs'" "k \<le> 3" "take (Suc k) (bn_child x) = map Some cs'"
    "length (bn_fnv x) = 3" "length (bn_child x) = 4" "bn_djb x = bn_djb n" "bn_data x = bn_data n" "bn_leaf x = bn_leaf n"
    "bn_parent x = par"
  shows "inner_node x (nkeys x) cs' par"
proof -
  have n: "wf_node n" "\<not> bn_leaf n" using assms(1) by (simp_all add: inner_node_def)
  then have "wf_node x" using assms(2,4,6-9) by (simp add: wf_node_def del: wf_lengths)
  moreover have "nkids x = map Some cs'" using assms(2,5,10) n(2) by (simp add: nkids_def)
  ultimately show ?thesis using assms(10,11) n(2) by (simp add: inner_node_def)
qed

lemma child_idx_ok:
  assumes n: "inner_node n ks (as @ q # bs) par" and q: "q \<notin> set as"
  shows "child_idx n q = Some (Some (length as))"
proof -
  have k: "take (Suc (bn_num n)) (bn_child n) = map Some (as @ q # bs)" "bn_num n \<le> 3" "length (bn_child n) = 4"
    using kids_prefix [OF n] by simp_all
  have "scan (\<lambda>c. c \<noteq> Some q) (map Some (as @ q # bs)) = length as"
    unfolding scan_def map_append using q by (subst takeWhile_append2) auto
  then show ?thesis using k inner_node_length [OF n] by (simp add: child_idx_def)
qed

lemma siblings_ok:
  assumes n: "inner_node n ks (map adr ls @ q # map adr rs) par"
  shows "siblings n (length ls) = Some (if ls = [] then None else Some (adr (last ls)), if rs = [] then None else Some (adr (hd rs)))"
proof -
  have num: "bn_num n = length ls + length rs" using inner_node_length [OF n] by simp
  have "child_of n (length ls - 1) = Some (Some (adr (last ls)))" if "ls \<noteq> []"
    using inner_child [OF n, of "length ls - 1"] that by (simp add: nth_append last_conv_nth)
  moreover have "child_of n (Suc (length ls)) = Some (Some (adr (hd rs)))" if "rs \<noteq> []"
    using inner_child [OF n, of "Suc (length ls)"] that by (simp add: nth_append hd_conv_nth)
  ultimately show ?thesis using num by (auto simp: siblings_def)
qed

lemma shift_down_eq: "a \<le> b \<Longrightarrow> b < length xs \<Longrightarrow>
    shift_down xs a b = Some (take a xs @ take (b - a) (drop (Suc a) xs) @ drop b xs)"
  by (auto simp: shift_down_def)

lemma shift_down_length: "b < length xs \<Longrightarrow> \<exists>ys. shift_down xs a b = Some ys \<and> length ys = length xs"
  by (auto simp: shift_down_def)

text \<open>The list without its element \<open>i\<close>.\<close>

definition without :: "nat \<Rightarrow> 'a list \<Rightarrow> 'a list" where
  "without i xs = take i xs @ drop (Suc i) xs"

lemma without_append [simp]: "without (length as) (as @ x # bs) = as @ bs"
  by (simp add: without_def)

lemma without_map: "without i (map f xs) = map f (without i xs)"
  by (simp add: without_def take_map drop_map)

lemma length_without: "i < length xs \<Longrightarrow> length (without i xs) = length xs - 1"
  by (simp add: without_def)

lemma shift_down_without:
  assumes "i \<le> b" "b < length xs" "shift_down xs i b = Some ys"
  shows "take b ys = without i (take (Suc b) xs)" "length ys = length xs"
  using assms by (auto simp: shift_down_eq without_def drop_take min_def)

lemma drop_child_ok:
  assumes n: "m p = Some n" "inner_node n ks cs par" and i: "i < length cs" and two: "2 \<le> length cs"
  shows "\<exists>n' ks'. drop_child m p i = Some (m(p \<mapsto> n')) \<and> inner_node n' ks' (without i cs) par"
proof -
  have num: "Suc (bn_num n) = length cs" "bn_num n \<le> 3" using inner_node_length [OF n(2)] by auto
  have len: "length (bn_fnv n) = 3" "length (bn_child n) = 4" using n(2) by (simp_all add: inner_node_def)
  have k: "take (Suc (bn_num n)) (bn_child n) = map Some cs" using kids_prefix [OF n(2)] by simp
  have "bn_num n - 1 < length (bn_fnv n)" using num len by simp
  from shift_down_length [OF this] len(1) obtain f where
    f: "shift_down (bn_fnv n) (if 0 < i then i - 1 else 0) (bn_num n - 1) = Some f" "length f = 3" by metis
  obtain c where c: "shift_down (bn_child n) i (bn_num n) = Some c"
    using shift_down_length [of "bn_num n" "bn_child n"] num len by auto
  note sd = shift_down_without [OF _ _ c]
  have c': "take (bn_num n) c = map Some (without i cs)" "length c = 4"
    using sd i num len k by (simp_all add: without_map)
  let ?n = "n\<lparr>bn_fnv := f, bn_child := c[bn_num n := None], bn_num := bn_num n - 1\<rparr>"
  have "drop_child m p i = Some (m(p \<mapsto> ?n))"
    using n(1) f c c'(2) num(2) by (simp add: drop_child_def Let_def)
  moreover have "bn_num n - 1 \<le> 3" using num(2) by simp
  then have "inner_node ?n (nkeys ?n) (without i cs) par"
    by (intro inner_nodeI [OF n(2)]) (use i two num f c' n(2) in \<open>auto simp: length_without inner_node_def simp del: wf_lengths\<close>)
  ultimately show ?thesis by blast
qed

text \<open>Giving a subtree a new parent.\<close>

lemma lives_adr: "lives m par t \<Longrightarrow> \<exists>n. m (adr t) = Some n \<and> bn_parent n = par"
  by (cases t) (auto simp: leaf_node_def inner_node_def)

lemma node_with_parent [simp]:
  "leaf_node (n\<lparr>bn_parent := q\<rparr>) its par \<longleftrightarrow> par = q \<and> leaf_node n its (bn_parent n)"
  "inner_node (n\<lparr>bn_parent := q\<rparr>) ks cs par \<longleftrightarrow> par = q \<and> inner_node n ks cs (bn_parent n)"
  by (auto simp: leaf_node_def inner_node_def wf_node_def items_def nkeys_def nkids_def simp del: wf_lengths)

lemma lives_reparent:
  assumes "lives m par t" "distinct (nodes_of t)"
  shows "\<exists>m'. set_parent m (Some (adr t)) q = Some m' \<and> lives m' q t \<and> (\<forall>a. a \<noteq> adr t \<longrightarrow> m' a = m a)"
proof (cases t)
  case (Lf p its)
  then show ?thesis using assms by (auto simp: set_parent_def leaf_node_def)
next
  case (Br p ks ts)
  have "lives (m(p \<mapsto> x)) (Some p) u" if "u \<in> set ts" for u x
    by (rule lives_frame [of m]) (use assms Br that in auto)
  then show ?thesis using assms Br by (auto simp: set_parent_def inner_node_def)
qed

lemma lives_all_frame:
  "\<forall>t \<in> set ts. lives m par t \<Longrightarrow> \<forall>a \<in> set (concat (map nodes_of ts)). m' a = m a \<Longrightarrow> \<forall>t \<in> set ts. lives m' par t"
  using lives_frame by fastforce

lemma adr_nodes: "adr ` set ts \<subseteq> set (concat (map nodes_of ts))"
  by force

lemma set_parents_ok:
  "\<forall>t \<in> set ts. lives m par t \<Longrightarrow> distinct (concat (map nodes_of ts)) \<Longrightarrow>
     \<exists>m'. set_parents m (map (\<lambda>t. Some (adr t)) ts) q = Some m' \<and> (\<forall>t \<in> set ts. lives m' q t) \<and> (\<forall>a. a \<notin> adr ` set ts \<longrightarrow> m' a = m a)"
proof (induction ts arbitrary: m)
  case (Cons t ts)
  obtain m1 where m1: "set_parent m (Some (adr t)) q = Some m1" "lives m1 q t" "\<forall>a. a \<noteq> adr t \<longrightarrow> m1 a = m a"
    using lives_reparent [of m par t q] Cons.prems by auto
  have "adr t \<notin> set (concat (map nodes_of ts))" using Cons.prems(2) adr_node [of t] by (simp del: adr_node) blast
  then have "\<forall>u \<in> set ts. lives m1 par u"
    using Cons.prems(1) m1(3) by (intro lives_all_frame [of ts m par m1]) (simp, metis)
  then obtain m2 where m2: "set_parents m1 (map (\<lambda>t. Some (adr t)) ts) q = Some m2" "\<forall>t \<in> set ts. lives m2 q t"
    "\<forall>a. a \<notin> adr ` set ts \<longrightarrow> m2 a = m1 a" using Cons.IH [of m1] Cons.prems by auto
  have "lives m2 q t" by (rule lives_frame [OF m1(2)]) (use m2(3) adr_nodes [of ts] Cons.prems(2) in auto)
  then show ?case using m1 m2 by auto
qed simp

section \<open>Borrowing and merging inner nodes\<close>

text \<open>
  A pair of neighbours \<open>a\<close>, \<open>b\<close> with children \<open>ta\<close>, \<open>tb\<close> below \<open>P\<close>, and the store after children moved
  between them and their keys were recomputed.
\<close>

definition two_nodes :: "nodes \<Rightarrow> nat option \<Rightarrow> nat \<Rightarrow> btree list \<Rightarrow> nat \<Rightarrow> btree list \<Rightarrow> bool" where
  "two_nodes m par a ta b tb \<longleftrightarrow> (\<exists>ks. lives m par (Br a ks ta)) \<and> (\<exists>ks. lives m par (Br b ks tb))
     \<and> distinct (a # b # concat (map nodes_of (ta @ tb)))"

lemma fat_ne_all: "\<forall>t \<in> set ts. fat t \<Longrightarrow> \<forall>t \<in> set ts. lives m par t \<Longrightarrow> \<forall>t \<in> set ts. ne t"
  using fat_ne by blast

lemma fix_two:
  assumes two: "two_nodes m par a ta b tb" and f: "\<forall>t \<in> set (ta @ tb). fat t"
  shows "\<exists>m1 m2. fix_keys m a = Some m1 \<and> fix_keys m1 b = Some m2 \<and> lives m2 par (Br a (mins ta) ta)
    \<and> lives m2 par (Br b (mins tb) tb) \<and> (\<forall>x. x \<noteq> a \<and> x \<noteq> b \<longrightarrow> m2 x = m x)"
proof -
  obtain ka kb where l: "lives m par (Br a ka ta)" "lives m par (Br b kb tb)"
    and d: "distinct (a # b # concat (map nodes_of (ta @ tb)))" using two by (auto simp only: two_nodes_def)
  have ne: "\<forall>t \<in> set ta. ne t" "\<forall>t \<in> set tb. ne t"
    using l f fat_ne_all [of ta m "Some a"] fat_ne_all [of tb m "Some b"] by simp_all
  obtain m1 where m1: "fix_keys m a = Some m1" "\<forall>x. x \<noteq> a \<longrightarrow> m1 x = m x" "lives m1 par (Br a (mins ta) ta)"
    using fix_keys_ok [OF l(1) ne(1)] d by auto
  have lb: "lives m1 par (Br b kb tb)" by (rule lives_frame [OF l(2)]) (use m1(2) d in auto)
  obtain m2 where m2: "fix_keys m1 b = Some m2" "\<forall>x. x \<noteq> b \<longrightarrow> m2 x = m1 x" "lives m2 par (Br b (mins tb) tb)"
    using fix_keys_ok [OF lb ne(2)] d by auto
  have "lives m2 par (Br a (mins ta) ta)" by (rule lives_frame [OF m1(3)]) (use m2(2) d in auto)
  then show ?thesis using m1 m2 by auto
qed

lemma frame_apart:
  "\<forall>x. x \<noteq> adr c \<longrightarrow> m' x = m x \<Longrightarrow> set (nodes_of c) \<inter> S = {} \<Longrightarrow> \<forall>x \<in> S. m' x = (m x :: bpt_node option)"
  by (metis adr_node disjoint_iff)

lemma lives_apart:
  assumes "\<forall>t \<in> set ts. lives m par t" "\<forall>x. x \<noteq> adr c \<longrightarrow> m1 x = (m(p \<mapsto> n)) x"
    and d: "set (nodes_of c) \<inter> set (concat (map nodes_of ts)) = {}" "a \<notin> set (concat (map nodes_of ts))"
      "b \<notin> set (concat (map nodes_of ts))" "p = a \<or> p = b"
  shows "\<forall>t \<in> set ts. lives (m1(a \<mapsto> x, b \<mapsto> y)) par t"
proof (rule lives_all_frame [OF assms(1)], rule ballI)
  fix z assume z: "z \<in> set (concat (map nodes_of ts))"
  have "z \<noteq> adr c" using z d(1) adr_node [of c] by blast
  then have "m1 z = (m(p \<mapsto> n)) z" using assms(2) by blast
  moreover have "z \<noteq> a" "z \<noteq> b" using z d(2,3) by blast+
  ultimately show "(m1(a \<mapsto> x, b \<mapsto> y)) z = m z" using d(4) by auto
qed

lemma out_apart:
  assumes "\<forall>x. x \<noteq> adr c \<longrightarrow> m1 x = (m(p \<mapsto> n)) x" "p = a \<or> p = b"
  shows "\<forall>x. x \<notin> set (a # b # nodes_of c) \<longrightarrow> (m1(a \<mapsto> y, b \<mapsto> z)) x = m x"
proof (intro allI impI)
  fix x assume x: "x \<notin> set (a # b # nodes_of c)"
  have "x \<noteq> adr c" using x adr_node [of c] by (auto simp del: adr_node)
  then have "m1 x = (m(p \<mapsto> n)) x" using assms(1) by blast
  then show "(m1(a \<mapsto> y, b \<mapsto> z)) x = m x" using x assms(2) by auto
qed

lemma two_nodesI:
  assumes "inner_node na ka (map adr ta) par" "inner_node nb kb (map adr tb) par" "m a = Some na" "m b = Some nb"
    "\<forall>t \<in> set ta. lives m (Some a) t" "\<forall>t \<in> set tb. lives m (Some b) t" "distinct (a # b # concat (map nodes_of (ta @ tb)))"
  shows "two_nodes m par a ta b tb"
  using assms unfolding two_nodes_def by auto

lemma two_nodesD:
  assumes "two_nodes m par a ta b tb"
  obtains na ka nb kb where "m a = Some na" "inner_node na ka (map adr ta) par" "m b = Some nb"
    "inner_node nb kb (map adr tb) par" "\<forall>t \<in> set ta. lives m (Some a) t" "\<forall>t \<in> set tb. lives m (Some b) t"
    "distinct (a # b # concat (map nodes_of (ta @ tb)))"
  using assms unfolding two_nodes_def by auto

lemma borrow_left_ok:
  assumes two: "two_nodes m par a (ta @ [c]) b tb" and len: "length tb \<le> 3" "ta \<noteq> []"
  shows "\<exists>m'. two_nodes m' par a ta b (c # tb) \<and> (\<forall>x. x \<notin> set (a # b # nodes_of c) \<longrightarrow> m' x = m x)
    \<and> (\<forall>P. borrow_left_inner m b a P = do { m5 \<leftarrow> fix_keys m' a; m6 \<leftarrow> fix_keys m5 b; fix_up m6 (Some P) })"
proof -
  obtain na ka nb kb where n: "m a = Some na" "inner_node na ka (map adr (ta @ [c])) par" "m b = Some nb"
    "inner_node nb kb (map adr tb) par" and l: "\<forall>t \<in> set (ta @ [c]). lives m (Some a) t" "\<forall>t \<in> set tb. lives m (Some b) t"
    and d: "distinct (a # b # concat (map nodes_of ((ta @ [c]) @ tb)))" using two by (rule two_nodesD)
  have num: "bn_num na = length ta" "length ta \<le> 3" "Suc (bn_num nb) = length tb"
    using inner_node_length [OF n(2)] inner_node_length [OF n(4)] by auto
  note ka = kids_prefix [OF n(2)] and kb = kids_prefix [OF n(4)]
  let ?cb = "Some (adr c) # take (Suc (bn_num nb)) (bn_child nb) @ drop (Suc (Suc (bn_num nb))) (bn_child nb)"
  let ?m0 = "m(b \<mapsto> nb\<lparr>bn_child := ?cb\<rparr>)"
  have "lives ?m0 (Some a) c" by (rule lives_frame [of m]) (use l d in auto)
  then obtain m1 where m1: "set_parent ?m0 (Some (adr c)) (Some b) = Some m1" "lives m1 (Some b) c" "\<forall>x. x \<noteq> adr c \<longrightarrow> m1 x = ?m0 x"
    using lives_reparent [of ?m0 "Some a" c "Some b"] d by auto
  have ac: "a \<noteq> adr c" "b \<noteq> adr c" using d adr_node [of c] by (auto simp del: adr_node)
  let ?na = "na\<lparr>bn_num := bn_num na - 1, bn_child := (bn_child na)[bn_num na := None]\<rparr>"
  let ?nb = "nb\<lparr>bn_child := ?cb, bn_num := Suc (bn_num nb)\<rparr>"
  let ?m = "m1(a \<mapsto> ?na, b \<mapsto> ?nb)"
  have "shift_up (bn_child nb) (bn_num nb + 1) =
      Some (take 1 (bn_child nb) @ take (Suc (bn_num nb)) (bn_child nb) @ drop (Suc (Suc (bn_num nb))) (bn_child nb))"
    using kb num len by (simp add: shift_up_def)
  moreover have "child_of na (bn_num na) = Some (Some (adr c))"
    using inner_child [OF n(2), of "length ta"] num by (simp add: nth_append)
  moreover have "aset (take 1 (bn_child nb) @ take (Suc (bn_num nb)) (bn_child nb) @ drop (Suc (Suc (bn_num nb))) (bn_child nb))
      0 (Some (adr c)) = Some ?cb"
    using kb by (cases "bn_child nb") auto
  ultimately have eq: "borrow_left_inner m b a P = do { m5 \<leftarrow> fix_keys ?m a; m6 \<leftarrow> fix_keys m5 b; fix_up m6 (Some P) }" for P
    using n m1(1,3) ac d ka num by (simp add: borrow_left_inner_def set_num_def set_child_def fun_upd_twist)
  have "take (length ta) (take (Suc (bn_num na)) (bn_child na)) = map Some (map adr ta)" using ka by simp
  then have "take (length ta) (bn_child na) = map Some (map adr ta)" using num by simp
  then have "inner_node ?na (nkeys ?na) (map adr ta) par"
    by (intro inner_nodeI [OF n(2), where k = "length ta - 1"]) (use ka num len n(2) in \<open>auto simp: inner_node_def simp del: wf_lengths\<close>)
  moreover have "inner_node ?nb (nkeys ?nb) (map adr (c # tb)) par"
    by (rule inner_nodeI [OF n(4), where k = "length tb"]) (use kb num len n(4) in \<open>auto simp: inner_node_def simp del: wf_lengths\<close>)
  moreover have "\<forall>t \<in> set ta. lives ?m (Some a) t"
    by (rule lives_apart [OF _ m1(3)]) (use l d in auto)
  moreover have "\<forall>t \<in> set tb. lives ?m (Some b) t"
    by (rule lives_apart [OF _ m1(3)]) (use l d in auto)
  moreover have "lives ?m (Some b) c" by (rule lives_frame [OF m1(2)]) (use d in auto)
  ultimately have "two_nodes ?m par a ta b (c # tb)" using d by (intro two_nodesI) auto
  moreover have "\<forall>x. x \<notin> set (a # b # nodes_of c) \<longrightarrow> ?m x = m x" by (rule out_apart [OF m1(3)]) simp
  ultimately show ?thesis using eq by blast
qed

lemma take_Suc_update: "i < length xs \<Longrightarrow> take (Suc i) (xs[i := x]) = take i xs @ [x]"
  by (simp add: take_Suc_conv_app_nth)

lemma borrow_right_ok:
  assumes two: "two_nodes m par a ta b (c # tb)" and len: "length ta \<le> 3" "tb \<noteq> []"
  shows "\<exists>m'. two_nodes m' par a (ta @ [c]) b tb \<and> (\<forall>x. x \<notin> set (a # b # nodes_of c) \<longrightarrow> m' x = m x)
    \<and> (\<forall>P. borrow_right_inner m a b P = do { m5 \<leftarrow> fix_keys m' a; m6 \<leftarrow> fix_keys m5 b; fix_up m6 (Some P) })"
proof -
  obtain na ka nb kb where n: "m a = Some na" "inner_node na ka (map adr ta) par" "m b = Some nb"
    "inner_node nb kb (map adr (c # tb)) par" and l: "\<forall>t \<in> set ta. lives m (Some a) t" "\<forall>t \<in> set (c # tb). lives m (Some b) t"
    and d: "distinct (a # b # concat (map nodes_of (ta @ (c # tb))))" using two by (rule two_nodesD)
  have num: "Suc (bn_num na) = length ta" "length tb \<le> 3" "bn_num nb = length tb"
    using inner_node_length [OF n(2)] inner_node_length [OF n(4)] by auto
  note ka = kids_prefix [OF n(2)] and kb = kids_prefix [OF n(4)]
  let ?ca = "(bn_child na)[Suc (bn_num na) := Some (adr c)]"
  let ?m0 = "m(a \<mapsto> na\<lparr>bn_child := ?ca\<rparr>)"
  have "lives ?m0 (Some b) c" by (rule lives_frame [of m]) (use l d in auto)
  then obtain m1 where m1: "set_parent ?m0 (Some (adr c)) (Some a) = Some m1" "lives m1 (Some a) c" "\<forall>x. x \<noteq> adr c \<longrightarrow> m1 x = ?m0 x"
    using lives_reparent [of ?m0 "Some b" c "Some a"] d by auto
  have ac: "a \<noteq> adr c" "b \<noteq> adr c" using d adr_node [of c] by (auto simp del: adr_node)
  obtain cs where cs: "shift_down (bn_child nb) 0 (bn_num nb) = Some cs"
    using shift_down_length [of "bn_num nb" "bn_child nb" 0] num kb by auto
  note sd = shift_down_without [OF _ _ cs]
  have tk: "take (length tb) cs = map Some (map adr tb)" "length cs = 4"
    using sd num kb by (simp_all add: without_def)
  let ?na = "na\<lparr>bn_child := ?ca, bn_num := Suc (bn_num na)\<rparr>"
  let ?nb = "nb\<lparr>bn_child := cs[bn_num nb := None], bn_num := bn_num nb - 1\<rparr>"
  let ?m = "m1(a \<mapsto> ?na, b \<mapsto> ?nb)"
  have "child_of nb 0 = Some (Some (adr c))" using inner_child [OF n(4), of 0] by simp
  then have eq: "borrow_right_inner m a b P = do { m5 \<leftarrow> fix_keys ?m a; m6 \<leftarrow> fix_keys m5 b; fix_up m6 (Some P) }" for P
    using n m1(1,3) ac d ka num cs tk(2) len by (simp add: borrow_right_inner_def set_num_def set_child_def)
  have "take (Suc (length ta)) ?ca = map Some (map adr (ta @ [c]))"
    using ka num len take_Suc_update [of "length ta" "bn_child na" "Some (adr c)"] by simp
  then have "inner_node ?na (nkeys ?na) (map adr (ta @ [c])) par"
    by (intro inner_nodeI [OF n(2), where k = "length ta"]) (use ka num len n(2) in \<open>auto simp: inner_node_def simp del: wf_lengths\<close>)
  moreover have "inner_node ?nb (nkeys ?nb) (map adr tb) par"
    by (rule inner_nodeI [OF n(4), where k = "length tb - 1"]) (use kb num len tk n(4) in \<open>auto simp: inner_node_def simp del: wf_lengths\<close>)
  moreover have "\<forall>t \<in> set ta. lives ?m (Some a) t"
    by (rule lives_apart [OF _ m1(3)]) (use l d in auto)
  moreover have "\<forall>t \<in> set tb. lives ?m (Some b) t"
    by (rule lives_apart [OF _ m1(3)]) (use l d in auto)
  moreover have "lives ?m (Some a) c" by (rule lives_frame [OF m1(2)]) (use d in auto)
  ultimately have "two_nodes ?m par a (ta @ [c]) b tb" using d by (intro two_nodesI) auto
  moreover have "\<forall>x. x \<notin> set (a # b # nodes_of c) \<longrightarrow> ?m x = m x" by (rule out_apart [OF m1(3)]) simp
  ultimately show ?thesis using eq by blast
qed

lemma move_children_ok:
  "\<forall>t \<in> set ts. lives m par t \<Longrightarrow> distinct (concat (map nodes_of ts)) \<Longrightarrow> p \<notin> set (concat (map nodes_of ts)) \<Longrightarrow>
     m p = Some n \<Longrightarrow> i + length ts \<le> length (bn_child n) \<Longrightarrow>
     \<exists>m'. move_children m p i (map (\<lambda>t. Some (adr t)) ts) = Some m' \<and> (\<forall>t \<in> set ts. lives m' (Some p) t)
       \<and> m' p = Some (n\<lparr>bn_child := take i (bn_child n) @ map (\<lambda>t. Some (adr t)) ts @ drop (i + length ts) (bn_child n)\<rparr>)
       \<and> (\<forall>a. a \<noteq> p \<and> a \<notin> adr ` set ts \<longrightarrow> m' a = m a)"
proof (induction ts arbitrary: m n i)
  case (Cons t ts)
  let ?n = "n\<lparr>bn_child := (bn_child n)[i := Some (adr t)]\<rparr>"
  have "lives (m(p \<mapsto> ?n)) par t" by (rule lives_frame [of m]) (use Cons.prems in auto)
  then obtain m1 where m1: "set_parent (m(p \<mapsto> ?n)) (Some (adr t)) (Some p) = Some m1" "lives m1 (Some p) t"
    "\<forall>a. a \<noteq> adr t \<longrightarrow> m1 a = (m(p \<mapsto> ?n)) a"
    using lives_reparent [of "m(p \<mapsto> ?n)" par t "Some p"] Cons.prems(2) by auto
  have ne: "adr t \<noteq> p" "adr t \<notin> set (concat (map nodes_of ts))"
    using Cons.prems(2,3) adr_node [of t] by (auto simp del: adr_node)
  have "\<forall>a \<in> set (concat (map nodes_of ts)). m1 a = (m(p \<mapsto> ?n)) a"
    by (rule frame_apart [OF m1(3)]) (use Cons.prems(2) in auto)
  then have "\<forall>u \<in> set ts. lives m1 par u"
    by (intro lives_all_frame [of ts m par m1]) (use Cons.prems in auto)
  moreover have "m1 p = Some ?n" using m1(3) ne(1) by simp
  ultimately obtain m2 where m2: "move_children m1 p (Suc i) (map (\<lambda>t. Some (adr t)) ts) = Some m2" "\<forall>t \<in> set ts. lives m2 (Some p) t"
    "m2 p = Some (?n\<lparr>bn_child := take (Suc i) (bn_child ?n) @ map (\<lambda>t. Some (adr t)) ts @ drop (Suc i + length ts) (bn_child ?n)\<rparr>)"
    "\<forall>a. a \<noteq> p \<and> a \<notin> adr ` set ts \<longrightarrow> m2 a = m1 a"
    using Cons.IH [of m1 ?n "Suc i"] Cons.prems by fastforce
  have "set (nodes_of t) \<inter> adr ` set ts = {}" using adr_nodes [of ts] Cons.prems(2) by auto
  then have "lives m2 (Some p) t" by (intro lives_frame [OF m1(2)]) (use m2(4) Cons.prems(3) in auto)
  moreover have "set_child m p i (Some (adr t)) = Some (m(p \<mapsto> ?n))" using Cons.prems(4,5) by (simp add: set_child_def)
  ultimately show ?case using m1 m2 Cons.prems(5) by (auto simp: take_Suc_update)
qed simp

lemma merge_inner_ok:
  assumes two: "two_nodes m par a ta b tb" and len: "length ta + length tb \<le> 4" and f: "\<forall>t \<in> set (ta @ tb). fat t"
  shows "\<exists>m'. merge_inner m a b = Some m' \<and> lives m' par (Br a (mins (ta @ tb)) (ta @ tb))
    \<and> (\<forall>x. x \<notin> set (a # concat (map nodes_of tb)) \<longrightarrow> m' x = m x)"
proof -
  obtain na ka nb kb where n: "m a = Some na" "inner_node na ka (map adr ta) par" "m b = Some nb"
    "inner_node nb kb (map adr tb) par" and l: "\<forall>t \<in> set ta. lives m (Some a) t" "\<forall>t \<in> set tb. lives m (Some b) t"
    and d: "distinct (a # b # concat (map nodes_of (ta @ tb)))" using two by (rule two_nodesD)
  have num: "Suc (bn_num na) = length ta" "Suc (bn_num nb) = length tb"
    using inner_node_length [OF n(2)] inner_node_length [OF n(4)] by auto
  note ka = kids_prefix [OF n(2)] and kb = kids_prefix [OF n(4)]
  obtain m1 where m1: "move_children m a (Suc (bn_num na)) (map (\<lambda>t. Some (adr t)) tb) = Some m1" "\<forall>t \<in> set tb. lives m1 (Some a) t"
    "m1 a = Some (na\<lparr>bn_child := take (length ta) (bn_child na) @ map (\<lambda>t. Some (adr t)) tb @ drop (length ta + length tb) (bn_child na)\<rparr>)"
    "\<forall>x. x \<noteq> a \<and> x \<notin> adr ` set tb \<longrightarrow> m1 x = m x"
    using move_children_ok [OF l(2) _ _ n(1), of "length ta"] d len ka num by auto
  let ?na = "na\<lparr>bn_child := take (length ta) (bn_child na) @ map (\<lambda>t. Some (adr t)) tb @ drop (length ta + length tb) (bn_child na),
      bn_num := Suc (bn_num na + bn_num nb)\<rparr>"
  let ?m = "m1(a \<mapsto> ?na)"
  have sn: "set_num m1 a (Suc (bn_num na + bn_num nb)) = Some ?m" using m1(3) by (simp add: set_num_def)
  have "inner_node ?na (nkeys ?na) (map adr (ta @ tb)) par"
    by (rule inner_nodeI [OF n(2), where k = "length ta + length tb - 1"])
      (use ka num len n(2) in \<open>auto simp: inner_node_def comp_def simp del: wf_lengths\<close>)
  moreover have "lives ?m (Some a) t" if t: "t \<in> set ta" for t
  proof (rule lives_frame [of m])
    show "lives m (Some a) t" using l t by blast
    show "\<forall>x \<in> set (nodes_of t). ?m x = m x" using m1(4) adr_nodes [of tb] d t by auto blast
  qed
  moreover have "\<forall>t \<in> set tb. lives ?m (Some a) t" by (rule lives_all_frame [OF m1(2)]) (use d in auto)
  ultimately have la: "lives ?m par (Br a (nkeys ?na) (ta @ tb))" by auto
  then have "\<forall>t \<in> set (ta @ tb). ne t" using fat_ne_all [OF f] by (simp only: lives.simps) blast
  then obtain m2 where m2: "fix_keys ?m a = Some m2" "\<forall>x. x \<noteq> a \<longrightarrow> m2 x = ?m x" "lives m2 par (Br a (mins (ta @ tb)) (ta @ tb))"
    using fix_keys_ok [OF la] d by auto
  have "map Some (map adr tb) = map (\<lambda>t. Some (adr t)) tb" by simp
  then have "merge_inner m a b = Some m2" using n(1,3) kb m1(1) sn m2(1) by (simp add: merge_inner_def comp_def)
  moreover have "\<forall>x. x \<notin> set (a # concat (map nodes_of tb)) \<longrightarrow> m2 x = m x"
  proof (intro allI impI)
    fix x assume x: "x \<notin> set (a # concat (map nodes_of tb))"
    have "x \<notin> adr ` set tb" using x adr_nodes [of tb] by (simp del: set_concat) blast
    then show "m2 x = m x" using m2(2) m1(4) x by simp
  qed
  ultimately show ?thesis using m2(3) by blast
qed

section \<open>Two neighbours under a common parent\<close>

abbreviation scope :: "btree \<Rightarrow> frame list \<Rightarrow> nat set" where
  "scope t fs \<equiv> set (nodes_of t @ cnodes fs)"

abbreviation settled :: "nat \<Rightarrow> bpt \<Rightarrow> btree \<Rightarrow> frame list \<Rightarrow> bpt \<Rightarrow> bool" where
  "settled r s t fs s' \<equiv> rebuilt (scope t fs) r (lcont fs @ content t @ rcont fs) s s'"

abbreviation good :: "btree \<Rightarrow> bool" where
  "good t \<equiv> fat t \<and> sep_ok t"

text \<open>The neighbours \<open>x\<close>, \<open>y\<close> below \<open>P\<close> shared their contents anew, or \<open>x\<close> took over everything.\<close>

definition shared :: "bpt \<Rightarrow> nat \<Rightarrow> btree \<Rightarrow> btree \<Rightarrow> nodes \<Rightarrow> btree \<Rightarrow> btree \<Rightarrow> bool" where
  "shared s P x y m x' y' \<longleftrightarrow> lives m (Some P) x' \<and> lives m (Some P) y'
     \<and> (\<forall>a. a \<notin> set (nodes_of x @ nodes_of y) \<longrightarrow> m a = bp_nd s a) \<and> adr x' = adr x \<and> adr y' = adr y
     \<and> content x' @ content y' = content x @ content y \<and> mset (nodes_of x' @ nodes_of y') = mset (nodes_of x @ nodes_of y)
     \<and> (\<forall>h. level h x \<and> level h y \<longrightarrow> level h x' \<and> level h y') \<and> good x' \<and> good y'"

definition merged :: "bpt \<Rightarrow> nat \<Rightarrow> btree \<Rightarrow> btree \<Rightarrow> nodes \<Rightarrow> btree \<Rightarrow> bool" where
  "merged s P x y m u \<longleftrightarrow> lives m (Some P) u \<and> (\<forall>a. a \<notin> set (nodes_of x @ nodes_of y) \<longrightarrow> m a = bp_nd s a)
     \<and> adr u = adr x \<and> content u = content x @ content y \<and> mset (adr y # nodes_of u) = mset (nodes_of x @ nodes_of y)
     \<and> (\<forall>h. level h x \<and> level h y \<longrightarrow> level h u) \<and> good u"

lemma spotD:
  assumes "spot s t fs"
  shows "lives (bp_nd s) (up fs) t" "distinct (nodes_of t)" "distinct (nodes_of t @ cnodes fs)"
    "scope t fs \<subseteq> owned (bp_heap s)" "heap_inv (bp_heap s)"
    "sorted_wrt (<) (map fst (lcont fs @ content t @ rcont fs))" "\<forall>f \<in> set fs. frame_ok f"
  using assms unfolding spot_def distinct_append by blast+

lemma kids_stay:
  assumes l: "lives m par (Br P K (ls @ x # y # rs))" and d: "distinct (nodes_of (Br P K (ls @ x # y # rs)))"
    and out: "\<forall>a. a \<notin> set (P # nodes_of x @ nodes_of y) \<longrightarrow> m' a = m a"
  shows "\<forall>t \<in> set (ls @ rs). lives m' (Some P) t"
proof (rule lives_all_frame [of _ m])
  show "\<forall>t \<in> set (ls @ rs). lives m (Some P) t" using l by auto
  have "set (concat (map nodes_of (ls @ rs))) \<inter> set (P # nodes_of x @ nodes_of y) = {}" using d by auto
  then show "\<forall>a \<in> set (concat (map nodes_of (ls @ rs))). m' a = m a" using out by blast
qed

lemma spot_pair:
  assumes sp: "spot s (Br P K (ls @ x # y # rs)) fs" and sh: "shared s P x y m' x' y'"
  shows "spot (s\<lparr>bp_nd := m'\<rparr>) (Br P K (ls @ x' # y' # rs)) fs"
proof (rule spot_change [OF sp])
  have out: "\<forall>a. a \<notin> set (nodes_of x @ nodes_of y) \<longrightarrow> m' a = bp_nd s a" using sh unfolding shared_def by blast
  note d = spotD(2) [OF sp] and lp = spotD(1) [OF sp]
  have m: "mset (nodes_of (Br P K (ls @ x' # y' # rs))) = mset (nodes_of (Br P K (ls @ x # y # rs)))"
    using sh by (simp add: shared_def)
  show "distinct (nodes_of (Br P K (ls @ x' # y' # rs)))" using mset_eq_imp_distinct_iff [OF m] d by blast
  show "set (nodes_of (Br P K (ls @ x' # y' # rs))) \<subseteq> set (nodes_of (Br P K (ls @ x # y # rs)))"
    using mset_eq_setD [OF m] by blast
  have "m' P = bp_nd s P" using out d by auto
  moreover have "\<forall>t \<in> set (ls @ rs). lives m' (Some P) t" by (rule kids_stay [OF lp d]) (use out in simp)
  ultimately show "lives m' (up fs) (Br P K (ls @ x' # y' # rs))" using lp sh by (auto simp: ball_Un shared_def)
  show "\<forall>a. a \<notin> set (nodes_of (Br P K (ls @ x # y # rs))) \<longrightarrow> m' a = bp_nd s a" using out by auto
  show "\<forall>h. level h (Br P K (ls @ x # y # rs)) \<longrightarrow> level h (Br P K (ls @ x' # y' # rs))"
    using sh by (auto simp: shared_def split: nat.splits)
  have "content (Br P K (ls @ x' # y' # rs)) = content (Br P K (ls @ x # y # rs))" using sh by (simp add: shared_def)
  then show "sorted_wrt (<) (map fst (lcont fs @ content (Br P K (ls @ x' # y' # rs)) @ rcont fs))"
    using spotD(6) [OF sp] by (simp only:)
qed simp

lemma pair_done:
  assumes sp: "spot s (Br P K (ls @ x # y # rs)) fs" and sh: "shared s P x y m' x' y'" and ok: "\<forall>t \<in> set ls \<union> set rs. good t"
    and r: "adr (plug (Br P K (ls @ x # y # rs)) fs) = r"
  shows "\<exists>m. fix_up m' (Some P) = Some m \<and> settled r s (Br P K (ls @ x # y # rs)) fs (s\<lparr>bp_nd := m\<rparr>)"
proof -
  let ?t = "Br P K (ls @ x # y # rs)" and ?u = "Br P K (ls @ x' # y' # rs)"
  have "\<forall>t \<in> set (ls @ x' # y' # rs). good t" using sh ok by (auto simp: shared_def)
  then obtain m where m: "fix_up m' (Some P) = Some m" "settled (adr (plug ?u fs)) (s\<lparr>bp_nd := m'\<rparr>) ?u fs (s\<lparr>bp_nd := m\<rparr>)"
    using spot_fix_up [OF spot_pair [OF sp sh]] by auto
  have "mset (nodes_of ?u) = mset (nodes_of ?t)" using sh by (simp add: shared_def)
  then have sc: "scope ?u fs = scope ?t fs" by (metis mset_eq_setD set_append)
  have "keeps (scope ?t fs) s (s\<lparr>bp_nd := m'\<rparr>)" using spotD(5) [OF sp] sh by (auto simp: keeps_def shared_def)
  then have "rebuilt (scope ?t fs) (adr (plug ?u fs)) (lcont fs @ content ?u @ rcont fs) s (s\<lparr>bp_nd := m\<rparr>)"
    by (rule keeps_rebuilt [OF _ m(2)]) (simp only: sc order_refl)
  moreover have "content ?u = content ?t" using sh by (simp add: shared_def)
  moreover have "adr (plug ?u fs) = r" using r by (simp add: adr_plug split: if_splits)
  ultimately show ?thesis using m(1) by metis
qed

lemma pair_merged:
  assumes sp: "spot s (Br P K (ls @ x # y # rs)) fs" and mg: "merged s P x y m' x'"
  shows "\<exists>m2 s' K'. drop_child m' P (Suc (length ls)) = Some m2 \<and> free_node (s\<lparr>bp_nd := m2\<rparr>) (adr y) = Some s'
    \<and> spot s' (Br P K' (ls @ x' # rs)) fs \<and> keeps (set (nodes_of (Br P K (ls @ x # y # rs)))) s s'"
proof -
  let ?t = "Br P K (ls @ x # y # rs)"
  note d = spotD(3) [OF sp] and lp = spotD(1) [OF sp]
  have out: "\<forall>a. a \<notin> set (nodes_of x @ nodes_of y) \<longrightarrow> m' a = bp_nd s a" and l: "lives m' (Some P) x'"
    using mg unfolding merged_def by blast+
  have P: "m' P = bp_nd s P" using out d by auto
  obtain n where n: "bp_nd s P = Some n" "inner_node n K (map adr (ls @ x # y # rs)) (up fs)" using lp by auto
  have "without (Suc (length ls)) (map adr (ls @ x # y # rs)) = map adr (ls @ x # rs)" by (simp add: without_def)
  then obtain n' K' where n': "drop_child m' P (Suc (length ls)) = Some (m'(P \<mapsto> n'))" "inner_node n' K' (map adr (ls @ x # rs)) (up fs)"
    using drop_child_ok [of m' P n, OF _ n(2), of "Suc (length ls)"] n(1) P by auto
  let ?m = "m'(P \<mapsto> n')" and ?u = "Br P K' (ls @ x' # rs)"
  have m: "mset (adr y # nodes_of ?u) = mset (nodes_of ?t)" using mg by (simp add: merged_def)
  have du: "distinct (adr y # nodes_of ?u)" using mset_eq_imp_distinct_iff [OF m] spotD(2) [OF sp] by blast
  have su: "set (adr y # nodes_of ?u) = set (nodes_of ?t)" by (rule mset_eq_setD [OF m])
  have "\<forall>t \<in> set (ls @ rs). lives ?m (Some P) t" by (rule kids_stay [OF lp spotD(2) [OF sp]]) (use out in simp)
  moreover have "lives ?m (Some P) x'" by (rule lives_frame [OF l]) (use du in auto)
  ultimately have "lives ?m (up fs) ?u" using n'(2) mg by (auto simp: ball_Un merged_def)
  moreover have fr: "\<forall>a. a \<notin> set (nodes_of ?t) \<longrightarrow> ?m a = bp_nd s a" using out by auto
  ultimately have sp': "spot (s\<lparr>bp_nd := ?m\<rparr>) ?u fs"
  proof (rule spot_change [OF sp])
    show "distinct (nodes_of ?u)" using du by simp
    show "set (nodes_of ?u) \<subseteq> set (nodes_of ?t)" using su by auto
    show "\<forall>h. level h ?t \<longrightarrow> level h ?u" using mg by (auto simp: merged_def split: nat.splits)
    have "content ?u = content ?t" using mg by (simp add: merged_def)
    then show "sorted_wrt (<) (map fst (lcont fs @ content ?u @ rcont fs))" using spotD(6) [OF sp] by (simp only:)
  qed simp
  have y: "adr y \<in> set (nodes_of ?t)" using su by auto
  then have "adr y \<in> owned (bp_heap s)" "adr y \<notin> set (nodes_of ?u @ cnodes fs)"
    using spotD(4) [OF sp] d du by (auto simp del: adr_node)
  then obtain s' where s': "free_node (s\<lparr>bp_nd := ?m\<rparr>) (adr y) = Some s'" "spot s' ?u fs" "keeps {adr y} (s\<lparr>bp_nd := ?m\<rparr>) s'"
    using spot_free [OF sp', of "adr y"] by auto
  have "keeps (set (nodes_of ?t)) s (s\<lparr>bp_nd := ?m\<rparr>)" using fr spotD(5) [OF sp] by (simp only: keeps_def) simp
  then have "keeps (set (nodes_of ?t)) s s'" by (rule keeps_trans [OF _ s'(3)]) (use y in blast)
  then show ?thesis using n'(1) s'(1,2) by blast
qed

section \<open>The root\<close>

lemma content_sorted: "sorted_wrt (<) (map fst (lcont fs @ content t @ rcont fs)) \<Longrightarrow> sorted_wrt (<) (map fst (content t))"
  by (simp add: sorted_wrt_append)

text \<open>A root with several children.\<close>

lemma root_keys_ok:
  assumes sp: "spot s (Br p ks ts) []" and ok: "\<forall>t \<in> set ts. good t" and two: "2 \<le> length ts"
  shows "\<exists>m. fix_keys (bp_nd s) p = Some m \<and> rebuilt (scope (Br p ks ts) []) p (content (Br p ks ts)) s (s\<lparr>bp_nd := m\<rparr>)"
proof -
  note l = spotD(1) [OF sp] and d = spotD(2) [OF sp]
  obtain m where m: "fix_up (bp_nd s) (Some p) = Some m" "rebuilt (scope (Br p ks ts) []) p (content (Br p ks ts)) s (s\<lparr>bp_nd := m\<rparr>)"
    using spot_fix_up [OF sp ok two] by auto
  have "\<forall>t \<in> set ts. ne t" using fat_ne_all [of ts "bp_nd s" "Some p"] ok l by auto
  then obtain m' where m': "fix_keys (bp_nd s) p = Some m'" "lives m' None (Br p (mins ts) ts)"
    using fix_keys_ok [OF l] d by auto
  have "fix_up (bp_nd s) (Some p) = Some m'"
    using l m' by (subst fix_up.simps) (auto simp: inner_node_def)
  then show ?thesis using m m' by simp
qed

text \<open>A root with one child: the child's contents move into the root's block, and the child's block is freed.\<close>

fun readdressed :: "nat \<Rightarrow> btree \<Rightarrow> btree" where
  "readdressed q (Lf p its) = Lf q its"
| "readdressed q (Br p ks ts) = Br q ks ts"

lemma readdressed_simps [simp]:
  "adr (readdressed q t) = q" "content (readdressed q t) = content t" "level h (readdressed q t) = level h t"
  "sep_ok (readdressed q t) = sep_ok t" "fat (readdressed q t) = fat t"
  by (cases t; simp)+

lemma fat_root: "fat t \<Longrightarrow> root_fat t"
  by (cases t) simp_all

lemma readdressed_nodes: "mset (adr t # nodes_of (readdressed q t)) = mset (q # nodes_of t)"
  by (cases t) simp_all

lemma collapse_root_ok:
  assumes sp: "spot s (Br r ks [t]) []" and ok: "fat t" "sep_ok t"
  shows "\<exists>s'. collapse_root s r = Some s' \<and> rebuilt (scope (Br r ks [t]) []) r (content t) s s'"
proof -
  note l = spotD(1) [OF sp] and d = spotD(2) [OF sp]
  obtain n where n: "bp_nd s r = Some n" "inner_node n ks [adr t] None" using l by auto
  have lt: "lives (bp_nd s) (Some r) t" and rt: "r \<notin> set (nodes_of t)" and dt: "distinct (nodes_of t)" using l d by simp_all
  obtain cn where cn: "bp_nd s (adr t) = Some cn" using lives_adr [OF lt] by blast
  let ?m = "(bp_nd s)(r \<mapsto> cn\<lparr>bn_parent := None\<rparr>)"
  let ?t = "readdressed r t"
  obtain m where m: "(if bn_leaf cn then Some ?m
      else do { cs \<leftarrow> aprefix (bn_child cn) (bn_num cn + 1); set_parents ?m cs (Some r) }) = Some m"
    "lives m None ?t" "\<forall>a. a \<notin> set (nodes_of (Br r ks [t])) \<longrightarrow> m a = bp_nd s a"
  proof (cases t)
    case (Lf p its)
    then show ?thesis using lt cn that [of ?m] by (auto simp: leaf_node_def)
  next
    case (Br p kc us)
    have x: "inner_node cn kc (map adr us) (Some r)" and lu: "\<forall>u \<in> set us. lives (bp_nd s) (Some p) u"
      using lt cn Br by auto
    have "\<forall>u \<in> set us. lives ?m (Some p) u" by (rule lives_all_frame [OF lu]) (use rt Br in auto)
    then obtain m where m: "set_parents ?m (map (\<lambda>t. Some (adr t)) us) (Some r) = Some m" "\<forall>u \<in> set us. lives m (Some r) u"
      "\<forall>a. a \<notin> adr ` set us \<longrightarrow> m a = ?m a" using set_parents_ok [of us ?m "Some p" "Some r"] dt Br by auto
    have sub: "adr ` set us \<subseteq> set (nodes_of t)" using adr_nodes [of us] Br by auto
    then have "r \<notin> adr ` set us" using rt by blast
    then have "m r = Some (cn\<lparr>bn_parent := None\<rparr>)" using m(3) by simp
    moreover have "inner_node (cn\<lparr>bn_parent := None\<rparr>) kc (map adr us) None" using x by (simp add: inner_node_def)
    ultimately have "lives m None ?t" using m(2) Br by auto
    moreover have "\<forall>a. a \<notin> set (nodes_of (Br r ks [t])) \<longrightarrow> m a = bp_nd s a"
    proof (intro allI impI)
      fix a assume a: "a \<notin> set (nodes_of (Br r ks [t]))"
      then have "a \<notin> adr ` set us" using sub by auto
      then show "m a = bp_nd s a" using m(3) a by simp
    qed
    moreover have "\<not> bn_leaf cn" using x by (simp add: inner_node_def)
    ultimately show ?thesis using that [of m] m(1) kids_prefix [OF x] by (simp add: comp_def)
  qed
  have at: "adr t \<in> owned (bp_heap s)" using spotD(4) [OF sp] adr_node [of t] by (auto simp del: adr_node)
  obtain h where h: "free_node (s\<lparr>bp_nd := m\<rparr>) (adr t) = Some (s\<lparr>bp_heap := h, bp_nd := m(adr t := None)\<rparr>)" "heap_inv h"
    "owned h = owned (bp_heap s) - {adr t}"
    using free_node_ok [of "s\<lparr>bp_nd := m\<rparr>" "adr t"] at spotD(5) [OF sp] by auto
  have ms: "mset (adr t # nodes_of ?t) = mset (nodes_of (Br r ks [t]))" using readdressed_nodes [of t r] by simp
  have du: "distinct (adr t # nodes_of ?t)" using mset_eq_imp_distinct_iff [OF ms] d by blast
  have su: "set (adr t # nodes_of ?t) = set (nodes_of (Br r ks [t]))" by (rule mset_eq_setD [OF ms])
  have "lives (m(adr t := None)) None ?t" by (rule lives_frame [OF m(2)]) (use du in auto)
  moreover have "\<exists>h. level h ?t" using sp by (auto simp: spot_def split: nat.splits)
  moreover have "sorted_wrt (<) (map fst (content ?t))" using content_sorted [OF spotD(6) [OF sp]] by simp
  ultimately have tree: "tree_at (m(adr t := None)) ?t" using du ok fat_root [of ?t] by (simp add: tree_at_def)
  have "child_of n 0 = Some (Some (adr t))" using inner_child [OF n(2), of 0] by simp
  then have "collapse_root s r = Some (s\<lparr>bp_heap := h, bp_nd := m(adr t := None)\<rparr>)"
    using n(1) cn m(1) h(1) by (simp add: collapse_root_def Let_def)
  moreover have "keeps (scope (Br r ks [t]) []) s (s\<lparr>bp_heap := h, bp_nd := m(adr t := None)\<rparr>)"
    using h(2,3) m(3) su unfolding keeps_def by auto
  moreover have "set (nodes_of ?t) \<subseteq> scope (Br r ks [t]) [] \<inter> owned h" using su du h(3) spotD(4) [OF sp] by auto
  ultimately show ?thesis using tree by (auto simp: rebuilt_def intro!: exI [of _ ?t])
qed

end
