(* ===== verification/BPT_Delete.thy ===== *)
theory BPT_Delete
  imports BPT_Repair
begin

text \<open>
  \<open>bpt_delete\<close> removes one entry of the finite map. The proof follows the code upwards: a node that lost a
  key is the hole of a context (\<open>spot\<close>); it is refilled from a sibling or merged with one, the merge takes a
  child from the parent, and \<open>balance_inner\<close> goes on there until the separators of the remaining ancestors
  are recomputed or the root takes over its only child.
\<close>

section \<open>Choosing a sibling\<close>

text \<open>What the code reads before it decides: the position of the node, its siblings and their sizes.\<close>

lemma hole_facts:
  assumes sp: "spot s t ((P, K, ls, rs) # fs)"
  shows "\<exists>pn. bp_nd s P = Some pn \<and> child_idx pn (adr t) = Some (Some (length ls))
      \<and> siblings pn (length ls) = Some (if ls = [] then None else Some (adr (last ls)), if rs = [] then None else Some (adr (hd rs)))"
    "adr (plug t ((P, K, ls, rs) # fs)) \<noteq> adr t"
    "\<forall>u \<in> set ls \<union> set rs. lives (bp_nd s) (Some P) u \<and> good u \<and> (\<exists>h. level h t \<and> level h u)"
    "ls \<noteq> [] \<or> rs \<noteq> []"
proof -
  have c: "ctx (bp_nd s) (adr t) ((P, K, ls, rs) # fs)" and h: "\<exists>h. level h t \<and> clevel h ((P, K, ls, rs) # fs)"
    and fr: "frame_ok (P, K, ls, rs)" using sp by (auto simp: spot_def)
  note d = spotD(3) [OF sp]
  obtain pn where pn: "bp_nd s P = Some pn" "inner_node pn K (map adr ls @ adr t # map adr rs) (up fs)" using c by auto
  have "set (nodes_of t) \<inter> set (concat (map nodes_of ls)) = {}" using d by auto
  then have "adr t \<notin> adr ` set ls" using adr_nodes [of ls] adr_node [of t] by blast
  then have "child_idx pn (adr t) = Some (Some (length ls))" using child_idx_ok [OF pn(2)] by simp
  then show "\<exists>pn. bp_nd s P = Some pn \<and> child_idx pn (adr t) = Some (Some (length ls))
      \<and> siblings pn (length ls) = Some (if ls = [] then None else Some (adr (last ls)), if rs = [] then None else Some (adr (hd rs)))"
    using pn siblings_ok [OF pn(2)] by simp
  have "fst (last ((P, K, ls, rs) # fs)) \<in> set (cnodes ((P, K, ls, rs) # fs))"
    by (rule subsetD [OF fst_cnodes imageI [OF last_in_set]]) simp
  then have "adr (plug t ((P, K, ls, rs) # fs)) \<in> set (cnodes ((P, K, ls, rs) # fs))" unfolding adr_plug by simp
  moreover have "adr t \<notin> set (cnodes ((P, K, ls, rs) # fs))" using d adr_node [of t] unfolding distinct_append by blast
  ultimately show "adr (plug t ((P, K, ls, rs) # fs)) \<noteq> adr t" by metis
  show "\<forall>u \<in> set ls \<union> set rs. lives (bp_nd s) (Some P) u \<and> good u \<and> (\<exists>h. level h t \<and> level h u)"
    using c fr h by auto
  show "ls \<noteq> [] \<or> rs \<noteq> []" using fr by auto
qed

fun size_of :: "btree \<Rightarrow> nat" where
  "size_of (Lf p its) = length its"
| "size_of (Br p ks ts) = length ks"

lemma lives_size: "lives m par t \<Longrightarrow> \<exists>n. m (adr t) = Some n \<and> bn_num n = size_of t \<and> bn_parent n = par"
  using leaf_node_length inner_node_length by (cases t) (fastforce simp: leaf_node_def inner_node_def)+

lemma more_than_ok: "lives m par u \<Longrightarrow> more_than m (Some (adr u)) k = Some (k < size_of u)"
  using lives_size by (fastforce simp: more_than_def)

lemma same_level_inner: "level h (Br p ks ts) \<Longrightarrow> level h u \<Longrightarrow> \<exists>q kq uq. u = Br q kq uq"
  by (cases h; cases u) auto

lemma lives_length: "lives m par (Br p ks ts) \<Longrightarrow> length ts = Suc (length ks)"
  using inner_node_length by fastforce

lemma settled_up: "settled r s t ((P, K, ls, rs) # fs) s' = settled r s (Br P K (ls @ t # rs)) fs s'"
proof -
  have "scope t ((P, K, ls, rs) # fs) = scope (Br P K (ls @ t # rs)) fs" by auto
  moreover have "lcont ((P, K, ls, rs) # fs) @ content t @ rcont ((P, K, ls, rs) # fs)
      = lcont fs @ content (Br P K (ls @ t # rs)) @ rcont fs" by simp
  ultimately show ?thesis by simp
qed

lemma settled_merged:
  assumes k: "keeps (set (nodes_of (Br P K (ls @ x # y # rs)))) s s'" and st: "settled r s' (Br P K' (ls @ x' # rs)) fs s''"
    and eq: "set (nodes_of x') \<subseteq> set (nodes_of x) \<union> set (nodes_of y)" "content x' = content x @ content y"
  shows "settled r s (Br P K (ls @ x # y # rs)) fs s''"
proof -
  have "keeps (scope (Br P K (ls @ x # y # rs)) fs) s s'" using k by (auto simp: keeps_def)
  moreover have "scope (Br P K' (ls @ x' # rs)) fs \<subseteq> scope (Br P K (ls @ x # y # rs)) fs" using eq(1) by auto
  moreover have "content (Br P K' (ls @ x' # rs)) = content (Br P K (ls @ x # y # rs))" using eq(2) by simp
  ultimately show ?thesis using keeps_rebuilt [OF _ st] by simp
qed

text \<open>
  The choice that \<^verbatim>\<open>balance_leaf\<close> and \<^verbatim>\<open>balance_inner\<close> make in the same way: borrow from a rich left sibling,
  from a rich right one, or merge with one of them and go on at the parent.
\<close>

definition rebalance :: "nat \<Rightarrow> (nodes \<Rightarrow> nat \<Rightarrow> nat \<Rightarrow> nat \<Rightarrow> nodes option) \<Rightarrow> (nodes \<Rightarrow> nat \<Rightarrow> nat \<Rightarrow> nat \<Rightarrow> nodes option) \<Rightarrow>
    (nodes \<Rightarrow> nat \<Rightarrow> nat \<Rightarrow> nodes option) \<Rightarrow> bpt \<Rightarrow> nat \<Rightarrow> nat \<Rightarrow> nat \<Rightarrow> nat \<Rightarrow> nat option \<Rightarrow> nat option \<Rightarrow> bpt option" where
  "rebalance k bl br mg s root node parent idx left right = do {
     lrich \<leftarrow> more_than (bp_nd s) left k;
     rrich \<leftarrow> more_than (bp_nd s) right k;
     (case (left, right) of
        (Some l, _) \<Rightarrow>
          if lrich then do { m \<leftarrow> bl (bp_nd s) node l parent; Some (s\<lparr>bp_nd := m\<rparr>) }
          else if rrich then do { m \<leftarrow> br (bp_nd s) node (the right) parent; Some (s\<lparr>bp_nd := m\<rparr>) }
          else do {
            m1 \<leftarrow> mg (bp_nd s) l node; m2 \<leftarrow> drop_child m1 parent idx;
            s' \<leftarrow> free_node (s\<lparr>bp_nd := m2\<rparr>) node; balance_inner s' root parent }
      | (None, Some q) \<Rightarrow>
          if rrich then do { m \<leftarrow> br (bp_nd s) node q parent; Some (s\<lparr>bp_nd := m\<rparr>) }
          else do {
            m1 \<leftarrow> mg (bp_nd s) node q; m2 \<leftarrow> drop_child m1 parent (idx + 1);
            s' \<leftarrow> free_node (s\<lparr>bp_nd := m2\<rparr>) q; balance_inner s' root parent }
      | (None, None) \<Rightarrow> Some s) }"

lemma merged_settled:
  assumes sp: "spot s (Br P K (ls @ x # y # rs)) fs" and mg: "merged s P x y m' u" and ok: "\<forall>t \<in> set ls \<union> set rs. good t"
    and go: "\<And>s' K' ts. spot s' (Br P K' ts) fs \<Longrightarrow> \<forall>t \<in> set ts. good t \<Longrightarrow>
      \<exists>s''. balance_inner s' r P = Some s'' \<and> settled r s' (Br P K' ts) fs s''"
  shows "\<exists>m2 s' s''. drop_child m' P (Suc (length ls)) = Some m2 \<and> free_node (s\<lparr>bp_nd := m2\<rparr>) (adr y) = Some s'
    \<and> balance_inner s' r P = Some s'' \<and> settled r s (Br P K (ls @ x # y # rs)) fs s''"
proof -
  obtain m2 s' K' where m: "drop_child m' P (Suc (length ls)) = Some m2" "free_node (s\<lparr>bp_nd := m2\<rparr>) (adr y) = Some s'"
    "spot s' (Br P K' (ls @ u # rs)) fs" "keeps (set (nodes_of (Br P K (ls @ x # y # rs)))) s s'"
    using pair_merged [OF sp mg] by blast
  have "\<forall>t \<in> set (ls @ u # rs). good t" using ok mg by (auto simp: merged_def)
  then obtain s'' where s'': "balance_inner s' r P = Some s''" "settled r s' (Br P K' (ls @ u # rs)) fs s''"
    using go [OF m(3)] by blast
  have "set (adr y # nodes_of u) = set (nodes_of x @ nodes_of y)" using mg unfolding merged_def by (metis mset_eq_setD)
  then have "settled r s (Br P K (ls @ x # y # rs)) fs s''"
    using settled_merged [OF m(4) s''(2)] mg by (auto simp: merged_def)
  then show ?thesis using m(1,2) s''(1) by blast
qed

lemma rebalance_ok:
  assumes sp: "spot s t ((P, K, ls, rs) # fs)" and r: "adr (plug t ((P, K, ls, rs) # fs)) = r"
    and left: "\<And>ls' L. ls = ls' @ [L] \<Longrightarrow> k < size_of L \<Longrightarrow> \<exists>m' x y. bl (bp_nd s) (adr t) (adr L) P = fix_up m' (Some P) \<and> shared s P L t m' x y"
    and right: "\<And>R rs'. rs = R # rs' \<Longrightarrow> k < size_of R \<Longrightarrow> \<exists>m' x y. br (bp_nd s) (adr t) (adr R) P = fix_up m' (Some P) \<and> shared s P t R m' x y"
    and mleft: "\<And>ls' L. ls = ls' @ [L] \<Longrightarrow> size_of L \<le> k \<Longrightarrow> \<exists>m' u. mg (bp_nd s) (adr L) (adr t) = Some m' \<and> merged s P L t m' u"
    and mright: "\<And>R rs'. rs = R # rs' \<Longrightarrow> size_of R \<le> k \<Longrightarrow> \<exists>m' u. mg (bp_nd s) (adr t) (adr R) = Some m' \<and> merged s P t R m' u"
    and go: "\<And>s' K' ts. spot s' (Br P K' ts) fs \<Longrightarrow> \<forall>t \<in> set ts. good t \<Longrightarrow>
      \<exists>s''. balance_inner s' r P = Some s'' \<and> settled r s' (Br P K' ts) fs s''"
  shows "\<exists>s'. rebalance k bl br mg s r (adr t) P (length ls) (if ls = [] then None else Some (adr (last ls)))
      (if rs = [] then None else Some (adr (hd rs))) = Some s' \<and> settled r s t ((P, K, ls, rs) # fs) s'"
proof -
  note hf = hole_facts [OF sp] and up = spot_up [OF sp]
  have r': "adr (plug (Br P K (ls @ t # rs)) fs) = r" using r by simp
  have mt: "more_than (bp_nd s) (Some (adr u)) k = Some (k < size_of u)" if "u \<in> set ls \<union> set rs" for u
    using bspec [OF hf(3) that] more_than_ok by blast
  have mN [simp]: "more_than (bp_nd s) None k = Some False" by (simp add: more_than_def)
  have kids: "\<forall>t \<in> set ls \<union> set rs. good t" using hf(3) by blast
  have R: "\<exists>m. br (bp_nd s) (adr t) (adr R) P = Some m \<and> settled r s (Br P K (ls @ t # rs)) fs (s\<lparr>bp_nd := m\<rparr>)"
    if rs: "rs = R # rs'" "k < size_of R" for R rs'
  proof -
    obtain m' x y where m: "br (bp_nd s) (adr t) (adr R) P = fix_up m' (Some P)" "shared s P t R m' x y" using right [OF rs] by blast
    show ?thesis using pair_done [OF up [unfolded rs(1)] m(2) _ r' [unfolded rs(1)]] kids m(1) rs(1) by auto
  qed
  show ?thesis unfolding settled_up
  proof (cases ls rule: rev_cases)
    case Nil
    then obtain R rs' where rs: "rs = R # rs'" using hf(4) by (cases rs) auto
    show "\<exists>s'. rebalance k bl br mg s r (adr t) P (length ls) (if ls = [] then None else Some (adr (last ls)))
      (if rs = [] then None else Some (adr (hd rs))) = Some s' \<and> settled r s (Br P K (ls @ t # rs)) fs s'"
    proof (cases "k < size_of R")
      case True
      then show ?thesis using R [OF rs True] mt [of R] rs Nil by (auto simp: rebalance_def)
    next
      case False
      then obtain m' u where m: "mg (bp_nd s) (adr t) (adr R) = Some m'" "merged s P t R m' u" using mright [OF rs] by auto
      have g: "\<forall>t \<in> set ls \<union> set rs'. good t" using kids rs by auto
      obtain m2 s1 s2 where c: "drop_child m' P (Suc (length ls)) = Some m2" "free_node (s\<lparr>bp_nd := m2\<rparr>) (adr R) = Some s1"
        "balance_inner s1 r P = Some s2" and st: "settled r s (Br P K (ls @ t # R # rs')) fs s2"
        using merged_settled [OF up [unfolded rs] m(2) g go] by blast
      have "rebalance k bl br mg s r (adr t) P (length ls) None (Some (adr R)) = Some s2"
        using c m(1) False mt [of R] rs by (simp add: rebalance_def)
      then show ?thesis using st Nil rs by simp
    qed
  next
    case (snoc ls' L)
    have upL: "spot s (Br P K (ls' @ L # t # rs)) fs" "adr (plug (Br P K (ls' @ L # t # rs)) fs) = r" using up r' snoc by simp_all
    show "\<exists>s'. rebalance k bl br mg s r (adr t) P (length ls) (if ls = [] then None else Some (adr (last ls)))
      (if rs = [] then None else Some (adr (hd rs))) = Some s' \<and> settled r s (Br P K (ls @ t # rs)) fs s'"
    proof (cases "k < size_of L")
      case True
      obtain m' x y where m: "bl (bp_nd s) (adr t) (adr L) P = fix_up m' (Some P)" "shared s P L t m' x y" using left [OF snoc True] by blast
      show ?thesis using pair_done [OF upL(1) m(2) _ upL(2)] m(1) True kids mt [of L] mt [of "hd rs"] snoc
        by (auto simp: rebalance_def)
    next
      case poor: False
      show ?thesis
      proof (cases "\<exists>R rs'. rs = R # rs' \<and> k < size_of R")
        case True
        then obtain R rs' where "rs = R # rs'" "k < size_of R" by blast
        then show ?thesis using R [of R rs'] mt [of L] mt [of R] poor snoc by (auto simp: rebalance_def)
      next
        case False
        obtain m' u where m: "mg (bp_nd s) (adr L) (adr t) = Some m'" "merged s P L t m' u" using mleft [OF snoc] poor by auto
        have "more_than (bp_nd s) (if rs = [] then None else Some (adr (hd rs))) k = Some False"
          using False mt [of "hd rs"] by (cases rs) auto
        moreover have g: "\<forall>t \<in> set ls' \<union> set rs. good t" using kids snoc by auto
        obtain m2 s1 s2 where c: "drop_child m' P (Suc (length ls')) = Some m2" "free_node (s\<lparr>bp_nd := m2\<rparr>) (adr t) = Some s1"
          "balance_inner s1 r P = Some s2" and st: "settled r s (Br P K (ls' @ L # t # rs)) fs s2"
          using merged_settled [OF upL(1) m(2) g go] by blast
        ultimately have "rebalance k bl br mg s r (adr t) P (length ls) (Some (adr L)) (if rs = [] then None else Some (adr (hd rs))) = Some s2"
          using c m(1) poor mt [of L] snoc by (simp add: rebalance_def)
        then show ?thesis using st snoc by simp
      qed
    qed
  qed
qed

section \<open>Inner nodes\<close>

lemma mins_good:
  assumes ok: "\<forall>t \<in> set ts. good t" and l: "\<forall>t \<in> set ts. lives m par t"
    and srt: "sorted_wrt (<) (map fst (concat (map content ts)))" and two: "2 \<le> length ts"
  shows "good (Br a (mins ts) ts)"
proof -
  have "\<forall>t \<in> set ts. content t \<noteq> []" using ok l fat_content by blast
  moreover have "ts \<noteq> []" using two by auto
  ultimately have "parted (mins ts) ts" by (rule mins_part [OF srt])
  then show ?thesis using ok two by auto
qed

lemma spot_two: "spot s (Br P K (ls @ Br a ka ta # Br b kb tb # rs)) fs \<Longrightarrow> two_nodes (bp_nd s) (Some P) a ta b tb"
proof -
  assume sp: "spot s (Br P K (ls @ Br a ka ta # Br b kb tb # rs)) fs"
  have "lives (bp_nd s) (Some P) (Br a ka ta)" "lives (bp_nd s) (Some P) (Br b kb tb)" using spotD(1) [OF sp] by simp_all
  moreover have "distinct (a # b # concat (map nodes_of (ta @ tb)))" using spotD(2) [OF sp] by auto
  ultimately show ?thesis unfolding two_nodes_def by blast
qed

lemma spot_pair_sorted:
  "spot s (Br P K (ls @ x # y # rs)) fs \<Longrightarrow> sorted_wrt (<) (map fst (content x @ content y))"
proof -
  assume sp: "spot s (Br P K (ls @ x # y # rs)) fs"
  have "sorted_wrt (<) (map fst (concat (map content ls) @ (content x @ content y) @ concat (map content rs)))"
    using content_sorted [OF spotD(6) [OF sp]] by simp
  then show ?thesis unfolding map_append sorted_wrt_append by blast
qed

lemma inner_shared:
  assumes sp: "spot s (Br P K (ls @ Br a ka ta # Br b kb tb # rs)) fs" and ok: "\<forall>t \<in> set (ta @ tb). good t"
    and two: "two_nodes m' (Some P) a ta' b tb'" and eq: "ta' @ tb' = ta @ tb" "2 \<le> length ta'" "2 \<le> length tb'"
    and out: "\<forall>x. x \<notin> set (nodes_of (Br a ka ta) @ nodes_of (Br b kb tb)) \<longrightarrow> m' x = bp_nd s x"
  shows "\<exists>m5 m6. fix_keys m' a = Some m5 \<and> fix_keys m5 b = Some m6
    \<and> shared s P (Br a ka ta) (Br b kb tb) m6 (Br a (mins ta') ta') (Br b (mins tb') tb')"
proof -
  have kids: "\<forall>t \<in> set (ta' @ tb'). good t" using ok eq(1) by simp
  obtain m5 m6 where m: "fix_keys m' a = Some m5" "fix_keys m5 b = Some m6" "lives m6 (Some P) (Br a (mins ta') ta')"
    "lives m6 (Some P) (Br b (mins tb') tb')" "\<forall>x. x \<noteq> a \<and> x \<noteq> b \<longrightarrow> m6 x = m' x"
    using fix_two [OF two] kids by blast
  have cc: "concat (map content ta') @ concat (map content tb') = concat (map content ta) @ concat (map content tb)"
    and cn: "concat (map nodes_of ta') @ concat (map nodes_of tb') = concat (map nodes_of ta) @ concat (map nodes_of tb)"
    using eq(1) by (metis concat_append map_append)+
  then have mn: "mset (concat (map nodes_of ta')) + mset (concat (map nodes_of tb'))
      = mset (concat (map nodes_of ta)) + mset (concat (map nodes_of tb))" by (metis mset_append)
  have "sorted_wrt (<) (map fst (concat (map content ta') @ concat (map content tb')))"
    using spot_pair_sorted [OF sp] cc by simp
  then have srt: "sorted_wrt (<) (map fst (concat (map content ta')))" "sorted_wrt (<) (map fst (concat (map content tb')))"
    by (simp_all only: map_append sorted_wrt_append)
  have "good (Br a (mins ta') ta')" by (rule mins_good [OF _ _ srt(1) eq(2)]) (use kids m(3) in auto)
  moreover have "good (Br b (mins tb') tb')" by (rule mins_good [OF _ _ srt(2) eq(3)]) (use kids m(4) in auto)
  moreover have "set ta' \<union> set tb' = set ta \<union> set tb" using eq(1) by (metis set_append)
  then have "\<forall>h. level h (Br a ka ta) \<and> level h (Br b kb tb) \<longrightarrow>
      level h (Br a (mins ta') ta') \<and> level h (Br b (mins tb') tb')" by (auto split: nat.splits)
  moreover have "\<forall>x. x \<notin> set (nodes_of (Br a ka ta) @ nodes_of (Br b kb tb)) \<longrightarrow> m6 x = bp_nd s x" using out m(5) by auto
  ultimately have "shared s P (Br a ka ta) (Br b kb tb) m6 (Br a (mins ta') ta') (Br b (mins tb') tb')"
    unfolding shared_def using m(3,4) cc mn by simp
  then show ?thesis using m(1,2) by blast
qed

lemma inner_borrow_left:
  assumes sp: "spot s (Br P K (ls @ Br a ka ta # Br b kb tb # rs)) fs" and ok: "\<forall>t \<in> set (ta @ tb). good t"
    and len: "3 \<le> length ta" "length tb = 1"
  shows "\<exists>m x y. borrow_left_inner (bp_nd s) b a P = fix_up m (Some P) \<and> shared s P (Br a ka ta) (Br b kb tb) m x y"
proof -
  obtain us c where ta: "ta = us @ [c]" using len(1) by (cases ta rule: rev_cases) auto
  obtain m' where m': "two_nodes m' (Some P) a us b (c # tb)" "\<forall>x. x \<notin> set (a # b # nodes_of c) \<longrightarrow> m' x = bp_nd s x"
    "\<And>P. borrow_left_inner (bp_nd s) b a P = do { m5 \<leftarrow> fix_keys m' a; m6 \<leftarrow> fix_keys m5 b; fix_up m6 (Some P) }"
    using borrow_left_ok [OF spot_two [OF sp, unfolded ta]] len ta by fastforce
  have "\<forall>x. x \<notin> set (nodes_of (Br a ka ta) @ nodes_of (Br b kb tb)) \<longrightarrow> m' x = bp_nd s x" using m'(2) ta by auto
  from inner_shared [OF sp ok m'(1) _ _ _ this] show ?thesis using m'(3) len ta by fastforce
qed

lemma inner_borrow_right:
  assumes sp: "spot s (Br P K (ls @ Br a ka ta # Br b kb tb # rs)) fs" and ok: "\<forall>t \<in> set (ta @ tb). good t"
    and len: "length ta = 1" "3 \<le> length tb"
  shows "\<exists>m x y. borrow_right_inner (bp_nd s) a b P = fix_up m (Some P) \<and> shared s P (Br a ka ta) (Br b kb tb) m x y"
proof -
  obtain c us where tb: "tb = c # us" using len(2) by (cases tb) auto
  obtain m' where m': "two_nodes m' (Some P) a (ta @ [c]) b us" "\<forall>x. x \<notin> set (a # b # nodes_of c) \<longrightarrow> m' x = bp_nd s x"
    "\<And>P. borrow_right_inner (bp_nd s) a b P = do { m5 \<leftarrow> fix_keys m' a; m6 \<leftarrow> fix_keys m5 b; fix_up m6 (Some P) }"
    using borrow_right_ok [OF spot_two [OF sp, unfolded tb]] len tb by fastforce
  have "\<forall>x. x \<notin> set (nodes_of (Br a ka ta) @ nodes_of (Br b kb tb)) \<longrightarrow> m' x = bp_nd s x" using m'(2) tb by auto
  from inner_shared [OF sp ok m'(1) _ _ _ this] show ?thesis using m'(3) len tb by fastforce
qed

lemma inner_merge:
  assumes sp: "spot s (Br P K (ls @ Br a ka ta # Br b kb tb # rs)) fs" and ok: "\<forall>t \<in> set (ta @ tb). good t"
    and len: "length ta + length tb = 3"
  shows "\<exists>m u. merge_inner (bp_nd s) a b = Some m \<and> merged s P (Br a ka ta) (Br b kb tb) m u"
proof -
  let ?u = "Br a (mins (ta @ tb)) (ta @ tb)"
  obtain m1 where m1: "merge_inner (bp_nd s) a b = Some m1" "lives m1 (Some P) ?u"
    "\<forall>x. x \<notin> set (a # concat (map nodes_of tb)) \<longrightarrow> m1 x = bp_nd s x"
    using merge_inner_ok [OF spot_two [OF sp]] ok len by auto
  have "\<forall>x. x \<notin> set (nodes_of (Br a ka ta) @ nodes_of (Br b kb tb)) \<longrightarrow> m1 x = bp_nd s x" using m1(3) by auto
  moreover have "\<forall>h. level h (Br a ka ta) \<and> level h (Br b kb tb) \<longrightarrow> level h ?u" by (auto split: nat.splits)
  moreover have "good ?u" by (rule mins_good) (use ok m1(2) len spot_pair_sorted [OF sp] in auto)
  ultimately have "merged s P (Br a ka ta) (Br b kb tb) m1 ?u" unfolding merged_def using m1(2) by simp
  then show ?thesis using m1(1) by blast
qed

text \<open>A node without keys below a parent.\<close>

lemma balance_inner_eq:
  assumes sp: "spot s (Br p [] ts) ((P, K, ls, rs) # fs)" and r: "adr (plug (Br p [] ts) ((P, K, ls, rs) # fs)) = r"
  shows "balance_inner s r p = rebalance 1 borrow_left_inner borrow_right_inner merge_inner s r p P (length ls)
      (if ls = [] then None else Some (adr (last ls))) (if rs = [] then None else Some (adr (hd rs)))"
proof -
  note hf = hole_facts [OF sp]
  obtain pn where pn: "bp_nd s P = Some pn" "child_idx pn p = Some (Some (length ls))"
    "siblings pn (length ls) = Some (if ls = [] then None else Some (adr (last ls)), if rs = [] then None else Some (adr (hd rs)))"
    using hf(1) by auto
  obtain n where n: "bp_nd s p = Some n" "bn_num n = 0" "bn_parent n = Some P"
    using lives_size [OF spotD(1) [OF sp]] by auto
  have "p \<noteq> r" using hf(2) r by simp
  then show ?thesis
    by (subst balance_inner.simps) (simp add: pn n Let_def MAX_BPT_NODE_NUM_def rebalance_def)
qed

lemma balance_inner_poor:
  assumes sp: "spot s (Br p [] [t]) ((P, K, ls, rs) # fs)" and ok: "good t" and r: "adr (plug (Br p [] [t]) ((P, K, ls, rs) # fs)) = r"
    and go: "\<And>s' K' ts. spot s' (Br P K' ts) fs \<Longrightarrow> \<forall>t \<in> set ts. good t \<Longrightarrow>
      \<exists>s''. balance_inner s' r P = Some s'' \<and> settled r s' (Br P K' ts) fs s''"
  shows "\<exists>s'. balance_inner s r p = Some s' \<and> settled r s (Br p [] [t]) ((P, K, ls, rs) # fs) s'"
proof -
  note hf = hole_facts [OF sp] and up = spot_up [OF sp]
  have sib: "\<exists>q kq uq. u = Br q kq uq \<and> length uq = Suc (length kq) \<and> kq \<noteq> [] \<and> (\<forall>t \<in> set uq. good t)"
    if mem: "u \<in> set ls \<union> set rs" for u
  proof -
    obtain h where h: "level h (Br p [] [t])" "level h u" "good u" "lives (bp_nd s) (Some P) u"
      using bspec [OF hf(3) mem] by blast
    obtain q kq uq where u: "u = Br q kq uq" using same_level_inner [OF h(1,2)] by blast
    then have "length uq = Suc (length kq)" using h(4) lives_length by blast
    then show ?thesis using u h(3) by auto
  qed
  have "\<exists>s'. rebalance 1 borrow_left_inner borrow_right_inner merge_inner s r (adr (Br p [] [t])) P (length ls)
      (if ls = [] then None else Some (adr (last ls))) (if rs = [] then None else Some (adr (hd rs))) = Some s'
      \<and> settled r s (Br p [] [t]) ((P, K, ls, rs) # fs) s'"
  proof (rule rebalance_ok [OF sp r _ _ _ _ go])
    fix ls' L assume L: "ls = ls' @ [L]"
    then obtain q kq uq where u: "L = Br q kq uq" "length uq = Suc (length kq)" "kq \<noteq> []" "\<forall>t \<in> set uq. good t" using sib [of L] by auto
    have upL: "spot s (Br P K (ls' @ Br q kq uq # Br p [] [t] # rs)) fs" using up L u(1) by simp
    have all: "\<forall>t \<in> set (uq @ [t]). good t" using u(4) ok by simp
    show "\<exists>m' x y. borrow_left_inner (bp_nd s) (adr (Br p [] [t])) (adr L) P = fix_up m' (Some P) \<and> shared s P L (Br p [] [t]) m' x y"
      if "1 < size_of L" using inner_borrow_left [OF upL all] u that by simp
    show "\<exists>m' u. merge_inner (bp_nd s) (adr L) (adr (Br p [] [t])) = Some m' \<and> merged s P L (Br p [] [t]) m' u"
      if "size_of L \<le> 1" using inner_merge [OF upL all] u that by (cases kq) simp_all
  next
    fix R rs' assume R: "rs = R # rs'"
    then obtain q kq uq where u: "R = Br q kq uq" "length uq = Suc (length kq)" "kq \<noteq> []" "\<forall>t \<in> set uq. good t" using sib [of R] by auto
    have upR: "spot s (Br P K (ls @ Br p [] [t] # Br q kq uq # rs')) fs" using up R u(1) by simp
    have all: "\<forall>t \<in> set ([t] @ uq). good t" using u(4) ok by simp
    show "\<exists>m' x y. borrow_right_inner (bp_nd s) (adr (Br p [] [t])) (adr R) P = fix_up m' (Some P) \<and> shared s P (Br p [] [t]) R m' x y"
      if "1 < size_of R" using inner_borrow_right [OF upR all] u that by simp
    show "\<exists>m' u. merge_inner (bp_nd s) (adr (Br p [] [t])) (adr R) = Some m' \<and> merged s P (Br p [] [t]) R m' u"
      if "size_of R \<le> 1" using inner_merge [OF upR all] u that by (cases kq) simp_all
  qed
  then show ?thesis using balance_inner_eq [OF sp r] by simp
qed

lemma balance_inner_root:
  assumes sp: "spot s (Br r ks ts) []" and ok: "\<forall>t \<in> set ts. good t"
  shows "\<exists>s'. balance_inner s r r = Some s' \<and> settled r s (Br r ks ts) [] s'"
proof -
  note len = lives_length [OF spotD(1) [OF sp]]
  obtain n where n: "bp_nd s r = Some n" "\<not> bn_leaf n" "bn_num n = length ks"
    using spotD(1) [OF sp] inner_node_length by (fastforce simp: inner_node_def)
  show ?thesis
  proof (cases "ks = []")
    case True
    then obtain t where "ts = [t]" using len by (cases ts) auto
    then show ?thesis
      using collapse_root_ok [of s r ks t] sp ok n True by (subst balance_inner.simps) (simp add: Let_def)
  next
    case False
    then have two: "2 \<le> length ts" using len by (cases ks) auto
    show ?thesis
      using root_keys_ok [OF sp ok two] n False by (subst balance_inner.simps) (auto simp: Let_def)
  qed
qed

lemma balance_inner_ok:
  "spot s (Br p ks ts) fs \<Longrightarrow> \<forall>t \<in> set ts. good t \<Longrightarrow> adr (plug (Br p ks ts) fs) = r \<Longrightarrow>
     \<exists>s'. balance_inner s r p = Some s' \<and> settled r s (Br p ks ts) fs s'"
proof (induction fs arbitrary: s p ks ts)
  case Nil
  then show ?case using balance_inner_root [of s r ks ts] by simp
next
  case (Cons f fs)
  obtain P K ls rs where f: "f = (P, K, ls, rs)" by (cases f)
  note sp = Cons.prems(1) [unfolded f] and r = Cons.prems(3) [unfolded f] and ok = Cons.prems(2)
  note len = lives_length [OF spotD(1) [OF sp]]
  have root: "adr (plug (Br P K' us) fs) = r" for K' us using r by (simp add: adr_plug split: if_splits)
  show ?case
  proof (cases "ks = []")
    case True
    then obtain t where ts: "ts = [t]" using len by (cases ts) auto
    show ?thesis unfolding f True ts
    proof (rule balance_inner_poor)
      show "\<exists>s''. balance_inner s' r P = Some s'' \<and> settled r s' (Br P K' us) fs s''"
        if "spot s' (Br P K' us) fs" "\<forall>t \<in> set us. good t" for s' K' us by (rule Cons.IH [OF that root])
    qed (use sp r ok in \<open>simp_all add: ts True\<close>)
  next
    case False
    then have two: "2 \<le> length ts" using len by (cases ks) auto
    obtain n where n: "bp_nd s p = Some n" "bn_num n = length ks" using lives_size [OF spotD(1) [OF sp]] by auto
    have "p \<noteq> r" using hole_facts(2) [OF sp] r by simp
    moreover obtain m where "fix_up (bp_nd s) (Some p) = Some m" "settled r s (Br p ks ts) (f # fs) (s\<lparr>bp_nd := m\<rparr>)"
      using spot_fix_up [OF Cons.prems(1) ok two] Cons.prems(3) by blast
    ultimately show ?thesis using n False
      by (subst balance_inner.simps) (cases ks; simp add: Let_def MAX_BPT_NODE_NUM_def)
  qed
qed

section \<open>Leaves\<close>

lemma leaf_columns:
  assumes "leaf_node n its par"
  shows "take (length its) (bn_fnv n) = map fst its" "take (length its) (bn_djb n) = map (fst \<circ> snd) its"
    "take (length its) (bn_data n) = map (snd \<circ> snd) its" "bn_num n = length its" "length its \<le> 3"
    "length (bn_fnv n) = 3" "length (bn_djb n) = 3" "length (bn_data n) = 3"
proof -
  have wf: "wf_node n" and it: "items n = its" using assms by (simp_all add: leaf_node_def)
  show num: "bn_num n = length its" "length its \<le> 3" using leaf_node_length [OF assms] by simp_all
  show "take (length its) (bn_fnv n) = map fst its" "take (length its) (bn_djb n) = map (fst \<circ> snd) its"
    "take (length its) (bn_data n) = map (snd \<circ> snd) its"
    using items_columns [OF wf] it num(1) by simp_all
  show "length (bn_fnv n) = 3" "length (bn_djb n) = 3" "length (bn_data n) = 3" using wf by simp_all
qed

lemma leaf_nodeI:
  assumes n: "leaf_node n its0 par" and x: "bn_num x = length its" "length its \<le> 3" "bn_leaf x = bn_leaf n" "bn_parent x = bn_parent n"
      "bn_child x = bn_child n" "length (bn_fnv x) = 3" "length (bn_djb x) = 3" "length (bn_data x) = 3"
    and cols: "take (length its) (bn_fnv x) = map fst its" "take (length its) (bn_djb x) = map (fst \<circ> snd) its"
      "take (length its) (bn_data x) = map (snd \<circ> snd) its"
  shows "leaf_node x its par"
proof -
  have "wf_node n" using n by (simp add: leaf_node_def)
  then have "length (bn_child x) = 4" using x(5) by simp
  then have "wf_node x" using x(1,2,6-8) by (simp add: wf_node_def del: wf_lengths)
  moreover have "items x = its" using cols x(1) by (simp add: items_def take_zip zip_unzip)
  ultimately show ?thesis using n x(3,4) by (simp add: leaf_node_def)
qed

lemma shift_up_in:
  "k < length xs \<Longrightarrow> \<exists>ys. shift_up xs k = Some ys \<and> aset ys 0 v = Some (v # take k xs @ drop (Suc k) xs)"
  by (cases xs) (auto simp: shift_up_def)

lemma aget_prefix: "take n xs = ys \<Longrightarrow> i < n \<Longrightarrow> n \<le> length xs \<Longrightarrow> aget xs i = Some (ys ! i)"
  by auto

lemma borrow_left_leaf_ok:
  assumes l: "lives m par (Lf a (us @ [c]))" "lives m par (Lf b its)" and ab: "a \<noteq> b" and len: "length its \<le> 2"
  shows "\<exists>m'. (\<forall>P. borrow_left_leaf m b a P = fix_up m' (Some P)) \<and> lives m' par (Lf a us) \<and> lives m' par (Lf b (c # its))
    \<and> (\<forall>x. x \<noteq> a \<and> x \<noteq> b \<longrightarrow> m' x = m x)"
proof -
  obtain na nb where n: "m a = Some na" "leaf_node na (us @ [c]) par" "m b = Some nb" "leaf_node nb its par" using l by auto
  note ca = leaf_columns [OF n(2)] and cb = leaf_columns [OF n(4)]
  have last: "aget (bn_fnv na) (length us) = Some (fst c)" "aget (bn_djb na) (length us) = Some (fst (snd c))"
    "aget (bn_data na) (length us) = Some (snd (snd c))"
    using aget_prefix [OF ca(1), of "length us"] aget_prefix [OF ca(2), of "length us"] aget_prefix [OF ca(3), of "length us"] ca(5-8)
    by (simp_all add: nth_append)
  have lt: "length its < length (bn_fnv nb)" "length its < length (bn_djb nb)" "length its < length (bn_data nb)" using cb len by simp_all
  obtain f d v where col: "shift_up (bn_fnv nb) (length its) = Some f" "aset f 0 (fst c) = Some (fst c # take (length its) (bn_fnv nb) @ drop (Suc (length its)) (bn_fnv nb))"
    "shift_up (bn_djb nb) (length its) = Some d" "aset d 0 (fst (snd c)) = Some (fst (snd c) # take (length its) (bn_djb nb) @ drop (Suc (length its)) (bn_djb nb))"
    "shift_up (bn_data nb) (length its) = Some v" "aset v 0 (snd (snd c)) = Some (snd (snd c) # take (length its) (bn_data nb) @ drop (Suc (length its)) (bn_data nb))"
    using shift_up_in [OF lt(1)] shift_up_in [OF lt(2)] shift_up_in [OF lt(3)] by metis
  let ?na = "na\<lparr>bn_num := length us\<rparr>"
  let ?nb = "nb\<lparr>bn_fnv := fst c # take (length its) (bn_fnv nb) @ drop (Suc (length its)) (bn_fnv nb),
      bn_djb := fst (snd c) # take (length its) (bn_djb nb) @ drop (Suc (length its)) (bn_djb nb),
      bn_data := snd (snd c) # take (length its) (bn_data nb) @ drop (Suc (length its)) (bn_data nb), bn_num := Suc (length its)\<rparr>"
  let ?m = "m(a \<mapsto> ?na, b \<mapsto> ?nb)"
  have "borrow_left_leaf m b a P = fix_up ?m (Some P)" for P
    using n(1,3) ca(4) cb(4) last col by (simp add: borrow_left_leaf_def Let_def)
  moreover have "leaf_node ?na us par"
  proof (rule leaf_nodeI [OF n(2)])
    show "take (length us) (bn_fnv ?na) = map fst us" "take (length us) (bn_djb ?na) = map (fst \<circ> snd) us"
      "take (length us) (bn_data ?na) = map (snd \<circ> snd) us"
      using arg_cong [OF ca(1), of "take (length us)"] arg_cong [OF ca(2), of "take (length us)"]
        arg_cong [OF ca(3), of "take (length us)"] by simp_all
  qed (use ca in simp_all)
  moreover have "leaf_node ?nb (c # its) par" by (rule leaf_nodeI [OF n(4)]) (use cb len in simp_all)
  ultimately show ?thesis using ab by (intro exI [of _ ?m]) simp
qed

lemma borrow_right_leaf_ok:
  assumes l: "lives m par (Lf a its)" "lives m par (Lf b (c # us))" and ab: "a \<noteq> b" and len: "length its \<le> 2"
  shows "\<exists>m'. (\<forall>P. borrow_right_leaf m a b P = fix_up m' (Some P)) \<and> lives m' par (Lf a (its @ [c])) \<and> lives m' par (Lf b us)
    \<and> (\<forall>x. x \<noteq> a \<and> x \<noteq> b \<longrightarrow> m' x = m x)"
proof -
  obtain na nb where n: "m a = Some na" "leaf_node na its par" "m b = Some nb" "leaf_node nb (c # us) par" using l by auto
  note ca = leaf_columns [OF n(2)] and cb = leaf_columns [OF n(4)]
  have first: "aget (bn_fnv nb) 0 = Some (fst c)" "aget (bn_djb nb) 0 = Some (fst (snd c))" "aget (bn_data nb) 0 = Some (snd (snd c))"
    using aget_prefix [OF cb(1), of 0] aget_prefix [OF cb(2), of 0] aget_prefix [OF cb(3), of 0] cb(5-8) by simp_all
  have lt: "length us < length (bn_fnv nb)" "length us < length (bn_djb nb)" "length us < length (bn_data nb)" using cb by simp_all
  obtain f d v where col: "shift_down (bn_fnv nb) 0 (length us) = Some f" "shift_down (bn_djb nb) 0 (length us) = Some d"
    "shift_down (bn_data nb) 0 (length us) = Some v"
    using shift_down_length [OF lt(1)] shift_down_length [OF lt(2)] shift_down_length [OF lt(3)] by metis
  let ?na = "na\<lparr>bn_fnv := (bn_fnv na)[length its := fst c], bn_djb := (bn_djb na)[length its := fst (snd c)],
      bn_data := (bn_data na)[length its := snd (snd c)], bn_num := Suc (length its)\<rparr>"
  let ?nb = "nb\<lparr>bn_fnv := f, bn_djb := d, bn_data := v, bn_num := length us\<rparr>"
  let ?m = "m(a \<mapsto> ?na, b \<mapsto> ?nb)"
  have "borrow_right_leaf m a b P = fix_up ?m (Some P)" for P
    using n(1,3) ca(4-8) cb(4) first col len by (simp add: borrow_right_leaf_def)
  moreover have "leaf_node ?na (its @ [c]) par"
    by (rule leaf_nodeI [OF n(2)]) (use ca len in \<open>simp_all add: take_Suc_update\<close>)
  moreover have "leaf_node ?nb us par"
    by (rule leaf_nodeI [OF n(4)])
      (use cb shift_down_without [OF _ lt(1) col(1)] shift_down_without [OF _ lt(2) col(2)] shift_down_without [OF _ lt(3) col(3)]
        in \<open>simp_all add: without_def\<close>)
  ultimately show ?thesis using ab by (intro exI [of _ ?m]) simp
qed

lemma awrite_at_eq: "k + length ys \<le> length xs \<Longrightarrow> awrite_at xs k ys = Some (take k xs @ ys @ drop (k + length ys) xs)"
  by (simp add: awrite_at_def)

lemma merge_leaf_ok:
  assumes l: "lives m par (Lf a ia)" "lives m par (Lf b ib)" and len: "length ia + length ib \<le> 3"
  shows "\<exists>m'. merge_leaf m a b = Some m' \<and> lives m' par (Lf a (ia @ ib)) \<and> (\<forall>x. x \<noteq> a \<longrightarrow> m' x = m x)"
proof -
  obtain na nb where n: "m a = Some na" "leaf_node na ia par" "m b = Some nb" "leaf_node nb ib par" using l by auto
  note ca = leaf_columns [OF n(2)] and cb = leaf_columns [OF n(4)]
  let ?put = "\<lambda>xs ys. take (length ia) xs @ ys @ drop (length ia + length ib) xs"
  let ?na = "na\<lparr>bn_fnv := ?put (bn_fnv na) (map fst ib), bn_djb := ?put (bn_djb na) (map (fst \<circ> snd) ib),
      bn_data := ?put (bn_data na) (map (snd \<circ> snd) ib), bn_num := length ia + length ib, bn_next := bn_next nb\<rparr>"
  have "merge_leaf m a b = Some (m(a \<mapsto> ?na))"
    using n(1,3) ca cb len by (simp add: merge_leaf_def awrite_at_eq)
  moreover have "leaf_node ?na (ia @ ib) par" by (rule leaf_nodeI [OF n(2)]) (use ca cb len in simp_all)
  ultimately show ?thesis by simp
qed

lemma spot_leaves:
  assumes "spot s (Br P K (ls @ Lf a ia # Lf b ib # rs)) fs"
  shows "lives (bp_nd s) (Some P) (Lf a ia)" "lives (bp_nd s) (Some P) (Lf b ib)" "a \<noteq> b"
  using spotD(1,2) [OF assms] by auto

lemma leaf_borrow_left:
  assumes sp: "spot s (Br P K (ls @ Lf a ia # Lf b ib # rs)) fs" and len: "3 \<le> length ia" "length ib = 1"
  shows "\<exists>m x y. borrow_left_leaf (bp_nd s) b a P = fix_up m (Some P) \<and> shared s P (Lf a ia) (Lf b ib) m x y"
proof -
  note lv = spot_leaves [OF sp]
  obtain us c where ia: "ia = us @ [c]" using len(1) by (cases ia rule: rev_cases) auto
  obtain m where m: "\<forall>P. borrow_left_leaf (bp_nd s) b a P = fix_up m (Some P)" "lives m (Some P) (Lf a us)"
    "lives m (Some P) (Lf b (c # ib))" "\<forall>x. x \<noteq> a \<and> x \<noteq> b \<longrightarrow> m x = bp_nd s x"
    using borrow_left_leaf_ok [OF lv(1) [unfolded ia] lv(2,3)] len(2) by auto
  then have "shared s P (Lf a ia) (Lf b ib) m (Lf a us) (Lf b (c # ib))" using len ia by (simp add: shared_def)
  then show ?thesis using m(1) by blast
qed

lemma leaf_borrow_right:
  assumes sp: "spot s (Br P K (ls @ Lf a ia # Lf b ib # rs)) fs" and len: "length ia = 1" "3 \<le> length ib"
  shows "\<exists>m x y. borrow_right_leaf (bp_nd s) a b P = fix_up m (Some P) \<and> shared s P (Lf a ia) (Lf b ib) m x y"
proof -
  note lv = spot_leaves [OF sp]
  obtain c us where ib: "ib = c # us" using len(2) by (cases ib) auto
  obtain m where m: "\<forall>P. borrow_right_leaf (bp_nd s) a b P = fix_up m (Some P)" "lives m (Some P) (Lf a (ia @ [c]))"
    "lives m (Some P) (Lf b us)" "\<forall>x. x \<noteq> a \<and> x \<noteq> b \<longrightarrow> m x = bp_nd s x"
    using borrow_right_leaf_ok [OF lv(1) lv(2) [unfolded ib] lv(3)] len(1) by auto
  then have "shared s P (Lf a ia) (Lf b ib) m (Lf a (ia @ [c])) (Lf b us)" using len ib by (simp add: shared_def)
  then show ?thesis using m(1) by blast
qed

lemma leaf_merge:
  assumes sp: "spot s (Br P K (ls @ Lf a ia # Lf b ib # rs)) fs" and len: "length ia + length ib = 3"
  shows "\<exists>m u. merge_leaf (bp_nd s) a b = Some m \<and> merged s P (Lf a ia) (Lf b ib) m u"
proof -
  note lv = spot_leaves [OF sp]
  obtain m where m: "merge_leaf (bp_nd s) a b = Some m" "lives m (Some P) (Lf a (ia @ ib))" "\<forall>x. x \<noteq> a \<longrightarrow> m x = bp_nd s x"
    using merge_leaf_ok [OF lv(1,2)] len by auto
  then have "merged s P (Lf a ia) (Lf b ib) m (Lf a (ia @ ib))" using len by (simp add: merged_def)
  then show ?thesis using m(1) by blast
qed

lemma balance_leaf_eq:
  assumes sp: "spot s (Lf q its) ((P, K, ls, rs) # fs)" and r: "adr (plug (Lf q its) ((P, K, ls, rs) # fs)) = r"
  shows "balance_leaf s r q = (if 2 \<le> length its then do { m \<leftarrow> fix_up (bp_nd s) (Some P); Some (s\<lparr>bp_nd := m\<rparr>) }
     else rebalance 2 borrow_left_leaf borrow_right_leaf merge_leaf s r q P (length ls)
      (if ls = [] then None else Some (adr (last ls))) (if rs = [] then None else Some (adr (hd rs))))"
proof -
  note hf = hole_facts [OF sp]
  obtain pn where pn: "bp_nd s P = Some pn" "child_idx pn q = Some (Some (length ls))"
    "siblings pn (length ls) = Some (if ls = [] then None else Some (adr (last ls)), if rs = [] then None else Some (adr (hd rs)))"
    using hf(1) by auto
  obtain n where n: "bp_nd s q = Some n" "bn_num n = length its" "bn_parent n = Some P"
    using lives_size [OF spotD(1) [OF sp]] by auto
  have "q \<noteq> r" using hf(2) r by simp
  moreover have "(4 :: nat) div 2 = 2" by simp
  ultimately show ?thesis
    unfolding balance_leaf_def by (simp add: pn n Let_def MAX_BPT_NODE_NUM_def rebalance_def)
qed

lemma same_level_leaf: "level h (Lf p its) \<Longrightarrow> level h u \<Longrightarrow> \<exists>q iu. u = Lf q iu"
  by (cases u) auto

lemma balance_leaf_poor:
  assumes sp: "spot s (Lf p its) ((P, K, ls, rs) # fs)" and one: "length its = 1" and r: "adr (plug (Lf p its) ((P, K, ls, rs) # fs)) = r"
  shows "\<exists>s'. balance_leaf s r p = Some s' \<and> settled r s (Lf p its) ((P, K, ls, rs) # fs) s'"
proof -
  note hf = hole_facts [OF sp] and up = spot_up [OF sp]
  have root: "adr (plug (Br P K' us) fs) = r" for K' us using r by (simp add: adr_plug split: if_splits)
  have sib: "\<exists>q iq. u = Lf q iq \<and> 2 \<le> length iq" if mem: "u \<in> set ls \<union> set rs" for u
  proof -
    obtain h where h: "level h (Lf p its)" "level h u" "good u" using bspec [OF hf(3) mem] by blast
    show ?thesis using same_level_leaf [OF h(1,2)] h(3) by auto
  qed
  have "\<exists>s'. rebalance 2 borrow_left_leaf borrow_right_leaf merge_leaf s r (adr (Lf p its)) P (length ls)
      (if ls = [] then None else Some (adr (last ls))) (if rs = [] then None else Some (adr (hd rs))) = Some s'
      \<and> settled r s (Lf p its) ((P, K, ls, rs) # fs) s'"
  proof (rule rebalance_ok [OF sp r])
    fix ls' L assume L: "ls = ls' @ [L]"
    then obtain q iq where u: "L = Lf q iq" "2 \<le> length iq" using sib [of L] by auto
    have upL: "spot s (Br P K (ls' @ Lf q iq # Lf p its # rs)) fs" using up L u(1) by simp
    show "\<exists>m' x y. borrow_left_leaf (bp_nd s) (adr (Lf p its)) (adr L) P = fix_up m' (Some P) \<and> shared s P L (Lf p its) m' x y"
      if "2 < size_of L" using leaf_borrow_left [OF upL] u one that by simp
    show "\<exists>m' u. merge_leaf (bp_nd s) (adr L) (adr (Lf p its)) = Some m' \<and> merged s P L (Lf p its) m' u"
      if "size_of L \<le> 2" using leaf_merge [OF upL] u one that by simp
  next
    fix R rs' assume R: "rs = R # rs'"
    then obtain q iq where u: "R = Lf q iq" "2 \<le> length iq" using sib [of R] by auto
    have upR: "spot s (Br P K (ls @ Lf p its # Lf q iq # rs')) fs" using up R u(1) by simp
    show "\<exists>m' x y. borrow_right_leaf (bp_nd s) (adr (Lf p its)) (adr R) P = fix_up m' (Some P) \<and> shared s P (Lf p its) R m' x y"
      if "2 < size_of R" using leaf_borrow_right [OF upR] u one that by simp
    show "\<exists>m' u. merge_leaf (bp_nd s) (adr (Lf p its)) (adr R) = Some m' \<and> merged s P (Lf p its) R m' u"
      if "size_of R \<le> 2" using leaf_merge [OF upR] u one that by simp
  next
    show "\<exists>s''. balance_inner s' r P = Some s'' \<and> settled r s' (Br P K' us) fs s''"
      if "spot s' (Br P K' us) fs" "\<forall>t \<in> set us. good t" for s' K' us
      by (rule balance_inner_ok [OF that root])
  qed
  then show ?thesis using balance_leaf_eq [OF sp r] one by simp
qed

lemma balance_leaf_ok:
  assumes sp: "spot s (Lf p its) fs" and its: "fs \<noteq> [] \<longrightarrow> its \<noteq> []" and r: "adr (plug (Lf p its) fs) = r"
  shows "\<exists>s'. balance_leaf s r p = Some s' \<and> settled r s (Lf p its) fs s'"
proof (cases fs)
  case Nil
  have "tree_at (bp_nd s) (Lf p its)" using spotD [OF sp] Nil by (simp add: tree_at_def)
  then have "settled r s (Lf p its) fs s"
    using spotD(4,5) [OF sp] Nil r by (auto simp: rebuilt_def keeps_def)
  then show ?thesis using r Nil by (simp add: balance_leaf_def Let_def)
next
  case (Cons f gs)
  obtain P K ls rs where f: "f = (P, K, ls, rs)" by (cases f)
  note sp' = sp [unfolded Cons f] and r' = r [unfolded Cons f]
  show ?thesis
  proof (cases "2 \<le> length its")
    case True
    have "\<forall>t \<in> set (ls @ Lf p its # rs). good t" using hole_facts(3) [OF sp'] True by auto
    moreover have "2 \<le> length (ls @ Lf p its # rs)" using hole_facts(4) [OF sp'] by (cases ls; cases rs) auto
    ultimately obtain m where m: "fix_up (bp_nd s) (Some P) = Some m"
      "settled r s (Br P K (ls @ Lf p its # rs)) gs (s\<lparr>bp_nd := m\<rparr>)"
      using spot_fix_up [OF spot_up [OF sp']] r' by auto
    then show ?thesis using balance_leaf_eq [OF sp' r'] True unfolding Cons f settled_up by simp
  next
    case False
    then have "length its = 1" using its Cons by (cases its; cases "tl its") auto
    then show ?thesis using balance_leaf_poor [OF sp' _ r'] unfolding Cons f by blast
  qed
qed

section \<open>\<open>bpt_delete\<close>\<close>

lemma bpt_rep_kept:
  assumes "bpt_rep s r2 T2 M2" "keeps T s s'" "T \<inter> T2 = {}"
  shows "bpt_rep s' r2 T2 M2"
proof (rule bpt_rep_local [OF assms(1)])
  have own: "T2 \<subseteq> owned (bp_heap s)" using assms(1) by (simp add: bpt_rep_def)
  show "\<forall>a \<in> T2. bp_nd s' a = bp_nd s a" using assms(2,3) by (auto simp: keeps_def)
  show "T2 \<subseteq> owned (bp_heap s')" "heap_inv (bp_heap s')" using own assms(2,3) by (auto simp: keeps_def)
qed

lemma rebuilt_rep:
  assumes "rebuilt T r its s s'" "set its = {(k, dv). M k = Some dv}"
  shows "\<exists>T' \<subseteq> T. bpt_rep s' r T' M"
proof -
  obtain t where t: "tree_at (bp_nd s') t" "adr t = r" "content t = its" "set (nodes_of t) \<subseteq> T \<inter> owned (bp_heap s')"
    and k: "keeps T s s'" using assms(1) by (auto simp: rebuilt_def)
  have "bpt_rep s' r (set (nodes_of t)) M"
    using tree_rep [OF t(1)] t(2-4) k assms(2) by (auto simp: bpt_rep_def keeps_def)
  then show ?thesis using t(4) by blast
qed

text \<open>The leaf that is responsible for a key, with the way to the root.\<close>

lemma delete_spot:
  assumes rep: "bpt_rep s r T M"
  obtains q n its fs where "search_leaf (bp_nd s) (Some r) fk = Some (Some q)" "bp_nd s q = Some n"
    "spot s (Lf q its) fs" "scope (Lf q its) fs = T" "adr (plug (Lf q its) fs) = r" "fs \<noteq> [] \<longrightarrow> 2 \<le> length its"
    "leaf_node n its (up fs)" "set (lcont fs @ its @ rcont fs) = {(k, dv). M k = Some dv}"
    "\<forall>dv. M fk = Some dv \<longleftrightarrow> (fk, dv) \<in> set its"
proof -
  obtain g where tree: "tree_ok (bp_nd s) r T g" and fill: "filled (bp_nd s) r T"
    and ent: "entries (bp_nd s) T = {(k, dv). M k = Some dv}" using rep by (auto simp: bpt_rep_def)
  obtain q n where q: "search_leaf (bp_nd s) (Some r) fk = Some (Some q)" "q \<in> T" "bp_nd s q = Some n" "bn_leaf n"
    and at: "\<And>dv. (fk, dv) \<in> entries (bp_nd s) T \<longleftrightarrow> (fk, dv) \<in> set (items n)"
    using search_leaf_rep [OF tree, of fk] by metis
  obtain t where t: "tree_at (bp_nd s) t" "adr t = r" "set (nodes_of t) = T" "set (content t) = entries (bp_nd s) T"
    using rep_tree [OF tree fill] by blast
  obtain u fs where u: "t = plug u fs" "adr u = q" using plug_ex [of q t] q(2) t(3) by blast
  have l: "lives (bp_nd s) (up fs) u" "ctx (bp_nd s) (adr u) fs" using t(1) u(1) by (simp_all add: tree_at_def lives_plug)
  then obtain its where its: "u = Lf q its" using q(3,4) u(2) by (cases u) (auto simp: inner_node_def)
  then have ln: "leaf_node n its (up fs)" using l(1) q(3) by simp
  have "sep_ok (plug u fs)" "root_fat (plug u fs)" using t(1) u(1) by (simp_all add: tree_at_def)
  note parts = plug_parts [OF this]
  have sc: "scope u fs = T" using t(3) u(1) set_nodes_plug [of u fs] by simp
  have "\<exists>h. level h (plug u fs)" using t(1) u(1) by (simp add: tree_at_def)
  then have "\<exists>h. level h u \<and> clevel h fs" using plug_level by blast
  moreover have "sorted_wrt (<) (map fst (content (plug u fs)))" "distinct (nodes_of (plug u fs))"
    using t(1) u(1) by (simp_all add: tree_at_def)
  ultimately have "spot s u fs"
    using l parts(2) sc rep unfolding spot_def content_plug distinct_plug by (simp add: bpt_rep_def)
  moreover have "set (lcont fs @ its @ rcont fs) = {(k, dv). M k = Some dv}"
    using t(4) ent u(1) its by (simp add: content_plug)
  moreover have "M fk = Some dv \<longleftrightarrow> (fk, dv) \<in> set its" for dv
    using at [of dv] ent ln by (auto simp: leaf_node_def)
  ultimately show ?thesis using that [OF q(1,3)] sc t(2) u its ln parts(3) by auto
qed

text \<open>Taking one item out of a sorted list takes its key out.\<close>

lemma without_key:
  assumes srt: "sorted_wrt (<) (map fst (as @ xs @ bs))" and i: "i < length xs"
  shows "set (as @ without i xs @ bs) = {x \<in> set (as @ xs @ bs). fst x \<noteq> (fst (xs ! i) :: u64)}"
    "sorted_wrt (<) (map fst (as @ without i xs @ bs))"
proof -
  have xs: "xs = take i xs @ xs ! i # drop (Suc i) xs" by (rule id_take_nth_drop [OF i])
  have w: "sorted_wrt (<) (map fst ((as @ take i xs) @ xs ! i # (drop (Suc i) xs @ bs)))"
    using srt xs by (metis append.assoc append_Cons)
  then show "sorted_wrt (<) (map fst (as @ without i xs @ bs))" by (auto simp: without_def sorted_wrt_append)
  have "set (as @ xs @ bs) = insert (xs ! i) (set (as @ without i xs @ bs))"
    using arg_cong [OF xs, of set] by (auto simp: without_def)
  moreover have "\<forall>y \<in> set (as @ take i xs). fst y < fst (xs ! i)" "\<forall>y \<in> set (drop (Suc i) xs @ bs). fst (xs ! i) < fst y"
    using w unfolding map_append sorted_wrt_append by auto
  then have "\<forall>y \<in> set (as @ without i xs @ bs). fst y \<noteq> fst (xs ! i)"
    unfolding without_def set_append by (metis Un_iff less_irrefl)
  ultimately show "set (as @ without i xs @ bs) = {x \<in> set (as @ xs @ bs). fst x \<noteq> fst (xs ! i)}" by auto
qed

text \<open>The item at the position the code scans for is removed from the leaf.\<close>

lemma leaf_shift:
  assumes ln: "leaf_node n its par" and i: "i < length its"
  shows "\<exists>f d v. shift_down (bn_fnv n) i (bn_num n - 1) = Some f \<and> shift_down (bn_djb n) i (bn_num n - 1) = Some d
    \<and> shift_down (bn_data n) i (bn_num n - 1) = Some v
    \<and> leaf_node (n\<lparr>bn_fnv := f, bn_djb := d, bn_data := v, bn_num := bn_num n - 1\<rparr>) (without i its) par"
proof -
  note c = leaf_columns [OF ln]
  have b: "i \<le> bn_num n - 1" "bn_num n - 1 < length (bn_fnv n)" "bn_num n - 1 < length (bn_djb n)" "bn_num n - 1 < length (bn_data n)"
    "Suc (bn_num n - 1) = length its" using i c(4-8) by auto
  obtain f d v where s: "shift_down (bn_fnv n) i (bn_num n - 1) = Some f" "shift_down (bn_djb n) i (bn_num n - 1) = Some d"
    "shift_down (bn_data n) i (bn_num n - 1) = Some v"
    using shift_down_length [OF b(2)] shift_down_length [OF b(3)] shift_down_length [OF b(4)] by metis
  note w = shift_down_without [OF b(1,2) s(1)] shift_down_without [OF b(1,3) s(2)] shift_down_without [OF b(1,4) s(3)]
  have "leaf_node (n\<lparr>bn_fnv := f, bn_djb := d, bn_data := v, bn_num := bn_num n - 1\<rparr>) (without i its) par"
    by (rule leaf_nodeI [OF ln]) (use w c b i in \<open>simp_all add: length_without without_map\<close>)
  then show ?thesis using s by blast
qed

text \<open>Where the scan for both hashes stops.\<close>

lemma delete_scan:
  assumes ln: "leaf_node n its par"
    and i_def: "i = scan (\<lambda>(f, d). f \<noteq> fk \<or> d \<noteq> dk) (zip (take (bn_num n) (bn_fnv n)) (take (bn_num n) (bn_djb n)))"
  shows "i < length its \<Longrightarrow> \<exists>v. its ! i = (fk, dk, v)" "\<not> i < length its \<Longrightarrow> i = length its \<and> (\<forall>v. (fk, dk, v) \<notin> set its)"
proof -
  note c = leaf_columns [OF ln]
  let ?P = "\<lambda>(f, d). f \<noteq> fk \<or> d \<noteq> dk"
  have z: "zip (take (bn_num n) (bn_fnv n)) (take (bn_num n) (bn_djb n)) = map (\<lambda>x. (fst x, fst (snd x))) its"
    using c(1,2,4) by (simp add: zip_map_map zip_same_conv_map comp_def)
  have i: "i = scan ?P (map (\<lambda>x. (fst x, fst (snd x))) its)" unfolding i_def z ..
  show "\<exists>v. its ! i = (fk, dk, v)" if lt: "i < length its"
  proof -
    have "\<not> ?P (map (\<lambda>x. (fst x, fst (snd x))) its ! i)"
      unfolding i by (rule scan_stop) (use lt in \<open>simp add: i\<close>)
    then show ?thesis using lt by (cases "its ! i") auto
  qed
  assume nl: "\<not> i < length its"
  have "i \<le> length its" using scan_le [of ?P "map (\<lambda>x. (fst x, fst (snd x))) its"] i by simp
  moreover have "(fk, dk, v) \<notin> set its" for v
  proof
    assume "(fk, dk, v) \<in> set its"
    then have "(fk, dk) \<in> set (map (\<lambda>x. (fst x, fst (snd x))) its)" by force
    with scan_all [of ?P "map (\<lambda>x. (fst x, fst (snd x))) its" "(fk, dk)"] nl show False by (simp add: i)
  qed
  ultimately show "i = length its \<and> (\<forall>v. (fk, dk, v) \<notin> set its)" using nl by simp
qed

definition deleted :: "nat \<Rightarrow> nat set \<Rightarrow> index_map \<Rightarrow> u64 \<Rightarrow> u64 \<Rightarrow> bpt \<Rightarrow> bool \<Rightarrow> bpt \<Rightarrow> bool" where
  "deleted r T M f d s b s' \<longleftrightarrow> (b \<longleftrightarrow> (\<exists>v. M f = Some (d, v))) \<and> keeps T s s' \<and> (\<not> b \<longrightarrow> s' = s)
     \<and> (\<exists>T' \<subseteq> T. bpt_rep s' r T' (if b then M(f := None) else M))"

lemma bpt_delete_ok:
  assumes rep: "bpt_rep s r T M" and h: "fnv1a_hash_64 nm = Some fk" "djb2_hash_64 nm = Some dk"
  shows "\<exists>b s'. bpt_delete s (Some r) (Some nm) = Some (b, s') \<and> deleted r T M fk dk s b s'"
proof -
  obtain q n its fs where q: "search_leaf (bp_nd s) (Some r) fk = Some (Some q)" "bp_nd s q = Some n"
    and sp: "spot s (Lf q its) fs" and sc: "scope (Lf q its) fs = T" and r: "adr (plug (Lf q its) fs) = r"
    and two: "fs \<noteq> [] \<longrightarrow> 2 \<le> length its" and ln: "leaf_node n its (up fs)"
    and all: "set (lcont fs @ its @ rcont fs) = {(k, dv). M k = Some dv}" and M: "\<forall>dv. M fk = Some dv \<longleftrightarrow> (fk, dv) \<in> set its"
    by (rule delete_spot [OF rep, where fk = fk]) (rule that)
  note c = leaf_columns [OF ln]
  let ?i = "scan (\<lambda>(f, d). f \<noteq> fk \<or> d \<noteq> dk) (zip (take (bn_num n) (bn_fnv n)) (take (bn_num n) (bn_djb n)))"
  note ds = delete_scan [OF ln refl, where fk = fk and dk = dk]
  show ?thesis
  proof (cases "?i < length its")
    case False
    then have "bpt_delete s (Some r) (Some nm) = Some (False, s)"
      using h q c ds(2) by (simp add: bpt_delete_def Let_def)
    moreover have "deleted r T M fk dk s False s"
      using ds(2) [OF False] M rep spotD(5) [OF sp] by (auto simp: deleted_def keeps_def)
    ultimately show ?thesis by blast
  next
    case True
    obtain v where it: "its ! ?i = (fk, dk, v)" using ds(1) [OF True] by blast
    obtain f d x where sh: "shift_down (bn_fnv n) ?i (bn_num n - 1) = Some f" "shift_down (bn_djb n) ?i (bn_num n - 1) = Some d"
      "shift_down (bn_data n) ?i (bn_num n - 1) = Some x"
      "leaf_node (n\<lparr>bn_fnv := f, bn_djb := d, bn_data := x, bn_num := bn_num n - 1\<rparr>) (without ?i its) (up fs)"
      using leaf_shift [OF ln True] by blast
    let ?m = "(bp_nd s)(q \<mapsto> n\<lparr>bn_fnv := f, bn_djb := d, bn_data := x, bn_num := bn_num n - 1\<rparr>)"
    let ?s = "s\<lparr>bp_nd := ?m\<rparr>" and ?w = "without ?i its"
    have srt: "sorted_wrt (<) (map fst (lcont fs @ its @ rcont fs))" using spotD(6) [OF sp] by simp
    note wk = without_key [OF srt True]
    have sp': "spot ?s (Lf q ?w) fs" by (rule spot_change [OF sp]) (use sh(4) wk(2) in simp_all)
    have ne: "fs \<noteq> [] \<longrightarrow> ?w \<noteq> []" using two length_without [OF True] by auto
    obtain s' where s': "balance_leaf ?s r q = Some s'" "settled r ?s (Lf q ?w) fs s'"
      using balance_leaf_ok [OF sp' ne] r by (auto simp: adr_plug split: if_splits)
    have "keeps T s ?s" using spotD(5) [OF sp] sc by (auto simp: keeps_def)
    then have "rebuilt T r (lcont fs @ content (Lf q ?w) @ rcont fs) s s'"
      by (rule keeps_rebuilt [OF _ s'(2)]) (use sc in auto)
    then have rb: "rebuilt T r (lcont fs @ ?w @ rcont fs) s s'" by (simp only: content.simps)
    have "set (lcont fs @ ?w @ rcont fs) = {(k, dv). (M(fk := None)) k = Some dv}" unfolding wk(1) all it by (auto split: if_splits)
    from rebuilt_rep [OF rb this] have "\<exists>T' \<subseteq> T. bpt_rep s' r T' (M(fk := None))" .
    moreover have "M fk = Some (dk, v)" using M it True by (metis nth_mem)
    moreover have "keeps T s s'" using rb by (simp add: rebuilt_def)
    ultimately have "deleted r T M fk dk s True s'" by (simp add: deleted_def)
    moreover have "bpt_delete s (Some r) (Some nm) = Some (True, s')"
      using h q c sh(1-3) s'(1) True by (simp add: bpt_delete_def Let_def)
    ultimately show ?thesis by blast
  qed
qed

section \<open>An index from which names can be erased\<close>

text \<open>
  The contract of \<open>name_index\<close> with an operation that erases a name: it says whether the name was stored,
  gives nodes back, and leaves other indexes alone.
\<close>

locale erasable_index = name_index +
  fixes erase :: "'s \<Rightarrow> nat \<Rightarrow> cstr \<Rightarrow> (bool \<times> 's) option"
  assumes erase_rep: "rep s r T M \<Longrightarrow> key nm = Some (f, d) \<Longrightarrow> \<exists>b s'. erase s r nm = Some (b, s') \<and> (b \<longleftrightarrow> (\<exists>v. M f = Some (d, v)))
      \<and> (\<exists>T' \<subseteq> T. rep s' r T' (if b then M(f := None) else M))"
    and erase_frame: "rep s r T M \<Longrightarrow> key nm = Some (f, d) \<Longrightarrow> erase s r nm = Some (b, s') \<Longrightarrow>
      rep s r2 T2 M2 \<Longrightarrow> T \<inter> T2 = {} \<Longrightarrow> rep s' r2 T2 M2"
begin

lemma erase_lookup:
  assumes "rep s r T M" "key nm = Some (f, d)" "erase s r nm = Some (b, s')"
  shows "lookup s' r nm = Some None"
proof -
  obtain T' where T': "b \<longleftrightarrow> (\<exists>v. M f = Some (d, v))" "rep s' r T' (if b then M(f := None) else M)"
    using erase_rep [OF assms(1,2)] assms(3) by auto
  have "stored (if b then M(f := None) else M) f d = None" using T'(1) by (auto simp: stored_def split: option.split)
  then show ?thesis using lookup_rep [OF T'(2) assms(2)] by simp
qed

lemma erase_other:
  assumes "rep s r T M" "key nm = Some (f, d)" "erase s r nm = Some (b, s')" "key nm' = Some (f', d')" "(f', d') \<noteq> (f, d)"
  shows "lookup s' r nm' = lookup s r nm'"
proof -
  obtain T' where T': "b \<longleftrightarrow> (\<exists>v. M f = Some (d, v))" "rep s' r T' (if b then M(f := None) else M)"
    using erase_rep [OF assms(1,2)] assms(3) by auto
  have "stored (if b then M(f := None) else M) f' d' = stored M f' d'"
    using T'(1) assms(5) by (auto simp: stored_def split: option.split)
  then show ?thesis using lookup_rep [OF T'(2) assms(4)] lookup_rep [OF assms(1,4)] by simp
qed

text \<open>Storing a name and erasing it again restores the map.\<close>

lemma store_erase:
  assumes "rep s r T M" "key nm = Some (f, d)" "store s r nm v = Some (True, s1)"
  shows "\<exists>s2 T2. erase s1 r nm = Some (True, s2) \<and> rep s2 r T2 M"
proof -
  obtain T1 where T1: "M f = None" "rep s1 r T1 (M(f \<mapsto> (d, v)))" using store_True [OF assms] by blast
  have "(M(f \<mapsto> (d, v)))(f := None) = M" using T1(1) by auto
  then show ?thesis using erase_rep [OF T1(2) assms(2)] by fastforce
qed

text \<open>Two indexes in one store: erasing from the first keeps both.\<close>

lemma erase_pair:
  assumes "rep s r T M" "rep s r2 T2 M2" "T \<inter> T2 = {}" "key nm = Some (f, d)"
  shows "\<exists>b s' T'. erase s r nm = Some (b, s') \<and> rep s' r T' (if b then M(f := None) else M) \<and> rep s' r2 T2 M2 \<and> T' \<inter> T2 = {}
    \<and> (b \<longleftrightarrow> (\<exists>v. M f = Some (d, v)))"
proof -
  obtain b s' T' where e: "erase s r nm = Some (b, s')" "b \<longleftrightarrow> (\<exists>v. M f = Some (d, v))" "T' \<subseteq> T"
    "rep s' r T' (if b then M(f := None) else M)" using erase_rep [OF assms(1,4)] by blast
  moreover have "T' \<inter> T2 = {}" using e(3) assms(3) by blast
  ultimately show ?thesis using erase_frame [OF assms(1,4) e(1) assms(2,3)] by blast
qed

end

definition bpt_erase :: "bpt \<Rightarrow> nat \<Rightarrow> cstr \<Rightarrow> (bool \<times> bpt) option" where
  "bpt_erase s r nm = bpt_delete s (Some r) (Some nm)"

lemma bpt_erase_ok:
  assumes "bpt_rep s r T M" "name_key nm = Some (f, d)"
  shows "\<exists>b s'. bpt_erase s r nm = Some (b, s') \<and> deleted r T M f d s b s'"
  using bpt_delete_ok [OF assms(1)] assms(2) by (simp add: name_key_Some bpt_erase_def)

interpretation ie: erasable_index bpt_rep "\<lambda>s. owned (bp_heap s)" name_key bpt_lookup bpt_store bpt_erase
proof
  fix s s' :: bpt and r T M nm f d b r2 T2 M2
  assume rep: "bpt_rep s r T M" and key: "name_key nm = Some (f, d)"
  from bpt_erase_ok [OF this] obtain c t where t: "bpt_erase s r nm = Some (c, t)" "deleted r T M f d s c t" by blast
  show "\<exists>b s'. bpt_erase s r nm = Some (b, s') \<and> (b \<longleftrightarrow> (\<exists>v. M f = Some (d, v)))
      \<and> (\<exists>T' \<subseteq> T. bpt_rep s' r T' (if b then M(f := None) else M))"
    using t unfolding deleted_def by blast
  show "bpt_rep s' r2 T2 M2" if e: "bpt_erase s r nm = Some (b, s')" and r2: "bpt_rep s r2 T2 M2" "T \<inter> T2 = {}"
    using bpt_rep_kept [OF r2(1) _ r2(2)] t e by (simp add: deleted_def)
qed

section \<open>Properties\<close>

text \<open>C8: Deleting from the B+ tree is a map update. On a tree that represents \<open>M\<close> the call returns for every
  name that has hashes (no step of the rebalancing is stuck), and says whether an entry with both hashes was
  there. If so, the tree afterwards (every borrow, merge, freed node, recomputed separator and collapse of the
  root included) represents \<open>M\<close> without the entry, on a subset of its nodes; if not, nothing changed. Any other
  tree in the same heap keeps its map.\<close>

theorem bpt_delete_refines_map:
  assumes "bpt_rep s r T M" and "name_key nm = Some (f, d)"
  shows "\<exists>b s'. bpt_delete s (Some r) (Some nm) = Some (b, s') \<and> (b \<longleftrightarrow> (\<exists>v. M f = Some (d, v)))
    \<and> (if b then \<exists>T' \<subseteq> T. bpt_rep s' r T' (M(f := None)) else s' = s)
    \<and> (\<forall>r2 T2 M2. bpt_rep s r2 T2 M2 \<and> T \<inter> T2 = {} \<longrightarrow> bpt_rep s' r2 T2 M2)"
proof -
  obtain b s' where s': "bpt_erase s r nm = Some (b, s')" "deleted r T M f d s b s'"
    using bpt_erase_ok [OF assms] by blast
  moreover have "\<forall>r2 T2 M2. bpt_rep s r2 T2 M2 \<and> T \<inter> T2 = {} \<longrightarrow> bpt_rep s' r2 T2 M2"
    using ie.erase_frame [OF assms s'(1)] by blast
  ultimately show ?thesis unfolding bpt_erase_def deleted_def by (cases b) auto
qed

lemma one_entry:
  obtains s s1 T where "bpt_rep s 24 {24} Map.empty" "bpt_insert s (Some 24) (Some (cstr_of [97])) 7 = Some (True, s1)"
    "bpt_rep s1 24 T [0xAF63DC4C8601EC8C \<mapsto> (177670, 7)]"
proof -
  obtain s where s: "bpt_rep s 24 {24} Map.empty" "bp_nd s 24 = Some (zero_node\<lparr>bn_leaf := True\<rparr>)" by (rule fresh_index_node)
  obtain s1 where s1: "bpt_insert s (Some 24) (Some (cstr_of [97])) 7 = Some (True, s1)"
    using bpt_insert_empty [OF s(2) name_a] by blast
  then have "bpt_store s 24 (cstr_of [97]) 7 = Some (True, s1)" by (simp add: bpt_store_def)
  from ix.store_True [OF s(1) name_a this] obtain T where
    "bpt_rep s1 24 T [0xAF63DC4C8601EC8C \<mapsto> (177670, 7)]" by blast
  with that s(1) s1 show ?thesis by blast
qed

lemma bpt_delete_refines_map_witness:
  "\<exists>s s' T. bpt_delete s (Some 24) (Some (cstr_of [97])) = Some (True, s') \<and> bpt_rep s' 24 T Map.empty"
proof -
  obtain s T where s: "bpt_rep s 24 T [0xAF63DC4C8601EC8C \<mapsto> (177670, 7)]" by (rule one_entry)
  have "[0xAF63DC4C8601EC8C \<mapsto> (177670, 7)](0xAF63DC4C8601EC8C := None) = (Map.empty :: index_map)" by auto
  with bpt_delete_refines_map [OF s name_a] show ?thesis by fastforce
qed

end
