(* ===== verification/Mem.thy ===== *)
theory Mem
  imports Prelude
begin

text \<open>
  Flat physical memory and the byte loops over it: \<^verbatim>\<open>memcpy\<close> of \<^verbatim>\<open>include/tools/_asm.h\<close> and
  \<^verbatim>\<open>memset\<close> of \<^verbatim>\<open>src/global/io.c\<close>. An address is a \<open>nat\<close>; the machine is flat, so every access
  is defined. The copy runs upwards byte by byte, so overlapping regions behave as in the code.
\<close>

type_synonym mem = "nat \<Rightarrow> u8"

fun memcpy_from :: "mem \<Rightarrow> nat \<Rightarrow> nat \<Rightarrow> nat \<Rightarrow> nat \<Rightarrow> mem" where
  "memcpy_from m dst src i 0 = m"
| "memcpy_from m dst src i (Suc k) = memcpy_from (m(dst + i := m (src + i))) dst src (i + 1) k"

definition memcpy :: "mem \<Rightarrow> nat \<Rightarrow> nat \<Rightarrow> nat \<Rightarrow> mem" where
  "memcpy m dst src sz = memcpy_from m dst src 0 sz"

fun memset_from :: "mem \<Rightarrow> nat \<Rightarrow> u8 \<Rightarrow> nat \<Rightarrow> mem" where
  "memset_from m p v 0 = m"
| "memset_from m p v (Suc k) = memset_from (m(p := v)) (p + 1) v k"

definition memset :: "mem \<Rightarrow> nat \<Rightarrow> u32 \<Rightarrow> nat \<Rightarrow> mem" where
  "memset m p v sz = memset_from m p (ucast v) sz"

lemma memcpy_from_eq:
  "dst + i + k \<le> src + i \<or> src + i + k \<le> dst + i \<Longrightarrow>
     memcpy_from m dst src i k
       = (\<lambda>a. if dst + i \<le> a \<and> a < dst + i + k then m (src + (a - dst)) else m a)"
proof (induction k arbitrary: m i)
  case 0
  then show ?case by (auto simp: fun_eq_iff)
next
  case (Suc k)
  let ?m = "m(dst + i := m (src + i))"
  have IH: "memcpy_from ?m dst src (i + 1) k
      = (\<lambda>a. if dst + (i + 1) \<le> a \<and> a < dst + (i + 1) + k then ?m (src + (a - dst)) else ?m a)"
    using Suc.prems by (intro Suc.IH) auto
  show ?case
  proof (rule ext)
    fix a
    have "?m (src + (a - dst)) = m (src + (a - dst))" if "dst + (i + 1) \<le> a" "a < dst + (i + 1) + k"
      using Suc.prems that by auto
    then show "memcpy_from m dst src i (Suc k) a
        = (if dst + i \<le> a \<and> a < dst + i + Suc k then m (src + (a - dst)) else m a)"
      unfolding memcpy_from.simps IH by (cases "a = dst + i") auto
  qed
qed

text \<open>On regions that do not overlap \<open>memcpy\<close> is the simultaneous copy.\<close>

lemma memcpy_eq:
  assumes "dst + n \<le> src \<or> src + n \<le> dst"
  shows "memcpy m dst src n = (\<lambda>a. if dst \<le> a \<and> a < dst + n then m (src + (a - dst)) else m a)"
  using memcpy_from_eq [of dst 0 n src m] assms by (simp add: memcpy_def)

lemma memcpy_frame:
  "a < dst \<or> dst + n \<le> a \<Longrightarrow> memcpy m dst src n a = m a"
proof -
  have "a < dst + i \<or> dst + i + k \<le> a \<Longrightarrow> memcpy_from m dst src i k a = m a" for i k m
    by (induction k arbitrary: i m) auto
  from this [of 0 n m] show "a < dst \<or> dst + n \<le> a \<Longrightarrow> ?thesis" by (simp add: memcpy_def)
qed

lemma memset_from_eq:
  "memset_from m p v k = (\<lambda>a. if p \<le> a \<and> a < p + k then v else m a)"
  by (induction k arbitrary: m p) (auto simp: fun_eq_iff)

lemma memset_eq: "memset m p v n = (\<lambda>a. if p \<le> a \<and> a < p + n then ucast v else m a)"
  by (simp add: memset_def memset_from_eq)

section \<open>Little-endian reads and writes\<close>

text \<open>How the AArch64 core reads and writes an integer of \<open>n\<close> bytes.\<close>

fun le_nat :: "mem \<Rightarrow> nat \<Rightarrow> nat \<Rightarrow> nat" where
  "le_nat m a 0 = 0"
| "le_nat m a (Suc n) = unat (m a) + 256 * le_nat m (a + 1) n"

definition read16 :: "mem \<Rightarrow> nat \<Rightarrow> u16" where
  "read16 m a = of_nat (le_nat m a 2)"

definition read32 :: "mem \<Rightarrow> nat \<Rightarrow> u32" where
  "read32 m a = of_nat (le_nat m a 4)"

definition read64 :: "mem \<Rightarrow> nat \<Rightarrow> u64" where
  "read64 m a = of_nat (le_nat m a 8)"

fun le_put :: "mem \<Rightarrow> nat \<Rightarrow> nat \<Rightarrow> nat \<Rightarrow> mem" where
  "le_put m a 0 v = m"
| "le_put m a (Suc n) v = le_put (m(a := of_nat (v mod 256))) (a + 1) n (v div 256)"

lemma le_nat_less: "le_nat m a n < 256 ^ n"
proof (induction n arbitrary: a)
  case (Suc n)
  have "unat (m a) < 256" using unsigned_less [of "m a"] by simp
  with Suc [of "a + 1"] show ?case by simp
qed simp

lemma le_put_frame: "b < a \<or> a + n \<le> b \<Longrightarrow> le_put m a n v b = m b"
  by (induction n arbitrary: m a v) auto

lemma le_nat_cong: "(\<And>i. i < n \<Longrightarrow> m (a + i) = m' (a + i)) \<Longrightarrow> le_nat m a n = le_nat m' a n"
proof (induction n arbitrary: a)
  case (Suc n)
  have "le_nat m (a + 1) n = le_nat m' (a + 1) n"
    using Suc.prems [of "Suc _"] by (intro Suc.IH) simp
  moreover have "m a = m' a" using Suc.prems [of 0] by simp
  ultimately show ?case by simp
qed simp

lemma le_nat_put: "le_nat (le_put m a n v) a n = v mod 256 ^ n"
proof (induction n arbitrary: m a v)
  case (Suc n)
  let ?m = "m(a := of_nat (v mod 256))"
  have "le_put ?m (a + 1) n (v div 256) a = of_nat (v mod 256)"
    by (subst le_put_frame) auto
  moreover have "unat (of_nat (v mod 256) :: u8) = v mod 256"
    by (simp add: unat_of_nat)
  moreover have "le_nat (le_put ?m (a + 1) n (v div 256)) (a + 1) n = v div 256 mod 256 ^ n"
    by (rule Suc)
  ultimately show ?case by (simp only: le_nat.simps le_put.simps power_Suc mod_mult2_eq add.commute)
qed simp

lemma le_nat_shift: "(\<And>i. i < n \<Longrightarrow> m (a + i) = m' (b + i)) \<Longrightarrow> le_nat m a n = le_nat m' b n"
proof (induction n arbitrary: a b)
  case (Suc n)
  have "le_nat m (a + 1) n = le_nat m' (b + 1) n"
    using Suc.prems [of "Suc _"] by (intro Suc.IH) simp
  moreover have "m a = m' b" using Suc.prems [of 0] by simp
  ultimately show ?case by simp
qed simp

lemma le_nat_zero: "(\<And>i. i < n \<Longrightarrow> m (a + i) = 0) \<Longrightarrow> le_nat m a n = 0"
proof (induction n arbitrary: a)
  case (Suc n)
  have "le_nat m (a + 1) n = 0" using Suc.prems [of "Suc _"] by (intro Suc.IH) simp
  then show ?case using Suc.prems [of 0] by simp
qed simp

lemma le_nat_put_frame: "b + n \<le> a \<or> a + k \<le> b \<Longrightarrow> le_nat (le_put m a k v) b n = le_nat m b n"
  by (rule le_nat_cong) (auto intro!: le_put_frame)

lemma read64_put [simp]: "read64 (le_put m a 8 (unat (v :: u64))) a = v"
proof -
  have "unat v < 256 ^ 8" using unat_lt_pow [of v] by simp
  then show ?thesis by (simp add: read64_def le_nat_put)
qed

lemma read64_put_frame: "b + 8 \<le> a \<or> a + k \<le> b \<Longrightarrow> read64 (le_put m a k v) b = read64 m b"
  by (simp add: read64_def le_nat_put_frame)

end
