(* ===== verification/FM.thy ===== *)
theory FM
  imports Mem BPT_Delete
begin

text \<open>
  The file manager of \<^verbatim>\<open>src/manage/fm.c\<close>: a table of file control blocks and one of directories,
  each found by name through a B+ tree, and file contents in slots of \<open>MAX_FILE_SIZE\<close> bytes
  from \<open>base\<close>. A pointer to a control block is its index. Bit fields keep their widths by an
  explicit \<open>mod\<close>; nothing writes the dates; the checksum field, which nothing reads or writes, is left out.
\<close>

definition MAX_FILE_NAME :: nat where "MAX_FILE_NAME = 32"
definition MAX_FILE_SIZE :: nat where "MAX_FILE_SIZE = 0x100000"
definition MAX_FILE_NUM :: nat where "MAX_FILE_NUM = 0x1000"
definition MAX_DIR_FILE_NUM :: nat where "MAX_DIR_FILE_NUM = 16"
definition MAX_DIR_NUM :: nat where "MAX_DIR_NUM = MAX_FILE_NUM div MAX_DIR_FILE_NUM"

record fcb_t =
  f_alias :: "u8 list"
  f_lens :: nat \<comment> \<open>11 bits\<close>
  f_fid :: nat \<comment> \<open>5 bits\<close>
  f_depth :: nat
  f_auth :: nat \<comment> \<open>10 bits\<close>
  f_is_alloc :: bool
  f_is_lock :: bool
  f_YYYY :: nat
  f_MM :: nat
  f_DD :: nat

record fcb_e =
  d_alias :: "u8 list"
  d_files :: "nat list"
  d_dirs :: "nat list"
  d_p_fid :: nat \<comment> \<open>6 bits\<close>
  d_fid :: nat \<comment> \<open>6 bits\<close>
  d_depth :: nat
  d_auth :: nat \<comment> \<open>10 bits\<close>
  d_dir_num :: nat \<comment> \<open>6 bits\<close>
  d_dir_dnum :: nat \<comment> \<open>16 bits\<close>
  d_YYYY :: nat
  d_MM :: nat
  d_DD :: nat

record FMv3_record =
  fm_base :: nat
  cur_ptr :: nat
  all_file_num :: nat
  all_dir_num :: nat
  fm_root :: "nat option"
  dir_root :: "nat option"
  FMv3_mem :: "nat \<Rightarrow> fcb_t"
  FMv3_dir_mem :: "nat \<Rightarrow> fcb_e"
  fm_bpt :: bpt

text \<open>Reading the value behind the pointer \<open>bpt_search\<close> returned and using it as an index.\<close>

definition fm_find :: "FMv3_record \<Rightarrow> cstr option \<Rightarrow> nat option option" where
  "fm_find s name = do {
     q \<leftarrow> bpt_search (bp_nd (fm_bpt s)) (fm_root s) name;
     (case q of
        None \<Rightarrow> Some None
      | Some _ \<Rightarrow> do {
          v \<leftarrow> bpt_read (bp_nd (fm_bpt s)) q;
          if unat v < MAX_FILE_NUM then Some (Some (unat v)) else None })
   }"

definition fm_dir_find :: "FMv3_record \<Rightarrow> cstr option \<Rightarrow> nat option option" where
  "fm_dir_find s name = do {
     q \<leftarrow> bpt_search (bp_nd (fm_bpt s)) (dir_root s) name;
     (case q of
        None \<Rightarrow> Some None
      | Some _ \<Rightarrow> do {
          v \<leftarrow> bpt_read (bp_nd (fm_bpt s)) q;
          if unat v < MAX_DIR_NUM then Some (Some (unat v)) else None })
   }"

definition fm_dir_in :: "FMv3_record \<Rightarrow> nat option \<Rightarrow> nat \<Rightarrow> (bool \<times> FMv3_record) option" where
  "fm_dir_in s dir file_id =
     (case dir of
        None \<Rightarrow> Some (False, s)
      | Some i \<Rightarrow>
          if file_id > all_file_num s then Some (False, s)
          else do {
            let d = FMv3_dir_mem s i;
            fs \<leftarrow> aset (d_files d) (d_dir_num d) file_id;
            let d' = d\<lparr>d_files := fs, d_dir_num := (d_dir_num d + 1) mod 64\<rparr>;
            Some (True, s\<lparr>FMv3_dir_mem := (FMv3_dir_mem s)(i := d')\<rparr>)
          })"

definition fm_dir_out :: "FMv3_record \<Rightarrow> nat option \<Rightarrow> nat \<Rightarrow> (bool \<times> FMv3_record) option" where
  "fm_dir_out s dir file_id =
     (case dir of
        None \<Rightarrow> Some (False, s)
      | Some i \<Rightarrow>
          if file_id \<ge> all_file_num s then Some (False, s)
          else do {
            let d = FMv3_dir_mem s i;
            fs \<leftarrow> aset (d_files d) file_id 0;
            Some (True, s\<lparr>FMv3_dir_mem := (FMv3_dir_mem s)(i := d\<lparr>d_files := fs\<rparr>)\<rparr>)
          })"

text \<open>The 32 bytes copied from the name, whatever its length, and the terminator.\<close>

definition alias_of :: "cstr \<Rightarrow> u8 list" where
  "alias_of nm = cbytes nm MAX_FILE_NAME @ [0]"

definition fm_create ::
  "FMv3_record \<Rightarrow> cstr option \<Rightarrow> u32 \<Rightarrow> u16 \<Rightarrow> (nat option \<times> FMv3_record) option" where
  "fm_create s name sz auth =
     (if unat sz > MAX_FILE_SIZE then Some (None, s)
      else if all_file_num s \<ge> MAX_FILE_NUM then Some (None, s)
      else do {
        let i = all_file_num s;
        (ret, b) \<leftarrow> bpt_insert (fm_bpt s) (fm_root s) name (of_nat i);
        let s1 = s\<lparr>fm_bpt := b\<rparr>;
        if \<not> ret then Some (None, s1)
        else do {
          nm \<leftarrow> name;
          let f = (FMv3_mem s1 i)\<lparr>f_alias := alias_of nm, f_is_alloc := True,
                    f_lens := (unat sz div 1024) mod 2 ^ 11, f_fid := i mod 2 ^ 5,
                    f_auth := unat auth mod 2 ^ 10\<rparr>;
          let s2 = s1\<lparr>FMv3_mem := (FMv3_mem s1)(i := f), all_file_num := i + 1\<rparr>;
          dir \<leftarrow> fm_dir_find s2 (Some (lit ''root''));
          (_, s3) \<leftarrow> fm_dir_in s2 dir (f_fid f);
          Some (Some i, s3)
        }
      })"

definition fm_delete :: "FMv3_record \<Rightarrow> cstr option \<Rightarrow> (bool \<times> FMv3_record) option" where
  "fm_delete s name = do {
     (ret, b) \<leftarrow> bpt_delete (fm_bpt s) (fm_root s) name; Some (ret, s\<lparr>fm_bpt := b\<rparr>) }"

text \<open>
  \<open>depth\<close> is unsigned, so \<^verbatim>\<open>depth < 0\<close> never holds. The depth check comes after the name has
  been inserted and before the counter is advanced.
\<close>

definition fm_dir_create ::
  "FMv3_record \<Rightarrow> cstr option \<Rightarrow> u32 \<Rightarrow> u16 \<Rightarrow> u16 \<Rightarrow> (nat option \<times> FMv3_record) option" where
  "fm_dir_create s name p_fid depth auth =
     (if all_dir_num s \<ge> MAX_FILE_NUM then Some (None, s)
      else do {
        let i = all_dir_num s;
        (ret, b) \<leftarrow> bpt_insert (fm_bpt s) (dir_root s) name (of_nat i);
        let s1 = s\<lparr>fm_bpt := b\<rparr>;
        if \<not> ret then Some (None, s1)
        else if i \<ge> MAX_DIR_NUM then None
        else do {
          nm \<leftarrow> name;
          let d = (FMv3_dir_mem s1 i)\<lparr>d_alias := alias_of nm,
                    d_files := replicate MAX_DIR_FILE_NUM 0, d_dirs := replicate MAX_DIR_FILE_NUM 0\<rparr>;
          let s2 = s1\<lparr>FMv3_dir_mem := (FMv3_dir_mem s1)(i := d)\<rparr>;
          if unat depth > 2 then Some (None, s2)
          else do {
            s3 \<leftarrow> (if depth = 0
                  then Some (s2\<lparr>FMv3_dir_mem := (FMv3_dir_mem s2)(i := d\<lparr>d_p_fid := 0\<rparr>)\<rparr>)
                  else if unat p_fid \<ge> MAX_DIR_NUM then None
                  else do {
                    let s2' = s2\<lparr>FMv3_dir_mem := (FMv3_dir_mem s2)(i := d\<lparr>d_p_fid := unat p_fid mod 2 ^ 6\<rparr>)\<rparr>;
                    let up = FMv3_dir_mem s2' (unat p_fid);
                    ds \<leftarrow> aset (d_dirs up) (d_dir_dnum up) i;
                    Some (s2'\<lparr>FMv3_dir_mem := (FMv3_dir_mem s2')(unat p_fid :=
                       up\<lparr>d_dirs := ds, d_dir_dnum := (d_dir_dnum up + 1) mod 2 ^ 16\<rparr>)\<rparr>)
                  });
            let d' = (FMv3_dir_mem s3 i)\<lparr>d_depth := unat depth, d_fid := i mod 2 ^ 6,
                       d_auth := unat auth mod 2 ^ 10, d_dir_num := 0, d_dir_dnum := 0\<rparr>;
            Some (Some i, s3\<lparr>FMv3_dir_mem := (FMv3_dir_mem s3)(i := d'), all_dir_num := i + 1\<rparr>)
          }
        }
      })"

definition fm_dir_delete :: "FMv3_record \<Rightarrow> cstr option \<Rightarrow> (bool \<times> FMv3_record) option" where
  "fm_dir_delete s name = do {
     (ret, b) \<leftarrow> bpt_delete (fm_bpt s) (dir_root s) name; Some (ret, s\<lparr>fm_bpt := b\<rparr>) }"

definition fm_init :: "FMv3_record \<Rightarrow> nat \<Rightarrow> FMv3_record option" where
  "fm_init s addr = do {
     (r, b1) \<leftarrow> create_node (fm_bpt s) True;
     (dr, b2) \<leftarrow> create_node b1 True;
     (_, s') \<leftarrow> fm_dir_create
       (s\<lparr>fm_base := addr, cur_ptr := 0, all_file_num := 1, all_dir_num := 1,
          fm_root := r, dir_root := dr, fm_bpt := b2\<rparr>)
       (Some (lit ''root'')) 0 0 777;
     Some s'
   }"

definition fm_execute :: "FMv3_record \<Rightarrow> FMv3_record" where
  "fm_execute s =
     (if fm_base s = 0 then s
      else let s1 = (if all_file_num s > MAX_FILE_NUM then s\<lparr>all_file_num := 0\<rparr> else s)
           in if cur_ptr s1 > MAX_FILE_NUM then s1\<lparr>cur_ptr := 0\<rparr> else s1)"

section \<open>Contents\<close>

definition fm_data_addr :: "FMv3_record \<Rightarrow> fcb_t \<Rightarrow> nat" where
  "fm_data_addr s f = fm_base s + f_fid f * MAX_FILE_SIZE"

text \<open>The size is clipped to the end of the file.\<close>

definition clip :: "fcb_t \<Rightarrow> nat \<Rightarrow> nat \<Rightarrow> nat" where
  "clip f sz offset =
     (let file_size = f_lens f * 1024 in
      if offset \<ge> file_size then 0 else if sz > file_size - offset then file_size - offset else sz)"

definition fm_write :: "FMv3_record \<Rightarrow> mem \<Rightarrow> nat option \<Rightarrow> nat \<Rightarrow> u32 \<Rightarrow> u32 \<Rightarrow> nat \<times> mem" where
  "fm_write s m file buf sz offset =
     (case file of
        None \<Rightarrow> (0, m)
      | Some i \<Rightarrow>
          let f = FMv3_mem s i; n = clip f (unat sz) (unat offset) in
          if unat offset \<ge> f_lens f * 1024 then (0, m)
          else (n, memcpy m (fm_data_addr s f + unat offset) buf n))"

definition fm_read :: "FMv3_record \<Rightarrow> mem \<Rightarrow> nat option \<Rightarrow> nat \<Rightarrow> u32 \<Rightarrow> u32 \<Rightarrow> nat \<times> mem" where
  "fm_read s m file buf sz offset =
     (case file of
        None \<Rightarrow> (0, m)
      | Some i \<Rightarrow>
          let f = FMv3_mem s i; n = clip f (unat sz) (unat offset) in
          if unat offset \<ge> f_lens f * 1024 then (0, m)
          else (n, memcpy m buf (fm_data_addr s f + unat offset) n))"

section \<open>The invariant\<close>

abbreviation root_name :: cstr where
  "root_name \<equiv> lit ''root''"

text \<open>
  \<open>fm_rep s M N\<close>: the two indexes are disjoint trees that hold the maps \<open>M\<close> (files) and \<open>N\<close>
  (directories), all their values are indexes of the tables, the name \<^verbatim>\<open>root\<close> is directory 1
  and every existing file has a slot number of five bits and at most 1024 KB.
\<close>

definition fm_rep :: "FMv3_record \<Rightarrow> index_map \<Rightarrow> index_map \<Rightarrow> bool" where
  "fm_rep s M N \<longleftrightarrow>
     (\<exists>r T dr D. fm_root s = Some r \<and> dir_root s = Some dr
        \<and> bpt_rep (fm_bpt s) r T M \<and> bpt_rep (fm_bpt s) dr D N \<and> T \<inter> D = {})
     \<and> (\<forall>f d v. M f = Some (d, v) \<longrightarrow> unat v < all_file_num s)
     \<and> (\<forall>f d v. N f = Some (d, v) \<longrightarrow> unat v < all_dir_num s)
     \<and> 1 \<le> all_file_num s \<and> all_file_num s \<le> MAX_FILE_NUM \<and> all_dir_num s \<le> MAX_DIR_NUM
     \<and> (\<exists>f d. name_key root_name = Some (f, d) \<and> N f = Some (d, 1))
     \<and> length (d_files (FMv3_dir_mem s 1)) = MAX_DIR_FILE_NUM
     \<and> (\<forall>i. 1 \<le> i \<and> i < all_file_num s \<longrightarrow>
           f_fid (FMv3_mem s i) = i mod 32 \<and> f_lens (FMv3_mem s i) \<le> 1024)"

lemma fm_repE:
  assumes "fm_rep s M N"
  obtains r T dr D where "fm_root s = Some r" "dir_root s = Some dr"
    "bpt_rep (fm_bpt s) r T M" "bpt_rep (fm_bpt s) dr D N" "T \<inter> D = {}"
  using assms by (auto simp: fm_rep_def)

lemma fm_find_eq:
  assumes "fm_rep s M N" "name_key nm = Some (f, d)"
  shows "fm_find s (Some nm) = Some (map_option unat (stored M f d))"
proof -
  obtain r T where r: "fm_root s = Some r" "bpt_rep (fm_bpt s) r T M"
    using assms(1) by (rule fm_repE)
  have h: "fnv1a_hash_64 nm = Some f" "djb2_hash_64 nm = Some d"
    using assms(2) by (simp_all add: name_key_Some)
  obtain q where q: "bpt_search (bp_nd (fm_bpt s)) (Some r) (Some nm) = Some q"
    "bpt_read (bp_nd (fm_bpt s)) q = stored M f d" "q = None \<longleftrightarrow> stored M f d = None"
    using bpt_search_ok [OF r(2) h] by (elim exE conjE)
  have "unat v < MAX_FILE_NUM" if "stored M f d = Some v" for v
    using that assms(1) by (force simp: stored_def fm_rep_def split: option.splits if_splits)
  with q r show ?thesis
    by (cases q; cases "stored M f d") (auto simp: fm_find_def)
qed

lemma fm_dir_find_eq:
  assumes "fm_rep s M N" "name_key nm = Some (f, d)"
  shows "fm_dir_find s (Some nm) = Some (map_option unat (stored N f d))"
proof -
  obtain r T where r: "dir_root s = Some r" "bpt_rep (fm_bpt s) r T N"
    using assms(1) by (rule fm_repE)
  have h: "fnv1a_hash_64 nm = Some f" "djb2_hash_64 nm = Some d"
    using assms(2) by (simp_all add: name_key_Some)
  obtain q where q: "bpt_search (bp_nd (fm_bpt s)) (Some r) (Some nm) = Some q"
    "bpt_read (bp_nd (fm_bpt s)) q = stored N f d" "q = None \<longleftrightarrow> stored N f d = None"
    using bpt_search_ok [OF r(2) h] by (elim exE conjE)
  have "unat v < MAX_DIR_NUM" if "stored N f d = Some v" for v
    using that assms(1) by (force simp: stored_def fm_rep_def split: option.splits if_splits)
  with q r show ?thesis
    by (cases q; cases "stored N f d") (auto simp: fm_dir_find_def)
qed

lemma fm_root_dir: "fm_rep s M N \<Longrightarrow> fm_dir_find s (Some root_name) = Some (Some 1)"
  using fm_dir_find_eq [of s M N root_name] by (auto simp: fm_rep_def stored_def)

lemma of_nat_file: "i < MAX_FILE_NUM \<Longrightarrow> unat (of_nat i :: u16) = i"
  by (simp add: unat_of_nat MAX_FILE_NUM_def)

text \<open>Creating a file while the root directory has room.\<close>

lemma fm_create_ok:
  assumes rep: "fm_rep s M N" and key: "name_key nm = Some (f, d)"
    and sz: "unat sz \<le> MAX_FILE_SIZE" and num: "all_file_num s < MAX_FILE_NUM"
    and room: "d_dir_num (FMv3_dir_mem s 1) < MAX_DIR_FILE_NUM"
  shows "\<exists>q s'. fm_create s (Some nm) sz auth = Some (q, s') \<and>
    (case q of
       Some i \<Rightarrow> i = all_file_num s \<and> M f = None \<and> fm_rep s' (M(f \<mapsto> (d, of_nat i))) N
         \<and> f_lens (FMv3_mem s' i) = unat sz div 1024
         \<and> d_dir_num (FMv3_dir_mem s' 1) = d_dir_num (FMv3_dir_mem s 1) + 1
         \<and> all_file_num s' = all_file_num s + 1
     | None \<Rightarrow> (M f \<noteq> None \<and> s' = s) \<or> (M f = None \<and> full (fm_bpt s')))"
proof -
  obtain r T dr D where r: "fm_root s = Some r" "dir_root s = Some dr"
    "bpt_rep (fm_bpt s) r T M" "bpt_rep (fm_bpt s) dr D N" "T \<inter> D = {}"
    using rep by (rule fm_repE)
  let ?i = "all_file_num s"
  let ?v = "of_nat ?i :: u16"
  obtain b s1 where s1: "bpt_store (fm_bpt s) r nm ?v = Some (b, s1)"
    "inserted r T M f (d, ?v) (fm_bpt s) b s1"
    using bpt_store_ok [OF r(3) key] by blast
  have ins: "bpt_insert (fm_bpt s) (fm_root s) (Some nm) ?v = Some (b, s1)"
    using s1(1) r(1) by (simp add: bpt_store_def)
  show ?thesis
  proof (cases b)
    case False
    then have "fm_create s (Some nm) sz auth = Some (None, s\<lparr>fm_bpt := s1\<rparr>)"
      using sz num ins by (simp add: fm_create_def)
    moreover have "(M f \<noteq> None \<and> s1 = fm_bpt s) \<or> (M f = None \<and> full s1)"
      using s1(2) False by (simp add: inserted_def)
    ultimately show ?thesis by auto
  next
    case True
    with s1 have st: "bpt_store (fm_bpt s) r nm ?v = Some (True, s1)" by simp
    obtain T' where T': "bpt_rep s1 r T' (M(f \<mapsto> (d, ?v)))" "bpt_rep s1 dr D N" "T' \<inter> D = {}"
      using ix.store_pair [OF r(3,4,5) key st] by blast
    have Mf: "M f = None" using ix.store_True [OF r(3) key st] by blast
    let ?f = "(FMv3_mem s ?i)\<lparr>f_alias := alias_of nm, f_is_alloc := True,
                    f_lens := (unat sz div 1024) mod 2 ^ 11, f_fid := ?i mod 2 ^ 5,
                    f_auth := unat auth mod 2 ^ 10\<rparr>"
    let ?s2 = "s\<lparr>fm_bpt := s1, FMv3_mem := (FMv3_mem s)(?i := ?f), all_file_num := ?i + 1\<rparr>"
    have lens: "(unat sz div 1024) mod 2 ^ 11 = unat sz div 1024" "unat sz div 1024 \<le> 1024"
      using sz by (auto simp: MAX_FILE_SIZE_def)
    have rep2: "fm_rep ?s2 (M(f \<mapsto> (d, ?v))) N"
      using rep T' r num lens
      by (auto simp: fm_rep_def of_nat_file less_Suc_eq intro: less_SucI)
    let ?d = "FMv3_dir_mem s 1"
    let ?d' = "?d\<lparr>d_files := (d_files ?d)[d_dir_num ?d := ?i mod 32], d_dir_num := d_dir_num ?d + 1\<rparr>"
    let ?s3 = "?s2\<lparr>FMv3_dir_mem := (FMv3_dir_mem s)(1 := ?d')\<rparr>"
    have len: "length (d_files ?d) = 16" using rep by (simp add: fm_rep_def MAX_DIR_FILE_NUM_def)
    have "?i mod 32 \<le> ?i + 1" by (meson le_SucI mod_less_eq_dividend Suc_eq_plus1 le_trans le_add1)
    then have din: "fm_dir_in ?s2 (Some 1) (f_fid ?f) = Some (True, ?s3)"
      using room len by (simp add: fm_dir_in_def MAX_DIR_FILE_NUM_def Let_def)
    have "fm_create s (Some nm) sz auth = Some (Some ?i, ?s3)"
      using sz num ins True fm_root_dir [OF rep2] din by (simp add: fm_create_def Let_def)
    moreover have "fm_rep ?s3 (M(f \<mapsto> (d, ?v))) N"
      using rep2 by (simp add: fm_rep_def)
    ultimately show ?thesis using Mf lens by auto
  qed
qed

text \<open>The root directory is full: the store goes past the end of its \<^verbatim>\<open>files\<close> array.\<close>

lemma fm_create_overflow:
  assumes rep: "fm_rep s M N" and key: "name_key nm = Some (f, d)"
    and sz: "unat sz \<le> MAX_FILE_SIZE" and num: "all_file_num s < MAX_FILE_NUM"
    and full: "MAX_DIR_FILE_NUM \<le> d_dir_num (FMv3_dir_mem s 1)"
    and ins: "bpt_insert (fm_bpt s) (fm_root s) (Some nm) (of_nat (all_file_num s)) = Some (True, s1)"
  shows "fm_create s (Some nm) sz auth = None"
proof -
  obtain r T dr D where r: "fm_root s = Some r" "dir_root s = Some dr"
    "bpt_rep (fm_bpt s) r T M" "bpt_rep (fm_bpt s) dr D N" "T \<inter> D = {}"
    using rep by (rule fm_repE)
  have st: "bpt_store (fm_bpt s) r nm (of_nat (all_file_num s)) = Some (True, s1)"
    using ins r(1) by (simp add: bpt_store_def)
  have N: "bpt_rep s1 dr D N" using ix.store_frame [OF r(3) key st r(4,5)] .
  obtain f1 d1 where root: "name_key root_name = Some (f1, d1)" "N f1 = Some (d1, 1)"
    using rep by (auto simp: fm_rep_def)
  have h: "fnv1a_hash_64 root_name = Some f1" "djb2_hash_64 root_name = Some d1"
    using root(1) by (simp_all add: name_key_Some)
  obtain q where q: "bpt_search (bp_nd s1) (Some dr) (Some root_name) = Some q"
    "bpt_read (bp_nd s1) q = stored N f1 d1" "q = None \<longleftrightarrow> stored N f1 d1 = None"
    using bpt_search_ok [OF N h] by (elim exE conjE)
  then have find: "fm_dir_find s2 (Some root_name) = Some (Some 1)"
    if "fm_bpt s2 = s1" "dir_root s2 = Some dr" for s2
    using that root(2) by (cases q) (auto simp: fm_dir_find_def stored_def MAX_DIR_NUM_def
        MAX_FILE_NUM_def MAX_DIR_FILE_NUM_def)
  have "length (d_files (FMv3_dir_mem s 1)) = 16" using rep by (simp add: fm_rep_def MAX_DIR_FILE_NUM_def)
  moreover have "all_file_num s mod 32 \<le> all_file_num s + 1"
    by (meson le_add1 mod_less_eq_dividend le_trans)
  ultimately show ?thesis
    using sz num ins full find r(2)
    by (simp add: fm_create_def fm_dir_in_def aset_def MAX_DIR_FILE_NUM_def Let_def)
qed

section \<open>Initialisation\<close>

lemma root_key: "\<exists>f d. name_key root_name = Some (f, d)"
proof -
  have "terminated root_name 4"
    unfolding lit_def by (rule terminated_cstr_of) (simp_all add: of_char_def)
  then show ?thesis by (rule name_key_terminated)
qed

lemma create_node_alloc:
  assumes "heap_rep (bp_heap s) bs" "fst (alloc_list (unat BPT_NODE_SIZE + HDR) 0 bs) = Some a"
  shows "\<exists>s'. create_node s l = Some (Some a, s') \<and> bp_nd s' = (bp_nd s)(a \<mapsto> zero_node\<lparr>bn_leaf := l\<rparr>)
    \<and> heap_rep (bp_heap s') (snd (alloc_list (unat BPT_NODE_SIZE + HDR) 0 bs))"
proof -
  obtain h' where "heap_alloc (bp_heap s) BPT_NODE_SIZE = Some (Some a, h')"
    "heap_rep h' (snd (alloc_list (unat BPT_NODE_SIZE + HDR) 0 bs))"
    using heap_alloc_rep [OF assms(1) node_size_fits] assms(2) by metis
  then show ?thesis by (simp add: create_node_def)
qed

lemma touched_create:
  assumes "heap_inv (bp_heap s)" "create_node s l = Some (q, s')"
  shows "touched {} s s'"
  by (rule create_node_cases [OF assms(1), of l]) (use assms in \<open>auto simp: touched_def\<close>)

lemma fm_init_ok:
  assumes heap: "bp_heap (fm_bpt s) = heap_init h0"
  shows "\<exists>s' N. fm_init s addr = Some s' \<and> fm_rep s' Map.empty N \<and> fm_base s' = addr
    \<and> all_file_num s' = 1 \<and> d_dir_num (FMv3_dir_mem s' 1) = 0
    \<and> bp_nd (fm_bpt s') 24 = Some (zero_node\<lparr>bn_leaf := True\<rparr>) \<and> fm_root s' = Some 24
    \<and> heap_rep (bp_heap (fm_bpt s')) [(136, True), (136, True), (HEAP_SIZE - 272, False)]"
proof -
  let ?b = "fm_bpt s"
  obtain b1 where b1: "create_node ?b True = Some (Some 24, b1)"
    "bp_nd b1 = (bp_nd ?b)(24 \<mapsto> zero_node\<lparr>bn_leaf := True\<rparr>)"
    "heap_rep (bp_heap b1) [(136, True), (HEAP_SIZE - 136, False)]"
    using create_node_alloc [of ?b "[(HEAP_SIZE, False)]" 24 True] heap_init_rep [of h0] heap
    by (auto simp: HDR_def HEAP_SIZE_def BPT_NODE_SIZE_def)
  obtain b2 where b2: "create_node b1 True = Some (Some 160, b2)"
    "bp_nd b2 = (bp_nd b1)(160 \<mapsto> zero_node\<lparr>bn_leaf := True\<rparr>)"
    "heap_rep (bp_heap b2) [(136, True), (136, True), (HEAP_SIZE - 272, False)]"
    using create_node_alloc [OF b1(3), of 160 True]
    by (auto simp: HDR_def HEAP_SIZE_def BPT_NODE_SIZE_def)
  have inv: "heap_inv (bp_heap ?b)" using heap heap_init_inv by simp
  note r1 = bpt_rep_new [OF inv b1(1)]
  have inv1: "heap_inv (bp_heap b1)" using r1(1) by (simp add: bpt_rep_def)
  note r2 = bpt_rep_new [OF inv1 b2(1)]
  have own1: "24 \<in> owned (bp_heap b1)" using r1(1) by (simp add: bpt_rep_def)
  have "touched {} b1 b2"
    by (rule touched_create [OF inv1 b2(1)])
  then have r1': "bpt_rep b2 24 {24} Map.empty" using bpt_rep_touched [OF r1(1)] by blast
  obtain f d where key: "name_key root_name = Some (f, d)" using root_key by blast
  have "bp_nd b2 160 = Some (zero_node\<lparr>bn_leaf := True\<rparr>)" using b2 by simp
  from bpt_insert_empty [OF this key] obtain m where
    ins: "bpt_insert b2 (Some 160) (Some root_name) 1 = Some (True, b2\<lparr>bp_nd := m\<rparr>)" by blast
  let ?b3 = "b2\<lparr>bp_nd := m\<rparr>"
  have st: "bpt_store b2 160 root_name 1 = Some (True, ?b3)" using ins by (simp add: bpt_store_def)
  obtain T' where T': "bpt_rep ?b3 160 T' [f \<mapsto> (d, 1)]" "bpt_rep ?b3 24 {24} Map.empty" "T' \<inter> {24} = {}"
    using ix.store_pair [OF r2(1) r1' _ key st] by auto
  have m24: "bp_nd ?b3 24 = Some (zero_node\<lparr>bn_leaf := True\<rparr>)"
  proof -
    have "inserted 160 {160} Map.empty f (d, 1) b2 True ?b3" using bpt_store_inserted [OF r2(1) key st] .
    then have "\<forall>a \<in> owned (bp_heap b2) - {160}. bp_nd ?b3 a = bp_nd b2 a"
      by (simp add: inserted_def touched_def)
    moreover have "24 \<in> owned (bp_heap b2)" using r1' by (simp add: bpt_rep_def)
    ultimately show ?thesis using b1(2) b2(2) by simp
  qed
  let ?s1 = "s\<lparr>fm_base := addr, cur_ptr := 0, all_file_num := 1, all_dir_num := 1,
          fm_root := Some 24, dir_root := Some 160, fm_bpt := b2\<rparr>"
  obtain s' where s': "fm_dir_create ?s1 (Some root_name) 0 0 777 = Some (Some 1, s')"
    "fm_base s' = addr" "all_file_num s' = 1" "all_dir_num s' = 2" "fm_root s' = Some 24"
    "dir_root s' = Some 160" "fm_bpt s' = ?b3" "d_dir_num (FMv3_dir_mem s' 1) = 0"
    "length (d_files (FMv3_dir_mem s' 1)) = 16"
    using ins by (simp add: fm_dir_create_def MAX_FILE_NUM_def MAX_DIR_NUM_def MAX_DIR_FILE_NUM_def Let_def)
  have "fm_init s addr = Some s'"
    using b1(1) b2(1) s'(1) by (simp add: fm_init_def)
  moreover have "fm_rep s' Map.empty [f \<mapsto> (d, 1)]"
    using T' s' key
    by (auto simp: fm_rep_def MAX_FILE_NUM_def MAX_DIR_NUM_def MAX_DIR_FILE_NUM_def split: if_splits)
  ultimately show ?thesis using s' m24 b2(3) by auto
qed

section \<open>Properties\<close>

lemma clip_le: "clip f n off \<le> f_lens f * 1024 - off \<and> clip f n off \<le> n"
  by (auto simp: clip_def Let_def)

lemma fm_write_frame:
  assumes "fm_write s m (Some i) buf sz off = (n, m1)" "m1 x \<noteq> m x"
  shows "fm_data_addr s (FMv3_mem s i) \<le> x \<and> x < fm_data_addr s (FMv3_mem s i) + f_lens (FMv3_mem s i) * 1024"
proof -
  let ?f = "FMv3_mem s i"
  let ?a = "fm_data_addr s ?f + unat off" and ?n = "clip ?f (unat sz) (unat off)"
  have off: "unat off < f_lens ?f * 1024" and m1: "m1 = memcpy m ?a buf ?n"
    using assms by (auto simp: fm_write_def Let_def split: if_splits)
  then have "?a \<le> x \<and> x < ?a + ?n" using assms(2) memcpy_frame [of x ?a ?n m buf] by (metis not_le)
  then show ?thesis using clip_le [of ?f "unat sz" "unat off"] off by linarith
qed

text \<open>C9: Creating a file makes it findable and disturbs nothing else. On a file table in its
  invariant state, \<open>fm_create\<close> of a file of at most 1 MB, while the root directory has room, returns;
  when it gives a control block, that block has the requested length in KB, looking the name up
  finds it, every name with another FNV hash is found where it was, all directories are found
  where they were, and the invariant holds again. When it gives the null pointer, the name's hash
  was already present and nothing changed, or the heap has no room for a tree node.\<close>

theorem fm_create_find:
  assumes "fm_rep s M N" and "name_key nm = Some (f, d)"
    and "unat sz \<le> MAX_FILE_SIZE" and "all_file_num s < MAX_FILE_NUM"
    and "d_dir_num (FMv3_dir_mem s 1) < MAX_DIR_FILE_NUM"
  shows "\<exists>q s'. fm_create s (Some nm) sz auth = Some (q, s') \<and>
    (case q of
       Some i \<Rightarrow> fm_rep s' (M(f \<mapsto> (d, of_nat i))) N \<and> fm_find s' (Some nm) = Some (Some i)
         \<and> f_lens (FMv3_mem s' i) = unat sz div 1024
         \<and> (\<forall>nm' f' d'. name_key nm' = Some (f', d') \<longrightarrow>
              (f' \<noteq> f \<longrightarrow> fm_find s' (Some nm') = fm_find s (Some nm'))
              \<and> fm_dir_find s' (Some nm') = fm_dir_find s (Some nm'))
     | None \<Rightarrow> (M f \<noteq> None \<and> s' = s)
         \<or> (M f = None \<and> heap_alloc (bp_heap (fm_bpt s')) BPT_NODE_SIZE = Some (None, bp_heap (fm_bpt s'))))"
proof -
  obtain q s' where q: "fm_create s (Some nm) sz auth = Some (q, s')" and
    c: "case q of
       Some i \<Rightarrow> i = all_file_num s \<and> M f = None \<and> fm_rep s' (M(f \<mapsto> (d, of_nat i))) N
         \<and> f_lens (FMv3_mem s' i) = unat sz div 1024
         \<and> d_dir_num (FMv3_dir_mem s' 1) = d_dir_num (FMv3_dir_mem s 1) + 1
         \<and> all_file_num s' = all_file_num s + 1
     | None \<Rightarrow> (M f \<noteq> None \<and> s' = s) \<or> (M f = None \<and> full (fm_bpt s'))"
    using fm_create_ok [OF assms, of auth] by blast
  show ?thesis
  proof (cases q)
    case None
    with q c show ?thesis by (auto simp: full_def)
  next
    case (Some i)
    with c have rep': "fm_rep s' (M(f \<mapsto> (d, of_nat i))) N" and i: "i = all_file_num s"
      and len: "f_lens (FMv3_mem s' i) = unat sz div 1024" by auto
    have "fm_find s' (Some nm) = Some (Some i)"
      using fm_find_eq [OF rep' assms(2)] i assms(4) by (simp add: stored_def of_nat_file)
    moreover have "fm_find s' (Some nm') = fm_find s (Some nm')"
      if "name_key nm' = Some (f', d')" "f' \<noteq> f" for nm' f' d'
      using fm_find_eq [OF rep' that(1)] fm_find_eq [OF assms(1) that(1)] that(2)
      by (simp add: stored_def)
    moreover have "fm_dir_find s' (Some nm') = fm_dir_find s (Some nm')"
      if "name_key nm' = Some (f', d')" for nm' f' d'
      using fm_dir_find_eq [OF rep' that] fm_dir_find_eq [OF assms(1) that] by simp
    ultimately show ?thesis using q Some rep' len by auto
  qed
qed

lemma fm_dir_in_frame:
  "fm_dir_in s dir i = Some (b, s') \<Longrightarrow> fm_bpt s' = fm_bpt s \<and> fm_base s' = fm_base s"
  by (auto simp: fm_dir_in_def Let_def split: option.splits if_splits bind_splits)

text \<open>Creating a file only allocates: every live heap block stays, and the data area does not move.\<close>

lemma fm_create_frame:
  assumes rep: "fm_rep s M N" and key: "name_key nm = Some (f, d)"
    and c: "fm_create s (Some nm) sz auth = Some (q, s')"
  shows "heap_inv (bp_heap (fm_bpt s')) \<and> live (bp_heap (fm_bpt s)) \<subseteq> live (bp_heap (fm_bpt s'))
    \<and> fm_base s' = fm_base s"
proof -
  obtain r T where r: "fm_root s = Some r" "bpt_rep (fm_bpt s) r T M"
    using rep by (rule fm_repE)
  have inv: "heap_inv (bp_heap (fm_bpt s))" using r(2) by (simp add: bpt_rep_def)
  obtain b s1 where s1: "bpt_store (fm_bpt s) r nm (of_nat (all_file_num s)) = Some (b, s1)"
    "inserted r T M f (d, of_nat (all_file_num s)) (fm_bpt s) b s1"
    using bpt_store_ok [OF r(2) key] by blast
  have ins: "bpt_insert (fm_bpt s) (fm_root s) (Some nm) (of_nat (all_file_num s)) = Some (b, s1)"
    using s1(1) r(1) by (simp add: bpt_store_def)
  have t: "touched T (fm_bpt s) s1" using s1(2) by (simp add: inserted_def)
  have "s' = s \<or> fm_bpt s' = s1 \<and> fm_base s' = fm_base s"
    using c ins by (auto simp: fm_create_def Let_def split: if_splits bind_splits dest!: fm_dir_in_frame)
  then show ?thesis using inv t by (auto simp: touched_def)
qed

definition fm_boot :: FMv3_record where
  "fm_boot = \<lparr>fm_base = 0, cur_ptr = 0, all_file_num = 0, all_dir_num = 0, fm_root = None, dir_root = None,
     FMv3_mem = (\<lambda>_. \<lparr>f_alias = [], f_lens = 0, f_fid = 0, f_depth = 0, f_auth = 0, f_is_alloc = False, f_is_lock = False,
       f_YYYY = 0, f_MM = 0, f_DD = 0\<rparr>),
     FMv3_dir_mem = (\<lambda>_. \<lparr>d_alias = [], d_files = [], d_dirs = [], d_p_fid = 0, d_fid = 0, d_depth = 0, d_auth = 0,
       d_dir_num = 0, d_dir_dnum = 0, d_YYYY = 0, d_MM = 0, d_DD = 0\<rparr>),
     fm_bpt = \<lparr>bp_heap = heap_init \<lparr>heap_head = None, heap_mem = Map.empty\<rparr>, bp_nd = Map.empty\<rparr>\<rparr>"

lemma fm_boot_init:
  obtains s N where "fm_init fm_boot 0x50000000 = Some s" "fm_rep s Map.empty N" "all_file_num s = 1"
    "d_dir_num (FMv3_dir_mem s 1) = 0" "bp_nd (fm_bpt s) 24 = Some (zero_node\<lparr>bn_leaf := True\<rparr>)"
    "fm_root s = Some 24" "fm_base s = 0x50000000"
  using fm_init_ok [of fm_boot "\<lparr>heap_head = None, heap_mem = Map.empty\<rparr>" "0x50000000"]
  by (auto simp: fm_boot_def)

lemma fm_create_find_witness:
  "\<exists>s q s'. fm_init fm_boot 0x50000000 = Some s
     \<and> fm_create s (Some (cstr_of [97])) 4096 0 = Some (q, s')
     \<and> (\<forall>i. q = Some i \<longrightarrow> fm_find s' (Some (cstr_of [97])) = Some (Some i))"
proof -
  obtain s N where s: "fm_init fm_boot 0x50000000 = Some s" "fm_rep s Map.empty N" "all_file_num s = 1"
    "d_dir_num (FMv3_dir_mem s 1) = 0"
    by (rule fm_boot_init)
  obtain q s' where "fm_create s (Some (cstr_of [97])) 4096 0 = Some (q, s')"
    "case q of Some i \<Rightarrow> fm_find s' (Some (cstr_of [97])) = Some (Some i) | None \<Rightarrow> True"
    using fm_create_find [OF s(2) name_a, where sz = 4096 and auth = 0] s(3,4)
    by (fastforce simp: MAX_FILE_SIZE_def MAX_FILE_NUM_def MAX_DIR_FILE_NUM_def split: option.splits)
  with s(1) show ?thesis by (intro exI [of _ s] exI [of _ q] exI [of _ s']) auto
qed

text \<open>Creating the first file of a fresh file table.\<close>

lemma fm_create_first:
  assumes "fm_rep s Map.empty N" "all_file_num s = 1" "fm_root s = Some 24"
    "d_dir_num (FMv3_dir_mem s 1) = 0" "bp_nd (fm_bpt s) 24 = Some (zero_node\<lparr>bn_leaf := True\<rparr>)"
    "unat sz \<le> MAX_FILE_SIZE" and key: "name_key nm = Some (f, d)"
  shows "\<exists>s'. fm_create s (Some nm) sz 0 = Some (Some 1, s')
    \<and> fm_find s' (Some nm) = Some (Some 1) \<and> (\<exists>M. fm_rep s' M N) \<and> bp_heap (fm_bpt s') = bp_heap (fm_bpt s)"
proof -
  from bpt_insert_empty [OF assms(5) key] obtain m where
    ins: "bpt_insert (fm_bpt s) (Some 24) (Some nm) 1 = Some (True, (fm_bpt s)\<lparr>bp_nd := m\<rparr>)"
    by blast
  have c: "all_file_num s < MAX_FILE_NUM" "d_dir_num (FMv3_dir_mem s 1) < MAX_DIR_FILE_NUM"
    using assms by (simp_all add: MAX_FILE_NUM_def MAX_DIR_FILE_NUM_def)
  obtain q s' where q: "fm_create s (Some nm) sz 0 = Some (q, s')"
    using fm_create_ok [OF assms(1) key assms(6) c, where auth = 0] by blast
  have q1: "q = Some 1"
    using q ins assms(2,3,6) c by (auto simp: fm_create_def Let_def split: bind_splits)
  have hp: "bp_heap (fm_bpt s') = bp_heap (fm_bpt s)"
    using q ins assms(2,3,6) c by (auto simp: fm_create_def Let_def split: bind_splits dest!: fm_dir_in_frame)
  have rep: "fm_rep s' (Map.empty(f \<mapsto> (d, 1))) N"
    using fm_create_ok [OF assms(1) key assms(6) c, where auth = 0] q q1 assms(2) by auto
  then have "fm_find s' (Some nm) = Some (Some 1)"
    using fm_find_eq [OF rep key] by (simp add: stored_def)
  with q q1 rep hp show ?thesis by auto
qed

text \<open>C10: Deleting a file makes its name unknown and disturbs nothing else. On a file table in its invariant
  state \<open>fm_delete\<close> returns for every name that has hashes, says whether the name was found before, and
  afterwards the name is not found, every other name is found where it was, all directories are found where
  they were, and the invariant holds with the smaller map. Only the index changes: the control block, its
  slot, its entry in the root directory and the number of files all stay.\<close>

theorem fm_delete_find:
  assumes "fm_rep s M N" and "name_key nm = Some (f, d)"
  shows "\<exists>b s'. fm_delete s (Some nm) = Some (b, s') \<and> (b \<longleftrightarrow> fm_find s (Some nm) \<noteq> Some None)
    \<and> fm_rep s' (if b then M(f := None) else M) N \<and> fm_find s' (Some nm) = Some None
    \<and> (\<forall>nm' f' d'. name_key nm' = Some (f', d') \<and> (f', d') \<noteq> (f, d) \<longrightarrow> fm_find s' (Some nm') = fm_find s (Some nm'))
    \<and> (\<forall>nm' f' d'. name_key nm' = Some (f', d') \<longrightarrow> fm_dir_find s' (Some nm') = fm_dir_find s (Some nm'))
    \<and> s' = s\<lparr>fm_bpt := fm_bpt s'\<rparr>"
proof -
  obtain r T dr D where r: "fm_root s = Some r" "dir_root s = Some dr"
    "bpt_rep (fm_bpt s) r T M" "bpt_rep (fm_bpt s) dr D N" "T \<inter> D = {}"
    using assms(1) by (rule fm_repE)
  obtain b s1 T1 where e: "bpt_erase (fm_bpt s) r nm = Some (b, s1)" "bpt_rep s1 r T1 (if b then M(f := None) else M)"
    "bpt_rep s1 dr D N" "T1 \<inter> D = {}" "b \<longleftrightarrow> (\<exists>v. M f = Some (d, v))"
    using ie.erase_pair [OF r(3-5) assms(2)] by blast
  let ?s = "s\<lparr>fm_bpt := s1\<rparr>" and ?M = "if b then M(f := None) else M"
  have del: "fm_delete s (Some nm) = Some (b, ?s)" using e(1) r(1) by (simp add: fm_delete_def bpt_erase_def)
  have rep: "fm_rep ?s ?M N" unfolding fm_rep_def
  proof (intro conjI)
    show "\<exists>r T dr D. fm_root ?s = Some r \<and> dir_root ?s = Some dr \<and> bpt_rep (fm_bpt ?s) r T ?M
        \<and> bpt_rep (fm_bpt ?s) dr D N \<and> T \<inter> D = {}" using r(1,2) e(2-4) by auto
    have "\<forall>f d v. M f = Some (d, v) \<longrightarrow> unat v < all_file_num s" using assms(1) by (simp add: fm_rep_def)
    then show "\<forall>f d v. ?M f = Some (d, v) \<longrightarrow> unat v < all_file_num ?s" by (auto split: if_splits)
  qed (use assms(1) in \<open>simp_all add: fm_rep_def\<close>)
  have st: "stored ?M f' d' = (if (f', d') = (f, d) then None else stored M f' d')" for f' d'
    using e(5) by (auto simp: stored_def split: option.split)
  have "b \<longleftrightarrow> stored M f d \<noteq> None" using e(5) by (auto simp: stored_def split: option.split)
  then show ?thesis
    using del rep fm_find_eq [OF rep] fm_find_eq [OF assms(1)] fm_dir_find_eq [OF rep] fm_dir_find_eq [OF assms(1)] assms(2) st
    by (intro exI [of _ b] exI [of _ ?s]) simp
qed

lemma fm_delete_find_witness:
  "\<exists>s s'. fm_find s (Some (cstr_of [97])) = Some (Some 1) \<and> fm_delete s (Some (cstr_of [97])) = Some (True, s')
     \<and> fm_find s' (Some (cstr_of [97])) = Some None"
proof -
  obtain s N where s: "fm_rep s Map.empty N" "all_file_num s = 1" "d_dir_num (FMv3_dir_mem s 1) = 0" "fm_root s = Some 24"
    "bp_nd (fm_bpt s) 24 = Some (zero_node\<lparr>bn_leaf := True\<rparr>)" by (rule fm_boot_init)
  obtain s1 M where s1: "fm_find s1 (Some (cstr_of [97])) = Some (Some 1)" "fm_rep s1 M N"
    using fm_create_first [OF s(1,2,4,3,5) _ name_a, of 4096] by (auto simp: MAX_FILE_SIZE_def)
  from fm_delete_find [OF s1(2) name_a] s1(1) show ?thesis by auto
qed

text \<open>The seventeenth file leaves the bounds of the root directory. Every creation appends the
  file's number to the \<^verbatim>\<open>files\<close> array of the root directory, which has 16 cells, and neither
  \<open>fm_create\<close> nor \<open>fm_dir_in\<close> checks the count: once 16 numbers are in it, a creation whose name is
  accepted by the index writes past the array (undefined, \<open>None\<close> in the model).\<close>

theorem fm_create_seventeenth:
  assumes "fm_rep s M N" and "name_key nm = Some (f, d)"
    and "unat sz \<le> MAX_FILE_SIZE" and "all_file_num s < MAX_FILE_NUM"
    and "d_dir_num (FMv3_dir_mem s 1) = MAX_DIR_FILE_NUM"
    and "bpt_insert (fm_bpt s) (fm_root s) (Some nm) (of_nat (all_file_num s)) = Some (True, b)"
  shows "fm_create s (Some nm) sz auth = None"
  by (rule fm_create_overflow [OF assms(1-4) _ assms(6)]) (use assms(5) in simp)

lemma fm_create_seventeenth_witness:
  "\<exists>s. fm_create s (Some (cstr_of [97])) 4096 0 = None \<and> all_file_num s = 1"
proof -
  obtain s N where s: "fm_rep s Map.empty N" "all_file_num s = 1" "fm_root s = Some 24"
    "bp_nd (fm_bpt s) 24 = Some (zero_node\<lparr>bn_leaf := True\<rparr>)"
    by (rule fm_boot_init)
  let ?s = "s\<lparr>FMv3_dir_mem := (FMv3_dir_mem s)(1 := (FMv3_dir_mem s 1)\<lparr>d_dir_num := 16\<rparr>)\<rparr>"
  have rep: "fm_rep ?s Map.empty N" using s(1) by (simp add: fm_rep_def)
  from bpt_insert_empty [OF s(4) name_a] obtain m where
    ins: "bpt_insert (fm_bpt s) (Some 24) (Some (cstr_of [97])) 1 = Some (True, (fm_bpt s)\<lparr>bp_nd := m\<rparr>)"
    by blast
  have "fm_create ?s (Some (cstr_of [97])) 4096 0 = None"
    by (rule fm_create_seventeenth [OF rep name_a, where b = "(fm_bpt s)\<lparr>bp_nd := m\<rparr>"])
      (use s ins in \<open>simp_all add: MAX_FILE_SIZE_def MAX_FILE_NUM_def MAX_DIR_FILE_NUM_def\<close>)
  then show ?thesis using s(2) by (intro exI [of _ ?s]) simp
qed

text \<open>C11: What is written to a file is what is read from it. For an offset inside the file and
  buffers that do not overlap the written range, \<open>fm_write\<close> and a \<open>fm_read\<close> of the same size and
  offset transfer the same number of bytes (the request, clipped to the end of the file), the
  read returns the written bytes, and the write changes no byte outside the file's extent.\<close>

theorem fm_write_read:
  assumes "unat off < f_lens (FMv3_mem s i) * 1024"
    and "let a = fm_data_addr s (FMv3_mem s i) + unat off; n = clip (FMv3_mem s i) (unat sz) (unat off)
      in (a + n \<le> buf \<or> buf + n \<le> a) \<and> (a + n \<le> rbuf \<or> rbuf + n \<le> a)"
  shows "\<exists>n m1 m2. fm_write s m (Some i) buf sz off = (n, m1) \<and> fm_read s m1 (Some i) rbuf sz off = (n, m2)
    \<and> n = min (unat sz) (f_lens (FMv3_mem s i) * 1024 - unat off)
    \<and> (\<forall>j<n. m2 (rbuf + j) = m (buf + j))
    \<and> (\<forall>x. m1 x \<noteq> m x \<longrightarrow> fm_data_addr s (FMv3_mem s i) \<le> x
         \<and> x < fm_data_addr s (FMv3_mem s i) + f_lens (FMv3_mem s i) * 1024)"
proof -
  let ?f = "FMv3_mem s i"
  let ?a = "fm_data_addr s ?f + unat off" and ?n = "clip ?f (unat sz) (unat off)"
  let ?m1 = "memcpy m ?a buf ?n"
  let ?m2 = "memcpy ?m1 rbuf ?a ?n"
  have w: "fm_write s m (Some i) buf sz off = (?n, ?m1)"
    and r: "fm_read s ?m1 (Some i) rbuf sz off = (?n, ?m2)"
    using assms(1) by (simp_all add: fm_write_def fm_read_def Let_def)
  have 1: "?a + ?n \<le> buf \<or> buf + ?n \<le> ?a" and 2: "rbuf + ?n \<le> ?a \<or> ?a + ?n \<le> rbuf"
    using assms(2) by (auto simp: Let_def)
  have "?m2 (rbuf + j) = m (buf + j)" if "j < ?n" for j
    using that by (simp add: memcpy_eq [OF 1] memcpy_eq [OF 2])
  moreover have "?n = min (unat sz) (f_lens ?f * 1024 - unat off)"
    using assms(1) by (auto simp: clip_def Let_def)
  ultimately show ?thesis
    using w r fm_write_frame [OF w] by (intro exI [of _ ?n] exI [of _ ?m1] exI [of _ ?m2]) blast
qed

lemma fm_write_read_witness:
  "\<exists>n m1 m2. fm_write (fm_boot\<lparr>FMv3_mem := (\<lambda>_. (FMv3_mem fm_boot 0)\<lparr>f_lens := 1, f_fid := 1\<rparr>)\<rparr>)
       (\<lambda>a. of_nat a) (Some 1) 100 50 1000 = (n, m1)
     \<and> fm_read (fm_boot\<lparr>FMv3_mem := (\<lambda>_. (FMv3_mem fm_boot 0)\<lparr>f_lens := 1, f_fid := 1\<rparr>)\<rparr>) m1 (Some 1) 200 50 1000 = (n, m2)
     \<and> n = 24 \<and> m2 (200 + 3) = 103"
proof -
  let ?s = "fm_boot\<lparr>FMv3_mem := (\<lambda>_. (FMv3_mem fm_boot 0)\<lparr>f_lens := 1, f_fid := 1\<rparr>)\<rparr>"
  have "\<exists>n m1 m2. fm_write ?s (\<lambda>a. of_nat a) (Some 1) 100 50 1000 = (n, m1) \<and> fm_read ?s m1 (Some 1) 200 50 1000 = (n, m2)
    \<and> n = min (unat (50 :: u32)) (f_lens (FMv3_mem ?s 1) * 1024 - unat (1000 :: u32))
    \<and> (\<forall>j<n. m2 (200 + j) = of_nat (100 + j))
    \<and> (\<forall>x. m1 x \<noteq> of_nat x \<longrightarrow> fm_data_addr ?s (FMv3_mem ?s 1) \<le> x
         \<and> x < fm_data_addr ?s (FMv3_mem ?s 1) + f_lens (FMv3_mem ?s 1) * 1024)"
    by (rule fm_write_read) (simp_all add: fm_boot_def fm_data_addr_def MAX_FILE_SIZE_def clip_def)
  then obtain n m1 m2 where x: "fm_write ?s (\<lambda>a. of_nat a) (Some 1) 100 50 1000 = (n, m1)"
    "fm_read ?s m1 (Some 1) 200 50 1000 = (n, m2)" "n = 24" "\<forall>j<n. m2 (200 + j) = of_nat (100 + j)"
    by auto
  then have "m2 (200 + 3) = 103" using x(4) [rule_format, of 3] by simp
  with x show ?thesis by blast
qed

text \<open>Contents are separated only modulo 32. On a file table in its invariant state a write to
  one file changes no byte of another file whose number differs modulo 32; but files whose
  numbers agree modulo 32 have the same data address, because the slot number is kept in a
  five-bit field while the table has 4096 entries, so a write to one is a write to the other.\<close>

theorem fm_slots_modulo_32:
  assumes "fm_rep s M N" and "1 \<le> i" "i < all_file_num s" and "1 \<le> j" "j < all_file_num s"
  shows "(i mod 32 = j mod 32 \<longrightarrow> fm_data_addr s (FMv3_mem s i) = fm_data_addr s (FMv3_mem s j))
    \<and> (i mod 32 \<noteq> j mod 32 \<longrightarrow>
        (\<forall>m buf sz off k. k < f_lens (FMv3_mem s j) * 1024 \<longrightarrow>
           snd (fm_write s m (Some i) buf sz off) (fm_data_addr s (FMv3_mem s j) + k)
             = m (fm_data_addr s (FMv3_mem s j) + k)))"
proof -
  have fi: "f_fid (FMv3_mem s i) = i mod 32" "f_lens (FMv3_mem s i) \<le> 1024"
    and fj: "f_fid (FMv3_mem s j) = j mod 32" "f_lens (FMv3_mem s j) \<le> 1024"
    using assms by (auto simp: fm_rep_def)
  have "snd (fm_write s m (Some i) buf sz off) (fm_data_addr s (FMv3_mem s j) + k)
             = m (fm_data_addr s (FMv3_mem s j) + k)"
    if ne: "i mod 32 \<noteq> j mod 32" and k: "k < f_lens (FMv3_mem s j) * 1024" for m buf sz off k
  proof (rule ccontr)
    assume "\<not> ?thesis"
    then have x: "fm_data_addr s (FMv3_mem s i) \<le> fm_data_addr s (FMv3_mem s j) + k"
      "fm_data_addr s (FMv3_mem s j) + k < fm_data_addr s (FMv3_mem s i) + f_lens (FMv3_mem s i) * 1024"
      using fm_write_frame [of s m i buf sz off] by (metis surjective_pairing)+
    have lt: "(j mod 32) * MAX_FILE_SIZE + k < (i mod 32) * MAX_FILE_SIZE + MAX_FILE_SIZE"
      "(i mod 32) * MAX_FILE_SIZE \<le> (j mod 32) * MAX_FILE_SIZE + k" "k < MAX_FILE_SIZE"
      using x fi fj k by (auto simp: fm_data_addr_def MAX_FILE_SIZE_def)
    then have "(j mod 32) * MAX_FILE_SIZE < (i mod 32 + 1) * MAX_FILE_SIZE"
      "(i mod 32) * MAX_FILE_SIZE < (j mod 32 + 1) * MAX_FILE_SIZE"
      by (simp_all add: algebra_simps)
    then have "j mod 32 < i mod 32 + 1" "i mod 32 < j mod 32 + 1"
      unfolding mult_less_cancel2 by blast+
    then show False using ne by simp
  qed
  then show ?thesis using fi fj by (auto simp: fm_data_addr_def)
qed

lemma fm_slots_modulo_32_witness:
  "\<exists>s. all_file_num s = 34 \<and> fm_data_addr s (FMv3_mem s 33) = fm_data_addr s (FMv3_mem s 1)"
proof -
  obtain s N where s: "fm_rep s Map.empty N" by (rule fm_boot_init)
  let ?s = "s\<lparr>all_file_num := 34, FMv3_mem := (\<lambda>i. (FMv3_mem s i)\<lparr>f_fid := i mod 32, f_lens := 1\<rparr>)\<rparr>"
  have "fm_rep ?s Map.empty N" using s by (auto simp: fm_rep_def MAX_FILE_NUM_def)
  from fm_slots_modulo_32 [OF this, of 33 1]
  have "fm_data_addr ?s (FMv3_mem ?s 33) = fm_data_addr ?s (FMv3_mem ?s 1)" by simp
  then show ?thesis by (intro exI [of _ ?s]) simp
qed

end
