(* ===== verification/Swar.thy ===== *)
theory Swar
  imports Mem
begin

text \<open>
  The population count \<open>cnt\<close> of \<^verbatim>\<open>include/tools/_asm.h\<close>, computed in parallel on the eight
  bytes of a word, and what the memory manager uses it for: the sum of the 32 two-bit fields
  of a 64-bit chunk is \<open>cnt (x AND BIT_ODD64_t) + 2 * cnt (x AND BIT_EVEN64_t)\<close>.

  The proof reads a word as the list of its bytes (\<open>bval\<close>): each step of \<open>cnt\<close> acts on the bytes
  separately, and what it does to one byte is checked on all 256 of them.
\<close>

definition cnt :: "u64 \<Rightarrow> u8" where
  "cnt x =
     (let v1 = x - (drop_bit 1 x AND 0x5555555555555555);
          v2 = (v1 AND 0x3333333333333333) + (drop_bit 2 v1 AND 0x3333333333333333)
      in ucast (drop_bit 56 (((v2 + drop_bit 4 v2) AND 0x0F0F0F0F0F0F0F0F) * 0x0101010101010101)))"

definition BIT_ODD64_t :: u64 where "BIT_ODD64_t = 0x5555555555555555"
definition BIT_EVEN64_t :: u64 where "BIT_EVEN64_t = 0xAAAAAAAAAAAAAAAA"

section \<open>Bytes\<close>

fun bval :: "int list \<Rightarrow> int" where
  "bval [] = 0"
| "bval (b # bs) = b + 256 * bval bs"

definition is_byte :: "int \<Rightarrow> bool" where
  "is_byte b \<longleftrightarrow> 0 \<le> b \<and> b < 256"

lemma and_step:
  fixes v w :: int
  assumes "is_byte a" "is_byte c"
  shows "(a + 256 * v) AND (c + 256 * w) = (a AND c) + 256 * (v AND w)"
proof -
  have t: "take_bit 8 (b + 256 * u) = b" "drop_bit 8 (b + 256 * u) = u" if "is_byte b" for b u :: int
    using that by (simp_all add: is_byte_def take_bit_eq_mod drop_bit_eq_div)
  let ?x = "(a + 256 * v) AND (c + 256 * w)"
  have "take_bit 8 ?x = a AND c" "drop_bit 8 ?x = v AND w"
    using t [OF assms(1)] t [OF assms(2)] by (simp_all only: take_bit_and drop_bit_and)
  moreover have "?x = take_bit 8 ?x + 256 * drop_bit 8 ?x"
    by (simp add: take_bit_eq_mod drop_bit_eq_div)
  ultimately show ?thesis by simp
qed

lemma val_and:
  "list_all is_byte bs \<Longrightarrow> is_byte c \<Longrightarrow>
     bval bs AND bval (replicate (length bs) c) = bval (map (\<lambda>b. b AND c) bs)"
  by (induction bs) (simp_all add: and_step)

lemma val_nonneg: "list_all is_byte bs \<Longrightarrow> 0 \<le> bval bs"
  by (induction bs) (auto simp: is_byte_def)

lemma val_less: "list_all is_byte bs \<Longrightarrow> bval bs < 256 ^ length bs"
  by (induction bs) (auto simp: is_byte_def)

lemma val_sub: "length xs = length ys \<Longrightarrow> bval (map2 (-) xs ys) = bval xs - bval ys"
  by (induction xs ys rule: list_induct2) (auto simp: algebra_simps)

lemma val_add: "length xs = length ys \<Longrightarrow> bval (map2 (+) xs ys) = bval xs + bval ys"
  by (induction xs ys rule: list_induct2) (auto simp: algebra_simps)

lemma val_map_sub: "bval (map (\<lambda>b. f b - g b) bs) = bval (map f bs) - bval (map g bs)"
  by (induction bs) (auto simp: algebra_simps)

lemma val_map_add: "bval (map (\<lambda>b. f b + g b) bs) = bval (map f bs) + bval (map g bs)"
  by (induction bs) (auto simp: algebra_simps)

text \<open>A shift by \<open>k\<close> under a mask of at most \<open>8 - k\<close> bits never sees the next byte.\<close>

lemma and_low: "0 \<le> c \<Longrightarrow> c < 2 ^ j \<Longrightarrow> (a + 2 ^ j * u) AND c = a AND (c :: int)"
proof -
  assume c: "0 \<le> c" "c < 2 ^ j"
  have "x AND c = take_bit j x AND c" for x :: int
  proof -
    have "take_bit j c = c" using c by (simp add: take_bit_int_eq_self)
    then have "take_bit j (x AND c) = take_bit j x AND c" by simp
    moreover have "take_bit j (x AND c) = x AND c"
      using c by (intro take_bit_int_eq_self) (auto intro: order.strict_trans1 [OF AND_upper2])
    ultimately show ?thesis by simp
  qed
  from this [of "a + 2 ^ j * u"] this [of a] show ?thesis
    by (simp add: take_bit_eq_mod)
qed

lemma int_div_less_iff: "b < (2 ^ k :: int) * c \<Longrightarrow> b div 2 ^ k < c"
proof (rule ccontr)
  assume b: "b < 2 ^ k * c" and "\<not> b div 2 ^ k < c"
  then have "2 ^ k * c \<le> 2 ^ k * (b div 2 ^ k)" by (intro mult_left_mono) simp_all
  moreover have "2 ^ k * (b div 2 ^ k) \<le> b"
  proof -
    have "2 ^ k * (b div 2 ^ k) + b mod 2 ^ k = b" "0 \<le> b mod 2 ^ k" by simp_all
    then show ?thesis by linarith
  qed
  ultimately show False using b by linarith
qed

lemma val_shift_and:
  assumes k: "k + j = 8" and c: "0 \<le> c" "c < 2 ^ j"
  shows "list_all is_byte bs \<Longrightarrow>
     (bval bs div 2 ^ k) AND bval (replicate (length bs) c) = bval (map (\<lambda>b. (b div 2 ^ k) AND c) bs)"
proof (induction bs)
  case Nil
  then show ?case by simp
next
  case (Cons b bs)
  define d m where "d = bval bs div 2 ^ k" and "m = bval bs mod 2 ^ k"
  have p: "(256 :: int) = 2 ^ k * 2 ^ j" using k by (simp flip: power_add)
  have b: "is_byte b" "list_all is_byte bs" using Cons.prems by simp_all
  have v: "bval bs = 2 ^ k * d + m" by (simp add: d_def m_def)
  have m: "0 \<le> m" "m < 2 ^ k" by (simp_all add: m_def)
  have "b + 256 * bval bs = b + 2 ^ k * (2 ^ j * m + 256 * d)"
    by (simp add: v p algebra_simps)
  then have e: "(b + 256 * bval bs) div 2 ^ k = (b div 2 ^ k + 2 ^ j * m) + 256 * d"
    by (simp only: div_mult_self2 power_not_zero zero_neq_numeral [symmetric] not_False_eq_True
        simp_thms ac_simps)
  have "b < 2 ^ k * 2 ^ j" "0 \<le> b" using b(1) p by (simp_all add: is_byte_def)
  then have q: "0 \<le> b div 2 ^ k" "b div 2 ^ k < 2 ^ j"
    by (simp_all add: pos_imp_zdiv_nonneg_iff int_div_less_iff)
  have "(2 :: int) ^ j * m \<le> 2 ^ j * (2 ^ k - 1)" using m by (intro mult_left_mono) simp_all
  then have lo: "is_byte (b div 2 ^ k + 2 ^ j * m)"
    using q m p by (auto simp: is_byte_def algebra_simps)
  have cj: "is_byte c"
  proof -
    have "(2 :: int) ^ j \<le> 2 ^ 8" using k by (intro power_increasing) simp_all
    then show ?thesis using c by (simp add: is_byte_def)
  qed
  show ?case
    using and_step [OF lo cj, of d] Cons.IH [OF b(2)] and_low [OF c, of "b div 2 ^ k" m]
    by (simp add: e d_def)
qed

lemma val_shift_add:
  assumes "list_all (\<lambda>b. is_byte b \<and> b mod 16 \<le> 7 \<and> b div 16 \<le> 7) bs"
  shows "(bval bs + bval bs div 16) AND bval (replicate (length bs) 15)
      = bval (map (\<lambda>b. (b + b div 16) AND 15) bs)
    \<and> bval bs + bval bs div 16 < 256 ^ length bs \<and> bval bs mod 16 \<le> 7"
  using assms
proof (induction bs)
  case Nil
  then show ?case by simp
next
  case (Cons b bs)
  define d m where "d = bval bs div 16" and "m = bval bs mod 16"
  have v: "bval bs = 16 * d + m" by (simp add: d_def m_def)
  have b: "is_byte b" "b mod 16 \<le> 7" "b div 16 \<le> 7" and m: "0 \<le> m" "m \<le> 7"
    using Cons by (auto simp: m_def)
  then have b': "0 \<le> b" "b = 16 * (b div 16) + b mod 16" "0 \<le> b div 16" "0 \<le> b mod 16"
    by (auto simp: is_byte_def pos_imp_zdiv_nonneg_iff)
  have e: "b + 256 * bval bs + (b + 256 * bval bs) div 16
      = (b + b div 16 + 16 * m) + 256 * (bval bs + d)"
    unfolding v by simp
  have lo: "is_byte (b + b div 16 + 16 * m)" "is_byte 15" "b + b div 16 + 16 * m < 256"
    using b b' m by (auto simp: is_byte_def)
  have r: "bval (replicate (length (b # bs)) 15) = 15 + 256 * bval (replicate (length bs) 15)"
    by simp
  have "(b + 256 * bval bs) mod 16 = b mod 16"
    using mod_mult_self2 [of b 16 "16 * bval bs"] by simp
  moreover have "bval bs + d < 256 ^ length bs" using Cons d_def by auto
  ultimately show ?case
    using and_step [OF lo(1,2), of "bval bs + d"] and_low [of 15 4 "b + b div 16" m] Cons b lo(3) d_def
    unfolding r by (simp add: e)
qed

text \<open>Multiplying by a word of ones leaves the sum of the bytes in the top byte.\<close>

lemma val_mult_ones:
  assumes "length bs = 8" "list_all (\<lambda>b. 0 \<le> b \<and> b \<le> 8) bs"
  shows "(bval bs * 0x0101010101010101 mod 2 ^ 64) div 2 ^ 56 = sum_list bs"
proof -
  obtain a b c d e f g h where bs: "bs = [a, b, c, d, e, f, g, h]"
    using assms(1) by (auto simp: length_Suc_conv numeral_eq_Suc)
  let ?lo = "a + 256 * (a + b) + 65536 * (a + b + c) + 16777216 * (a + b + c + d)
     + 4294967296 * (a + b + c + d + e) + 1099511627776 * (a + b + c + d + e + f)
     + 281474976710656 * (a + b + c + d + e + f + g)"
  let ?hi = "(b + c + d + e + f + g + h) + 256 * (c + d + e + f + g + h)
     + 65536 * (d + e + f + g + h) + 16777216 * (e + f + g + h)
     + 4294967296 * (f + g + h) + 1099511627776 * (g + h) + 281474976710656 * h"
  let ?s = "a + b + c + d + e + f + g + h"
  have p: "bval bs * 0x0101010101010101 = (?lo + 2 ^ 56 * ?s) + ?hi * 2 ^ 64"
    by (simp add: bs algebra_simps)
  have lo: "0 \<le> ?lo" "?lo < 2 ^ 56" and s: "0 \<le> ?s" "?s \<le> 64"
    using assms(2) by (simp_all add: bs)
  have "(?lo + 2 ^ 56 * ?s) + ?hi * 2 ^ 64 = (?lo + 2 ^ 56 * ?s) + 2 ^ 64 * ?hi" by simp
  then have "bval bs * 0x0101010101010101 mod 2 ^ 64 = (?lo + 2 ^ 56 * ?s) mod 2 ^ 64"
    unfolding p by (simp only: mod_mult_self1 mod_mult_self2)
  also have "\<dots> = ?lo + 2 ^ 56 * ?s"
    using lo s by (intro mod_pos_pos_trivial) simp_all
  finally have "(bval bs * 0x0101010101010101 mod 2 ^ 64) div 2 ^ 56 = ?s"
    using lo by simp
  then show ?thesis by (simp add: bs)
qed

section \<open>The population count on byte_list\<close>

fun byte_list :: "nat \<Rightarrow> int \<Rightarrow> int list" where
  "byte_list 0 n = []"
| "byte_list (Suc k) n = n mod 256 # byte_list k (n div 256)"

lemma length_bytes [simp]: "length (byte_list k n) = k"
  by (induction k arbitrary: n) simp_all

lemma bytes_byte [simp]: "list_all is_byte (byte_list k n)"
  by (induction k arbitrary: n) (simp_all add: is_byte_def)

lemma val_bytes: "0 \<le> n \<Longrightarrow> n < 256 ^ k \<Longrightarrow> bval (byte_list k n) = n"
proof (induction k arbitrary: n)
  case 0
  then show ?case by simp
next
  case (Suc k)
  have "n div 2 ^ 8 < 256 ^ k" using Suc.prems by (intro int_div_less_iff) simp
  then show ?case using Suc by (simp add: pos_imp_zdiv_nonneg_iff)
qed

lemma bytes_of_val: "list_all is_byte bs \<Longrightarrow> byte_list (length bs) (bval bs) = bs"
  by (induction bs) (simp_all add: is_byte_def)

text \<open>The three steps of \<open>cnt\<close> on one byte, and what they give on every byte.\<close>

definition swar1 :: "int \<Rightarrow> int" where "swar1 b = b - ((b div 2) AND 0x55)"
definition swar2 :: "int \<Rightarrow> int" where "swar2 b = (b AND 0x33) + ((b div 4) AND 0x33)"
definition swar3 :: "int \<Rightarrow> int" where "swar3 b = (b + b div 16) AND 0x0F"

definition fields4 :: "int \<Rightarrow> int" where
  "fields4 b = b mod 4 + (b div 4) mod 4 + (b div 16) mod 4 + (b div 64) mod 4"

definition swar_chk :: "int \<Rightarrow> bool" where
  "swar_chk b \<longleftrightarrow> swar3 (swar2 (swar1 (b AND 0x55))) + 2 * swar3 (swar2 (swar1 (b AND 0xAA))) = fields4 b
     \<and> 0 \<le> swar1 b \<and> swar1 b < 256 \<and> 0 \<le> swar2 (swar1 b) \<and> swar2 (swar1 b) < 256 \<and> swar2 (swar1 b) mod 16 \<le> 7
     \<and> swar2 (swar1 b) div 16 \<le> 7 \<and> 0 \<le> swar3 (swar2 (swar1 b)) \<and> swar3 (swar2 (swar1 b)) \<le> 8"

lemma chk_all: "list_all swar_chk [0..255]"
  by code_simp

lemma chk_byte: "is_byte b \<Longrightarrow> swar_chk b"
  using chk_all by (auto simp: list_all_iff is_byte_def)

lemma chkD:
  assumes "is_byte b"
  shows "is_byte (swar1 b)" "is_byte (swar2 (swar1 b))" "swar2 (swar1 b) mod 16 \<le> 7" "swar2 (swar1 b) div 16 \<le> 7"
    "0 \<le> swar3 (swar2 (swar1 b))" "swar3 (swar2 (swar1 b)) \<le> 8"
    "swar3 (swar2 (swar1 (b AND 0x55))) + 2 * swar3 (swar2 (swar1 (b AND 0xAA))) = fields4 b"
  using chk_byte [OF assms] by (simp_all add: swar_chk_def is_byte_def)

lemma list_all_bytes_map:
  "list_all is_byte bs \<Longrightarrow> (\<And>b. is_byte b \<Longrightarrow> P (f b)) \<Longrightarrow> list_all P (map f bs)"
  by (auto simp: list_all_iff)

lemma val_ones:
  "bval (replicate 8 0x55) = 0x5555555555555555" "bval (replicate 8 0x33) = 0x3333333333333333"
  "bval (replicate 8 0x0F) = 0x0F0F0F0F0F0F0F0F" "bval (replicate 8 0xAA) = 0xAAAAAAAAAAAAAAAA"
  by (simp_all add: numeral_eq_Suc)

lemma uint_shr: "n < 64 \<Longrightarrow> uint (drop_bit n (x :: u64)) = uint x div 2 ^ n"
  unfolding unsigned_drop_bit_eq
  using take_bit_int_eq_self [of "uint x" 64] uint_lt2p [of x] by (simp add: drop_bit_eq_div)

lemma cnt_bytes:
  assumes "list_all is_byte bs" "length bs = 8" "uint x = bval bs"
  shows "uint (cnt x) = sum_list (map (\<lambda>b. swar3 (swar2 (swar1 b))) bs)"
proof -
  let ?c1 = "map swar1 bs" let ?c2 = "map (\<lambda>b. swar2 (swar1 b)) bs" let ?c3 = "map (\<lambda>b. swar3 (swar2 (swar1 b))) bs"
  have b1: "list_all is_byte ?c1" and b2: "list_all is_byte ?c2"
    and n2: "list_all (\<lambda>b. is_byte b \<and> b mod 16 \<le> 7 \<and> b div 16 \<le> 7) ?c2"
    and b3: "list_all (\<lambda>b. 0 \<le> b \<and> b \<le> 8) ?c3"
    using assms(1) by (auto intro!: list_all_bytes_map chkD)
  define v1 where "v1 = x - (drop_bit 1 x AND 0x5555555555555555)"
  define v2 where "v2 = (v1 AND 0x3333333333333333) + (drop_bit 2 v1 AND 0x3333333333333333)"
  define v3 where "v3 = (v2 + drop_bit 4 v2) AND 0x0F0F0F0F0F0F0F0F"
  have e1: "bval ?c1 = bval bs - (bval bs div 2 AND 0x5555555555555555)"
    using val_shift_and [of 1 7 "0x55" bs] assms
    by (simp add: swar1_def [abs_def] val_map_sub val_ones)
  have r1: "0 \<le> bval ?c1" "bval ?c1 < 2 ^ 64"
    using val_nonneg [OF b1] val_less [OF b1] assms(2) by simp_all
  have u1: "uint v1 = bval ?c1"
  proof -
    have "uint v1 = (uint x - uint (drop_bit 1 x AND 0x5555555555555555 :: u64)) mod 2 ^ 64"
      by (simp add: v1_def uint_word_ariths)
    also have "uint (drop_bit 1 x AND 0x5555555555555555 :: u64) = bval bs div 2 AND 0x5555555555555555"
      by (simp add: uint_and uint_shr assms(3))
    finally show ?thesis using r1 e1 assms(3) by simp
  qed
  have e2: "bval ?c2 = (bval ?c1 AND 0x3333333333333333) + (bval ?c1 div 4 AND 0x3333333333333333)"
    using val_shift_and [of 2 6 "0x33" ?c1] val_and [OF b1, of "0x33"] assms b1
    by (simp add: swar2_def [abs_def] val_map_add val_ones comp_def is_byte_def)
  have r2: "0 \<le> bval ?c2" "bval ?c2 < 2 ^ 64"
    using val_nonneg [OF b2] val_less [OF b2] assms(2) by simp_all
  have u2: "uint v2 = bval ?c2"
    using r2 e2 by (simp add: v2_def uint_word_ariths uint_and uint_shr u1)
  have s: "(bval ?c2 + bval ?c2 div 16) AND 0x0F0F0F0F0F0F0F0F = bval ?c3"
    "bval ?c2 + bval ?c2 div 16 < 2 ^ 64"
    using val_shift_add [OF n2] assms(2) by (simp_all add: val_ones swar3_def [abs_def] comp_def)
  have u3: "uint v3 = bval ?c3"
    using r2 s by (simp add: v3_def uint_word_ariths uint_and uint_shr u2
        pos_imp_zdiv_nonneg_iff)
  have "sum_list ?c3 \<le> 64" "0 \<le> sum_list ?c3"
    using b3 sum_list_mono [of bs "\<lambda>b. swar3 (swar2 (swar1 b))" "\<lambda>_. 8"] assms(2)
    by (auto simp: list_all_iff sum_list_triv intro!: sum_list_nonneg)
  moreover have "uint (drop_bit 56 (v3 * 0x0101010101010101)) = sum_list ?c3"
    using val_mult_ones [of ?c3] b3 assms(2)
    by (simp add: uint_shr uint_word_ariths u3)
  ultimately show ?thesis
    unfolding cnt_def Let_def v1_def [symmetric] v2_def [symmetric] v3_def [symmetric]
    by (simp add: unsigned_ucast_eq take_bit_eq_mod)
qed

text \<open>The sum of the two-bit fields of a chunk, as the memory manager computes it.\<close>

lemma cnt_fields:
  fixes x :: u64
  defines "bs \<equiv> byte_list 8 (uint x)"
  shows "unat (cnt (x AND BIT_ODD64_t)) + 2 * unat (cnt (x AND BIT_EVEN64_t))
     = nat (sum_list (map fields4 bs))"
proof -
  have bs: "list_all is_byte bs" "length bs = 8" by (simp_all add: bs_def)
  have v: "uint x = bval bs"
    using val_bytes [of "uint x" 8] uint_lt2p [of x] by (simp add: bs_def)
  have "uint (cnt (x AND BIT_ODD64_t)) = sum_list (map (\<lambda>b. swar3 (swar2 (swar1 (b AND 0x55)))) bs)"
    using cnt_bytes [of "map (\<lambda>b. b AND 0x55) bs" "x AND BIT_ODD64_t"]
      val_and [OF bs(1), of "0x55"] bs v
    by (auto simp: BIT_ODD64_t_def uint_and val_ones is_byte_def comp_def list_all_iff
        intro: order.strict_trans1 [OF AND_upper2])
  moreover have "uint (cnt (x AND BIT_EVEN64_t)) = sum_list (map (\<lambda>b. swar3 (swar2 (swar1 (b AND 0xAA)))) bs)"
    using cnt_bytes [of "map (\<lambda>b. b AND 0xAA) bs" "x AND BIT_EVEN64_t"]
      val_and [OF bs(1), of "0xAA"] bs v
    by (auto simp: BIT_EVEN64_t_def uint_and val_ones is_byte_def comp_def list_all_iff
        intro: order.strict_trans1 [OF AND_upper2])
  moreover have "sum_list (map (\<lambda>b. swar3 (swar2 (swar1 (b AND 0x55)))) bs)
      + 2 * sum_list (map (\<lambda>b. swar3 (swar2 (swar1 (b AND 0xAA)))) bs) = sum_list (map fields4 bs)"
    using bs(1) by (induction bs) (simp_all add: chkD(7) [symmetric])
  ultimately have "uint (cnt (x AND BIT_ODD64_t)) + 2 * uint (cnt (x AND BIT_EVEN64_t))
      = sum_list (map fields4 bs)" by simp
  moreover have "int (unat y) = uint y" for y :: u8 by simp
  ultimately have "int (unat (cnt (x AND BIT_ODD64_t)) + 2 * unat (cnt (x AND BIT_EVEN64_t)))
      = sum_list (map fields4 bs)" by simp
  then show ?thesis by linarith
qed

section \<open>The population count\<close>

definition ones8 :: "int \<Rightarrow> int" where
  "ones8 b = b mod 2 + (b div 2) mod 2 + (b div 4) mod 2 + (b div 8) mod 2 + (b div 16) mod 2 + (b div 32) mod 2
     + (b div 64) mod 2 + (b div 128) mod 2"

lemma ones8_all: "list_all (\<lambda>b. swar3 (swar2 (swar1 b)) = ones8 b) [0..255]"
  by code_simp

lemma ones8_byte: "is_byte b \<Longrightarrow> swar3 (swar2 (swar1 b)) = ones8 b"
  using ones8_all by (auto simp: list_all_iff is_byte_def)

lemma ones8_sum: "ones8 b = (\<Sum>i<8. (b div 2 ^ i) mod 2)"
  by (simp add: ones8_def eval_nat_numeral)

lemma sum_lessThan_plus:
  "(\<Sum>j<(k :: nat) + n. f j :: 'a :: comm_monoid_add) = (\<Sum>j<k. f j) + (\<Sum>j<n. f (k + j))"
  by (induction n) (auto simp: add.assoc)

text \<open>The bits of a word are the bits of its bytes.\<close>

lemma low_bits: "i < 8 \<Longrightarrow> ((b + 256 * w) div 2 ^ i) mod 2 = (b div 2 ^ i) mod (2 :: int)"
proof -
  assume i: "i < 8"
  have e: "256 * w = 2 ^ i * (2 * (2 ^ (7 - i) * w))"
    using i by (simp add: power_add [symmetric] flip: mult.assoc power_Suc)
  have "(b + 256 * w) div 2 ^ i = b div 2 ^ i + 2 * (2 ^ (7 - i) * w)" unfolding e by (subst div_mult_self2) simp_all
  then show ?thesis by simp
qed

lemma high_bits: "is_byte b \<Longrightarrow> (b + 256 * w) div 2 ^ (8 + i) = w div 2 ^ i"
proof -
  assume b: "is_byte b"
  have "(b + 256 * w) div (256 * 2 ^ i) = (b + 256 * w) div 256 div 2 ^ i" by (rule zdiv_zmult2_eq) simp
  also have "(b + 256 * w) div 256 = w" using b by (simp add: is_byte_def)
  finally show ?thesis by (simp add: power_add)
qed

lemma bval_bits:
  "list_all is_byte bs \<Longrightarrow> (\<Sum>i<8 * length bs. (bval bs div 2 ^ i) mod 2) = sum_list (map ones8 bs)"
proof (induction bs)
  case (Cons b bs)
  have "8 * length (b # bs) = 8 + 8 * length bs" by simp
  then have "(\<Sum>i<8 * length (b # bs). (bval (b # bs) div 2 ^ i) mod 2)
      = (\<Sum>i<8. ((b + 256 * bval bs) div 2 ^ i) mod 2) + (\<Sum>i<8 * length bs. ((b + 256 * bval bs) div 2 ^ (8 + i)) mod 2)"
    by (simp only: sum_lessThan_plus bval.simps)
  also have "\<dots> = (\<Sum>i<8. (b div 2 ^ i) mod 2) + (\<Sum>i<8 * length bs. (bval bs div 2 ^ i) mod 2)"
    using Cons.prems by (simp add: low_bits high_bits)
  finally show ?case using Cons by (simp add: ones8_sum)
qed simp

text \<open>C12: The population count is the number of set bits. The branch-free routine, which adds neighbouring
  bits, pairs and nibbles in parallel and collects the eight byte counts with a multiplication, agrees with
  counting the set bits one by one, for every 64-bit word (64 included: the sum fits the top byte).\<close>

theorem cnt_counts_bits: "unat (cnt x) = card {i. bit x i}"
proof -
  let ?bs = "byte_list 8 (uint x)"
  have bs: "list_all is_byte ?bs" "length ?bs = 8" by simp_all
  have v: "uint x = bval ?bs" using val_bytes [of "uint x" 8] uint_lt2p [of x] by simp
  have "uint (cnt x) = sum_list (map (\<lambda>b. swar3 (swar2 (swar1 b))) ?bs)" by (rule cnt_bytes [OF bs v])
  also have "\<dots> = sum_list (map ones8 ?bs)" using bs(1) by (intro arg_cong [of _ _ sum_list]) (auto simp: list_all_iff ones8_byte)
  also have "\<dots> = (\<Sum>i<64. (uint x div 2 ^ i) mod 2)" using bval_bits [OF bs(1)] bs(2) v by simp
  also have "\<dots> = (\<Sum>i<64. of_bool (bit x i))"
  proof (intro sum.cong refl)
    fix i :: nat assume "i \<in> {..<64}"
    then have "bit x i \<longleftrightarrow> odd (uint x div 2 ^ i)" using bit_uint_iff [of x i] bit_iff_odd [of "uint x" i] by simp
    then show "(uint x div 2 ^ i) mod 2 = of_bool (bit x i)" by (simp add: mod2_eq_if)
  qed
  also have "\<dots> = int (card ({..<64} \<inter> {i. bit x i}))" by simp
  also have "{..<64} \<inter> {i. bit x i} = {i. bit x i}" using bit_imp_le_length [of x] by auto
  finally show ?thesis by (metis int_eq_iff_numeral nat_int of_nat_eq_iff uint_nat)
qed

end
