(* ===== verification/MM.thy ===== *)
theory MM
  imports Swar
begin

text \<open>
  The physical memory manager: \<^verbatim>\<open>src/manage/mm.c\<close> and \<^verbatim>\<open>src/manage/exmm.c\<close>.

  \<open>MMv5_stack\<close> holds a map of 65536 two-bit entries, four in each byte of \<open>MMv5_mem\<close>. An
  allocation is a run of entries starting at the index that \<open>mm_creat\<close> returns; an entry says
  how many units of 128 KB it stands for, and the address of an index is the base plus the
  units of all the entries below it, which \<open>mm_find\<close> adds up with a population count.

  The stack pointer \<open>sp_top\<close> is kept at its 16 bits, so every byte index is below 16384 and no
  access leaves the array; \<open>MMv5_mem\<close> is a function on the byte index. The functions are only
  ever called on the one global stack, never on a null pointer, and \<open>mm_substack\<close> is defined
  as \<open>mm_stack\<close> itself, so \<open>mm_free\<close> has one stack.

  \<open>mm_creat_spec\<close> and \<open>mm_find_eq\<close> show that the manager is a bump allocator; \<open>mm_free\<close> gives
  nothing back.
\<close>

record MMv5_stack =
  mm_base :: u64
  sp_top :: u16
  sp_bot :: u16
  sp_temp :: u16
  MMv5_mem :: mem
  mm_sp :: u8
  MMv5_submem :: "u8 list"

definition BIT_ODD8_t :: u64 where "BIT_ODD8_t = 0x55"
definition BIT_EVEN8_t :: u64 where "BIT_EVEN8_t = 0xAA"

text \<open>The unused submemory has five cells; all of both arrays is cleared.\<close>

definition mm_init :: "MMv5_stack \<Rightarrow> u64 \<Rightarrow> MMv5_stack" where
  "mm_init s addr = s\<lparr>mm_base := addr, sp_top := 0, sp_bot := 0xFFFF, sp_temp := 0, mm_sp := 0,
     MMv5_mem := (\<lambda>i. if i < 16384 then 0 else MMv5_mem s i), MMv5_submem := replicate 5 0\<rparr>"

definition MMv5_regu_push :: "MMv5_stack \<Rightarrow> u8 \<Rightarrow> MMv5_stack \<times> u16" where
  "MMv5_regu_push s v =
     (let byte_idx = unat (drop_bit 2 (sp_top s));
          bit_pos = unat (push_bit 1 (sp_top s AND 3));
          b = MMv5_mem s byte_idx AND NOT (push_bit bit_pos 0x03);
          b' = b OR push_bit bit_pos (v AND 0x03)
      in (s\<lparr>MMv5_mem := (MMv5_mem s)(byte_idx := b'), sp_top := sp_top s + 1\<rparr>, sp_top s))"

text \<open>The function has no return statement: only the new stack is defined.\<close>

definition MMv5_regu_substack_push :: "MMv5_stack \<Rightarrow> u8 \<Rightarrow> MMv5_stack option" where
  "MMv5_regu_substack_push s v =
     do { xs \<leftarrow> aset (MMv5_submem s) (unat (mm_sp s)) v;
          Some (s\<lparr>MMv5_submem := xs, mm_sp := mm_sp s + 1\<rparr>) }"

definition MMv5_regu_pop :: "MMv5_stack \<Rightarrow> u16 \<Rightarrow> MMv5_stack \<times> u8" where
  "MMv5_regu_pop s v =
     (if sp_top s = 0 then (s, 0xFF)
      else (s\<lparr>sp_temp := v\<rparr>, MMv5_mem s (unat (drop_bit 2 v))))"

definition MMv5_irregu_pop :: "MMv5_stack \<Rightarrow> u16 \<Rightarrow> MMv5_stack \<times> u8" where
  "MMv5_irregu_pop s v =
     (if sp_top s = 0 then (s, 0xFF)
      else (s\<lparr>sp_temp := v\<rparr>, MMv5_mem s (unat (drop_bit 2 v))))"

text \<open>The loop of \<open>mm_creat\<close>: units are pushed three at a time.\<close>

function mm_push_units :: "nat \<Rightarrow> MMv5_stack \<Rightarrow> MMv5_stack" where
  "mm_push_units remaining s =
     (if remaining = 0 then s
      else let units = (if remaining > 3 then 3 else remaining)
           in mm_push_units (remaining - units) (fst (MMv5_regu_push s (of_nat units))))"
  by pat_completeness auto

termination by (relation "measure fst") auto

declare mm_push_units.simps [simp del]

text \<open>The sums are at most 65535 + 127 and stay far below the 32 bits the code computes them in.\<close>

definition mm_creat :: "MMv5_stack \<Rightarrow> u16 \<Rightarrow> MMv5_stack \<times> u16" where
  "mm_creat s val16 =
     (if val16 = 0 then (s, 0)
      else let remaining_units = (unat val16 + 127) div 128;
               entry_count = (remaining_units + 2) div 3;
               available_entries = 0xFFFF - unat (sp_top s);
               map_capacity = 16384 * 4
           in if sp_bot s \<le> sp_top s \<or> available_entries < entry_count
                 \<or> map_capacity < unat (sp_top s) + entry_count
              then (s, 0)
              else (mm_push_units remaining_units s, sp_top s))"

text \<open>
  The value \<open>mm_free\<close> returns when it pushes is the value of a function without a return
  statement: \<open>None\<close> in the second component. C reads \<open>a ^ b != 0\<close> as \<open>a ^ (b != 0)\<close>.
\<close>

definition mm_free :: "MMv5_stack \<Rightarrow> u16 \<Rightarrow> (MMv5_stack \<times> u8 option) option" where
  "mm_free s val16 =
     (let (s1, remain_Byte) = MMv5_regu_pop s val16;
          rb = ucast remain_Byte :: u64
      in if cnt (rb AND BIT_EVEN8_t) \<le> 1 \<and> cnt (rb AND BIT_ODD8_t) \<le> 1
         then if (cnt (rb AND 0x0F) XOR (if cnt (rb AND 0xF0) \<noteq> 0 then 1 else 0)) \<noteq> 0
                 \<or> cnt (rb AND 0x33) \<noteq> 1
              then if mm_sp s1 \<ge> 5 then Some (s1, Some 0)
                   else do { s2 \<leftarrow> MMv5_regu_substack_push s1 remain_Byte; Some (s2, None) }
              else Some (s1, Some 0)
         else Some (s1, Some 0))"

text \<open>The loop of \<open>mm_find\<close> over the first \<open>n\<close> 64-bit chunks, from chunk \<open>i\<close> on.\<close>

definition chunk_sum :: "u64 \<Rightarrow> u16" where
  "chunk_sum chunk =
     of_nat (unat (cnt (chunk AND BIT_ODD64_t)) + 2 * unat (cnt (chunk AND BIT_EVEN64_t)))"

fun mm_find_loop :: "mem \<Rightarrow> nat \<Rightarrow> nat \<Rightarrow> u16 \<Rightarrow> u16" where
  "mm_find_loop m i 0 calc = calc"
| "mm_find_loop m i (Suc k) calc = mm_find_loop m (i + 1) k (calc + chunk_sum (read64 m (8 * i)))"

definition mm_find :: "MMv5_stack \<Rightarrow> u16 \<Rightarrow> u16 \<Rightarrow> u64" where
  "mm_find s val16 indi_addr =
     (let valQuo = unat (drop_bit 5 val16);
          val_rem = unat (val16 AND 0x1F);
          calc = mm_find_loop (MMv5_mem s) 0 valQuo 0;
          calc' = (if val_rem > 0
                   then let last_chunk = read64 (MMv5_mem s) (8 * valQuo);
                            mask = push_bit (2 * val_rem) 1 - 1;
                            last_bits = last_chunk AND mask
                        in calc + chunk_sum last_bits
                   else calc)
      in mm_base s + 128 * push_bit 10 (ucast calc') + ucast indi_addr)"

section \<open>The entries of the map\<close>

definition map_entry :: "mem \<Rightarrow> nat \<Rightarrow> nat" where
  "map_entry m j = unat (m (j div 4)) div 4 ^ (j mod 4) mod 4"

definition units_below :: "mem \<Rightarrow> nat \<Rightarrow> nat" where
  "units_below m n = (\<Sum>j<n. map_entry m j)"

definition digit4 :: "nat \<Rightarrow> nat \<Rightarrow> nat" where
  "digit4 n j = n div 4 ^ j mod 4"

lemma digit4_mod:
  "digit4 (n mod 4 ^ r) j = (if j < r then digit4 n j else 0)"
proof (cases "j < r")
  case True
  then have r: "(4 :: nat) ^ r = 4 ^ j * (4 * 4 ^ (r - j - 1))"
    by (simp flip: power_add power_Suc)
  have "n mod (4 ^ j * (4 * 4 ^ (r - j - 1))) div 4 ^ j = n div 4 ^ j mod (4 * 4 ^ (r - j - 1))"
    by (simp add: mod_mult2_eq)
  moreover have "n div 4 ^ j mod (4 * 4 ^ (r - j - 1)) mod 4 = n div 4 ^ j mod 4"
    by (simp add: mod_mult2_eq)
  ultimately show ?thesis using True by (simp add: digit4_def r)
next
  case False
  then have "(4 :: nat) ^ r \<le> 4 ^ j" by (simp add: power_increasing)
  then have "n mod 4 ^ r < 4 ^ j" by (meson mod_less_divisor order.strict_trans2 zero_less_numeral zero_less_power)
  then show ?thesis using False by (simp add: digit4_def)
qed

lemma digit4_shift: "digit4 (n div 256) j = digit4 n (4 + j)"
proof -
  have "(4 :: nat) ^ (4 + j) = 256 * 4 ^ j" by (simp add: power_add)
  then show ?thesis by (simp add: digit4_def div_mult2_eq)
qed

lemma fields_digits: "fields4 (int n mod 256) = int (\<Sum>j<4. digit4 n j)"
proof -
  have d: "n mod 256 mod 4 = digit4 n 0" "n mod 256 div 4 mod 4 = digit4 n 1"
    "n mod 256 div 16 mod 4 = digit4 n 2" "n mod 256 div 64 mod 4 = digit4 n 3"
    using digit4_mod [of n 4 0] digit4_mod [of n 4 1] digit4_mod [of n 4 2] digit4_mod [of n 4 3]
    by (simp_all add: digit4_def)
  have "fields4 (int (n mod 256)) = int (n mod 256 mod 4) + int (n mod 256 div 4 mod 4)
      + int (n mod 256 div 16 mod 4) + int (n mod 256 div 64 mod 4)"
    unfolding fields4_def by (simp only: of_nat_mod of_nat_div of_nat_numeral)
  moreover have "{..<4} = {0, 1, 2, 3 :: nat}" by auto
  moreover have "int n mod 256 = int (n mod 256)" by (simp only: of_nat_mod of_nat_numeral)
  ultimately show ?thesis unfolding d by simp
qed

lemma fields_bytes: "sum_list (map fields4 (byte_list k (int n))) = int (\<Sum>j<4 * k. digit4 n j)"
proof (induction k arbitrary: n)
  case 0
  then show ?case by simp
next
  case (Suc k)
  have "int n div 256 = int (n div 256)" by simp
  then have "sum_list (map fields4 (byte_list k (int n div 256))) = int (\<Sum>j<4 * k. digit4 n (4 + j))"
    using Suc [of "n div 256"] by (simp add: digit4_shift)
  then show ?case
    using sum_lessThan_plus [of "digit4 n" 4 "4 * k"] by (simp add: fields_digits)
qed

lemma chunk_sum_digits: "chunk_sum x = of_nat (\<Sum>j<32. digit4 (unat x) j)"
proof -
  have "uint x = int (unat x)" by simp
  then have "sum_list (map fields4 (byte_list 8 (uint x))) = int (\<Sum>j<32. digit4 (unat x) j)"
    using fields_bytes [of 8 "unat x"] by simp
  then show ?thesis unfolding chunk_sum_def cnt_fields by (simp only: nat_int)
qed

lemma digit4_le_nat:
  "j < 4 * n \<Longrightarrow> digit4 (le_nat m a n) j = map_entry (\<lambda>i. m (a + i)) j"
proof (induction n arbitrary: a j)
  case 0
  then show ?case by simp
next
  case (Suc n)
  let ?b = "unat (m a)"
  have b: "?b < 256" using unsigned_less [of "m a"] by simp
  have d: "(?b + 256 * le_nat m (a + 1) n) div 256 = le_nat m (a + 1) n"
    and r: "(?b + 256 * le_nat m (a + 1) n) mod 4 ^ 4 = ?b"
    using b by simp_all
  show ?case
  proof (cases "j < 4")
    case True
    then have "digit4 (le_nat m a (Suc n)) j = digit4 ?b j"
      using digit4_mod [of "?b + 256 * le_nat m (a + 1) n" 4 j] r by simp
    then show ?thesis using True by (simp add: digit4_def map_entry_def)
  next
    case False
    then have j: "j = 4 + (j - 4)" "j - 4 < 4 * n" using Suc.prems by auto
    have "digit4 (le_nat m a (Suc n)) j = digit4 (le_nat m (a + 1) n) (j - 4)"
      using digit4_shift [of "?b + 256 * le_nat m (a + 1) n" "j - 4"] d j by simp
    also have "\<dots> = map_entry (\<lambda>i. m (a + 1 + i)) (j - 4)"
      using Suc.IH [OF j(2)] by simp
    also have "\<dots> = map_entry (\<lambda>i. m (a + i)) j"
      using False by (simp add: map_entry_def le_div_geq le_mod_geq)
    finally show ?thesis .
  qed
qed

lemma unat_read64: "unat (read64 m a) = le_nat m a 8"
  using le_nat_less [of m a 8] by (simp add: read64_def unat_of_nat)

lemma entry_shift: "map_entry (\<lambda>i. m (8 * c + i)) j = map_entry m (32 * c + j)"
proof -
  have "(4 * (8 * c) + j) div 4 = 8 * c + j div 4" "(4 * (8 * c) + j) mod 4 = j mod 4"
    by (simp_all only: div_mult_self4 mod_mult_self4)
  moreover have "32 * c + j = 4 * (8 * c) + j" by simp
  ultimately show ?thesis by (simp only: map_entry_def)
qed

lemma unat_and_mask: "unat (x AND mask k :: 'a :: len word) = unat x mod 2 ^ k"
  unfolding take_bit_eq_mask [symmetric] unsigned_take_bit_eq by (rule take_bit_eq_mod)

lemma chunk_sum_read64: "chunk_sum (read64 m (8 * c)) = of_nat (\<Sum>j<32. map_entry m (32 * c + j))"
  by (simp add: chunk_sum_digits unat_read64 digit4_le_nat entry_shift)

lemma chunk_sum_masked:
  assumes "r < 32"
  shows "chunk_sum (read64 m (8 * c) AND (push_bit (2 * r) 1 - 1)) = of_nat (\<Sum>j<r. map_entry m (32 * c + j))"
proof -
  let ?x = "read64 m (8 * c)"
  have "push_bit (2 * r) 1 - 1 = (mask (2 * r) :: u64)"
    by (simp add: mask_eq_exp_minus_1)
  then have "unat (?x AND (push_bit (2 * r) 1 - 1)) = unat ?x mod 4 ^ r"
    by (simp only: unat_and_mask power_mult) simp
  then have "(\<Sum>j<32. digit4 (unat (?x AND (push_bit (2 * r) 1 - 1))) j)
      = (\<Sum>j<32. if j < r then map_entry m (32 * c + j) else 0)"
    by (intro sum.cong) (simp_all add: digit4_mod unat_read64 digit4_le_nat entry_shift)
  also have "\<dots> = (\<Sum>j<r. map_entry m (32 * c + j))"
    using assms by (intro sum.mono_neutral_cong_right) auto
  finally show ?thesis by (simp only: chunk_sum_digits)
qed

lemma mm_find_loop_eq:
  "mm_find_loop m i k calc = calc + of_nat (\<Sum>j<32 * k. map_entry m (32 * i + j))"
proof (induction k arbitrary: i calc)
  case 0
  then show ?case by simp
next
  case (Suc k)
  have "(\<Sum>j<32 * Suc k. map_entry m (32 * i + j))
      = (\<Sum>j<32. map_entry m (32 * i + j)) + (\<Sum>j<32 * k. map_entry m (32 * (i + 1) + j))"
    using sum_lessThan_plus [of "\<lambda>j. map_entry m (32 * i + j)" 32 "32 * k"] by (simp add: add_ac)
  then show ?case by (simp add: Suc chunk_sum_read64)
qed

text \<open>\<open>mm_find\<close>, loops and population counts included, is a sum of entries modulo 65536.\<close>

lemma mm_find_eq:
  "mm_find s v i
     = mm_base s + of_nat (131072 * (units_below (MMv5_mem s) (unat v) mod 65536)) + ucast i"
proof -
  let ?q = "unat (drop_bit 5 v)" and ?r = "unat (v AND 0x1F)"
  have q: "?q = unat v div 32" unfolding unat_drop_bit_eq by (simp add: drop_bit_eq_div)
  have "0x1F = (mask 5 :: u16)" by (simp add: mask_eq_exp_minus_1)
  then have r: "?r = unat v mod 32"
    by (simp only: unat_and_mask) simp
  have "(\<Sum>j<32 * ?q. map_entry (MMv5_mem s) j) + (\<Sum>j<?r. map_entry (MMv5_mem s) (32 * ?q + j))
      = units_below (MMv5_mem s) (unat v)"
    using sum_lessThan_plus [of "map_entry (MMv5_mem s)" "32 * ?q" ?r]
    by (simp add: units_below_def q r)
  note s = this
  have c: "mm_find_loop (MMv5_mem s) 0 ?q 0
       + (if ?r > 0 then chunk_sum (read64 (MMv5_mem s) (8 * ?q) AND (push_bit (2 * ?r) 1 - 1)) else 0)
     = of_nat (units_below (MMv5_mem s) (unat v))"
  proof -
    have l: "mm_find_loop (MMv5_mem s) 0 ?q 0 = of_nat (\<Sum>j<32 * ?q. map_entry (MMv5_mem s) j)"
      by (simp only: mm_find_loop_eq mult_0_right add_0)
    have m: "(if ?r > 0 then chunk_sum (read64 (MMv5_mem s) (8 * ?q) AND (push_bit (2 * ?r) 1 - 1)) else 0)
      = of_nat (\<Sum>j<?r. map_entry (MMv5_mem s) (32 * ?q + j))"
      using chunk_sum_masked [of ?r "MMv5_mem s" ?q] r by (simp del: of_nat_sum)
    show ?thesis unfolding l m of_nat_add [symmetric] using s by (simp only:)
  qed
  have w: "128 * push_bit 10 (ucast (of_nat u :: u16) :: u64) = of_nat (131072 * (u mod 65536))" for u
  proof -
    have "(ucast (of_nat u :: u16) :: u64) = of_nat (u mod 65536)"
      by (simp add: unsigned_of_nat take_bit_eq_mod)
    then show ?thesis by (simp add: push_bit_eq_mult)
  qed
  show ?thesis
    unfolding mm_find_def Let_def c [symmetric] w [symmetric] by simp
qed

section \<open>Pushing entries\<close>

lemma field_bits: "unat (b :: u8) div 4 ^ p mod 4 = unat (drop_bit (2 * p) b AND mask 2)"
proof -
  have "unat (drop_bit (2 * p) b) = unat b div 4 ^ p"
    unfolding unat_drop_bit_eq by (simp add: drop_bit_eq_div power_mult)
  then show ?thesis unfolding unat_and_mask by simp
qed

lemma field_put:
  fixes b v :: u8
  assumes "p < 4" "q < 4"
  shows "drop_bit (2 * p) ((b AND NOT (push_bit (2 * q) (mask 2))) OR push_bit (2 * q) (v AND mask 2)) AND mask 2
    = (if p = q then v AND mask 2 else drop_bit (2 * p) b AND mask 2)"
proof (rule bit_word_eqI)
  fix n assume n: "n < LENGTH(8)"
  let ?x = "(b AND NOT (push_bit (2 * q) (mask 2))) OR push_bit (2 * q) (v AND mask 2)"
  have x: "bit ?x m = (if 2 * q \<le> m \<and> m - 2 * q < 2 then bit v (m - 2 * q) else bit b m)"
    if "m < 8" for m
  proof (cases "2 * q \<le> m \<and> m - 2 * q < 2")
    case True
    then show ?thesis using that
      by (simp only: bit_and_iff bit_or_iff bit_not_iff bit_push_bit_iff bit_mask_iff possible_bit_word) simp
  next
    case False
    then show ?thesis using that
      by (simp only: bit_and_iff bit_or_iff bit_not_iff bit_push_bit_iff bit_mask_iff possible_bit_word) auto
  qed
  show "bit (drop_bit (2 * p) ?x AND mask 2) n
    = bit (if p = q then v AND mask 2 else drop_bit (2 * p) b AND mask 2) n"
  proof (cases "n < 2")
    case True
    then have "2 * p + n < 8" "(2 * q \<le> 2 * p + n \<and> 2 * p + n - 2 * q < 2) = (p = q)"
      using assms by auto
    then show ?thesis using True n x [of "2 * p + n"]
      by (cases "p = q") (simp_all only: bit_and_iff bit_drop_bit_eq comp_apply bit_mask_iff possible_bit_word if_True if_False,
          simp_all add: bit_and_iff bit_mask_iff)
  qed (simp add: bit_and_iff bit_mask_iff)
qed

lemma push_entry:
  assumes "MMv5_regu_push s v = (s', r)"
  shows "map_entry (MMv5_mem s') j = (if j = unat (sp_top s) then unat (v AND mask 2) else map_entry (MMv5_mem s) j)"
proof -
  let ?t = "unat (sp_top s)"
  have d: "unat (drop_bit 2 (sp_top s)) = ?t div 4"
    unfolding unat_drop_bit_eq by (simp add: drop_bit_eq_div)
  have three: "3 = (mask 2 :: u16)" "3 = (mask 2 :: u8)" by (simp_all add: mask_eq_exp_minus_1)
  have u: "unat (sp_top s AND 3) = ?t mod 4" unfolding three(1) unat_and_mask by simp
  have q: "unat (push_bit 1 (sp_top s AND 3)) = 2 * (?t mod 4)"
    unfolding unsigned_push_bit_eq u by (simp add: push_bit_eq_mult take_bit_eq_mod)
  have m: "MMv5_mem s' = (MMv5_mem s)(?t div 4 := ((MMv5_mem s (?t div 4) AND
      NOT (push_bit (2 * (?t mod 4)) (mask 2))) OR push_bit (2 * (?t mod 4)) (v AND mask 2)))"
    using assms unfolding MMv5_regu_push_def Let_def d q three(2) by auto
  show ?thesis
  proof (cases "j div 4 = ?t div 4")
    case True
    have "j = ?t \<longleftrightarrow> j mod 4 = ?t mod 4" using True by (metis div_mult_mod_eq)
    moreover have "v AND mask 2 AND mask 2 = v AND mask 2" by (simp add: and.assoc)
    ultimately show ?thesis
      unfolding map_entry_def field_bits m using True field_put [of "j mod 4" "?t mod 4"] by simp
  next
    case False
    then show ?thesis by (auto simp: map_entry_def m)
  qed
qed

lemma push_frame [frame_simps]:
  assumes "MMv5_regu_push s v = (s', r)"
  shows "mm_base s' = mm_base s" "sp_bot s' = sp_bot s" "sp_top s' = sp_top s + 1"
    "mm_sp s' = mm_sp s" "MMv5_submem s' = MMv5_submem s" "r = sp_top s"
  using assms by (auto simp: MMv5_regu_push_def Let_def)

lemma units_below_Suc: "units_below m (Suc n) = units_below m n + map_entry m n"
  by (simp add: units_below_def)

lemma units_below_cong: "(\<And>j. j < n \<Longrightarrow> map_entry m j = map_entry m' j) \<Longrightarrow> units_below m n = units_below m' n"
  by (simp add: units_below_def)

text \<open>The loop of \<open>mm_creat\<close> writes as many entries as it needs, and they add up to the units.\<close>

lemma mm_push_units_ok:
  assumes "unat (sp_top s) + (n + 2) div 3 < 65536"
  defines "s' \<equiv> mm_push_units n s"
  shows "unat (sp_top s') = unat (sp_top s) + (n + 2) div 3
    \<and> units_below (MMv5_mem s') (unat (sp_top s')) = units_below (MMv5_mem s) (unat (sp_top s)) + n
    \<and> (\<forall>j<unat (sp_top s). map_entry (MMv5_mem s') j = map_entry (MMv5_mem s) j)
    \<and> mm_base s' = mm_base s \<and> sp_bot s' = sp_bot s"
  using assms(1) unfolding s'_def
proof (induction n s rule: mm_push_units.induct)
  case (1 n s)
  show ?case
  proof (cases "n = 0")
    case True
    then show ?thesis by (simp add: mm_push_units.simps)
  next
    case False
    define u where "u = (if n > 3 then 3 else n)"
    obtain s1 r where s1: "MMv5_regu_push s (of_nat u) = (s1, r)" by (metis surj_pair)
    have u: "u \<le> 3" "u \<le> n" "0 < u" and e: "(n + 2) div 3 = Suc ((n - u + 2) div 3)"
      using False by (auto simp: u_def)
    have t: "unat (sp_top s1) = Suc (unat (sp_top s))"
      using 1(2) e push_frame(3) [OF s1] unat_Suc_no_wrap [of "sp_top s"] by simp
    have ent: "map_entry (MMv5_mem s1) j = (if j = unat (sp_top s) then u else map_entry (MMv5_mem s) j)" for j
    proof -
      have "unat (of_nat u AND mask 2 :: u8) = u" unfolding unat_and_mask using u by (simp add: unat_of_nat)
      then show ?thesis using push_entry [OF s1, of j] by simp
    qed
    have below: "units_below (MMv5_mem s1) (unat (sp_top s1)) = units_below (MMv5_mem s) (unat (sp_top s)) + u"
      unfolding t units_below_Suc by (simp add: ent cong: units_below_cong)
    have E: "mm_push_units n s = mm_push_units (n - u) s1"
      using False s1 by (subst mm_push_units.simps) (simp add: u_def Let_def)
    have p: "unat (sp_top s1) + (n - u + 2) div 3 < 65536" using 1(2) t e by simp
    have "\<forall>j<Suc (unat (sp_top s)). map_entry (MMv5_mem (mm_push_units (n - u) s1)) j = map_entry (MMv5_mem s1) j"
      and r: "unat (sp_top (mm_push_units (n - u) s1)) = unat (sp_top s1) + (n - u + 2) div 3"
      "units_below (MMv5_mem (mm_push_units (n - u) s1)) (unat (sp_top (mm_push_units (n - u) s1)))
        = units_below (MMv5_mem s1) (unat (sp_top s1)) + (n - u)"
      "mm_base (mm_push_units (n - u) s1) = mm_base s1" "sp_bot (mm_push_units (n - u) s1) = sp_bot s1"
      using 1(1) [OF False u_def] p unfolding s1 fst_conv t by blast+
    then show ?thesis unfolding E using push_frame [OF s1] below t e u ent by simp
  qed
qed

section \<open>A bump allocator\<close>

definition units_of :: "u16 \<Rightarrow> nat" where
  "units_of v = (unat v + 127) div 128"

definition mm_used :: "MMv5_stack \<Rightarrow> nat" where
  "mm_used s = units_below (MMv5_mem s) (unat (sp_top s))"

lemma mm_creat_fail:
  "v = 0 \<or> 65535 < unat (sp_top s) + (units_of v + 2) div 3 \<Longrightarrow> sp_bot s = 0xFFFF
     \<Longrightarrow> mm_creat s v = (s, 0)"
proof -
  assume "v = 0 \<or> 65535 < unat (sp_top s) + (units_of v + 2) div 3"
  moreover have "unat (sp_top s) \<le> 65535" using unat_lt_pow [of "sp_top s"] by simp
  ultimately have "v = 0 \<or> 0xFFFF - unat (sp_top s) < (units_of v + 2) div 3" by linarith
  then show "mm_creat s v = (s, 0)" unfolding mm_creat_def Let_def units_of_def by (elim disjE) simp_all
qed

lemma mm_creat_ok:
  assumes "v \<noteq> 0" and "unat (sp_top s) + (units_of v + 2) div 3 \<le> 65535" and "sp_bot s = 0xFFFF"
  shows "\<exists>s'. mm_creat s v = (s', sp_top s)
    \<and> unat (sp_top s') = unat (sp_top s) + (units_of v + 2) div 3
    \<and> mm_used s' = mm_used s + units_of v
    \<and> (\<forall>j<unat (sp_top s). map_entry (MMv5_mem s') j = map_entry (MMv5_mem s) j)
    \<and> mm_base s' = mm_base s \<and> sp_bot s' = 0xFFFF"
proof -
  have "0 < unat v" using assms(1) by (simp add: unat_gt_0)
  then have n: "0 < units_of v" by (simp add: units_of_def)
  have top: "\<not> sp_bot s \<le> sp_top s"
    using assms(2,3) n unat_lt_pow [of "sp_top s"] by (simp add: word_le_nat_alt)
  have "mm_creat s v = (mm_push_units (units_of v) s, sp_top s)"
    using assms(1,2) top by (auto simp: mm_creat_def Let_def units_of_def)
  moreover note mm_push_units_ok [of s "units_of v"]
  ultimately show ?thesis using assms(2,3) by (auto simp: mm_used_def)
qed

lemma mm_find_cong:
  "mm_base s' = mm_base s \<Longrightarrow> (\<forall>j<unat w. map_entry (MMv5_mem s') j = map_entry (MMv5_mem s) j)
     \<Longrightarrow> mm_find s' w i = mm_find s w i"
  unfolding mm_find_eq by (simp cong: units_below_cong)

lemma mm_find_top:
  "mm_find s (sp_top s) i = mm_base s + of_nat (131072 * (mm_used s mod 65536)) + ucast i"
  by (simp add: mm_find_eq mm_used_def)

text \<open>C13: The memory manager is a bump allocator. A request of \<open>v\<close> KB, rounded up to units of
  128 KB, that still fits the map of 65535 entries returns the old stack pointer; its address is
  the base plus all the units handed out so far, taken modulo 65536 units; it adds its units and
  one map entry for every three of them, and no address found before changes. A request of zero
  or one that does not fit returns 0 and changes nothing - the index the very first allocation
  also has.\<close>

theorem mm_creat_bump:
  assumes "sp_bot s = 0xFFFF"
  shows "if v = 0 \<or> 65535 < unat (sp_top s) + (units_of v + 2) div 3 then mm_creat s v = (s, 0)
     else \<exists>s'. mm_creat s v = (s', sp_top s)
       \<and> unat (sp_top s') = unat (sp_top s) + (units_of v + 2) div 3
       \<and> mm_used s' = mm_used s + units_of v
       \<and> mm_find s' (sp_top s) i = mm_base s + of_nat (131072 * (mm_used s mod 65536)) + ucast i
       \<and> (\<forall>w. w \<le> sp_top s \<longrightarrow> mm_find s' w i = mm_find s w i)
       \<and> mm_base s' = mm_base s \<and> sp_bot s' = 0xFFFF"
proof (cases "v = 0 \<or> 65535 < unat (sp_top s) + (units_of v + 2) div 3")
  case True
  then show ?thesis using mm_creat_fail [OF True assms] by (simp only: if_True)
next
  case False
  then obtain s' where s': "mm_creat s v = (s', sp_top s)"
    "unat (sp_top s') = unat (sp_top s) + (units_of v + 2) div 3"
    "mm_used s' = mm_used s + units_of v"
    "\<forall>j<unat (sp_top s). map_entry (MMv5_mem s') j = map_entry (MMv5_mem s) j"
    "mm_base s' = mm_base s" "sp_bot s' = 0xFFFF"
    using mm_creat_ok [of v s] assms by auto
  have f: "mm_find s' w i = mm_find s w i" if "w \<le> sp_top s" for w
    using s'(4,5) that by (intro mm_find_cong) (auto simp: word_le_nat_alt)
  have "mm_find s' (sp_top s) i = mm_base s + of_nat (131072 * (mm_used s mod 65536)) + ucast i"
    using f [of "sp_top s"] mm_find_top [of s i] by simp
  with s'(1-3,5,6) f show ?thesis
    unfolding if_not_P [OF False] by (intro exI [of _ s']) simp
qed

lemma mm_init_facts [simp]:
  "mm_used (mm_init s a) = 0" "sp_top (mm_init s a) = 0" "sp_bot (mm_init s a) = 0xFFFF"
  "mm_base (mm_init s a) = a" "length (MMv5_submem (mm_init s a)) = 5"
  by (simp_all add: mm_init_def mm_used_def units_below_def)

text \<open>The manager's table before it is set up.\<close>

definition mm_blank :: MMv5_stack where
  "mm_blank = \<lparr>mm_base = 0, sp_top = 0, sp_bot = 0, sp_temp = 0, MMv5_mem = (\<lambda>_. 0), mm_sp = 0, MMv5_submem = replicate 5 0\<rparr>"

lemma mm_creat_bump_witness:
  "\<exists>s s'. mm_creat s 1024 = (s', 0) \<and> mm_used s' = 8 \<and> mm_find s' 0 5 = 0x50000005"
proof -
  let ?s = "mm_init mm_blank 0x50000000"
  have "\<exists>s'. mm_creat ?s 1024 = (s', 0) \<and> mm_used s' = 8 \<and> mm_find s' 0 5 = 0x50000005"
    using mm_creat_bump [of ?s 1024 5] by (auto simp: units_of_def)
  then show ?thesis by blast
qed

section \<open>Runs of allocations\<close>

text \<open>The results of a list of requests: the indices that were handed out, with their sizes.\<close>

fun mm_creats :: "MMv5_stack \<Rightarrow> u16 list \<Rightarrow> MMv5_stack \<times> (u16 \<times> nat) list" where
  "mm_creats s [] = (s, [])"
| "mm_creats s (v # vs) =
     (let (s', a) = mm_creat s v; (s'', as) = mm_creats s' vs
      in (s'', if sp_top s' = sp_top s then as else (a, units_of v) # as))"

definition chained :: "MMv5_stack \<Rightarrow> nat \<Rightarrow> (u16 \<times> nat) list \<Rightarrow> bool" where
  "chained s from as \<longleftrightarrow>
     (\<forall>i<length as. units_below (MMv5_mem s) (unat (fst (as ! i))) = from + sum_list (map snd (take i as)))"

lemma chained_Cons:
  "chained s from ((a, n) # as) \<longleftrightarrow> units_below (MMv5_mem s) (unat a) = from \<and> chained s (from + n) as"
  by (auto simp: chained_def less_Suc_eq_0_disj add.assoc)

lemma mm_creats_chained:
  assumes "mm_creats s vs = (s', as)" and "sp_bot s = 0xFFFF"
  shows "chained s' (mm_used s) as \<and> mm_used s' = mm_used s + sum_list (map snd as)
    \<and> (\<forall>j<unat (sp_top s). map_entry (MMv5_mem s') j = map_entry (MMv5_mem s) j)
    \<and> unat (sp_top s) \<le> unat (sp_top s') \<and> mm_base s' = mm_base s \<and> sp_bot s' = 0xFFFF"
  using assms
proof (induction vs arbitrary: s as)
  case Nil
  then show ?case by (simp add: chained_def)
next
  case (Cons v vs)
  obtain s1 a where c: "mm_creat s v = (s1, a)" by (metis surj_pair)
  obtain bs where b: "mm_creats s1 vs = (s', bs)"
    and as: "as = (if sp_top s1 = sp_top s then bs else (a, units_of v) # bs)"
    using Cons.prems(1) c by (auto simp: Let_def split: prod.splits)
  show ?case
  proof (cases "v = 0 \<or> 65535 < unat (sp_top s) + (units_of v + 2) div 3")
    case True
    then have "s1 = s" using mm_creat_fail [OF True Cons.prems(2)] c by simp
    then show ?thesis using Cons.IH [OF b] Cons.prems(2) as by simp
  next
    case False
    then have s1: "a = sp_top s" "unat (sp_top s1) = unat (sp_top s) + (units_of v + 2) div 3"
      "mm_used s1 = mm_used s + units_of v"
      "\<forall>j<unat (sp_top s). map_entry (MMv5_mem s1) j = map_entry (MMv5_mem s) j"
      "mm_base s1 = mm_base s" "sp_bot s1 = 0xFFFF"
      using mm_creat_ok [of v s] Cons.prems(2) c by auto
    have "0 < unat v" using False by (simp add: unat_gt_0)
    then have "0 < (units_of v + 2) div 3" by (simp add: units_of_def)
    then have ne: "sp_top s1 \<noteq> sp_top s" using s1(2) by auto
    have IH: "chained s' (mm_used s1) bs" "mm_used s' = mm_used s1 + sum_list (map snd bs)"
      "\<forall>j<unat (sp_top s1). map_entry (MMv5_mem s') j = map_entry (MMv5_mem s1) j"
      "unat (sp_top s1) \<le> unat (sp_top s')" "mm_base s' = mm_base s1" "sp_bot s' = 0xFFFF"
      using Cons.IH [OF b s1(6)] by auto
    have e: "\<forall>j<unat (sp_top s). map_entry (MMv5_mem s') j = map_entry (MMv5_mem s) j"
      using IH(3) s1(2,4) by simp
    then have "units_below (MMv5_mem s') (unat a) = mm_used s"
      unfolding s1(1) mm_used_def by (simp cong: units_below_cong)
    then show ?thesis using IH s1 e ne as by (simp add: chained_Cons)
  qed
qed

lemma take_sum_mono: "i \<le> j \<Longrightarrow> sum_list (take i ns) \<le> sum_list (take j (ns :: nat list))"
  using sum_list_append [of "take i ns" "drop i (take j ns)"]
  by (metis append_take_drop_id le_add1 min.absorb1 take_take)

lemma take_Suc_sum: "i < length ns \<Longrightarrow> sum_list (take (Suc i) ns) = sum_list (take i ns) + ns ! i"
  by (simp add: take_Suc_conv_app_nth)

text \<open>C14: Allocations do not overlap. For any list of requests made after initialisation whose
  units add up to less than 65536 and whose end stays below 2^64, the address ranges of the
  allocations that succeeded lie one after the other, in the order of the requests and within the
  managed area; in particular the ranges of any two of them are disjoint.\<close>

theorem mm_runs_disjoint:
  assumes "mm_creats (mm_init s0 b) vs = (s', as)"
    and "sum_list (map snd as) < 65536" and "unat b + 131072 * sum_list (map snd as) < 2 ^ 64"
    and "i < j" and "j < length as"
  shows "unat (mm_find s' (fst (as ! i)) 0) + 131072 * snd (as ! i) \<le> unat (mm_find s' (fst (as ! j)) 0)
    \<and> unat b \<le> unat (mm_find s' (fst (as ! i)) 0)
    \<and> unat (mm_find s' (fst (as ! j)) 0) + 131072 * snd (as ! j) \<le> unat b + 131072 * sum_list (map snd as)"
proof -
  let ?ns = "map snd as"
  have c: "chained s' 0 as" "mm_base s' = b"
    using mm_creats_chained [OF assms(1)] by auto
  have mono: "sum_list (take k ?ns) \<le> sum_list ?ns" for k
    using take_sum_mono [of k "length ?ns + k" ?ns] by simp
  have addr: "unat (mm_find s' (fst (as ! k)) 0) = unat b + 131072 * sum_list (take k ?ns)"
    if "k < length as" for k
  proof -
    let ?u = "sum_list (take k ?ns)"
    have u: "units_below (MMv5_mem s') (unat (fst (as ! k))) = ?u"
      using c(1) that by (simp add: chained_def take_map)
    have lt: "?u < 65536" "unat b + 131072 * ?u < 2 ^ 64" using mono [of k] assms(2,3) by simp_all
    have "unat (of_nat (131072 * ?u) :: u64) = 131072 * ?u"
      by (rule unat_of_nat_no_wrap) (use lt in simp)
    then have "unat (b + of_nat (131072 * ?u)) = unat b + 131072 * ?u"
      using unat_add_no_wrap [of b "of_nat (131072 * ?u)"] lt(2) by (simp del: of_nat_mult)
    then show ?thesis using lt by (simp add: mm_find_eq c(2) u)
  qed
  have n: "?ns ! k = snd (as ! k)" if "k < length as" for k using that by simp
  have "sum_list (take i ?ns) + snd (as ! i) \<le> sum_list (take j ?ns)"
    using take_sum_mono [of "Suc i" j ?ns] take_Suc_sum [of i ?ns] n [of i] assms(4,5) by simp
  then have "unat (mm_find s' (fst (as ! i)) 0) + 131072 * snd (as ! i) \<le> unat (mm_find s' (fst (as ! j)) 0)"
    using addr [of i] addr [of j] assms(4,5) by simp
  moreover have "unat b \<le> unat (mm_find s' (fst (as ! i)) 0)" using addr [of i] assms(4,5) by simp
  moreover have "sum_list (take j ?ns) + snd (as ! j) \<le> sum_list ?ns"
    using mono [of "Suc j"] take_Suc_sum [of j ?ns] n [of j] assms(5) by simp
  then have "unat (mm_find s' (fst (as ! j)) 0) + 131072 * snd (as ! j) \<le> unat b + 131072 * sum_list ?ns"
    using addr [of j] assms(5) by simp
  ultimately show ?thesis by blast
qed

lemma mm_runs_disjoint_witness:
  "\<exists>s' a1 a2. mm_creats (mm_init mm_blank 0x50000000) [1024, 300] = (s', [(a1, 8), (a2, 3)])
     \<and> unat (mm_find s' a1 0) + 131072 * 8 \<le> unat (mm_find s' a2 0)"
proof -
  let ?s = "mm_init mm_blank 0x50000000"
  obtain s1 where s1: "mm_creat ?s 1024 = (s1, 0)" "unat (sp_top s1) = 3" "sp_bot s1 = 0xFFFF"
    using mm_creat_ok [of 1024 ?s] by (auto simp: units_of_def)
  moreover obtain s2 where s2: "mm_creat s1 300 = (s2, sp_top s1)" "unat (sp_top s2) = 4"
    using mm_creat_ok [of 300 s1] s1 by (auto simp: units_of_def)
  ultimately have r: "mm_creats ?s [1024, 300] = (s2, [(0, 8), (sp_top s1, 3)])"
    by (auto simp: Let_def units_of_def dest: arg_cong [of _ _ unat])
  have "unat (mm_find s2 0 0) + 131072 * 8 \<le> unat (mm_find s2 (sp_top s1) 0)"
    using mm_runs_disjoint [OF r, of 0 1] by simp
  with r show ?thesis by blast
qed

section \<open>What repeated allocation and freeing do\<close>

fun mm_iter :: "nat \<Rightarrow> MMv5_stack \<Rightarrow> MMv5_stack" where
  "mm_iter 0 s = s"
| "mm_iter (Suc n) s = fst (mm_creat (mm_iter n s) 1024)"

lemma mm_iter_ok:
  "n \<le> 21845 \<Longrightarrow> unat (sp_top (mm_iter n (mm_init s b))) = 3 * n
     \<and> mm_used (mm_iter n (mm_init s b)) = 8 * n
     \<and> mm_base (mm_iter n (mm_init s b)) = b \<and> sp_bot (mm_iter n (mm_init s b)) = 0xFFFF"
proof (induction n)
  case 0
  then show ?case by simp
next
  case (Suc n)
  let ?s = "mm_iter n (mm_init s b)"
  have "unat (sp_top ?s) + (units_of 1024 + 2) div 3 \<le> 65535" using Suc by (simp add: units_of_def)
  then obtain s' where "mm_creat ?s 1024 = (s', sp_top ?s)"
    "unat (sp_top s') = unat (sp_top ?s) + 3" "mm_used s' = mm_used ?s + 8"
    "mm_base s' = mm_base ?s" "sp_bot s' = 0xFFFF"
    using mm_creat_ok [of 1024 ?s] Suc by (auto simp: units_of_def)
  then show ?case using Suc by simp
qed

text \<open>The address of an allocation wraps after 65536 units. Of a run of process allocations
  of 1024 KB each, the \<open>k\<close>-th one (counting from 0, up to 21844) succeeds and gets the address
  base + 128 KB * ((8 * k) mod 65536): the 8193rd process gets the memory of the first, long before
  the map of entries is full.\<close>

lemma mm_address_run:
  assumes "k < 21845"
  shows "\<exists>s'. mm_creat (mm_iter k (mm_init s b)) 1024 = (s', of_nat (3 * k))
    \<and> sp_top s' \<noteq> sp_top (mm_iter k (mm_init s b))
    \<and> mm_find s' (of_nat (3 * k)) 0 = b + of_nat (131072 * ((8 * k) mod 65536))"
proof -
  let ?s = "mm_iter k (mm_init s b)"
  have i: "unat (sp_top ?s) = 3 * k" "mm_used ?s = 8 * k" "mm_base ?s = b" "sp_bot ?s = 0xFFFF"
    using mm_iter_ok [of k s b] assms by auto
  then have t: "sp_top ?s = of_nat (3 * k)" by (metis of_nat_unat ucast_id)
  have fits: "\<not> ((1024 :: u16) = 0 \<or> 65535 < unat (sp_top ?s) + (units_of 1024 + 2) div 3)"
    using i(1) assms by (simp add: units_of_def)
  then obtain s' where s': "mm_creat ?s 1024 = (s', sp_top ?s)"
    "unat (sp_top s') = unat (sp_top ?s) + 3" "mm_base s' = b"
    "\<forall>j<unat (sp_top ?s). map_entry (MMv5_mem s') j = map_entry (MMv5_mem ?s) j"
    using mm_creat_ok [of 1024 ?s] i by (auto simp: units_of_def)
  have "mm_find s' (sp_top ?s) 0 = b + of_nat (131072 * ((8 * k) mod 65536))"
    using mm_find_cong [of s' ?s "sp_top ?s" 0] s'(3,4) i mm_find_top [of ?s 0] by simp
  moreover have "sp_top s' \<noteq> sp_top ?s" using s'(2) by auto
  ultimately show ?thesis using s'(1) unfolding t by blast
qed

lemma regu_pop_frame [frame_simps]:
  "MMv5_regu_pop s v = (s', r) \<Longrightarrow> MMv5_mem s' = MMv5_mem s \<and> sp_top s' = sp_top s \<and> sp_bot s' = sp_bot s
     \<and> mm_base s' = mm_base s \<and> mm_sp s' = mm_sp s \<and> MMv5_submem s' = MMv5_submem s"
  by (auto simp: MMv5_regu_pop_def split: if_splits)

text \<open>\<open>mm_free\<close> never faults and never gives anything back: it leaves the map, the stack
  pointer and so every address as they were, whatever index it is given. At most it records a
  byte of the map in the submemory, which holds five.\<close>

theorem mm_free_releases_nothing:
  assumes "length (MMv5_submem s) = 5"
  shows "\<exists>s' r. mm_free s v = Some (s', r) \<and> length (MMv5_submem s') = 5
    \<and> sp_top s' = sp_top s \<and> mm_used s' = mm_used s \<and> (\<forall>w i. mm_find s' w i = mm_find s w i)
    \<and> mm_sp s' \<in> {mm_sp s, mm_sp s + 1} \<and> (mm_sp s \<le> 5 \<longrightarrow> mm_sp s' \<le> 5)"
proof -
  obtain s1 b where s1: "MMv5_regu_pop s v = (s1, b)" by (metis surj_pair)
  note f = regu_pop_frame [OF s1]
  have lt: "unat (mm_sp s) < 5" if "\<not> 5 \<le> mm_sp s" using that by (simp add: word_le_nat_alt)
  define s2 where "s2 = s1\<lparr>MMv5_submem := (MMv5_submem s1)[unat (mm_sp s1) := b], mm_sp := mm_sp s1 + 1\<rparr>"
  have push: "MMv5_regu_substack_push s1 b = Some s2" if "\<not> 5 \<le> mm_sp s1"
    using that lt f assms by (simp add: MMv5_regu_substack_push_def s2_def)
  have cases: "(mm_free s v = Some (s1, Some 0)) \<or> (mm_free s v = Some (s2, None) \<and> \<not> 5 \<le> mm_sp s)"
    using push f unfolding mm_free_def s1 Let_def prod.case by (auto split: if_splits)
  have le: "mm_sp s + 1 \<le> 5" if "\<not> 5 \<le> mm_sp s"
    using lt [OF that] unat_Suc_no_wrap [of "mm_sp s"] by (simp add: word_le_nat_alt)
  have keep: "mm_used s2 = mm_used s" "mm_used s1 = mm_used s"
    "mm_find s2 w i = mm_find s w i" "mm_find s1 w i = mm_find s w i" for w i
    using f by (simp_all add: mm_used_def mm_find_eq s2_def)
  from cases show ?thesis
    using f le keep assms by (elim disjE conjE) (auto simp: s2_def)
qed

lemma mm_free_releases_nothing_witness:
  "\<exists>s' r. mm_free (mm_init mm_blank 0x50000000) 0 = Some (s', r) \<and> mm_used s' = 0"
  using mm_free_releases_nothing [of "mm_init mm_blank 0x50000000" 0] by auto

end
