(* ===== verification/Debug.thy ===== *)
theory Debug
  imports CString
begin

text \<open>
  The debug output of \<^verbatim>\<open>src/global/debug.c\<close>. The serial port is a byte stream, so a routine that
  prints is the list of the bytes it sends: \<^verbatim>\<open>putchar\<close> waits until the UART accepts the byte,
  which it is assumed to do. \<^verbatim>\<open>toggle\<close> is \<^verbatim>\<open>TRUE\<close>. A system register that a routine prints is an
  argument.
\<close>

definition text_of :: "string \<Rightarrow> u8 list" where
  "text_of s = map of_char s"

definition line_of :: "string \<Rightarrow> u8 list" where
  "line_of s = text_of s @ [10]"

definition colour :: "string \<Rightarrow> u8 list" where
  "colour s = 27 # text_of s"

definition dump :: "string \<Rightarrow> u64 \<Rightarrow> u8 list" where
  "dump name v = text_of ''[Debug] '' @ text_of name @ text_of '' : '' @ put_hex v @ [10]"

definition dump_end :: "string \<Rightarrow> u64 \<Rightarrow> u8 list" where
  "dump_end name v = colour ''[34m[Debug] '' @ text_of name @ text_of '' : '' @ put_hex v @ colour ''[0m'' @ [10]"

definition dump_start :: "string \<Rightarrow> u64 \<Rightarrow> u8 list" where
  "dump_start name v = colour ''[36m[Debug] '' @ text_of name @ text_of '' : '' @ put_hex v @ colour ''[0m'' @ [10]"

definition for_dump :: "string \<Rightarrow> u64 list \<Rightarrow> u8 list" where
  "for_dump name vs = concat (map (dump name) vs)"

text \<open>What \<^verbatim>\<open>full_stop\<close> prints before it loops forever.\<close>

definition full_stop_text :: "u8 list" where
  "full_stop_text = [10] @ line_of ''inf loop''"

definition enter :: "string \<Rightarrow> u8 list" where
  "enter name = [10] @ colour ''[31m[Enter] '' @ text_of name @ colour ''[0m'' @ [10]"

definition exit_text :: "string \<Rightarrow> u8 list" where
  "exit_text name = [10] @ text_of ''[Exit] '' @ text_of name @ [10]"

definition log_text :: "string \<Rightarrow> u8 list" where
  "log_text name = text_of ''[Debug] '' @ text_of name @ [10]"

definition flow :: "u8 \<Rightarrow> u8 list" where
  "flow ty = (if ty = 0 then log_text ''flow pass''
     else text_of ''[Debug] '' @ text_of ''flow test #'' @ put_hex2 (ucast ty) @ [10])"

definition reg_x8 :: "u64 \<Rightarrow> u8 list" where "reg_x8 v = dump ''x8'' v"
definition reg_elr_el1 :: "u64 \<Rightarrow> u8 list" where "reg_elr_el1 v = dump ''elr_el1'' v"
definition reg_esr_el1 :: "u64 \<Rightarrow> u8 list" where "reg_esr_el1 v = dump ''esr_el1'' v"
definition reg_far_el1 :: "u64 \<Rightarrow> u8 list" where "reg_far_el1 v = dump ''far_el1'' v"
definition reg_vbar :: "u64 \<Rightarrow> u8 list" where "reg_vbar v = dump ''vbar_el1'' v"
definition reg_cntfrq_el0 :: "u64 \<Rightarrow> u8 list" where "reg_cntfrq_el0 v = dump ''cntp_frq_el0'' v"

definition check_el0_sync :: "u8 list" where "check_el0_sync = log_text ''el0_SYNC''"
definition check_el1_sync :: "u8 list" where "check_el1_sync = log_text ''el1_SYNC''"
definition check_el1_irq :: "u8 list" where "check_el1_irq = log_text ''el1_IRQ''"
definition check_el0_irq :: "u8 list" where "check_el0_irq = log_text ''el0_IRQ''"
definition check_loop :: "u8 list" where "check_loop = log_text ''A loop''"
definition check_inf_loop :: "u8 list" where "check_inf_loop = log_text ''inf loop''"

text \<open>The static counter of \<open>flow_asm\<close> is passed and returned.\<close>

definition flow_asm :: "u32 \<Rightarrow> u32 \<times> u8 list" where
  "flow_asm n = (n + 1, text_of ''[Debug] '' @ text_of ''flow pass in asm '' @ put_hex (scast (n + 1)) @ [10])"

end
