(* ===== verification/Kernel.thy ===== *)
theory Kernel
  imports Debug Dstruc Alloc MM FM
begin

text \<open>
  The state of the kernel. Each manager keeps its tables at a fixed address
  (\<^verbatim>\<open>pm_object\<close>, \<^verbatim>\<open>fm_record\<close>, \<^verbatim>\<open>mm_stack\<close>, \<^verbatim>\<open>dm_driver\<close>) and all of them are reached from
  everywhere; the model has one record \<open>kernel\<close> with a field for each, physical memory, the
  pointer \<^verbatim>\<open>current_proc\<close> and the bytes sent to the serial port.

  A pointer to a process is its index in \<open>PMv1_mem\<close>, one to a file its index in \<open>FMv3_mem\<close>, one
  to a page table the heap address of the table. The tables of other managers and the files live
  apart from \<open>k_mem\<close>, which holds user memory, the file contents and everything a system call
  passes by address.
\<close>

definition MAX_PCB_SIZE :: nat where "MAX_PCB_SIZE = 256"
definition INITIAL_PROC_SIZE :: u16 where "INITIAL_PROC_SIZE = 1024"
definition PMV1_MAX_PROC :: u8 where "PMV1_MAX_PROC = 0xFF"
definition ROOT_PROC_SECT :: nat where "ROOT_PROC_SECT = 1"
definition MAX_CONTROL_NUM :: nat where "MAX_CONTROL_NUM = 3"
definition MAX_DEVI_NUM :: nat where "MAX_DEVI_NUM = 32"
definition PROC_DORM :: u8 where "PROC_DORM = 1"
definition PROC_STOP :: u8 where "PROC_STOP = 2"
definition PROC_ZOMB :: u8 where "PROC_ZOMB = 3"
definition PROC_SIGNAL :: u8 where "PROC_SIGNAL = 0xFF"

section \<open>Data types\<close>

record proc_regs_t =
  reg_x :: "u64 list"
  r_sp :: u64
  r_spsr :: u64
  elr_el1 :: u64

record proc_msg_t =
  msg_from :: u8
  is_call :: u8
  is_msgbox :: bool
  msg_len :: u8
  msgbox :: "u8 list"

text \<open>A device control block is the global \<^verbatim>\<open>uart_device\<close> or an entry of the device manager.\<close>

datatype dev_ptr = Uart_device | Dm_entry nat

text \<open>The union of a device and a file pointer, told apart by what was stored last.\<close>

datatype ctrl_use = Use_dev "dev_ptr option" | Use_file nat

record ctrl_t =
  is_ctrl_alloc :: bool
  is_file :: bool
  file_offset :: u32
  use :: ctrl_use

record pcb_t =
  regs :: proc_regs_t
  p_num :: u8
  p_parent :: u8
  mm_addr :: u16
  p_state :: u8
  heap_start :: u64
  heap_break :: u64
  heap_limit :: u64
  msgs :: proc_msg_t
  control :: "ctrl_t list"
  page_i :: "nat option"

record proto_t =
  proto_rule :: u8
  proto_addr :: u64

record PMv1_object =
  is_alloc :: "bool list"
  lowqueue :: queue
  highqueue :: queue
  PMv1_mem :: "nat \<Rightarrow> pcb_t"
  proto_arr :: "nat \<Rightarrow> proto_t"

text \<open>A page table: the 512 words are pointers to tables or frame addresses.\<close>

record page_t =
  pg_full :: bool
  pg_num :: nat
  pg_leaf :: bool
  pg_word :: "nat \<Rightarrow> u64"

text \<open>
  What the kernel uses of a device: its name, as a C string, or null, and its initialisation
  function, as an address, or null. The other function pointers are never called through an entry.
\<close>

record dcb_t =
  dev_name :: "cstr option"
  dev_base :: u64
  dev_irq :: u32
  dev_init :: "u64 option"

type_synonym DMv1_driver = "nat \<Rightarrow> dcb_t"

record kernel =
  k_mm :: MMv5_stack
  k_fm :: FMv3_record
  k_pm :: PMv1_object
  k_dm :: DMv1_driver
  k_mem :: mem
  k_pages :: "nat \<Rightarrow> page_t option"
  k_cur :: "nat option"
  k_out :: "u8 list"

definition emit :: "u8 list \<Rightarrow> kernel \<Rightarrow> kernel" where
  "emit bs k = k\<lparr>k_out := k_out k @ bs\<rparr>"

definition proc :: "kernel \<Rightarrow> nat \<Rightarrow> pcb_t" where
  "proc k i = PMv1_mem (k_pm k) i"

definition set_proc :: "nat \<Rightarrow> pcb_t \<Rightarrow> kernel \<Rightarrow> kernel" where
  "set_proc i p k = k\<lparr>k_pm := (k_pm k)\<lparr>PMv1_mem := (PMv1_mem (k_pm k))(i := p)\<rparr>\<rparr>"

text \<open>There is one kernel heap; the file index keeps its nodes in it.\<close>

definition k_heap :: "kernel \<Rightarrow> heap" where
  "k_heap k = bp_heap (fm_bpt (k_fm k))"

definition set_heap :: "heap \<Rightarrow> kernel \<Rightarrow> kernel" where
  "set_heap h k = k\<lparr>k_fm := (k_fm k)\<lparr>fm_bpt := (fm_bpt (k_fm k))\<lparr>bp_heap := h\<rparr>\<rparr>\<rparr>"

lemma set_heap_frame [simp]:
  "k_heap (set_heap h k) = h" "k_mm (set_heap h k) = k_mm k" "k_pm (set_heap h k) = k_pm k"
  "k_dm (set_heap h k) = k_dm k" "k_mem (set_heap h k) = k_mem k"
  "k_pages (set_heap h k) = k_pages k" "k_cur (set_heap h k) = k_cur k"
  "k_out (set_heap h k) = k_out k" "proc (set_heap h k) = proc k"
  "bp_nd (fm_bpt (k_fm (set_heap h k))) = bp_nd (fm_bpt (k_fm k))"
  by (simp_all add: set_heap_def k_heap_def proc_def fun_eq_iff)

lemma emit_frame [simp]:
  "k_heap (emit bs k) = k_heap k" "k_mm (emit bs k) = k_mm k" "k_fm (emit bs k) = k_fm k"
  "k_pm (emit bs k) = k_pm k" "k_dm (emit bs k) = k_dm k" "k_mem (emit bs k) = k_mem k"
  "k_pages (emit bs k) = k_pages k" "k_cur (emit bs k) = k_cur k"
  "k_out (emit bs k) = k_out k @ bs"
  by (simp_all add: emit_def k_heap_def)

lemma set_proc_frame [simp]:
  "k_heap (set_proc i p k) = k_heap k" "k_mm (set_proc i p k) = k_mm k" "k_fm (set_proc i p k) = k_fm k"
  "k_dm (set_proc i p k) = k_dm k" "k_mem (set_proc i p k) = k_mem k"
  "k_pages (set_proc i p k) = k_pages k" "k_cur (set_proc i p k) = k_cur k"
  "k_out (set_proc i p k) = k_out k"
  "proc (set_proc i p k) = (proc k)(i := p)"
  "is_alloc (k_pm (set_proc i p k)) = is_alloc (k_pm k)"
  "lowqueue (k_pm (set_proc i p k)) = lowqueue (k_pm k)"
  "highqueue (k_pm (set_proc i p k)) = highqueue (k_pm k)"
  "PMv1_mem (k_pm (set_proc i p k)) = (PMv1_mem (k_pm k))(i := p)"
  by (simp_all add: set_proc_def proc_def k_heap_def fun_eq_iff)

lemma proc_emit [simp]: "proc (emit bs k) = proc k"
  by (simp add: proc_def fun_eq_iff)

lemma kernel_upd_frame [simp]:
  "k_heap (k\<lparr>k_mm := mm\<rparr>) = k_heap k" "k_heap (k\<lparr>k_pm := pm\<rparr>) = k_heap k"
  "k_heap (k\<lparr>k_mem := m\<rparr>) = k_heap k" "k_heap (k\<lparr>k_pages := pg\<rparr>) = k_heap k"
  "k_heap (k\<lparr>k_cur := c\<rparr>) = k_heap k" "k_heap (k\<lparr>k_out := bs\<rparr>) = k_heap k"
  "proc (k\<lparr>k_mm := mm\<rparr>) = proc k" "proc (k\<lparr>k_mem := m\<rparr>) = proc k" "proc (k\<lparr>k_pages := pg\<rparr>) = proc k"
  "proc (k\<lparr>k_cur := c\<rparr>) = proc k" "proc (k\<lparr>k_fm := f\<rparr>) = proc k" "proc (k\<lparr>k_out := bs\<rparr>) = proc k"
  by (simp_all add: k_heap_def proc_def fun_eq_iff)

section \<open>Debug output about the kernel's data\<close>

definition proc_dump :: "string \<Rightarrow> u64 \<Rightarrow> pcb_t \<Rightarrow> u8 list" where
  "proc_dump name addr p =
     dump name addr @ dump (name @ '' id'') (ucast (p_num p)) @ dump (name @ '' sp'') (r_sp (regs p))
     @ dump (name @ '' elr_el1'') (elr_el1 (regs p))
     @ text_of ''[Debug] '' @ text_of name @ text_of '' spsr: '' @ put_hex (r_spsr (regs p)) @ [10]"

definition file_dump :: "string \<Rightarrow> u64 \<Rightarrow> fcb_t \<Rightarrow> u8 list" where
  "file_dump name addr f =
     dump name addr @ dump (name @ '' id'') (of_nat (f_fid f)) @ dump (name @ '' size'') (of_nat (f_lens f))"

end
