(* ===== verification/PM.thy ===== *)
theory PM
  imports Kernel
begin

text \<open>
  The process manager: \<^verbatim>\<open>src/manage/pm.c\<close> (creation and the page walk) and \<^verbatim>\<open>src/manage/expm.c\<close>
  (the run queues and messages). \<^verbatim>\<open>pm_delete\<close> has an empty body, so processes are never removed.
\<close>

section \<open>The run queues\<close>

definition pm_init :: "PMv1_object \<Rightarrow> PMv1_object" where
  "pm_init obj =
     obj\<lparr>lowqueue := queue_init (q_buffer (lowqueue obj)) 255,
         highqueue := queue_init (q_buffer (highqueue obj)) 255\<rparr>"

definition pm_pick :: "u8 \<Rightarrow> nat" where
  "pm_pick d = (if d \<ge> PMV1_MAX_PROC \<or> d = 0 then ROOT_PROC_SECT else unat d)"

definition pm_run :: "PMv1_object \<Rightarrow> nat \<times> PMv1_object" where
  "pm_run obj =
     (if \<not> queue_empty (highqueue obj)
      then let (d, q) = queue_pop (highqueue obj) in (pm_pick d, obj\<lparr>highqueue := q\<rparr>)
      else if \<not> queue_empty (lowqueue obj)
      then let (d, q) = queue_pop (lowqueue obj) in (pm_pick d, obj\<lparr>lowqueue := q\<rparr>)
      else (ROOT_PROC_SECT, obj))"

definition pm_awake :: "PMv1_object \<Rightarrow> u8 \<Rightarrow> nat \<Rightarrow> PMv1_object" where
  "pm_awake obj cmd i =
     (let p = PMv1_mem obj i in
      if cmd = 0 then obj\<lparr>lowqueue := queue_push (lowqueue obj) (p_num p)\<rparr>
      else obj\<lparr>PMv1_mem := (PMv1_mem obj)(i :=
        (if cmd = 1 then p\<lparr>p_state := PROC_DORM\<rparr>
         else if cmd = 2 then p\<lparr>p_state := PROC_STOP\<rparr>
         else if cmd = 3 then p\<lparr>p_state := PROC_ZOMB\<rparr>
         else p))\<rparr>)"

text \<open>The copy loop of \<open>ptp\<close>, with what it prints.\<close>

fun ptp_copy :: "(nat \<Rightarrow> u8) \<Rightarrow> nat \<Rightarrow> nat \<Rightarrow> u8 list \<Rightarrow> (u8 list \<times> u8 list) option" where
  "ptp_copy msg i 0 box = Some (box, [])"
| "ptp_copy msg i (Suc n) box = do {
     box' \<leftarrow> aset box i (msg i);
     (box'', out) \<leftarrow> ptp_copy msg (i + 1) n box';
     Some (box'', dump ''msg'' (ucast (msg i)) @ out) }"

text \<open>
  \<open>towho\<close> is eight bits, so it indexes \<open>PMv1_mem\<close> within its 256 entries. On a free mailbox the
  message is stored, the head of the low queue - whichever process that is - is dropped, and the
  receiver is put on the high queue.
\<close>

definition ptp :: "PMv1_object \<Rightarrow> u8 \<Rightarrow> u8 \<Rightarrow> (nat \<Rightarrow> u8) \<Rightarrow> u8 \<Rightarrow> (PMv1_object \<times> u8 list) option" where
  "ptp obj who towho msg len =
     (let rece = PMv1_mem obj (unat towho); m = msgs rece in
      if \<not> is_msgbox m
      then if len > 64 then Some (obj, log_text ''who'')
           else do {
             (box, out) \<leftarrow> ptp_copy msg 0 (unat len) (msgbox m);
             let m' = m\<lparr>is_msgbox := True, msg_from := who, msg_len := len, msgbox := box\<rparr>;
             Some (obj\<lparr>PMv1_mem := (PMv1_mem obj)(unat towho := rece\<lparr>msgs := m'\<rparr>),
                       lowqueue := snd (queue_pop (lowqueue obj)),
                       highqueue := queue_push (highqueue obj) towho\<rparr>,
                   log_text ''who'' @ out)
           }
      else Some (obj, log_text ''WHY''))"

section \<open>Creating a process\<close>

definition fresh_msgs :: "proc_msg_t \<Rightarrow> proc_msg_t" where
  "fresh_msgs m = m\<lparr>msg_from := 0, is_call := 0, is_msgbox := False, msg_len := 0,
     msgbox := replicate 64 0\<rparr>"

definition uart_ctrl :: ctrl_t where
  "uart_ctrl = \<lparr>is_ctrl_alloc = True, is_file = False, file_offset = 0, use = Use_dev (Some Uart_device)\<rparr>"

definition empty_page :: page_t where
  "empty_page = \<lparr>pg_full = False, pg_num = 0, pg_leaf = False, pg_word = (\<lambda>_. 0)\<rparr>"

definition sizeof_page_t :: u32 where "sizeof_page_t = 4104"

definition fresh_regs :: "u64 \<Rightarrow> u64 \<Rightarrow> proc_regs_t" where
  "fresh_regs ent real_addr =
     \<lparr>reg_x = replicate 31 0, r_sp = real_addr + push_bit 10 (ucast INITIAL_PROC_SIZE),
      r_spsr = (if ent = 0 then 0x340 else 0x3c5), elr_el1 = ent\<rparr>"

definition free_slot :: "nat \<Rightarrow> kernel \<Rightarrow> kernel" where
  "free_slot i k = k\<lparr>k_pm := (k_pm k)\<lparr>is_alloc := (is_alloc (k_pm k))[i := False]\<rparr>\<rparr>"

text \<open>
  Slot \<open>i\<close> is process number \<open>i + 1\<close>, which is also its index: the last slot would give the
  index 256, outside the array. The identifier is stored in eight bits.
\<close>

definition pm_create :: "kernel \<Rightarrow> u64 \<Rightarrow> u8 \<Rightarrow> (nat option \<times> kernel) option" where
  "pm_create k ent parid =
     (case first_free (is_alloc (k_pm k)) of
        None \<Rightarrow> Some (None, k)
      | Some i \<Rightarrow>
          if i + 1 \<ge> MAX_PCB_SIZE then None
          else do {
            let n = i + 1;
            let k1 = k\<lparr>k_pm := (k_pm k)\<lparr>is_alloc := (is_alloc (k_pm k))[i := True]\<rparr>\<rparr>;
            c \<leftarrow> aset (control (proc k1 n)) 0 uart_ctrl;
            let p1 = (proc k1 n)\<lparr>p_num := of_nat n, p_parent := parid, p_state := 0,
                       heap_start := 0, heap_break := 0, heap_limit := 0,
                       msgs := fresh_msgs (msgs (proc k1 n)), control := c\<rparr>;
            (pt, h) \<leftarrow> heap_alloc (k_heap k1) sizeof_page_t;
            let p2 = p1\<lparr>page_i := pt\<rparr>;
            let k2 = set_proc n p2 (set_heap h k1);
            (case pt of
               None \<Rightarrow> Some (None, emit (dump ''Process page table allocation failed'' (of_nat n)) (free_slot i k2))
             | Some a \<Rightarrow>
                 let (mm, addr) = mm_creat (k_mm k2) INITIAL_PROC_SIZE;
                     p3 = p2\<lparr>mm_addr := addr\<rparr>;
                     k3 = set_proc n p3 (k2\<lparr>k_mm := mm\<rparr>)
                 in if sp_top mm = sp_top (k_mm k2)
                    then do {
                      h' \<leftarrow> heap_free (k_heap k3) (Some a);
                      Some (None, emit (dump ''Process memory allocation failed'' (ucast INITIAL_PROC_SIZE))
                              (free_slot i (set_heap h' k3)))
                    }
                    else let real_addr = mm_find mm addr 0;
                             p4 = p3\<lparr>regs := fresh_regs ent real_addr\<rparr>
                         in Some (Some n, set_proc n p4
                                    (k3\<lparr>k_pages := (k_pages k3)(a \<mapsto> empty_page)\<rparr>)))
          })"

definition creat_proc :: "kernel \<Rightarrow> u64 \<Rightarrow> u8 \<Rightarrow> (nat option \<times> kernel) option" where
  "creat_proc k task parid = pm_create k task parid"

section \<open>The page walk\<close>

definition page_index :: "u64 \<Rightarrow> nat \<Rightarrow> nat" where
  "page_index addr sh = unat (drop_bit sh addr AND 0x1FF)"

text \<open>A pointer read from a table: null or the address of a table.\<close>

definition page_at :: "kernel \<Rightarrow> u64 \<Rightarrow> page_t option option" where
  "page_at k w = (if w = 0 then Some None else do { pg \<leftarrow> k_pages k (unat w); Some (Some pg) })"

definition mm_page :: "kernel \<Rightarrow> u64 \<Rightarrow> u64 option" where
  "mm_page k vaddr = do {
     cur \<leftarrow> k_cur k;
     let addr = drop_bit 12 vaddr;
     let offset = vaddr AND 0xFFF;
     (case page_i (proc k cur) of
        None \<Rightarrow> Some 0
      | Some a \<Rightarrow> do {
          p0 \<leftarrow> k_pages k a;
          if pg_leaf p0 then Some 0
          else do {
            q1 \<leftarrow> page_at k (pg_word p0 (page_index addr 18));
            (case q1 of
               None \<Rightarrow> Some 0
             | Some p1 \<Rightarrow>
                 if pg_leaf p1 then Some 0
                 else do {
                   q2 \<leftarrow> page_at k (pg_word p1 (page_index addr 9));
                   (case q2 of
                      None \<Rightarrow> Some 0
                    | Some p2 \<Rightarrow>
                        if \<not> pg_leaf p2 then Some 0
                        else Some (pg_word p2 (page_index addr 0) + offset))
                 })
          }
        })
   }"

section \<open>How many processes there can be\<close>

text \<open>
  Every process owns a page table of 4104 bytes on the kernel heap, and nothing ever frees it.
  \<open>procs_ok\<close> is the invariant of process creation.
\<close>

definition used_slots :: "kernel \<Rightarrow> nat set" where
  "used_slots k = {i. i < length (is_alloc (k_pm k)) \<and> is_alloc (k_pm k) ! i}"

definition procs_ok :: "kernel \<Rightarrow> bool" where
  "procs_ok k \<longleftrightarrow> heap_inv (k_heap k) \<and> sp_bot (k_mm k) = 0xFFFF \<and> length (is_alloc (k_pm k)) = 256
     \<and> (\<forall>i. length (control (proc k i)) = 3)
     \<and> (\<forall>i\<in>used_slots k. \<exists>a n. page_i (proc k (i + 1)) = Some a \<and> (a, n) \<in> live (k_heap k) \<and> 4104 \<le> n)
     \<and> inj_on (\<lambda>i. page_i (proc k (i + 1))) (used_slots k)"

lemma procs_ok_card:
  assumes "procs_ok k"
  shows "finite (used_slots k)" "card (used_slots k) \<le> 24"
proof -
  show fin: "finite (used_slots k)" by (rule finite_subset [of _ "{..<length (is_alloc (k_pm k))}"]) (auto simp: used_slots_def)
  have "\<forall>i\<in>used_slots k. \<exists>x. page_i (proc k (i + 1)) = Some (fst x) \<and> x \<in> live (k_heap k) \<and> 4104 \<le> snd x"
    using assms unfolding procs_ok_def by fastforce
  then obtain f where f: "\<forall>i\<in>used_slots k. page_i (proc k (i + 1)) = Some (fst (f i)) \<and> f i \<in> live (k_heap k) \<and> 4104 \<le> snd (f i)"
    by metis
  have inj: "inj_on f (used_slots k)"
  proof (rule inj_onI)
    fix i j assume "i \<in> used_slots k" "j \<in> used_slots k" "f i = f j"
    then show "i = j" using f assms unfolding procs_ok_def inj_on_def by metis
  qed
  have "card (f ` used_slots k) * (HDR + 4104) \<le> HEAP_SIZE"
    using assms f fin by (intro hp.live_count [of "k_heap k"]) (auto simp: procs_ok_def)
  then show "card (used_slots k) \<le> 24"
    using card_image [OF inj] by (simp add: HDR_def HEAP_SIZE_def)
qed

lemma first_free_bound:
  assumes "procs_ok k" "first_free (is_alloc (k_pm k)) = Some i"
  shows "i \<le> 24"
proof -
  have "{..<i} \<subseteq> used_slots k"
    using first_free_Some [OF assms(2)] by (auto simp: used_slots_def)
  then have "card {..<i} \<le> card (used_slots k)" by (intro card_mono procs_ok_card [OF assms(1)])
  then show ?thesis using procs_ok_card(2) [OF assms(1)] by simp
qed

lemma sizeof_page_fits: "fits sizeof_page_t" and sizeof_page_unat: "unat sizeof_page_t = 4104"
  by (simp_all add: fits_def sizeof_page_t_def HDR_def)

lemma mm_creat_proc:
  assumes "sp_bot s = 0xFFFF"
  obtains "mm_creat s INITIAL_PROC_SIZE = (s, 0)"
  | s' where "mm_creat s INITIAL_PROC_SIZE = (s', sp_top s)" "sp_top s' \<noteq> sp_top s" "sp_bot s' = 0xFFFF"
      "mm_base s' = mm_base s" "mm_used s' = mm_used s + 8"
      "mm_find s' (sp_top s) 0 = mm_base s + of_nat (131072 * (mm_used s mod 65536))"
proof -
  have u: "units_of INITIAL_PROC_SIZE = 8" "INITIAL_PROC_SIZE \<noteq> 0"
    by (simp_all add: units_of_def INITIAL_PROC_SIZE_def)
  show ?thesis
  proof (cases "65535 < unat (sp_top s) + (units_of INITIAL_PROC_SIZE + 2) div 3")
    case True
    then show ?thesis using that(1) mm_creat_fail assms by blast
  next
    case False
    then obtain s' where s': "mm_creat s INITIAL_PROC_SIZE = (s', sp_top s)"
      "unat (sp_top s') = unat (sp_top s) + 3" "mm_used s' = mm_used s + 8"
      "\<forall>j<unat (sp_top s). map_entry (MMv5_mem s') j = map_entry (MMv5_mem s) j"
      "mm_base s' = mm_base s" "sp_bot s' = 0xFFFF"
      using mm_creat_ok [of INITIAL_PROC_SIZE s] assms u by auto
    have "mm_find s' (sp_top s) 0 = mm_base s + of_nat (131072 * (mm_used s mod 65536))"
      using mm_find_cong [of s' s "sp_top s" 0] s'(4,5) mm_find_top [of s 0] by simp
    moreover have "sp_top s' \<noteq> sp_top s" using s'(2) by auto
    ultimately show ?thesis using that(2) [of s'] s' by blast
  qed
qed

lemma procs_ok_page:
  assumes "procs_ok k" "j \<in> used_slots k"
  obtains a n where "page_i (proc k (j + 1)) = Some a" "(a, n) \<in> live (k_heap k)" "4104 \<le> n"
  using assms unfolding procs_ok_def by meson

lemma procs_ok_upd:
  assumes ok: "procs_ok k" and i: "i \<notin> used_slots k"
    and eqs: "is_alloc (k_pm k') = is_alloc (k_pm k)" "proc k' = (proc k)(i + 1 := p)"
      "length (control p) = 3" "sp_bot (k_mm k') = 0xFFFF" "heap_inv (k_heap k')"
      "live (k_heap k) \<subseteq> live (k_heap k')"
  shows "procs_ok k' \<and> used_slots k' = used_slots k"
proof -
  have u: "used_slots k' = used_slots k" by (simp add: used_slots_def eqs)
  have p: "page_i (proc k' (j + 1)) = page_i (proc k (j + 1))" if "j \<in> used_slots k" for j
    using that i eqs(2) by auto
  have "inj_on (\<lambda>j. page_i (proc k' (j + 1))) (used_slots k)"
    using ok p by (simp add: procs_ok_def inj_on_def)
  moreover have "\<exists>a n. page_i (proc k' (j + 1)) = Some a \<and> (a, n) \<in> live (k_heap k') \<and> 4104 \<le> n"
    if "j \<in> used_slots k" for j
    by (rule procs_ok_page [OF ok that]) (use p [OF that] eqs(6) in auto)
  moreover have "length (control (proc k' j)) = 3" for j using ok eqs by (simp add: procs_ok_def)
  ultimately show ?thesis using ok eqs u by (simp add: procs_ok_def)
qed

lemma procs_ok_add:
  assumes ok: "procs_ok k" and i: "i \<notin> used_slots k" "i < 256"
    and eqs: "is_alloc (k_pm k') = (is_alloc (k_pm k))[i := True]" "proc k' = (proc k)(i + 1 := p)"
      "length (control p) = 3" "sp_bot (k_mm k') = 0xFFFF" "heap_inv (k_heap k')"
    and pg: "page_i p = Some a" "a \<notin> owned (k_heap k)" "4104 \<le> m"
      "live (k_heap k') = insert (a, m) (live (k_heap k))"
  shows "procs_ok k' \<and> used_slots k' = insert i (used_slots k)"
proof -
  have len: "length (is_alloc (k_pm k)) = 256" using ok by (simp add: procs_ok_def)
  have u: "used_slots k' = insert i (used_slots k)"
    using i(2) len by (auto simp: used_slots_def eqs(1) nth_list_update)
  have p: "page_i (proc k' (j + 1)) = page_i (proc k (j + 1))" if "j \<in> used_slots k" for j
    using that i eqs(2) by auto
  have new: "page_i (proc k' (i + 1)) = Some a" using eqs(2) pg(1) by simp
  have old: "page_i (proc k (j + 1)) \<noteq> Some a" if "j \<in> used_slots k" for j
  proof
    assume "page_i (proc k (j + 1)) = Some a"
    with procs_ok_page [OF ok that] obtain n where "(a, n) \<in> live (k_heap k)" by auto
    then show False using pg(2) by (force simp: owned_def)
  qed
  have "inj_on (\<lambda>j. page_i (proc k' (j + 1))) (insert i (used_slots k))"
  proof (rule inj_onI)
    fix x y assume xy: "x \<in> insert i (used_slots k)" "y \<in> insert i (used_slots k)"
      "page_i (proc k' (x + 1)) = page_i (proc k' (y + 1))"
    have "inj_on (\<lambda>j. page_i (proc k (j + 1))) (used_slots k)" using ok by (simp add: procs_ok_def)
    then show "x = y" using xy p old new by (metis inj_onD insertE)
  qed
  moreover have "\<exists>b n. page_i (proc k' (j + 1)) = Some b \<and> (b, n) \<in> live (k_heap k') \<and> 4104 \<le> n"
    if "j \<in> insert i (used_slots k)" for j
  proof (cases "j = i")
    case True
    then show ?thesis using new pg by auto
  next
    case False
    then have "j \<in> used_slots k" using that by simp
    show ?thesis by (rule procs_ok_page [OF ok \<open>j \<in> used_slots k\<close>]) (use p [OF \<open>j \<in> used_slots k\<close>] pg(4) in auto)
  qed
  moreover have "length (control (proc k' j)) = 3" for j using ok eqs by (simp add: procs_ok_def)
  ultimately show ?thesis using ok eqs u len by (simp add: procs_ok_def)
qed

text \<open>Where the next process is placed.\<close>

definition next_base :: "kernel \<Rightarrow> u64" where
  "next_base k = mm_base (k_mm k) + of_nat (131072 * (mm_used (k_mm k) mod 65536))"

text \<open>What a successful creation of process \<open>n\<close> does.\<close>

definition created :: "kernel \<Rightarrow> kernel \<Rightarrow> nat \<Rightarrow> u64 \<Rightarrow> u8 \<Rightarrow> bool" where
  "created k k' n ent parid \<longleftrightarrow>
     n \<ge> 1 \<and> n - 1 \<notin> used_slots k \<and> used_slots k' = insert (n - 1) (used_slots k)
     \<and> p_num (proc k' n) = of_nat n \<and> p_parent (proc k' n) = parid
     \<and> elr_el1 (regs (proc k' n)) = ent \<and> r_sp (regs (proc k' n)) = next_base k + 0x100000
     \<and> mm_find (k_mm k') (mm_addr (proc k' n)) 0 = next_base k \<and> mm_used (k_mm k') = mm_used (k_mm k) + 8
     \<and> mm_base (k_mm k') = mm_base (k_mm k)
     \<and> control (proc k' n) ! 0 = uart_ctrl \<and> \<not> is_msgbox (msgs (proc k' n))
     \<and> (\<exists>a. page_i (proc k' n) = Some a \<and> k_pages k' a = Some empty_page)
     \<and> (\<forall>j. j \<noteq> n \<longrightarrow> proc k' j = proc k j)"

text \<open>What every creation leaves alone.\<close>

definition same_rest :: "kernel \<Rightarrow> kernel \<Rightarrow> bool" where
  "same_rest k k' \<longleftrightarrow> k_mem k' = k_mem k \<and> k_cur k' = k_cur k \<and> k_dm k' = k_dm k
     \<and> bp_nd (fm_bpt (k_fm k')) = bp_nd (fm_bpt (k_fm k))
     \<and> lowqueue (k_pm k') = lowqueue (k_pm k) \<and> highqueue (k_pm k') = highqueue (k_pm k)"

lemma pm_create_ok:
  assumes ok: "procs_ok k"
  shows "\<exists>r k'. pm_create k ent parid = Some (r, k') \<and> procs_ok k' \<and> same_rest k k'
    \<and> (case r of None \<Rightarrow> used_slots k' = used_slots k \<and> sp_top (k_mm k') = sp_top (k_mm k)
       | Some n \<Rightarrow> created k k' n ent parid)"
proof (cases "first_free (is_alloc (k_pm k))")
  case None
  then show ?thesis using ok by (simp add: pm_create_def same_rest_def)
next
  case (Some i)
  let ?n = "i + 1"
  define k1 where "k1 = k\<lparr>k_pm := (k_pm k)\<lparr>is_alloc := (is_alloc (k_pm k))[i := True]\<rparr>\<rparr>"
  have i: "i \<le> 24" "i \<notin> used_slots k" "\<not> is_alloc (k_pm k) ! i"
    using first_free_bound [OF ok Some] first_free_Some [OF Some] by (auto simp: used_slots_def)
  have k1: "proc k1 = proc k" "k_heap k1 = k_heap k" "k_mm k1 = k_mm k"
    by (simp_all add: k1_def proc_def k_heap_def fun_eq_iff)
  have len: "length (control (proc k ?n)) = 3" "length (is_alloc (k_pm k)) = 256"
    and mm: "sp_bot (k_mm k) = 0xFFFF" and hp: "heap_inv (k_heap k)"
    using ok by (simp_all add: procs_ok_def)
  define q where "q = (proc k ?n)\<lparr>p_num := of_nat ?n, p_parent := parid, p_state := 0,
                       heap_start := 0, heap_break := 0, heap_limit := 0,
                       msgs := fresh_msgs (msgs (proc k ?n)), control := (control (proc k ?n))[0 := uart_ctrl]\<rparr>"
  note unf = pm_create_def Some k1_def [symmetric] Let_def k1 aset_Some option.case
  have restore: "(is_alloc (k_pm k))[i := True, i := False] = is_alloc (k_pm k)"
    using i(3) by (simp add: list_update_same_conv list_update_id) (metis list_update_id)
  consider (no_page) "heap_alloc (k_heap k) sizeof_page_t = Some (None, k_heap k)"
    | (page) a m h where "heap_alloc (k_heap k) sizeof_page_t = Some (Some a, h)" "heap_inv h" "4104 \<le> m"
        "a \<notin> owned (k_heap k)" "live h = insert (a, m) (live (k_heap k))"
    using hp.malloc_cases [OF hp sizeof_page_fits] unfolding hp_addrs sizeof_page_unat by metis
  then show ?thesis
  proof cases
    case no_page
    define k' where "k' = emit (dump ''Process page table allocation failed'' (of_nat ?n))
      (free_slot i (set_proc ?n (q\<lparr>page_i := None\<rparr>) (set_heap (k_heap k) k1)))"
    have "same_rest k k'" by (simp add: same_rest_def k'_def free_slot_def set_proc_def set_heap_def emit_def k1_def)
    moreover have "pm_create k ent parid = Some (None, k')"
      using no_page i(1) len unfolding unf by (simp add: MAX_PCB_SIZE_def q_def k'_def)
    moreover have "procs_ok k' \<and> used_slots k' = used_slots k"
    proof (rule procs_ok_upd [OF ok i(2), where p = "q\<lparr>page_i := None\<rparr>"])
      show "proc k' = (proc k)(i + 1 := q\<lparr>page_i := None\<rparr>)"
        by (simp add: k'_def free_slot_def k1 proc_def fun_eq_iff set_proc_def k1_def)
      show "is_alloc (k_pm k') = is_alloc (k_pm k)"
        using restore by (simp add: k'_def free_slot_def k1_def)
    qed (use hp mm len in \<open>simp_all add: k'_def free_slot_def k1 q_def k_heap_def set_proc_def emit_def set_heap_def k1_def\<close>)
    moreover have "sp_top (k_mm k') = sp_top (k_mm k)" by (simp add: k'_def free_slot_def k1)
    ultimately show ?thesis by auto
  next
    case (page a m h)
    define k2 where "k2 = set_proc ?n (q\<lparr>page_i := Some a\<rparr>) (set_heap h k1)"
    have k2: "k_mm k2 = k_mm k" "k_heap k2 = h" "proc k2 = (proc k)(?n := q\<lparr>page_i := Some a\<rparr>)"
      "is_alloc (k_pm k2) = (is_alloc (k_pm k))[i := True]"
      by (simp_all add: k2_def k1) (simp add: k1_def)
    show ?thesis
    proof (rule mm_creat_proc [OF mm])
      assume full: "mm_creat (k_mm k) INITIAL_PROC_SIZE = (k_mm k, 0)"
      define p3 where "p3 = q\<lparr>page_i := Some a, mm_addr := 0\<rparr>"
      have am: "(a, m) \<in> live h" using page(5) by simp
      obtain h' where h': "heap_free h (Some a) = Some h'" "heap_inv h'" "live h' = live h - {(a, m)}"
        using hp.free_ok [OF page(2) am] by blast
      have lv: "live (k_heap k) \<subseteq> live h'" using h'(3) page(4,5) by (force simp: owned_def)
      define k' where "k' = emit (dump ''Process memory allocation failed'' (ucast INITIAL_PROC_SIZE))
         (free_slot i (set_heap h' (set_proc ?n p3 (k2\<lparr>k_mm := k_mm k\<rparr>))))"
      have "same_rest k k'"
        by (simp add: same_rest_def k'_def free_slot_def set_proc_def set_heap_def emit_def k2_def k1_def)
      moreover have "pm_create k ent parid = Some (None, k')"
        using page(1) i(1) len full h'(1) unfolding unf
        by (simp add: MAX_PCB_SIZE_def k'_def k2_def k1 p3_def q_def)
      moreover have "procs_ok k' \<and> used_slots k' = used_slots k"
      proof (rule procs_ok_upd [OF ok i(2), where p = p3])
        show "proc k' = (proc k)(i + 1 := p3)"
          by (simp add: k'_def free_slot_def proc_def fun_eq_iff set_proc_def k2_def k1_def set_heap_def emit_def)
        show "is_alloc (k_pm k') = is_alloc (k_pm k)"
          using restore by (simp add: k'_def free_slot_def k2_def k1_def)
      qed (use h' mm len lv in \<open>simp_all add: k'_def free_slot_def p3_def q_def k_heap_def set_proc_def emit_def set_heap_def k2_def k1_def\<close>)
      moreover have "sp_top (k_mm k') = sp_top (k_mm k)" by (simp add: k'_def free_slot_def)
      ultimately show ?thesis by auto
    next
      fix s'
      assume s': "mm_creat (k_mm k) INITIAL_PROC_SIZE = (s', sp_top (k_mm k))" "sp_top s' \<noteq> sp_top (k_mm k)"
        "sp_bot s' = 0xFFFF" "mm_base s' = mm_base (k_mm k)" "mm_used s' = mm_used (k_mm k) + 8"
        "mm_find s' (sp_top (k_mm k)) 0 = mm_base (k_mm k) + of_nat (131072 * (mm_used (k_mm k) mod 65536))"
      define p3 where "p3 = q\<lparr>page_i := Some a, mm_addr := sp_top (k_mm k)\<rparr>"
      define p4 where "p4 = p3\<lparr>regs := fresh_regs ent (mm_find s' (sp_top (k_mm k)) 0)\<rparr>"
      define k3 where "k3 = set_proc ?n p3 (k2\<lparr>k_mm := s'\<rparr>)"
      define k' where "k' = set_proc ?n p4 (k3\<lparr>k_pages := (k_pages k3)(a \<mapsto> empty_page)\<rparr>)"
      have pr: "proc k' = (proc k)(?n := p4)" and al: "is_alloc (k_pm k') = (is_alloc (k_pm k))[i := True]"
        and hk: "k_heap k' = h" "k_mm k' = s'"
        by (simp_all add: k'_def k3_def k2_def k1_def proc_def fun_eq_iff set_proc_def set_heap_def k_heap_def)
      have r: "pm_create k ent parid = Some (Some ?n, k')"
        using page(1) i(1) len s'(1,2) unfolding unf
        by (simp add: MAX_PCB_SIZE_def k'_def k3_def k2_def k1 p4_def p3_def q_def)
      have inv: "procs_ok k' \<and> used_slots k' = insert i (used_slots k)"
        by (rule procs_ok_add [OF ok i(2), where p = p4 and a = a and m = m])
          (use i(1) pr al hk s' page len in \<open>simp_all add: p4_def p3_def q_def\<close>)
      have rest: "same_rest k k'"
        by (simp add: same_rest_def k'_def k3_def free_slot_def set_proc_def set_heap_def emit_def k2_def k1_def)
      have "r_sp (fresh_regs ent x) = x + 0x100000" for x
        by (simp add: fresh_regs_def INITIAL_PROC_SIZE_def push_bit_eq_mult)
      then have f: "p_num p4 = of_nat ?n" "p_parent p4 = parid" "elr_el1 (regs p4) = ent"
        "r_sp (regs p4) = next_base k + 0x100000" "mm_find s' (mm_addr p4) 0 = next_base k"
        "control p4 ! 0 = uart_ctrl" "\<not> is_msgbox (msgs p4)" "page_i p4 = Some a"
        using len(1) s'(6) by (simp_all add: p4_def p3_def q_def fresh_regs_def fresh_msgs_def next_base_def)
      have pgs: "k_pages k' a = Some empty_page" by (simp add: k'_def)
      have "created k k' ?n ent parid"
        unfolding created_def using inv f pr i(2) pgs hk(2) s'(4,5) by simp
      then show ?thesis using r inv rest by (intro exI [of _ "Some ?n"] exI [of _ k']) simp
    qed
  qed
qed

text \<open>A creation succeeds while the heap has room for a page table and the memory map for the process.\<close>

lemma pm_create_succeeds:
  assumes ok: "procs_ok k" and i: "first_free (is_alloc (k_pm k)) = Some i"
    and rep: "heap_rep (k_heap k) bs" "fst (alloc_list (4104 + HDR) 0 bs) = Some a"
    and mm: "unat (sp_top (k_mm k)) + 3 \<le> 65535"
  shows "\<exists>k'. pm_create k ent parid = Some (Some (i + 1), k')"
proof -
  obtain h where h: "heap_alloc (k_heap k) sizeof_page_t = Some (Some a, h)"
    using heap_alloc_rep [OF rep(1) sizeof_page_fits] rep(2) unfolding sizeof_page_unat by metis
  obtain s' where s': "mm_creat (k_mm k) INITIAL_PROC_SIZE = (s', sp_top (k_mm k))" "sp_top s' \<noteq> sp_top (k_mm k)"
  proof (rule mm_creat_proc)
    show "sp_bot (k_mm k) = 0xFFFF" using ok by (simp add: procs_ok_def)
  next
    assume f: "mm_creat (k_mm k) INITIAL_PROC_SIZE = (k_mm k, 0)"
    have "\<not> (INITIAL_PROC_SIZE = 0 \<or> 65535 < unat (sp_top (k_mm k)) + (units_of INITIAL_PROC_SIZE + 2) div 3)"
      using mm by (simp add: INITIAL_PROC_SIZE_def units_of_def)
    then have "\<exists>s'. mm_creat (k_mm k) INITIAL_PROC_SIZE = (s', sp_top (k_mm k)) \<and> unat (sp_top s') = unat (sp_top (k_mm k)) + 3"
      using mm_creat_ok [of INITIAL_PROC_SIZE "k_mm k"] ok by (fastforce simp: procs_ok_def INITIAL_PROC_SIZE_def units_of_def)
    then show thesis using f by auto
  qed (rule that)
  have c: "i + 1 < MAX_PCB_SIZE" "length (control (proc k (i + 1))) = 3"
    using first_free_bound [OF ok i] ok by (simp_all add: MAX_PCB_SIZE_def procs_ok_def)
  have pr: "proc (k\<lparr>k_pm := (k_pm k)\<lparr>is_alloc := x\<rparr>\<rparr>) = proc k" "k_heap (k\<lparr>k_pm := (k_pm k)\<lparr>is_alloc := x\<rparr>\<rparr>) = k_heap k" for x
    by (simp_all add: proc_def fun_eq_iff)
  show ?thesis using i h s' c by (simp add: pm_create_def Let_def pr)
qed

section \<open>Runs of creations\<close>

fun pm_creates :: "kernel \<Rightarrow> (u64 \<times> u8) list \<Rightarrow> (nat option list \<times> kernel) option" where
  "pm_creates k [] = Some ([], k)"
| "pm_creates k ((ent, par) # cs) = do {
     (r, k') \<leftarrow> pm_create k ent par;
     (rs, k'') \<leftarrow> pm_creates k' cs;
     Some (r # rs, k'') }"

text \<open>A kernel as it is after booting, before the first process.\<close>

definition boot_kernel :: kernel where
  "boot_kernel =
     \<lparr>k_mm = mm_init mm_blank 0x40200000, k_fm = fm_boot,
      k_pm = pm_init
        \<lparr>is_alloc = replicate 256 False, lowqueue = queue_init (replicate 256 0) 0,
         highqueue = queue_init (replicate 256 0) 0,
         PMv1_mem = (\<lambda>_. \<lparr>regs = \<lparr>reg_x = [], r_sp = 0, r_spsr = 0, elr_el1 = 0\<rparr>,
           p_num = 0, p_parent = 0, mm_addr = 0, p_state = 0, heap_start = 0, heap_break = 0, heap_limit = 0,
           msgs = \<lparr>msg_from = 0, is_call = 0, is_msgbox = False, msg_len = 0, msgbox = replicate 64 0\<rparr>,
           control = replicate 3 \<lparr>is_ctrl_alloc = False, is_file = False, file_offset = 0, use = Use_dev None\<rparr>,
           page_i = None\<rparr>),
         proto_arr = (\<lambda>_. \<lparr>proto_rule = 0, proto_addr = 0\<rparr>)\<rparr>,
      k_dm = (\<lambda>_. \<lparr>dev_name = None, dev_base = 0, dev_irq = 0, dev_init = None\<rparr>),
      k_mem = (\<lambda>_. 0), k_pages = Map.empty, k_cur = None, k_out = []\<rparr>"

lemma boot_kernel_ok: "procs_ok boot_kernel" "used_slots boot_kernel = {}"
proof -
  show u: "used_slots boot_kernel = {}" by (auto simp: used_slots_def boot_kernel_def pm_init_def)
  show "procs_ok boot_kernel" unfolding procs_ok_def u
    by (simp add: boot_kernel_def k_heap_def fm_boot_def heap_init_inv pm_init_def proc_def)
qed

lemma pm_creates_ok:
  "procs_ok k \<Longrightarrow> \<exists>rs k'. pm_creates k cs = Some (rs, k') \<and> procs_ok k'
     \<and> card (used_slots k') = card (used_slots k) + length (filter (\<lambda>r. r \<noteq> None) rs)
     \<and> (\<forall>n. Some n \<in> set rs \<longrightarrow> 1 \<le> n \<and> n - 1 \<in> used_slots k')
     \<and> used_slots k \<subseteq> used_slots k'"
proof (induction cs arbitrary: k)
  case Nil
  then show ?case by simp
next
  case (Cons c cs)
  obtain ent par where c: "c = (ent, par)" by (cases c)
  obtain r k1 where k1: "pm_create k ent par = Some (r, k1)" "procs_ok k1"
    "case r of None \<Rightarrow> used_slots k1 = used_slots k \<and> sp_top (k_mm k1) = sp_top (k_mm k)
      | Some n \<Rightarrow> created k k1 n ent par"
    using pm_create_ok [OF Cons.prems] by metis
  obtain rs k2 where k2: "pm_creates k1 cs = Some (rs, k2)" "procs_ok k2"
    "card (used_slots k2) = card (used_slots k1) + length (filter (\<lambda>r. r \<noteq> None) rs)"
    "\<forall>n. Some n \<in> set rs \<longrightarrow> 1 \<le> n \<and> n - 1 \<in> used_slots k2" "used_slots k1 \<subseteq> used_slots k2"
    using Cons.IH [OF k1(2)] by metis
  have "card (used_slots k1) = card (used_slots k) + (if r = None then 0 else 1)"
    using k1(3) procs_ok_card(1) [OF Cons.prems] by (auto simp: created_def split: option.splits)
  moreover have "used_slots k \<subseteq> used_slots k1"
    "r = Some n \<Longrightarrow> 1 \<le> n \<and> n - 1 \<in> used_slots k1" for n
    using k1(3) by (auto simp: created_def split: option.splits)
  ultimately show ?case using k1 k2 unfolding c by auto
qed



text \<open>C16: There are never more than 24 processes. Whatever processes are requested, in whatever order,
  none of the requests faults and at most 24 succeed in total: each needs a page table of 4104 bytes
  and 24 of header on the 100 KB heap, and no process is ever deleted. The table of 256 slots is never
  full, and the index 256 that its last slot would give is never used.\<close>

theorem pm_process_limit:
  assumes "procs_ok k"
  shows "\<exists>rs k'. pm_creates k cs = Some (rs, k') \<and> procs_ok k'
    \<and> card (used_slots k) + length (filter (\<lambda>r. r \<noteq> None) rs) \<le> 24
    \<and> (\<forall>n. Some n \<in> set rs \<longrightarrow> 1 \<le> n \<and> n \<le> 256)"
proof -
  obtain rs k' where r: "pm_creates k cs = Some (rs, k')" "procs_ok k'"
    "card (used_slots k') = card (used_slots k) + length (filter (\<lambda>r. r \<noteq> None) rs)"
    "\<forall>n. Some n \<in> set rs \<longrightarrow> 1 \<le> n \<and> n - 1 \<in> used_slots k'"
    using pm_creates_ok [OF assms] by metis
  have "n \<le> 256" if "Some n \<in> set rs" for n
    using r(2,4) that by (auto simp: used_slots_def procs_ok_def)
  then show ?thesis using r procs_ok_card(2) [OF r(2)] by auto
qed

lemma pm_process_limit_witness:
  "\<exists>rs k'. pm_creates boot_kernel (replicate 30 (0, 0)) = Some (rs, k')
     \<and> length (filter (\<lambda>r. r \<noteq> None) rs) \<le> 24"
  using pm_process_limit [OF boot_kernel_ok(1), of "replicate 30 (0, 0)"] boot_kernel_ok(2) by auto

section \<open>Messages\<close>

lemma ptp_copy_ok:
  "i + n \<le> length box \<Longrightarrow> \<exists>box' out. ptp_copy msg i n box = Some (box', out) \<and> length box' = length box
     \<and> (\<forall>j<length box. box' ! j = (if i \<le> j \<and> j < i + n then msg j else box ! j))"
proof (induction n arbitrary: i box)
  case 0
  then show ?case by auto
next
  case (Suc n)
  obtain box' out where b: "ptp_copy msg (i + 1) n (box[i := msg i]) = Some (box', out)"
    "length box' = length box"
    "\<forall>j<length box. box' ! j = (if i + 1 \<le> j \<and> j < i + 1 + n then msg j else box[i := msg i] ! j)"
    using Suc.IH [of "i + 1" "box[i := msg i]"] Suc.prems by auto
  have "box' ! j = (if i \<le> j \<and> j < i + Suc n then msg j else box ! j)" if "j < length box" for j
    using b(3) that by (cases "j = i") (auto simp: nth_list_update)
  then show ?case using b(1,2) Suc.prems by simp
qed

text \<open>C17: What sending a message does. When the receiver's mailbox is free and the message has at most
  64 bytes, the bytes, their number and the sender are in the mailbox afterwards, the receiver is at
  the end of the high queue if that has room, and the low queue has lost its first entry, whichever
  process that is. When the mailbox is full or the message longer, nothing is delivered and neither
  queue changes.\<close>

theorem ptp_delivers:
  assumes "queue_wf (lowqueue obj)" and "queue_wf (highqueue obj)"
    and "length (msgbox (msgs (PMv1_mem obj (unat towho)))) = 64"
  shows "\<exists>obj' out. ptp obj who towho msg len = Some (obj', out) \<and>
    (let m = msgs (PMv1_mem obj (unat towho)); m' = msgs (PMv1_mem obj' (unat towho)) in
     if \<not> is_msgbox m \<and> len \<le> 64
     then is_msgbox m' \<and> msg_from m' = who \<and> msg_len m' = len \<and> (\<forall>j<unat len. msgbox m' ! j = msg j)
        \<and> queue_items (lowqueue obj') = tl (queue_items (lowqueue obj))
        \<and> queue_items (highqueue obj') = (if queue_full (highqueue obj) then queue_items (highqueue obj)
             else queue_items (highqueue obj) @ [towho])
     else obj' = obj)"
proof (cases "\<not> is_msgbox (msgs (PMv1_mem obj (unat towho))) \<and> len \<le> 64")
  case True
  then have "unat len \<le> 64" by (simp add: word_le_nat_alt)
  with ptp_copy_ok [of 0 "unat len" "msgbox (msgs (PMv1_mem obj (unat towho)))" msg]
  obtain box out where b: "ptp_copy msg 0 (unat len) (msgbox (msgs (PMv1_mem obj (unat towho)))) = Some (box, out)"
    "\<forall>j<unat len. box ! j = msg j"
    using assms(3) by auto
  have "queue_items (queue_push (highqueue obj) towho) = (if queue_full (highqueue obj)
      then queue_items (highqueue obj) else queue_items (highqueue obj) @ [towho])"
    using assms(2) kq.items_push [of "highqueue obj" towho] kq.is_full_iff [of "highqueue obj"]
      kq.items_le_cap [of "highqueue obj"] by auto
  then show ?thesis
    using True b assms kq.items_pop [of "lowqueue obj"] by (simp add: ptp_def Let_def not_less)
next
  case False
  then show ?thesis by (auto simp: ptp_def Let_def not_less)
qed

lemma queue_init_ok: "n \<le> length b \<Longrightarrow> queue_wf (queue_init b n) \<and> queue_items (queue_init b n) = []"
  by (auto simp: queue_wf_def queue_init_def queue_items_def)

lemma boot_queues:
  "queue_wf (lowqueue (k_pm boot_kernel))" "queue_wf (highqueue (k_pm boot_kernel))"
  "queue_items (lowqueue (k_pm boot_kernel)) = []" "queue_items (highqueue (k_pm boot_kernel)) = []"
  "q_size (lowqueue (k_pm boot_kernel)) = 255" "q_size (highqueue (k_pm boot_kernel)) = 255"
  "length (msgbox (msgs (PMv1_mem (k_pm boot_kernel) i))) = 64"
  "\<not> is_msgbox (msgs (PMv1_mem (k_pm boot_kernel) i))"
  using queue_init_ok [of 255 "replicate 256 0"]
  by (simp_all add: boot_kernel_def pm_init_def) (simp_all add: queue_init_def)

lemma ptp_delivers_witness:
  "\<exists>obj' out. ptp (k_pm boot_kernel) 1 2 (\<lambda>i. 7) 5 = Some (obj', out)
     \<and> msg_len (msgs (PMv1_mem obj' 2)) = 5 \<and> queue_items (highqueue obj') = [2]"
  using ptp_delivers [of "k_pm boot_kernel" 2 1 "\<lambda>i. 7" 5] boot_queues
    length_queue_items [of "highqueue (k_pm boot_kernel)"]
  by (auto simp: Let_def queue_full_def)

text \<open>Sending a message can take a third process off the schedule. If the process at the head of
  the low queue is not the receiver, waits there only once and is not on the high queue, then after
  a message has been delivered to another process it is on neither queue, so nothing will run it.\<close>

theorem ptp_drops_process:
  assumes "queue_wf (lowqueue obj)" and "queue_wf (highqueue obj)"
    and "length (msgbox (msgs (PMv1_mem obj (unat towho)))) = 64"
    and "\<not> is_msgbox (msgs (PMv1_mem obj (unat towho)))" and "len \<le> 64"
    and "queue_items (lowqueue obj) = d # ds" and "d \<notin> set ds" and "d \<notin> set (queue_items (highqueue obj))"
    and "d \<noteq> towho"
  shows "\<exists>obj' out. ptp obj who towho msg len = Some (obj', out)
    \<and> d \<notin> set (queue_items (lowqueue obj')) \<and> d \<notin> set (queue_items (highqueue obj'))"
proof -
  obtain box out where b: "ptp_copy msg 0 (unat len) (msgbox (msgs (PMv1_mem obj (unat towho)))) = Some (box, out)"
    using ptp_copy_ok [of 0 "unat len" "msgbox (msgs (PMv1_mem obj (unat towho)))" msg] assms(3,5)
    by (auto simp: word_le_nat_alt)
  have "set (queue_items (queue_push (highqueue obj) towho)) \<subseteq> insert towho (set (queue_items (highqueue obj)))"
    using kq.items_push [of "highqueue obj" towho] assms(2) by auto
  then show ?thesis
    using b assms kq.items_pop [of "lowqueue obj"] by (auto simp: ptp_def Let_def not_less)
qed

lemma ptp_drops_process_witness:
  "\<exists>obj obj' out. ptp obj 1 2 (\<lambda>i. 7) 5 = Some (obj', out) \<and> queue_items (lowqueue obj) = [3]
     \<and> 3 \<notin> set (queue_items (lowqueue obj')) \<and> 3 \<notin> set (queue_items (highqueue obj'))"
proof -
  define obj where "obj = (k_pm boot_kernel)\<lparr>lowqueue := queue_push (lowqueue (k_pm boot_kernel)) 3\<rparr>"
  have o: "queue_wf (lowqueue obj)" "queue_items (lowqueue obj) = [3]" "highqueue obj = highqueue (k_pm boot_kernel)"
    "PMv1_mem obj = PMv1_mem (k_pm boot_kernel)"
    using boot_queues kq.items_push [of "lowqueue (k_pm boot_kernel)" 3] by (auto simp: obj_def queue_push_wf)
  have "\<exists>obj' out. ptp obj 1 2 (\<lambda>i. 7) 5 = Some (obj', out)
    \<and> 3 \<notin> set (queue_items (lowqueue obj')) \<and> 3 \<notin> set (queue_items (highqueue obj'))"
    by (rule ptp_drops_process [where ds = "[]"]) (use o boot_queues in auto)
  with o(2) show ?thesis by blast
qed

end
