(* ===== verification/Meta.thy ===== *)
theory Meta
  imports PM
begin

text \<open>
  \<^verbatim>\<open>src/global/meta.c\<close>: the ELF loader, executing a file, starting a built-in process and the
  scheduling step of the timer interrupt.

  Pointer and size arithmetic is that of \<^verbatim>\<open>uint64_t\<close> and wraps. Headers are read from memory
  where the code reads them: the second pass of the loader sees what the first segments wrote.
  The addresses of the images linked into the kernel are an argument of \<open>proc_turn\<close>, and so is the
  address of its local header.
\<close>

section \<open>ELF headers\<close>

record elf_ehdr =
  e_ident :: "u8 list"
  e_machine :: u16
  e_entry :: u64
  e_phoff :: u64
  e_phentsize :: u16
  e_phnum :: u16

record elf_phdr =
  p_type :: u32
  p_offset :: u64
  p_vaddr :: u64
  p_filesz :: u64
  p_memsz :: u64
  p_align :: u64

definition sizeof_ehdr :: u32 where "sizeof_ehdr = 64"
definition sizeof_phdr :: u16 where "sizeof_phdr = 56"
definition ELF_PT_LOAD :: u32 where "ELF_PT_LOAD = 1"
definition ELF_MACHINE_AARCH64 :: u16 where "ELF_MACHINE_AARCH64 = 183"
definition PROC_STACK_RESERVE :: u64 where "PROC_STACK_RESERVE = 16 * 1024"
definition process_size :: u64 where "process_size = push_bit 10 (ucast INITIAL_PROC_SIZE)"

definition read_ehdr :: "mem \<Rightarrow> u64 \<Rightarrow> elf_ehdr" where
  "read_ehdr m img =
     (let a = unat img in
      \<lparr>e_ident = map (\<lambda>i. m (a + i)) [0..<16], e_machine = read16 m (a + 18), e_entry = read64 m (a + 24),
       e_phoff = read64 m (a + 32), e_phentsize = read16 m (a + 54), e_phnum = read16 m (a + 56)\<rparr>)"

definition read_phdr :: "mem \<Rightarrow> u64 \<Rightarrow> elf_phdr" where
  "read_phdr m p =
     (let a = unat p in
      \<lparr>p_type = read32 m a, p_offset = read64 m (a + 8), p_vaddr = read64 m (a + 16),
       p_filesz = read64 m (a + 32), p_memsz = read64 m (a + 40), p_align = read64 m (a + 48)\<rparr>)"

definition elf_valid_header :: "elf_ehdr \<Rightarrow> u32 \<Rightarrow> bool" where
  "elf_valid_header e image_size \<longleftrightarrow>
     \<not> image_size < sizeof_ehdr
     \<and> e_ident e ! 0 = 0x7F \<and> e_ident e ! 1 = of_char (CHR ''E'') \<and> e_ident e ! 2 = of_char (CHR ''L'')
     \<and> e_ident e ! 3 = of_char (CHR ''F'')
     \<and> e_ident e ! 4 = 2 \<and> e_ident e ! 5 = 1
     \<and> e_machine e = ELF_MACHINE_AARCH64
     \<and> e_phentsize e = sizeof_phdr
     \<and> \<not> e_phoff e + ucast (e_phnum e) * ucast sizeof_phdr > ucast image_size"

definition phdr_at :: "u64 \<Rightarrow> elf_ehdr \<Rightarrow> nat \<Rightarrow> u64" where
  "phdr_at img e i = img + e_phoff e + of_nat (i * 56)"

section \<open>Loading\<close>

text \<open>
  The first pass over the program headers: the lowest and highest address of the segments and
  the largest alignment, or \<open>None\<close> when a header is refused.
\<close>

definition scan_phdr :: "u32 \<Rightarrow> elf_phdr \<Rightarrow> u64 \<times> u64 \<times> u64 \<Rightarrow> (u64 \<times> u64 \<times> u64) option" where
  "scan_phdr image_size ph = (\<lambda>(lo, hi, al).
     if p_type ph \<noteq> ELF_PT_LOAD then Some (lo, hi, al)
     else if p_filesz ph > p_memsz ph then None
     else if p_offset ph + p_filesz ph > ucast image_size then None
     else Some (if p_vaddr ph < lo then p_vaddr ph else lo,
                if p_vaddr ph + p_memsz ph > hi then p_vaddr ph + p_memsz ph else hi,
                if p_align ph > al then p_align ph else al))"

fun scan_phdrs :: "mem \<Rightarrow> u64 \<Rightarrow> elf_ehdr \<Rightarrow> u32 \<Rightarrow> nat \<Rightarrow> nat \<Rightarrow> u64 \<times> u64 \<times> u64 \<Rightarrow> (u64 \<times> u64 \<times> u64) option" where
  "scan_phdrs m img e image_size i 0 acc = Some acc"
| "scan_phdrs m img e image_size i (Suc n) acc = do {
     acc' \<leftarrow> scan_phdr image_size (read_phdr m (phdr_at img e i)) acc;
     scan_phdrs m img e image_size (i + 1) n acc' }"

text \<open>Zeroing the rest of a segment.\<close>

fun zero_fill :: "mem \<Rightarrow> u64 \<Rightarrow> u64 \<Rightarrow> nat \<Rightarrow> mem" where
  "zero_fill m dest j 0 = m"
| "zero_fill m dest j (Suc n) = zero_fill (m(unat (dest + j) := 0)) dest (j + 1) n"

definition load_segment :: "mem \<Rightarrow> u64 \<Rightarrow> u64 \<Rightarrow> elf_phdr \<Rightarrow> mem" where
  "load_segment m img dest ph =
     (let m1 = memcpy m (unat dest) (unat (img + p_offset ph)) (unat (ucast (p_filesz ph) :: u32))
      in zero_fill m1 dest (p_filesz ph) (unat (p_memsz ph) - unat (p_filesz ph)))"

text \<open>The second pass; \<open>False\<close> when a segment does not fit. \<^verbatim>\<open>e_phnum\<close> is read anew each time.\<close>

function load_segments :: "mem \<Rightarrow> u64 \<Rightarrow> u64 \<Rightarrow> u64 \<Rightarrow> u64 \<Rightarrow> nat \<Rightarrow> bool \<times> mem" where
  "load_segments m img lo load_base real_addr i =
     (let e = read_ehdr m img in
      if i \<ge> unat (e_phnum e) then (True, m)
      else let ph = read_phdr m (phdr_at img e i) in
        if p_type ph \<noteq> ELF_PT_LOAD then load_segments m img lo load_base real_addr (i + 1)
        else let seg_offset = p_vaddr ph - lo in
          if load_base - real_addr + seg_offset + p_memsz ph > process_size - PROC_STACK_RESERVE
          then (False, m)
          else load_segments (load_segment m img (load_base + seg_offset) ph) img lo load_base real_addr (i + 1))"
  by pat_completeness auto

termination
proof (relation "measure (\<lambda>(m, img, lo, load_base, real_addr, i). 65536 - i)")
  fix m :: mem and img lo load_base real_addr :: u64 and i and e :: elf_ehdr and x
  have "unat (e_phnum e) < 65536" using unat_lt_pow [of "e_phnum e"] by simp
  then show "e = read_ehdr m img \<Longrightarrow> \<not> unat (e_phnum e) \<le> i \<Longrightarrow> x = read_phdr m (phdr_at img e i)
    \<Longrightarrow> p_type x \<noteq> ELF_PT_LOAD
    \<Longrightarrow> ((m, img, lo, load_base, real_addr, i + 1), m, img, lo, load_base, real_addr, i)
      \<in> measure (\<lambda>(m, img, lo, load_base, real_addr, i). 65536 - i)"
    by simp
next
  fix m :: mem and img lo load_base real_addr :: u64 and i and e :: elf_ehdr and x s
  have "unat (e_phnum e) < 65536" using unat_lt_pow [of "e_phnum e"] by simp
  then show "e = read_ehdr m img \<Longrightarrow> \<not> unat (e_phnum e) \<le> i \<Longrightarrow> x = read_phdr m (phdr_at img e i)
    \<Longrightarrow> \<not> p_type x \<noteq> ELF_PT_LOAD \<Longrightarrow> s = p_vaddr x - lo
    \<Longrightarrow> \<not> process_size - PROC_STACK_RESERVE < load_base - real_addr + s + p_memsz x
    \<Longrightarrow> ((load_segment m img (load_base + s) x, img, lo, load_base, real_addr, i + 1), m, img, lo,
         load_base, real_addr, i) \<in> measure (\<lambda>(m, img, lo, load_base, real_addr, i). 65536 - i)"
    by simp
qed auto

declare load_segments.simps [simp del]

definition align_up :: "u64 \<Rightarrow> u64 \<Rightarrow> u64" where
  "align_up a al = (if al > 1 then (a + (al - 1)) AND NOT (al - 1) else a)"

definition elf_load_image :: "kernel \<Rightarrow> nat \<Rightarrow> u64 \<Rightarrow> u32 \<Rightarrow> bool \<times> kernel" where
  "elf_load_image k n img image_size =
     (let e = read_ehdr (k_mem k) img in
      if \<not> elf_valid_header e image_size then (False, k)
      else case scan_phdrs (k_mem k) img e image_size 0 (unat (e_phnum e)) (- 1, 0, 1) of
        None \<Rightarrow> (False, k)
      | Some (lo, hi, al) \<Rightarrow>
          if lo = - 1 then (False, k)
          else if hi - lo > process_size then (False, k)
          else let real_addr = mm_find (k_mm k) (mm_addr (proc k n)) 0;
                   load_base = align_up real_addr al;
                   lim = real_addr + process_size - PROC_STACK_RESERVE;
                   image_end = load_base + (hi - lo);
                   start = (image_end + 15) AND NOT 15
               in if start > lim then (False, k)
                  else let (ok, m) = load_segments (k_mem k) img lo load_base real_addr 0;
                           k' = k\<lparr>k_mem := m\<rparr>;
                           e' = read_ehdr m img
                       in if \<not> ok \<or> e_entry e' < lo then (False, k')
                          else let p = proc k' n in
                            (True, set_proc n (p\<lparr>regs := (regs p)\<lparr>elr_el1 := load_base + (e_entry e' - lo)\<rparr>,
                               heap_start := start, heap_break := start, heap_limit := lim\<rparr>) k'))"

section \<open>Executing a file\<close>

definition FM_EXEC_MAGIC :: u64 where "FM_EXEC_MAGIC = 0x415853504144453B"
definition FM_EXEC_MODE_DIRECT :: u64 where "FM_EXEC_MODE_DIRECT = 0"
definition FM_EXEC_MODE_IMAGE :: u64 where "FM_EXEC_MODE_IMAGE = 1"

record fm_exec_hdr_t =
  x_magic :: u64
  x_mode :: u64
  x_entry :: u64
  x_image_size :: u64

definition read_exec_hdr :: "mem \<Rightarrow> nat \<Rightarrow> fm_exec_hdr_t" where
  "read_exec_hdr m a =
     \<lparr>x_magic = read64 m a, x_mode = read64 m (a + 8), x_entry = read64 m (a + 16),
      x_image_size = read64 m (a + 24)\<rparr>"

definition mata_exec_file :: "kernel \<Rightarrow> cstr option \<Rightarrow> u8 \<Rightarrow> (nat option \<times> kernel) option" where
  "mata_exec_file k path parid = do {
     file \<leftarrow> fm_find (k_fm k) path;
     (case file of
        None \<Rightarrow> Some (None, emit (log_text ''file zero error'') k)
      | Some f \<Rightarrow>
          let a = fm_data_addr (k_fm k) (FMv3_mem (k_fm k) f);
              hdr = read_exec_hdr (k_mem k) a
          in if x_magic hdr \<noteq> FM_EXEC_MAGIC
             then Some (None, emit (dump ''magic'' (x_magic hdr) @ log_text ''magic error'') k)
             else if x_mode hdr = FM_EXEC_MODE_DIRECT then pm_create k (x_entry hdr) parid
             else if x_mode hdr = FM_EXEC_MODE_IMAGE
             then do {
               (pr, k') \<leftarrow> pm_create k 0 parid;
               (case pr of
                  None \<Rightarrow> Some (None, k')
                | Some n \<Rightarrow>
                    let (ok, k'') = elf_load_image k' n (of_nat (a + 32)) (ucast (x_image_size hdr))
                    in Some (if ok then Some n else None, k''))
             }
             else Some (None, k))
   }"

section \<open>Starting a process\<close>

text \<open>The images linked into the kernel: where each begins, and the size stored beside it.\<close>

record task_images =
  shell_start :: u64
  shell_size :: u64
  bridge_start :: u64
  bridge_size :: u64
  compiler_start :: u64
  compiler_size :: u64

definition put_exec_hdr :: "mem \<Rightarrow> nat \<Rightarrow> fm_exec_hdr_t \<Rightarrow> mem" where
  "put_exec_hdr m a h =
     le_put (le_put (le_put (le_put m a 8 (unat (x_magic h))) (a + 8) 8 (unat (x_mode h)))
       (a + 16) 8 (unat (x_entry h))) (a + 24) 8 (unat (x_image_size h))"

text \<open>Writing the header from the local variable at \<open>stk\<close>, and an image from where it is linked.\<close>

definition write_hdr :: "nat \<Rightarrow> fm_exec_hdr_t \<Rightarrow> nat option \<Rightarrow> kernel \<Rightarrow> kernel" where
  "write_hdr stk h fil k =
     (let m = put_exec_hdr (k_mem k) stk h in k\<lparr>k_mem := snd (fm_write (k_fm k) m fil stk 32 0)\<rparr>)"

definition store_image ::
  "nat \<Rightarrow> fm_exec_hdr_t \<Rightarrow> u64 \<Rightarrow> u64 \<Rightarrow> cstr option \<Rightarrow> kernel \<Rightarrow> kernel option" where
  "store_image stk h start sz name k = do {
     let total_size = (ucast (32 + sz) :: u32);
     let alloc_size = ((total_size + 4095) div 4096) * 4096;
     (fil, fm) \<leftarrow> fm_create (k_fm k) name alloc_size 0;
     let k1 = write_hdr stk (h\<lparr>x_image_size := sz\<rparr>) fil (k\<lparr>k_fm := fm\<rparr>);
     Some (k1\<lparr>k_mem := snd (fm_write (k_fm k1) (k_mem k1) fil (unat start) (ucast sz) 32)\<rparr>) }"

definition proc_turn ::
  "task_images \<Rightarrow> nat \<Rightarrow> kernel \<Rightarrow> cstr option \<Rightarrow> u64 \<Rightarrow> u8 \<Rightarrow> (nat option \<times> kernel) option" where
  "proc_turn t stk k name entry_point md =
     (let h = \<lparr>x_magic = FM_EXEC_MAGIC,
               x_mode = (if md = 0 then FM_EXEC_MODE_DIRECT else FM_EXEC_MODE_IMAGE),
               x_entry = (if md = 0 then entry_point else 0), x_image_size = 0\<rparr>
      in if md = 1 \<and> entry_point = shell_start t
         then do { k' \<leftarrow> store_image stk h (shell_start t) (shell_size t) name k; mata_exec_file k' name 0 }
         else if md = 1 \<and> entry_point = bridge_start t
         then do { k' \<leftarrow> store_image stk h (bridge_start t) (bridge_size t) name
                     (emit (dump ''total size'' (ucast (ucast (32 + bridge_size t) :: u32))) k);
                   mata_exec_file k' name 0 }
         else if md = 1 \<and> entry_point = compiler_start t
         then do { k' \<leftarrow> store_image stk h (compiler_start t) (compiler_size t) name
                     (emit (dump ''total size'' (ucast (ucast (32 + compiler_size t) :: u32))) k);
                   mata_exec_file k' name 0 }
         else do {
           (fil, fm) \<leftarrow> fm_create (k_fm k) name 1024 0;
           mata_exec_file (write_hdr stk h fil (k\<lparr>k_fm := fm\<rparr>)) name 0 })"

section \<open>Scheduling\<close>

definition schedule_proc :: "kernel \<Rightarrow> nat \<Rightarrow> (nat \<times> kernel) option" where
  "schedule_proc k i =
     (let (nxt, pm) = pm_run (k_pm k); k1 = k\<lparr>k_pm := pm\<rparr> in
      if p_state (proc k1 nxt) = PROC_SIGNAL
      then do {
        let k2 = k1\<lparr>k_pm := pm_awake (k_pm k1) 0 i\<rparr>;
        (mm, _) \<leftarrow> mm_free (k_mm k2) (mm_addr (proc k2 i));
        let (c, pm') = pm_run (k_pm k2);
        Some (nxt, k2\<lparr>k_mm := mm, k_pm := pm', k_cur := Some c\<rparr>)
      }
      else Some (nxt, k1\<lparr>k_pm := pm_awake (k_pm k1) 0 i, k_cur := Some nxt\<rparr>))"

section \<open>The loader stays inside the process\<close>

lemma read_ehdr_cong:
  assumes "\<And>i. i < 64 \<Longrightarrow> m' (unat img + i) = m (unat img + i)"
  shows "read_ehdr m' img = read_ehdr m img"
proof -
  have "le_nat m' (unat img + j) n = le_nat m (unat img + j) n" if "j + n \<le> 64" for j n
    using assms that by (intro le_nat_cong) (simp add: add.assoc)
  then show ?thesis using assms
    by (simp add: read_ehdr_def Let_def read16_def read64_def add.assoc)
qed

lemma read_phdr_cong:
  assumes "\<And>i. i < 56 \<Longrightarrow> m' (unat p + i) = m (unat p + i)"
  shows "read_phdr m' p = read_phdr m p"
proof -
  have c: "le_nat m' (unat p + j) n = le_nat m (unat p + j) n" if "j + n \<le> 56" for j n
    using assms that by (intro le_nat_cong) (simp add: add.assoc)
  show ?thesis using c [of 0 4] c [of 8 8] c [of 16 8] c [of 32 8] c [of 40 8] c [of 48 8]
    by (simp add: read_phdr_def Let_def read32_def read64_def)
qed

lemma and_not_mask: "(x :: u64) AND NOT y = x - (x AND y)"
proof -
  have "(x AND y) + (x AND NOT y) = x"
    by (subst word_plus_and_or [symmetric]) (simp add: bit.conj_disj_distrib [symmetric] and.assoc and.left_commute)
  then show ?thesis by (metis add_diff_cancel_left')
qed

lemma align_up_bounds:
  assumes "unat a + unat al < 2 ^ 64" "1 \<le> al"
  shows "a \<le> align_up a al" "unat (align_up a al) - unat a < unat al"
proof -
  have al: "0 < unat al" using assms(2) by (simp add: word_le_nat_alt)
  have "a \<le> align_up a al \<and> unat (align_up a al) - unat a < unat al"
  proof (cases "al > 1")
    case False
    then show ?thesis using al by (simp add: align_up_def)
  next
    case True
    let ?m = "al - 1" and ?x = "a + (al - 1)"
    have m: "unat ?m = unat al - 1" using assms(2) by (simp add: unat_sub_no_wrap)
    have x: "unat ?x = unat a + (unat al - 1)"
      using assms(1) m by (subst unat_add_no_wrap) simp_all
    have le: "?x AND ?m \<le> ?m" by (rule word_and_le1)
    then have "?x AND ?m \<le> ?x" using x m by (simp add: word_le_nat_alt)
    then have "unat (align_up a al) = unat ?x - unat (?x AND ?m)"
      using True by (simp add: align_up_def and_not_mask unat_sub_no_wrap)
    moreover have "unat (?x AND ?m) \<le> unat ?m" using le by (simp add: word_le_nat_alt)
    ultimately show ?thesis using x m al by (simp add: word_le_nat_alt)
  qed
  then show "a \<le> align_up a al" "unat (align_up a al) - unat a < unat al" by blast+
qed

lemma scan_phdrs_ok:
  assumes "scan_phdrs m img e sz i n (lo, hi, al) = Some (lo', hi', al')"
    and "\<forall>j. i \<le> j \<and> j < i + n \<longrightarrow> p_type (read_phdr m (phdr_at img e j)) = ELF_PT_LOAD
           \<longrightarrow> p_align (read_phdr m (phdr_at img e j)) \<le> B" and "al \<le> B"
  shows "lo' \<le> lo \<and> hi \<le> hi' \<and> al \<le> al' \<and> al' \<le> B
    \<and> (\<forall>j. i \<le> j \<and> j < i + n \<longrightarrow> (let ph = read_phdr m (phdr_at img e j) in p_type ph = ELF_PT_LOAD \<longrightarrow>
         lo' \<le> p_vaddr ph \<and> p_vaddr ph + p_memsz ph \<le> hi' \<and> p_filesz ph \<le> p_memsz ph))"
  using assms
proof (induction n arbitrary: i lo hi al)
  case 0
  then show ?case by auto
next
  case (Suc n)
  let ?ph = "read_phdr m (phdr_at img e i)"
  obtain l1 h1 a1 where s1: "scan_phdr sz ?ph (lo, hi, al) = Some (l1, h1, a1)"
    and r: "scan_phdrs m img e sz (i + 1) n (l1, h1, a1) = Some (lo', hi', al')"
    using Suc.prems(1) by (auto split: bind_splits)
  have 1: "l1 \<le> lo \<and> hi \<le> h1 \<and> al \<le> a1 \<and> a1 \<le> B
    \<and> (p_type ?ph = ELF_PT_LOAD \<longrightarrow> l1 \<le> p_vaddr ?ph \<and> p_vaddr ?ph + p_memsz ?ph \<le> h1 \<and> p_filesz ?ph \<le> p_memsz ?ph)"
    using s1 Suc.prems(2,3) by (auto simp: scan_phdr_def split: if_splits)
  have "\<forall>j. i + 1 \<le> j \<and> j < i + 1 + n \<longrightarrow> p_type (read_phdr m (phdr_at img e j)) = ELF_PT_LOAD
           \<longrightarrow> p_align (read_phdr m (phdr_at img e j)) \<le> B" using Suc.prems(2) by auto
  from Suc.IH [OF r this] 1 have 2: "lo' \<le> l1 \<and> h1 \<le> hi' \<and> a1 \<le> al' \<and> al' \<le> B
    \<and> (\<forall>j. i + 1 \<le> j \<and> j < i + 1 + n \<longrightarrow> (let ph = read_phdr m (phdr_at img e j) in p_type ph = ELF_PT_LOAD \<longrightarrow>
         lo' \<le> p_vaddr ph \<and> p_vaddr ph + p_memsz ph \<le> hi' \<and> p_filesz ph \<le> p_memsz ph))" by simp
  have here: "p_type ?ph = ELF_PT_LOAD \<longrightarrow> lo' \<le> p_vaddr ?ph \<and> p_vaddr ?ph + p_memsz ?ph \<le> hi' \<and> p_filesz ?ph \<le> p_memsz ?ph"
    using 1 2 by (meson order_trans)
  have split: "i \<le> j \<and> j < i + Suc n \<longleftrightarrow> j = i \<or> i + 1 \<le> j \<and> j < i + 1 + n" for j by auto
  show ?case unfolding split using here 1 2 by (auto simp: Let_def)
qed

lemma zero_fill_frame:
  "unat dest + unat j + n < 2 ^ 64 \<Longrightarrow> x < unat dest + unat j \<or> unat dest + unat j + n \<le> x
     \<Longrightarrow> zero_fill m dest j n x = m x"
proof (induction n arbitrary: m j)
  case (Suc n)
  have d: "unat (dest + j) = unat dest + unat j" using Suc.prems(1) by (subst unat_add_no_wrap) simp_all
  have j: "unat (j + 1) = unat j + 1" using Suc.prems(1) by (subst unat_add_no_wrap) simp_all
  have "zero_fill (m(unat (dest + j) := 0)) dest (j + 1) n x = (m(unat (dest + j) := 0)) x"
    using Suc.prems by (intro Suc.IH) (simp_all add: j, linarith)
  then show ?case using Suc.prems(2) d by auto
qed simp

lemma load_segment_frame:
  assumes "p_filesz ph \<le> p_memsz ph" "unat dest + unat (p_memsz ph) < 2 ^ 64"
    and "x < unat dest \<or> unat dest + unat (p_memsz ph) \<le> x"
  shows "load_segment m img dest ph x = m x"
proof -
  have f: "unat (p_filesz ph) \<le> unat (p_memsz ph)" using assms(1) by (simp add: word_le_nat_alt)
  have c: "unat (ucast (p_filesz ph) :: u32) \<le> unat (p_filesz ph)"
    by (simp add: unsigned_ucast_eq take_bit_eq_mod)
  have "zero_fill m1 dest (p_filesz ph) (unat (p_memsz ph) - unat (p_filesz ph)) x = m1 x" for m1
    using assms(2,3) f by (intro zero_fill_frame) auto
  moreover have "memcpy m (unat dest) (unat (img + p_offset ph)) (unat (ucast (p_filesz ph) :: u32)) x = m x"
    using assms(3) f c by (intro memcpy_frame) auto
  ultimately show ?thesis by (simp add: load_segment_def Let_def)
qed

text \<open>The part of a process's memory below the stack reserve, and that two memories agree outside it.\<close>

definition outside :: "u64 \<Rightarrow> nat \<Rightarrow> bool" where
  "outside real_addr x \<longleftrightarrow> x < unat real_addr \<or> unat real_addr + 0xFC000 \<le> x"

definition same_outside :: "u64 \<Rightarrow> mem \<Rightarrow> mem \<Rightarrow> bool" where
  "same_outside real_addr m m' \<longleftrightarrow> (\<forall>x. outside real_addr x \<longrightarrow> m' x = m x)"

lemma load_segments_confined:
  assumes hdr: "\<And>m'. same_outside real_addr m0 m' \<Longrightarrow> read_ehdr m' img = e
      \<and> (\<forall>i<unat (e_phnum e). read_phdr m' (phdr_at img e i) = read_phdr m0 (phdr_at img e i))"
    and seg: "\<And>i ph dest. i < unat (e_phnum e) \<Longrightarrow> ph = read_phdr m0 (phdr_at img e i)
      \<Longrightarrow> p_type ph = ELF_PT_LOAD
      \<Longrightarrow> load_base - real_addr + (p_vaddr ph - lo) + p_memsz ph \<le> process_size - PROC_STACK_RESERVE
      \<Longrightarrow> dest = load_base + (p_vaddr ph - lo)
      \<Longrightarrow> p_filesz ph \<le> p_memsz ph \<and> unat dest + unat (p_memsz ph) < 2 ^ 64
        \<and> unat real_addr \<le> unat dest \<and> unat dest + unat (p_memsz ph) \<le> unat real_addr + 0xFC000"
  shows "same_outside real_addr m0 m \<Longrightarrow> load_segments m img lo load_base real_addr i = (ok, m')
    \<Longrightarrow> same_outside real_addr m0 m'"
proof (induction "65536 - i" arbitrary: m i rule: less_induct)
  case less
  note m = less.prems(1) and r = less.prems(2) [unfolded load_segments.simps [of m img lo load_base real_addr i]]
  have e: "read_ehdr m img = e" "\<And>j. j < unat (e_phnum e) \<Longrightarrow>
      read_phdr m (phdr_at img e j) = read_phdr m0 (phdr_at img e j)"
    using hdr [OF m] by auto
  have lt: "unat (e_phnum e) < 65536" using unat_lt_pow [of "e_phnum e"] by simp
  show ?case
  proof (cases "i < unat (e_phnum e)")
    case False
    then show ?thesis using r m e by (simp add: Let_def)
  next
    case True
    define ph where "ph = read_phdr m0 (phdr_at img e i)"
    have ph: "read_phdr m (phdr_at img e i) = ph" using e(2) [OF True] ph_def by simp
    have dec: "65536 - (i + 1) < 65536 - i" using True lt by simp
    show ?thesis
    proof (cases "p_type ph = ELF_PT_LOAD")
      case False
      then have "load_segments m img lo load_base real_addr (i + 1) = (ok, m')"
        using r True e ph by (simp add: Let_def)
      then show ?thesis using less.hyps [OF dec m] by blast
    next
      case load: True
      let ?dest = "load_base + (p_vaddr ph - lo)"
      show ?thesis
      proof (cases "load_base - real_addr + (p_vaddr ph - lo) + p_memsz ph \<le> process_size - PROC_STACK_RESERVE")
        case False
        then show ?thesis using r m True e ph load by (simp add: Let_def not_le)
      next
        case fits: True
        note s = seg [OF True ph_def load fits refl]
        have "same_outside real_addr m0 (load_segment m img ?dest ph)"
          unfolding same_outside_def
        proof (intro allI impI)
          fix x assume "outside real_addr x"
          then have "load_segment m img ?dest ph x = m x"
            using s by (intro load_segment_frame) (auto simp: outside_def)
          then show "load_segment m img ?dest ph x = m0 x"
            using m \<open>outside real_addr x\<close> by (simp add: same_outside_def)
        qed
        moreover have "load_segments (load_segment m img ?dest ph) img lo load_base real_addr (i + 1) = (ok, m')"
          using r True e ph load leD [OF fits] by (simp add: Let_def)
        ultimately show ?thesis using less.hyps [OF dec] by blast
      qed
    qed
  qed
qed

text \<open>
  An image whose headers do not make the arithmetic of the loader wrap: the program headers lie
  inside it, no segment passes the end of the address space and alignments are at most \<open>2 ^ 62\<close>.
  It does not overlap the memory of the process.
\<close>

definition sane_image :: "mem \<Rightarrow> u64 \<Rightarrow> u32 \<Rightarrow> u64 \<Rightarrow> bool" where
  "sane_image m img image_size real_addr \<longleftrightarrow>
     (let e = read_ehdr m img in
      unat (e_phoff e) + 56 * unat (e_phnum e) < 2 ^ 64
      \<and> unat img + unat image_size < 2 ^ 64 \<and> unat real_addr \<le> 2 ^ 62
      \<and> (unat img + unat image_size \<le> unat real_addr \<or> unat real_addr + 0x100000 \<le> unat img)
      \<and> (\<forall>i<unat (e_phnum e). let ph = read_phdr m (phdr_at img e i) in
           p_type ph = ELF_PT_LOAD \<longrightarrow> unat (p_vaddr ph) + unat (p_memsz ph) < 2 ^ 64 \<and> p_align ph \<le> 2 ^ 62))"

lemma valid_header_size: "elf_valid_header e image_size \<Longrightarrow> 64 \<le> unat image_size"
  by (simp add: elf_valid_header_def sizeof_ehdr_def word_le_nat_alt not_less)

lemma valid_header_inside:
  assumes "elf_valid_header e image_size" "unat (e_phoff e) + 56 * unat (e_phnum e) < 2 ^ 64"
    and "unat img + unat image_size < 2 ^ 64" "i < unat (e_phnum e)"
  shows "unat img \<le> unat (phdr_at img e i)"
    "unat (phdr_at img e i) + 56 \<le> unat img + unat image_size"
proof -
  have n: "unat (ucast (e_phnum e) * ucast sizeof_phdr :: u64) = 56 * unat (e_phnum e)"
  proof -
    have "unat (e_phnum e) < 65536" using unat_lt_pow [of "e_phnum e"] by simp
    then show ?thesis
      by (simp add: sizeof_phdr_def unat_word_ariths unsigned_ucast_eq take_bit_eq_mod)
  qed
  have "unat (e_phoff e + ucast (e_phnum e) * ucast sizeof_phdr) = unat (e_phoff e) + 56 * unat (e_phnum e)"
    using assms(2) n by (subst unat_add_no_wrap) simp_all
  moreover have "unat (ucast image_size :: u64) = unat image_size"
    using unat_lt_pow [of image_size] by (simp add: unsigned_ucast_eq take_bit_eq_mod)
  ultimately have le: "unat (e_phoff e) + 56 * unat (e_phnum e) \<le> unat image_size"
    using assms(1) by (simp add: elf_valid_header_def not_less word_le_nat_alt)
  have i: "unat (of_nat (i * 56) :: u64) = 56 * i"
    using assms(2,4) by (subst unat_of_nat_no_wrap) simp_all
  have "unat (img + e_phoff e) = unat img + unat (e_phoff e)"
    using assms(3) le by (subst unat_add_no_wrap) simp_all
  then have "unat (phdr_at img e i) = unat img + unat (e_phoff e) + 56 * i"
    unfolding phdr_at_def using assms(3,4) le i by (subst unat_add_no_wrap) simp_all
  then show "unat img \<le> unat (phdr_at img e i)" "unat (phdr_at img e i) + 56 \<le> unat img + unat image_size"
    using assms(4) le by simp_all
qed

lemma area_sizes: "process_size = 0x100000" "PROC_STACK_RESERVE = 0x4000"
  by (simp_all add: process_size_def INITIAL_PROC_SIZE_def push_bit_eq_mult PROC_STACK_RESERVE_def)

lemma area_end:
  assumes "real_addr \<le> load_base" "unat load_base < 2 ^ 63" "hi - lo \<le> process_size"
  shows "real_addr \<le> align_up (load_base + (hi - lo)) 16"
proof -
  have hl: "unat (hi - lo) \<le> 0x100000" using assms(3) by (simp add: area_sizes word_le_nat_alt)
  then have ie: "unat (load_base + (hi - lo)) = unat load_base + unat (hi - lo)"
    using assms(2) by (subst unat_add_no_wrap) simp_all
  have "load_base + (hi - lo) \<le> align_up (load_base + (hi - lo)) 16"
    using ie hl assms(2) by (intro align_up_bounds(1)) simp_all
  then show ?thesis using ie assms(1) by (simp add: word_le_nat_alt)
qed

text \<open>The steps of the loader that hold on their own: while memory outside the process is as it was, the headers
  read the same; a segment that passes the loader's test lies inside the process; and how the loader ends.\<close>

lemma headers_stable:
  assumes valid: "elf_valid_header (read_ehdr m img) image_size" and sane: "sane_image m img image_size real_addr"
    and out: "same_outside real_addr m m'"
  shows "read_ehdr m' img = read_ehdr m img \<and> (\<forall>i<unat (e_phnum (read_ehdr m img)).
    read_phdr m' (phdr_at img (read_ehdr m img) i) = read_phdr m (phdr_at img (read_ehdr m img) i))"
proof (intro conjI allI impI)
  have sz: "unat (e_phoff (read_ehdr m img)) + 56 * unat (e_phnum (read_ehdr m img)) < 2 ^ 64"
    "unat img + unat image_size < 2 ^ 64"
    and apart: "unat img + unat image_size \<le> unat real_addr \<or> unat real_addr + 0x100000 \<le> unat img"
    using sane by (auto simp: sane_image_def Let_def)
  have image_out: "m' x = m x" if "unat img \<le> x" "x < unat img + unat image_size" for x
    using that apart out by (auto simp: outside_def same_outside_def)
  show "read_ehdr m' img = read_ehdr m img"
    using image_out valid_header_size [OF valid] by (intro read_ehdr_cong) simp
  fix i assume i: "i < unat (e_phnum (read_ehdr m img))"
  show "read_phdr m' (phdr_at img (read_ehdr m img) i) = read_phdr m (phdr_at img (read_ehdr m img) i)"
    using image_out valid_header_inside [OF valid sz i] by (intro read_phdr_cong) simp
qed

lemma segment_inside:
  assumes lb: "real_addr \<le> load_base" "unat load_base < 2 ^ 63" and span: "hi - lo \<le> process_size"
    and p: "lo \<le> p_vaddr ph" "p_vaddr ph + p_memsz ph \<le> hi" "unat (p_vaddr ph) + unat (p_memsz ph) < 2 ^ 64"
    and fits: "load_base - real_addr + (p_vaddr ph - lo) + p_memsz ph \<le> process_size - PROC_STACK_RESERVE"
  shows "unat (load_base + (p_vaddr ph - lo)) + unat (p_memsz ph) < 2 ^ 64
    \<and> unat real_addr \<le> unat (load_base + (p_vaddr ph - lo))
    \<and> unat (load_base + (p_vaddr ph - lo)) + unat (p_memsz ph) \<le> unat real_addr + 0xFC000"
proof -
  let ?v = "unat (p_vaddr ph)" and ?s = "unat (p_memsz ph)"
  have lbn: "unat real_addr \<le> unat load_base" using lb(1) by (simp add: word_le_nat_alt)
  have hi: "?v + ?s \<le> unat hi" using p(2,3) by (simp add: word_le_nat_alt unat_add_no_wrap)
  have lo: "unat lo \<le> ?v" using p(1) by (simp add: word_le_nat_alt)
  have "unat (hi - lo) = unat hi - unat lo" using hi lo by (simp add: unat_sub_no_wrap word_le_nat_alt)
  then have sp: "?v - unat lo + ?s \<le> 0x100000" using span hi lo by (simp add: area_sizes word_le_nat_alt)
  have a: "unat (load_base - real_addr) = unat load_base - unat real_addr" using lb(1) by (rule unat_sub_no_wrap)
  have b: "unat (p_vaddr ph - lo) = ?v - unat lo" using p(1) by (rule unat_sub_no_wrap)
  have "unat (load_base - real_addr + (p_vaddr ph - lo)) = unat load_base - unat real_addr + (?v - unat lo)"
    using a b lb(2) sp by (subst unat_add_no_wrap) simp_all
  then have "unat (load_base - real_addr + (p_vaddr ph - lo) + p_memsz ph)
      = unat load_base - unat real_addr + (?v - unat lo) + ?s"
    using lb(2) sp by (subst unat_add_no_wrap) simp_all
  then have le: "unat load_base - unat real_addr + (?v - unat lo) + ?s \<le> 0xFC000"
    using fits by (simp add: area_sizes word_le_nat_alt)
  have "unat (load_base + (p_vaddr ph - lo)) = unat load_base + (?v - unat lo)"
    using b lb(2) sp by (subst unat_add_no_wrap) simp_all
  then show ?thesis using le lb(2) lbn sp by simp
qed

text \<open>The loader gives up before it writes anything, or it has copied segments into the span the headers take.\<close>

lemma elf_load_cases:
  assumes "elf_load_image k n img image_size = (ok, k')" and R: "R = mm_find (k_mm k) (mm_addr (proc k n)) 0"
  obtains "\<not> ok" "k' = k"
  | lo hi al ok1 m' start where "elf_valid_header (read_ehdr (k_mem k) img) image_size"
      "scan_phdrs (k_mem k) img (read_ehdr (k_mem k) img) image_size 0 (unat (e_phnum (read_ehdr (k_mem k) img))) (- 1, 0, 1)
        = Some (lo, hi, al)" "hi - lo \<le> process_size"
      "load_segments (k_mem k) img lo (align_up R al) R 0 = (ok1, m')" "k_mem k' = m'"
      "start = align_up (align_up R al + (hi - lo)) 16" "start \<le> R + 0xFC000"
      "ok \<longrightarrow> heap_start (proc k' n) = start \<and> heap_break (proc k' n) = start \<and> heap_limit (proc k' n) = R + 0xFC000"
proof -
  have lim: "R + process_size - PROC_STACK_RESERVE = R + 0xFC000" by (simp add: area_sizes)
  have al16: "(x + 15) AND NOT 15 = align_up x 16" for x :: u64 by (simp add: align_up_def)
  note ld = assms(1) [unfolded elf_load_image_def Let_def R [symmetric] lim al16]
  show ?thesis
  proof (cases "elf_valid_header (read_ehdr (k_mem k) img) image_size")
    case False
    then show ?thesis using ld that(1) by simp
  next
    case valid: True
    show ?thesis
    proof (cases "scan_phdrs (k_mem k) img (read_ehdr (k_mem k) img) image_size 0 (unat (e_phnum (read_ehdr (k_mem k) img))) (- 1, 0, 1)")
      case None
      then show ?thesis using ld valid that(1) by simp
    next
      case (Some acc)
      obtain lo hi al where acc: "acc = (lo, hi, al)" by (cases acc)
      let ?start = "align_up (align_up R al + (hi - lo)) 16"
      obtain ok1 m' where l: "load_segments (k_mem k) img lo (align_up R al) R 0 = (ok1, m')" by (metis surj_pair)
      show ?thesis
      proof (cases "lo = - 1 \<or> hi - lo > process_size \<or> ?start > R + 0xFC000")
        case True
        then show ?thesis using ld valid Some acc that(1) by (auto split: if_splits)
      next
        case False
        then have "k_mem k' = m' \<and> (ok \<longrightarrow> heap_start (proc k' n) = ?start \<and> heap_break (proc k' n) = ?start
            \<and> heap_limit (proc k' n) = R + 0xFC000)"
          using ld valid Some acc l by (auto split: if_splits)
        then show ?thesis using that(2) [OF valid Some [unfolded acc] _ l] False by (simp add: not_less)
      qed
    qed
  qed
qed

text \<open>C18: Loading an ELF image never writes outside the process. For an image that does not
  overlap the process's memory and whose headers do not make 64-bit sums wrap, the loader - whether it
  succeeds or gives up half-way - changes no byte outside the first 1008 KB of the 1 MB of the
  process, so the 16 KB of stack and every other process are safe. When it succeeds, the heap of the
  process starts where its break is, inside that area, and ends at the stack reserve.\<close>

theorem elf_load_confined:
  assumes "real_addr = mm_find (k_mm k) (mm_addr (proc k n)) 0"
    and "sane_image (k_mem k) img image_size real_addr"
  shows "\<exists>ok k'. elf_load_image k n img image_size = (ok, k') \<and> same_outside real_addr (k_mem k) (k_mem k')
    \<and> (ok \<longrightarrow> real_addr \<le> heap_start (proc k' n) \<and> heap_start (proc k' n) \<le> heap_limit (proc k' n)
         \<and> heap_limit (proc k' n) = real_addr + 0xFC000 \<and> heap_break (proc k' n) = heap_start (proc k' n))"
proof -
  let ?m = "k_mem k" and ?e = "read_ehdr (k_mem k) img"
  obtain ok k' where r: "elf_load_image k n img image_size = (ok, k')" by (metis surj_pair)
  have R: "unat real_addr \<le> 2 ^ 62"
    and segs: "\<And>i. i < unat (e_phnum ?e) \<Longrightarrow> p_type (read_phdr ?m (phdr_at img ?e i)) = ELF_PT_LOAD
      \<Longrightarrow> unat (p_vaddr (read_phdr ?m (phdr_at img ?e i))) + unat (p_memsz (read_phdr ?m (phdr_at img ?e i))) < 2 ^ 64
        \<and> p_align (read_phdr ?m (phdr_at img ?e i)) \<le> 2 ^ 62"
    using assms(2) by (auto simp: sane_image_def Let_def)
  have refl: "same_outside real_addr ?m ?m" by (simp add: same_outside_def)
  show ?thesis
  proof (cases rule: elf_load_cases [OF r assms(1)])
    case 1
    then show ?thesis using r refl by (intro exI [of _ ok] exI [of _ k']) simp
  next
    case (2 lo hi al ok1 m' start)
    have scan: "1 \<le> al \<and> al \<le> 2 ^ 62" and ph: "\<And>i. i < unat (e_phnum ?e) \<Longrightarrow>
        p_type (read_phdr ?m (phdr_at img ?e i)) = ELF_PT_LOAD \<Longrightarrow> lo \<le> p_vaddr (read_phdr ?m (phdr_at img ?e i))
        \<and> p_vaddr (read_phdr ?m (phdr_at img ?e i)) + p_memsz (read_phdr ?m (phdr_at img ?e i)) \<le> hi
        \<and> p_filesz (read_phdr ?m (phdr_at img ?e i)) \<le> p_memsz (read_phdr ?m (phdr_at img ?e i))"
      using scan_phdrs_ok [OF 2(2), of "2 ^ 62"] segs by (auto simp: Let_def)
    have lb: "real_addr \<le> align_up real_addr al" "unat (align_up real_addr al) < 2 ^ 63"
      using align_up_bounds [of real_addr al] scan R by (simp_all add: word_le_nat_alt)
    have "same_outside real_addr ?m m'"
    proof (rule load_segments_confined [OF headers_stable [OF 2(1) assms(2)] _ refl 2(4)])
      fix i p dest
      assume i: "i < unat (e_phnum ?e)" "p = read_phdr ?m (phdr_at img ?e i)" "p_type p = ELF_PT_LOAD"
        and fits: "align_up real_addr al - real_addr + (p_vaddr p - lo) + p_memsz p \<le> process_size - PROC_STACK_RESERVE"
        and d: "dest = align_up real_addr al + (p_vaddr p - lo)"
      show "p_filesz p \<le> p_memsz p \<and> unat dest + unat (p_memsz p) < 2 ^ 64
          \<and> unat real_addr \<le> unat dest \<and> unat dest + unat (p_memsz p) \<le> unat real_addr + 0xFC000"
        using segment_inside [OF lb 2(3) _ _ _ fits] ph segs i unfolding d by blast
    qed
    moreover have "real_addr \<le> start"
      unfolding 2(6) by (rule area_end [OF lb 2(3)])
    ultimately show ?thesis using r 2(5,7,8) by (intro exI [of _ ok] exI [of _ k']) simp
  qed
qed

definition blank_image :: mem where
  "blank_image = (\<lambda>a. if a = 0x60000000 then 0x7F else 0)"

lemma elf_load_confined_witness:
  "\<exists>ok k'. elf_load_image (boot_kernel\<lparr>k_mem := blank_image\<rparr>) 1 0x60000000 4096 = (ok, k')
     \<and> same_outside 0x40200000 blank_image (k_mem k')"
proof -
  let ?k = "boot_kernel\<lparr>k_mem := blank_image\<rparr>"
  have b: "mm_find (k_mm ?k) (mm_addr (proc ?k 1)) 0 = 0x40200000"
    by (simp add: mm_find_eq boot_kernel_def mm_init_def units_below_def proc_def pm_init_def)
  have "le_nat blank_image (0x60000000 + 32) 8 = 0" "le_nat blank_image (0x60000000 + 56) 2 = 0"
    by (rule le_nat_zero; simp add: blank_image_def)+
  then have "sane_image (k_mem ?k) 0x60000000 4096 0x40200000"
    by (simp add: sane_image_def read_ehdr_def Let_def read16_def read64_def)
  with elf_load_confined [of "0x40200000" ?k 1 "0x60000000" 4096] b show ?thesis by auto
qed

text \<open>Executing a file whose image the loader refuses leaks a process. Executing an existing file
  whose header is an image header, but whose ELF header is not accepted, returns no process when a
  process could be created for it - and that process stays: its slot, its page table and its megabyte
  of memory remain taken, and nothing can run or free them.\<close>

theorem mata_exec_leak:
  assumes "procs_ok k" and "fm_find (k_fm k) path = Some (Some f)"
    and "a = fm_data_addr (k_fm k) (FMv3_mem (k_fm k) f)"
    and "x_magic (read_exec_hdr (k_mem k) a) = FM_EXEC_MAGIC"
    and "x_mode (read_exec_hdr (k_mem k) a) = FM_EXEC_MODE_IMAGE"
    and "\<not> elf_valid_header (read_ehdr (k_mem k) (of_nat (a + 32)))
           (ucast (x_image_size (read_exec_hdr (k_mem k) a)))"
  shows "\<exists>k' r k1. mata_exec_file k path parid = Some (None, k') \<and> pm_create k 0 parid = Some (r, k1)
    \<and> (r \<noteq> None \<longrightarrow> card (used_slots k') = card (used_slots k) + 1
         \<and> mm_used (k_mm k') = mm_used (k_mm k) + 8 \<and> lowqueue (k_pm k') = lowqueue (k_pm k)
         \<and> highqueue (k_pm k') = highqueue (k_pm k))"
proof -
  obtain r k1 where c: "pm_create k 0 parid = Some (r, k1)" "same_rest k k1"
    "case r of None \<Rightarrow> True | Some n \<Rightarrow> created k k1 n 0 parid"
    using pm_create_ok [OF assms(1), of 0 parid] by (fastforce split: option.splits)
  have mode: "FM_EXEC_MODE_IMAGE \<noteq> FM_EXEC_MODE_DIRECT"
    by (simp add: FM_EXEC_MODE_IMAGE_def FM_EXEC_MODE_DIRECT_def)
  have "mata_exec_file k path parid = Some (None, k1)"
    using assms(2-6) c(1,2) mode
    by (simp add: mata_exec_file_def Let_def elf_load_image_def same_rest_def split: option.splits)
  moreover have "r \<noteq> None \<Longrightarrow> card (used_slots k1) = card (used_slots k) + 1 \<and> mm_used (k_mm k1) = mm_used (k_mm k) + 8"
    using c(3) procs_ok_card(1) [OF assms(1)] by (auto simp: created_def)
  ultimately show ?thesis using c(1,2) by (auto simp: same_rest_def)
qed

lemma read_put_exec_hdr: "read_exec_hdr (put_exec_hdr m a h) a = h"
  by (simp add: read_exec_hdr_def put_exec_hdr_def read64_put_frame)

lemma put_exec_hdr_frame: "b < a \<or> a + 32 \<le> b \<Longrightarrow> put_exec_hdr m a h b = m b"
  unfolding put_exec_hdr_def by (auto simp: le_put_frame)

text \<open>A kernel with a file table: process creation only needs its heap to be intact.\<close>

lemma boot_with_files:
  assumes "fm_rep s M N"
  shows "procs_ok (boot_kernel\<lparr>k_fm := s, k_mem := m\<rparr>)" "used_slots (boot_kernel\<lparr>k_fm := s, k_mem := m\<rparr>) = {}"
proof -
  obtain r T where "bpt_rep (fm_bpt s) r T M" using assms by (rule fm_repE)
  then have "heap_inv (bp_heap (fm_bpt s))" by (simp add: bpt_rep_def)
  moreover show u: "used_slots (boot_kernel\<lparr>k_fm := s, k_mem := m\<rparr>) = {}"
    using boot_kernel_ok(2) by (simp add: used_slots_def)
  ultimately show "procs_ok (boot_kernel\<lparr>k_fm := s, k_mem := m\<rparr>)"
    using boot_kernel_ok(1) boot_kernel_ok(2) by (simp add: procs_ok_def k_heap_def proc_def)
qed

lemma fm_one_file:
  obtains s M N where "fm_rep s M N" "fm_find s (Some (cstr_of [97])) = Some (Some 1)"
proof -
  obtain s N where s: "fm_rep s Map.empty N" "all_file_num s = 1" "fm_root s = Some 24"
    "d_dir_num (FMv3_dir_mem s 1) = 0" "bp_nd (fm_bpt s) 24 = Some (zero_node\<lparr>bn_leaf := True\<rparr>)"
    by (rule fm_boot_init)
  have "unat (4096 :: u32) \<le> MAX_FILE_SIZE" by (simp add: MAX_FILE_SIZE_def)
  then show ?thesis using fm_create_first [OF s] name_a that by blast
qed

lemma mata_exec_leak_witness:
  "\<exists>k k'. mata_exec_file k (Some (cstr_of [97])) 0 = Some (None, k') \<and> used_slots k = {}"
proof -
  obtain s M N where s: "fm_rep s M N" "fm_find s (Some (cstr_of [97])) = Some (Some 1)"
    by (rule fm_one_file)
  let ?a = "fm_data_addr s (FMv3_mem s 1)"
  let ?h = "\<lparr>x_magic = FM_EXEC_MAGIC, x_mode = FM_EXEC_MODE_IMAGE, x_entry = 0, x_image_size = 0\<rparr>"
  let ?k = "boot_kernel\<lparr>k_fm := s, k_mem := put_exec_hdr (\<lambda>_. 0) ?a ?h\<rparr>"
  have "\<exists>k' r k1. mata_exec_file ?k (Some (cstr_of [97])) 0 = Some (None, k') \<and> pm_create ?k 0 0 = Some (r, k1)
    \<and> (r \<noteq> None \<longrightarrow> card (used_slots k') = card (used_slots ?k) + 1
         \<and> mm_used (k_mm k') = mm_used (k_mm ?k) + 8 \<and> lowqueue (k_pm k') = lowqueue (k_pm ?k)
         \<and> highqueue (k_pm k') = highqueue (k_pm ?k))"
    by (rule mata_exec_leak [where f = 1 and a = ?a])
      (use s boot_with_files [OF s(1)] in \<open>simp_all add: read_put_exec_hdr elf_valid_header_def sizeof_ehdr_def\<close>)
  then show ?thesis using boot_with_files(2) [OF s(1)] by blast
qed

section \<open>Starting a built-in process\<close>

lemma read_exec_hdr_shift:
  assumes "\<And>i. i < 32 \<Longrightarrow> m (a + i) = m' (b + i)"
  shows "read_exec_hdr m a = read_exec_hdr m' b"
proof -
  have "le_nat m (a + j) 8 = le_nat m' (b + j) 8" if "j \<le> 24" for j
    using assms that by (intro le_nat_shift) (simp add: add.assoc)
  from this [of 0] this [of 8] this [of 16] this [of 24] show ?thesis
    by (simp add: read_exec_hdr_def read64_def)
qed

lemma procs_ok_files:
  assumes "procs_ok k" "heap_inv (bp_heap (fm_bpt s))" "live (k_heap k) \<subseteq> live (bp_heap (fm_bpt s))"
  shows "procs_ok (k\<lparr>k_fm := s, k_mem := m\<rparr>) \<and> used_slots (k\<lparr>k_fm := s, k_mem := m\<rparr>) = used_slots k"
proof -
  have u: "used_slots (k\<lparr>k_fm := s, k_mem := m\<rparr>) = used_slots k" by (simp add: used_slots_def)
  have "\<exists>a n. page_i (proc k (i + 1)) = Some a \<and> (a, n) \<in> live (bp_heap (fm_bpt s)) \<and> 4104 \<le> n"
    if "i \<in> used_slots k" for i
    by (rule procs_ok_page [OF assms(1) that]) (use assms(3) in blast)
  then show ?thesis using assms(1,2) u unfolding procs_ok_def by (simp add: k_heap_def proc_def)
qed

lemma write_hdr_read:
  assumes "f_lens (FMv3_mem (k_fm k) i) = 1" "a = fm_data_addr (k_fm k) (FMv3_mem (k_fm k) i)"
    and "stk + 32 \<le> a \<or> a + 32 \<le> stk"
  shows "read_exec_hdr (k_mem (write_hdr stk h (Some i) k)) a = h"
proof -
  let ?m = "put_exec_hdr (k_mem k) stk h"
  have "snd (fm_write (k_fm k) ?m (Some i) stk 32 0) = memcpy ?m a stk 32"
    using assms(1,2) by (simp add: fm_write_def clip_def Let_def)
  then have "k_mem (write_hdr stk h (Some i) k) = memcpy ?m a stk 32" by (simp add: write_hdr_def Let_def)
  moreover have "memcpy ?m a stk 32 (a + j) = ?m (stk + j)" if "j < 32" for j
    using that assms(3) by (subst memcpy_eq) auto
  ultimately show ?thesis
    using read_exec_hdr_shift [of "k_mem (write_hdr stk h (Some i) k)" a ?m stk] by (simp add: read_put_exec_hdr)
qed

text \<open>Starting a built-in process is creating a process on the kernel whose new file holds its header.\<close>

lemma proc_turn_creates:
  assumes "procs_ok k" and "fm_rep (k_fm k) M N" and "name_key nm = Some (f, d)"
    and "all_file_num (k_fm k) < MAX_FILE_NUM" and "d_dir_num (FMv3_dir_mem (k_fm k) 1) < MAX_DIR_FILE_NUM"
    and "fm_create (k_fm k) (Some nm) 1024 0 = Some (Some i, s)"
    and "stk + 32 \<le> fm_base (k_fm k) + (i mod 32) * MAX_FILE_SIZE
      \<or> fm_base (k_fm k) + (i mod 32) * MAX_FILE_SIZE + 32 \<le> stk"
  obtains k1 where "proc_turn t stk k (Some nm) ent 0 = pm_create k1 ent 0" "procs_ok k1" "used_slots k1 = used_slots k"
    "k_pm k1 = k_pm k" "k_mm k1 = k_mm k" "k_fm k1 = s"
proof -
  have sz: "unat (1024 :: u32) \<le> MAX_FILE_SIZE" by (simp add: MAX_FILE_SIZE_def)
  have c: "i = all_file_num (k_fm k)" "fm_rep s (M(f \<mapsto> (d, of_nat i))) N" "f_lens (FMv3_mem s i) = 1"
    "all_file_num s = all_file_num (k_fm k) + 1"
    using fm_create_ok [OF assms(2,3) sz assms(4,5), where auth = 0] assms(6) by auto
  have fr: "heap_inv (bp_heap (fm_bpt s))" "live (k_heap k) \<subseteq> live (bp_heap (fm_bpt s))" "fm_base s = fm_base (k_fm k)"
    using fm_create_frame [OF assms(2,3,6)] by (simp_all add: k_heap_def)
  have "1 \<le> all_file_num (k_fm k)" using assms(2) by (simp add: fm_rep_def)
  then have fid: "f_fid (FMv3_mem s i) = i mod 32" using c by (simp add: fm_rep_def)
  let ?a = "fm_data_addr s (FMv3_mem s i)"
  have a: "stk + 32 \<le> ?a \<or> ?a + 32 \<le> stk" using assms(7) fr(3) fid by (simp add: fm_data_addr_def)
  let ?h = "\<lparr>x_magic = FM_EXEC_MAGIC, x_mode = FM_EXEC_MODE_DIRECT, x_entry = ent, x_image_size = 0\<rparr>"
  let ?k = "write_hdr stk ?h (Some i) (k\<lparr>k_fm := s\<rparr>)"
  have hdr: "read_exec_hdr (k_mem ?k) ?a = ?h" using c(3) a by (intro write_hdr_read) simp_all
  have k: "k_fm ?k = s" "k_pm ?k = k_pm k" "k_mm ?k = k_mm k" by (simp_all add: write_hdr_def Let_def)
  have find: "fm_find s (Some nm) = Some (Some i)"
    using fm_find_eq [OF c(2) assms(3)] c(1) assms(4) by (simp add: stored_def of_nat_file)
  have ok: "procs_ok ?k \<and> used_slots ?k = used_slots k"
    unfolding write_hdr_def Let_def by simp (rule procs_ok_files [OF assms(1) fr(1,2)])
  have "proc_turn t stk k (Some nm) ent 0 = pm_create ?k ent 0"
    using assms(6) find hdr k(1) by (simp add: proc_turn_def mata_exec_file_def Let_def)
  then show ?thesis using that ok k by blast
qed

text \<open>C19: Starting a built-in process starts it at its entry point. If the file table is intact and the
  file for a new name can be created, \<open>proc_turn\<close> with mode 0 writes the execution header into the
  file through its local variable, reads it back from the file and creates a process: it returns,
  keeps the process table intact, and either gives a new process whose entry point is the given one
  and whose parent is 0, or - when no process can be created - no process and no used slot.\<close>

theorem proc_turn_starts:
  assumes "procs_ok k" and "fm_rep (k_fm k) M N" and "name_key nm = Some (f, d)"
    and "all_file_num (k_fm k) < MAX_FILE_NUM" and "d_dir_num (FMv3_dir_mem (k_fm k) 1) < MAX_DIR_FILE_NUM"
    and "fm_create (k_fm k) (Some nm) 1024 0 = Some (Some i, s)"
    and "stk + 32 \<le> fm_base (k_fm k) + (i mod 32) * MAX_FILE_SIZE
      \<or> fm_base (k_fm k) + (i mod 32) * MAX_FILE_SIZE + 32 \<le> stk"
  shows "\<exists>r k'. proc_turn t stk k (Some nm) ent 0 = Some (r, k') \<and> procs_ok k'
    \<and> (case r of None \<Rightarrow> used_slots k' = used_slots k
       | Some n \<Rightarrow> n - 1 \<notin> used_slots k \<and> used_slots k' = insert (n - 1) (used_slots k)
           \<and> elr_el1 (regs (proc k' n)) = ent \<and> p_num (proc k' n) = of_nat n \<and> p_parent (proc k' n) = 0)"
proof -
  obtain k1 where k1: "proc_turn t stk k (Some nm) ent 0 = pm_create k1 ent 0" "procs_ok k1" "used_slots k1 = used_slots k"
    by (rule proc_turn_creates [OF assms])
  obtain r k' where r: "pm_create k1 ent 0 = Some (r, k')" "procs_ok k'"
    "case r of None \<Rightarrow> used_slots k' = used_slots k1 | Some n \<Rightarrow> created k1 k' n ent 0"
    using pm_create_ok [OF k1(2), of ent 0] by (fastforce split: option.splits)
  then show ?thesis using k1 by (auto simp: created_def split: option.splits)
qed

lemma proc_turn_starts_witness:
  "\<exists>k r k'. proc_turn \<lparr>shell_start = 1, shell_size = 0, bridge_start = 2, bridge_size = 0, compiler_start = 3,
      compiler_size = 0\<rparr> 0x40100000 k (Some (cstr_of [97])) 0x40001000 0 = Some (r, k') \<and> procs_ok k'
    \<and> (\<forall>n. r = Some n \<longrightarrow> elr_el1 (regs (proc k' n)) = 0x40001000)"
proof -
  obtain s N where s: "fm_rep s Map.empty N" "all_file_num s = 1" "fm_root s = Some 24"
    "d_dir_num (FMv3_dir_mem s 1) = 0" "bp_nd (fm_bpt s) 24 = Some (zero_node\<lparr>bn_leaf := True\<rparr>)"
    "fm_base s = 0x50000000"
    by (rule fm_boot_init)
  obtain s' where s': "fm_create s (Some (cstr_of [97])) 1024 0 = Some (Some 1, s')"
    using fm_create_first [OF s(1-5), of 1024] name_a by (fastforce simp: MAX_FILE_SIZE_def)
  let ?k = "boot_kernel\<lparr>k_fm := s, k_mem := (\<lambda>_. 0)\<rparr>"
  have "\<exists>r k'. proc_turn \<lparr>shell_start = 1, shell_size = 0, bridge_start = 2, bridge_size = 0, compiler_start = 3,
      compiler_size = 0\<rparr> 0x40100000 ?k (Some (cstr_of [97])) 0x40001000 0 = Some (r, k') \<and> procs_ok k'
    \<and> (case r of None \<Rightarrow> used_slots k' = used_slots ?k
       | Some n \<Rightarrow> n - 1 \<notin> used_slots ?k \<and> used_slots k' = insert (n - 1) (used_slots ?k)
           \<and> elr_el1 (regs (proc k' n)) = 0x40001000 \<and> p_num (proc k' n) = of_nat n \<and> p_parent (proc k' n) = 0)"
    by (rule proc_turn_starts [OF boot_with_files(1) [OF s(1)] _ name_a])
      (use s s' in \<open>simp_all add: MAX_FILE_SIZE_def MAX_FILE_NUM_def MAX_DIR_FILE_NUM_def\<close>)
  then show ?thesis by (fastforce split: option.splits)
qed

text \<open>The first process of a fresh kernel: it always gets one.\<close>

lemma proc_turn_first:
  assumes ok: "procs_ok k" "used_slots k = {}" and mm: "k_mm k = mm_init mm0 b"
    and fm: "fm_rep (k_fm k) Map.empty N" "all_file_num (k_fm k) = 1" "fm_root (k_fm k) = Some 24"
      "d_dir_num (FMv3_dir_mem (k_fm k) 1) = 0" "bp_nd (fm_bpt (k_fm k)) 24 = Some (zero_node\<lparr>bn_leaf := True\<rparr>)"
      "heap_rep (k_heap k) [(136, True), (136, True), (HEAP_SIZE - 272, False)]"
    and key: "name_key nm = Some (f, d)"
    and stk: "stk + 32 \<le> fm_base (k_fm k) + MAX_FILE_SIZE"
  shows "\<exists>k' k1. proc_turn t stk k (Some nm) ent 0 = Some (Some 1, k') \<and> procs_ok k' \<and> created k1 k' 1 ent 0 \<and> same_rest k1 k'
    \<and> k_pm k1 = k_pm k \<and> next_base k1 = b \<and> (\<exists>M. fm_rep (k_fm k1) M N) \<and> fm_find (k_fm k1) (Some nm) = Some (Some 1)"
proof -
  have "unat (1024 :: u32) \<le> MAX_FILE_SIZE" by (simp add: MAX_FILE_SIZE_def)
  from fm_create_first [OF fm(1-5) this key] obtain s where
    s: "fm_create (k_fm k) (Some nm) 1024 0 = Some (Some 1, s)" "fm_find s (Some nm) = Some (Some 1)"
      "\<exists>M. fm_rep s M N" "bp_heap (fm_bpt s) = k_heap k"
    by (auto simp: k_heap_def)
  have num: "all_file_num (k_fm k) < MAX_FILE_NUM" "d_dir_num (FMv3_dir_mem (k_fm k) 1) < MAX_DIR_FILE_NUM"
    using fm by (simp_all add: MAX_FILE_NUM_def MAX_DIR_FILE_NUM_def)
  have st: "stk + 32 \<le> fm_base (k_fm k) + (1 mod 32) * MAX_FILE_SIZE \<or> fm_base (k_fm k) + (1 mod 32) * MAX_FILE_SIZE + 32 \<le> stk"
    using stk by simp
  obtain k1 where k1: "proc_turn t stk k (Some nm) ent 0 = pm_create k1 ent 0" "procs_ok k1" "used_slots k1 = used_slots k"
    "k_pm k1 = k_pm k" "k_mm k1 = k_mm k" "k_fm k1 = s"
    by (rule proc_turn_creates [OF ok(1) fm(1) key num s(1) st])
  have free: "first_free (is_alloc (k_pm k1)) = Some 0"
  proof -
    have "length (is_alloc (k_pm k1)) = 256" using k1(2) by (simp add: procs_ok_def)
    moreover have "0 \<notin> used_slots k1" using k1(3) ok(2) by simp
    ultimately show ?thesis by (cases "is_alloc (k_pm k1)") (simp_all add: used_slots_def)
  qed
  have hp: "heap_rep (k_heap k1) [(136, True), (136, True), (HEAP_SIZE - 272, False)]"
    using fm(6) s(4) k1(6) by (simp add: k_heap_def)
  have a: "fst (alloc_list (4104 + HDR) 0 [(136, True), (136, True), (HEAP_SIZE - 272, False)]) = Some 296"
    by (simp add: HDR_def HEAP_SIZE_def)
  have top: "unat (sp_top (k_mm k1)) + 3 \<le> 65535" using k1(5) mm by simp
  obtain k' where k': "pm_create k1 ent 0 = Some (Some 1, k')"
    using pm_create_succeeds [OF k1(2) free hp a top, of ent 0] by auto
  then have "procs_ok k'" "created k1 k' 1 ent 0" "same_rest k1 k'"
    using pm_create_ok [OF k1(2), of ent 0] by auto
  moreover have "next_base k1 = b" using k1(5) mm by (simp add: next_base_def)
  ultimately show ?thesis using k' k1 s by auto
qed

section \<open>The schedule\<close>

text \<open>\<open>n\<close> timer interrupts, process \<open>i\<close> running before the first: each makes the result of
  \<open>schedule_proc\<close> the running process.\<close>

fun ticks :: "nat \<Rightarrow> kernel \<Rightarrow> nat \<Rightarrow> (nat \<times> kernel) option" where
  "ticks 0 k i = Some (i, k)"
| "ticks (Suc n) k i = do { (j, k') \<leftarrow> schedule_proc k i; ticks n k' j }"

text \<open>The identifiers in use: the running process and those on the low queue.\<close>

definition ready :: "kernel \<Rightarrow> nat \<Rightarrow> u8 list" where
  "ready k i = of_nat i # queue_items (lowqueue (k_pm k))"

definition sched_ok :: "kernel \<Rightarrow> nat \<Rightarrow> bool" where
  "sched_ok k i \<longleftrightarrow> queue_wf (lowqueue (k_pm k)) \<and> queue_empty (highqueue (k_pm k)) \<and> i < 256
     \<and> queue_items (lowqueue (k_pm k)) \<noteq> []
     \<and> (\<forall>d\<in>set (ready k i). 0 < d \<and> d < PMV1_MAX_PROC \<and> p_num (proc k (unat d)) = d
          \<and> p_state (proc k (unat d)) \<noteq> PROC_SIGNAL)"

lemma schedule_step:
  assumes ok: "sched_ok k i"
  shows "\<exists>j k'. schedule_proc k i = Some (j, k') \<and> sched_ok k' j \<and> ready k' j = rotate1 (ready k i)
    \<and> k_cur k' = Some j \<and> k_mem k' = k_mem k"
proof -
  let ?q = "lowqueue (k_pm k)"
  obtain d ds where q: "queue_items ?q = d # ds" using ok by (cases "queue_items ?q") (auto simp: sched_ok_def)
  have wf: "queue_wf ?q" and i: "unat (of_nat i :: u8) = i"
    using ok by (simp_all add: sched_ok_def unat_of_nat)
  have d: "0 < d" "d < PMV1_MAX_PROC" "p_num (proc k (unat d)) = d" "p_state (proc k (unat d)) \<noteq> PROC_SIGNAL"
    and pi: "p_num (proc k i) = of_nat i"
    using ok q i by (auto simp: sched_ok_def ready_def)
  have ne: "\<not> queue_empty ?q" using kq.is_empty_iff [OF wf] q by simp
  obtain q1 where pop: "queue_pop ?q = (d, q1)" using kq.fst_pop [OF wf] q by (cases "queue_pop ?q") auto
  let ?pm = "(k_pm k)\<lparr>lowqueue := queue_push q1 (of_nat i)\<rparr>"
  have items: "queue_items (queue_push q1 (of_nat i)) = ds @ [of_nat i]"
    using kq.items_pop_push [OF wf, of "of_nat i"] q pop by simp
  have wf': "queue_wf (queue_push q1 (of_nat i))"
    using kq.wf_push kq.wf_pop [OF wf] pop by fastforce
  have pick: "pm_pick d = unat d" using d by (auto simp: pm_pick_def)
  have run: "pm_run (k_pm k) = (unat d, (k_pm k)\<lparr>lowqueue := q1\<rparr>)"
    using ok ne pop pick by (simp add: pm_run_def sched_ok_def)
  let ?k = "k\<lparr>k_pm := ?pm, k_cur := Some (unat d)\<rparr>"
  have "schedule_proc k i = Some (unat d, ?k)"
    using run d(4) pi by (simp add: schedule_proc_def Let_def pm_awake_def proc_def)
  moreover have "ready ?k (unat d) = rotate1 (ready k i)" using items q by (simp add: ready_def)
  moreover have "sched_ok ?k (unat d)"
    using ok wf' items q unat_lt_pow [of d] by (auto simp: sched_ok_def ready_def proc_def)
  ultimately show ?thesis by (intro exI [of _ "unat d"] exI [of _ ?k]) simp
qed

lemma ticks_rotate:
  "sched_ok k i \<Longrightarrow> \<exists>j k'. ticks n k i = Some (j, k') \<and> sched_ok k' j \<and> ready k' j = rotate n (ready k i)
     \<and> k_mem k' = k_mem k"
proof (induction n arbitrary: k i)
  case 0
  then show ?case by simp
next
  case (Suc n)
  obtain j k1 where k1: "schedule_proc k i = Some (j, k1)" "sched_ok k1 j" "ready k1 j = rotate1 (ready k i)"
    "k_mem k1 = k_mem k"
    using schedule_step [OF Suc.prems] by blast
  obtain j2 k2 where "ticks n k1 j = Some (j2, k2)" "sched_ok k2 j2" "ready k2 j2 = rotate n (ready k1 j)"
    "k_mem k2 = k_mem k1"
    using Suc.IH [OF k1(2)] by blast
  then show ?case using k1 by (simp add: rotate1_rotate_swap)
qed

text \<open>Process 1 running and processes 2 and 3 waiting.\<close>

definition trio_queue :: queue where
  "trio_queue = queue_push (queue_push (lowqueue (k_pm boot_kernel)) 2) 3"

definition trio_kernel :: kernel where
  "trio_kernel = boot_kernel\<lparr>k_pm := (k_pm boot_kernel)\<lparr>lowqueue := trio_queue,
     PMv1_mem := (\<lambda>i. (PMv1_mem (k_pm boot_kernel) i)\<lparr>p_num := of_nat i\<rparr>)\<rparr>\<rparr>"

lemma trio_queue_items: "queue_wf trio_queue" "queue_items trio_queue = [2, 3]"
proof -
  let ?q = "lowqueue (k_pm boot_kernel)"
  show "queue_wf trio_queue" "queue_items trio_queue = [2, 3]"
    using boot_queues length_queue_items [of ?q] kq.items_push [of ?q 2] kq.items_push [of "queue_push ?q 2" 3]
      kq.cap_push [of ?q 2]
    by (auto simp: trio_queue_def queue_push_wf simp del: length_queue_items)
qed

lemma trio_ok: "sched_ok trio_kernel 1" "ready trio_kernel 1 = [1, 2, 3]"
proof -
  show rd: "ready trio_kernel 1 = [1, 2, 3]" using trio_queue_items by (simp add: ready_def trio_kernel_def)
  show "sched_ok trio_kernel 1"
    using trio_queue_items boot_queues length_queue_items [of "highqueue (k_pm boot_kernel)"]
    by (auto simp: sched_ok_def ready_def trio_kernel_def proc_def queue_empty_def PMV1_MAX_PROC_def PROC_SIGNAL_def)
       (simp_all add: boot_kernel_def pm_init_def)
qed

text \<open>C20: The scheduler is a round robin that starves nobody. While the high queue is empty, some other
  process waits and every identifier in use names an ordinary process, the running process followed
  by the low queue is rotated by one at each timer interrupt, for any number of interrupts; so every
  waiting process runs after as many interrupts as its place in the queue, and no interrupt touches
  memory.\<close>

theorem schedule_round_robin:
  assumes "sched_ok k i"
  shows "\<exists>j k'. ticks n k i = Some (j, k') \<and> ready k' j = rotate n (ready k i) \<and> k_mem k' = k_mem k
    \<and> (n < length (ready k i) \<longrightarrow> of_nat j = ready k i ! n)"
proof -
  obtain j k' where t: "ticks n k i = Some (j, k')" "ready k' j = rotate n (ready k i)" "k_mem k' = k_mem k"
    using ticks_rotate [OF assms] by blast
  have "of_nat j = hd (ready k' j)" by (simp add: ready_def)
  moreover have "ready k i \<noteq> []" by (simp add: ready_def)
  ultimately have "of_nat j = ready k i ! (n mod length (ready k i))" using t(2) by (simp add: hd_rotate_conv_nth)
  then show ?thesis using t by auto
qed

lemma schedule_round_robin_witness:
  "\<exists>j k'. ticks 2 trio_kernel 1 = Some (j, k') \<and> of_nat j = (3 :: u8)"
  using schedule_round_robin [OF trio_ok(1), of 2] unfolding trio_ok(2) by auto

end
