(* ===== verification/Mmio.thy ===== *)
theory Mmio
  imports Mem Debug
begin

text \<open>
  Device registers. Everything a driver reads from a device - a register, or memory the device
  writes on its own, such as a used ring - depends on what has happened before, so a device is an
  argument of the drivers: a function from the accesses made so far and an address to the value
  read there. A driver threads the accesses, the memory it writes and the bytes it prints. Memory
  barriers do not show in this model: accesses are recorded in program order.
\<close>

datatype io_ev = Rd u64 | Wr u64 u32 | Rd8 u64 | Wr8 u64 u8 | Msr string u64

type_synonym device = "io_ev list \<Rightarrow> u64 \<Rightarrow> u32"

record drv =
  d_tr :: "io_ev list"
  d_mem :: mem
  d_out :: "u8 list"

definition rd32 :: "device \<Rightarrow> u64 \<Rightarrow> drv \<Rightarrow> u32 \<times> drv" where
  "rd32 dev a s = (dev (d_tr s) a, s\<lparr>d_tr := d_tr s @ [Rd a]\<rparr>)"

definition wr32 :: "u64 \<Rightarrow> u32 \<Rightarrow> drv \<Rightarrow> drv" where
  "wr32 a v s = s\<lparr>d_tr := d_tr s @ [Wr a v]\<rparr>"

text \<open>\<^verbatim>\<open>REG |= v\<close>: a read and a write.\<close>

definition or32 :: "device \<Rightarrow> u64 \<Rightarrow> u32 \<Rightarrow> drv \<Rightarrow> drv" where
  "or32 dev a v s = (let (x, s1) = rd32 dev a s in wr32 a (x OR v) s1)"

definition rd8 :: "device \<Rightarrow> u64 \<Rightarrow> drv \<Rightarrow> u8 \<times> drv" where
  "rd8 dev a s = (ucast (dev (d_tr s) a), s\<lparr>d_tr := d_tr s @ [Rd8 a]\<rparr>)"

definition wr8 :: "u64 \<Rightarrow> u8 \<Rightarrow> drv \<Rightarrow> drv" where
  "wr8 a v s = s\<lparr>d_tr := d_tr s @ [Wr8 a v]\<rparr>"

text \<open>A write to a system register.\<close>

definition msr :: "string \<Rightarrow> u64 \<Rightarrow> drv \<Rightarrow> drv" where
  "msr r v s = s\<lparr>d_tr := d_tr s @ [Msr r v]\<rparr>"

text \<open>Sixteen bits of memory that the device writes.\<close>

definition rd16 :: "device \<Rightarrow> u64 \<Rightarrow> drv \<Rightarrow> u16 \<times> drv" where
  "rd16 dev a s = (let (x, s1) = rd32 dev a s in (ucast x, s1))"

definition say :: "u8 list \<Rightarrow> drv \<Rightarrow> drv" where
  "say bs s = s\<lparr>d_out := d_out s @ bs\<rparr>"

text \<open>Memory the driver writes for the device.\<close>

definition put16 :: "u64 \<Rightarrow> u16 \<Rightarrow> drv \<Rightarrow> drv" where
  "put16 a v s = s\<lparr>d_mem := le_put (d_mem s) (unat a) 2 (unat v)\<rparr>"

definition put32 :: "u64 \<Rightarrow> u32 \<Rightarrow> drv \<Rightarrow> drv" where
  "put32 a v s = s\<lparr>d_mem := le_put (d_mem s) (unat a) 4 (unat v)\<rparr>"

definition put64 :: "u64 \<Rightarrow> u64 \<Rightarrow> drv \<Rightarrow> drv" where
  "put64 a v s = s\<lparr>d_mem := le_put (d_mem s) (unat a) 8 (unat v)\<rparr>"

definition get16 :: "u64 \<Rightarrow> drv \<Rightarrow> u16" where
  "get16 a s = read16 (d_mem s) (unat a)"

definition put_bytes :: "nat \<Rightarrow> u8 list \<Rightarrow> mem \<Rightarrow> mem" where
  "put_bytes a bs m = (\<lambda>x. if a \<le> x \<and> x < a + length bs then bs ! (x - a) else m x)"

definition get_bytes :: "nat \<Rightarrow> nat \<Rightarrow> mem \<Rightarrow> u8 list" where
  "get_bytes a n m = map (\<lambda>i. m (a + i)) [0..<n]"

text \<open>Bytes of memory that the device writes, read one after the other.\<close>

fun rd_bytes :: "device \<Rightarrow> u64 \<Rightarrow> nat \<Rightarrow> drv \<Rightarrow> u8 list \<times> drv" where
  "rd_bytes dev a 0 s = ([], s)"
| "rd_bytes dev a (Suc n) s = (let (b, s1) = rd8 dev a s; (bs, s2) = rd_bytes dev (a + 1) n s1 in (b # bs, s2))"

lemma drv_frame [simp]:
  "d_mem (wr32 a v s) = d_mem s" "d_out (wr32 a v s) = d_out s" "d_tr (wr32 a v s) = d_tr s @ [Wr a v]"
  "d_mem (snd (rd32 dev a s)) = d_mem s" "d_out (snd (rd32 dev a s)) = d_out s"
  "d_mem (or32 dev a v s) = d_mem s" "d_out (or32 dev a v s) = d_out s"
  "d_mem (say bs s) = d_mem s" "d_tr (say bs s) = d_tr s" "d_out (say bs s) = d_out s @ bs"
  "d_tr (put16 a w s) = d_tr s" "d_tr (put32 a v s) = d_tr s" "d_tr (put64 a x s) = d_tr s"
  "d_out (put16 a w s) = d_out s" "d_out (put32 a v s) = d_out s" "d_out (put64 a x s) = d_out s"
  by (simp_all add: wr32_def rd32_def or32_def say_def put16_def put32_def put64_def)

lemma read32_bytes:
  "read32 m a = of_nat (unat (m a) + 256 * (unat (m (a + 1)) + 256 * (unat (m (a + 2)) + 256 * unat (m (a + 3)))))"
proof -
  have n: "(4 :: nat) = Suc (Suc (Suc (Suc 0)))" "a + 1 + 1 = a + 2" "a + 2 + 1 = a + 3" by simp_all
  have "le_nat m a 4 = unat (m a) + 256 * (unat (m (a + 1)) + 256 * (unat (m (a + 2)) + 256 * unat (m (a + 3))))"
    unfolding n(1) le_nat.simps n(2,3) by (simp only: mult_0_right add_0_right)
  then show ?thesis by (simp only: read32_def)
qed

end
