(* ===== verification/Dtb.thy ===== *)
theory Dtb
  imports Mmio
begin

text \<open>
  \<^verbatim>\<open>src/global/dtb.c\<close>: finding the virtio devices in the flattened device tree the boot loader passes.
  The tree is read from memory; whether a virtio slot holds a device, and which, is read from the
  slot's register. \<^verbatim>\<open>DEBUG_DTB_FLAG\<close> is 0, so the debug output of the parser is not compiled. The token
  loop ends only at an end token, so it is a partial function.
\<close>

definition FDT_MAGIC :: u32 where "FDT_MAGIC = 0xd00dfeed"
definition FDT_BEGIN_NODE :: u32 where "FDT_BEGIN_NODE = 1"
definition FDT_END_NODE :: u32 where "FDT_END_NODE = 2"
definition FDT_PROP :: u32 where "FDT_PROP = 3"
definition FDT_NOP :: u32 where "FDT_NOP = 4"
definition FDT_END :: u32 where "FDT_END = 9"
definition VIRTIO_INPUT_MAX_DEVICES :: nat where "VIRTIO_INPUT_MAX_DEVICES = 4"

definition fdt32_to_cpu :: "u32 \<Rightarrow> u32" where
  "fdt32_to_cpu w = push_bit 24 w OR push_bit 8 (w AND 0xFF00) OR (drop_bit 8 w AND 0xFF00) OR drop_bit 24 w"

definition fdt64_to_cpu :: "u64 \<Rightarrow> u64" where
  "fdt64_to_cpu v =
     (let high = ucast (drop_bit 32 v); low = ucast (v AND 0xFFFFFFFF)
      in push_bit 32 (ucast (fdt32_to_cpu low)) OR ucast (fdt32_to_cpu high))"

definition fdt_align :: "u32 \<Rightarrow> u32" where
  "fdt_align offset = (offset + 3) AND NOT 3"

fun fdt_strnlen_from :: "(nat \<Rightarrow> u8) \<Rightarrow> nat \<Rightarrow> nat \<Rightarrow> nat" where
  "fdt_strnlen_from s len 0 = len"
| "fdt_strnlen_from s len (Suc k) = (if s len \<noteq> 0 then fdt_strnlen_from s (len + 1) k else len)"

definition fdt_strnlen :: "(nat \<Rightarrow> u8) \<Rightarrow> nat \<Rightarrow> nat" where
  "fdt_strnlen s maxlen = fdt_strnlen_from s 0 maxlen"

text \<open>The global variables the parser fills.\<close>

record dtb_t =
  g_virtio_net_base :: u64
  g_virtio_gpu_base :: u64
  g_virtio_blk_base :: u64
  g_virtio_snd_base :: u64
  g_virtio_input_bases :: "u64 list"
  g_virtio_input_irqs :: "u32 list"
  g_virtio_input_count :: u32
  g_virtio_net_irq :: u32
  g_virtio_gpu_irq :: u32
  g_virtio_blk_irq :: u32

definition dtb_init :: dtb_t where
  "dtb_init = \<lparr>g_virtio_net_base = 0, g_virtio_gpu_base = 0, g_virtio_blk_base = 0, g_virtio_snd_base = 0,
     g_virtio_input_bases = replicate VIRTIO_INPUT_MAX_DEVICES 0,
     g_virtio_input_irqs = replicate VIRTIO_INPUT_MAX_DEVICES 0, g_virtio_input_count = 0,
     g_virtio_net_irq = 0, g_virtio_gpu_irq = 0, g_virtio_blk_irq = 0\<rparr>"

text \<open>What is collected about the current node.\<close>

record dtb_node =
  node_mmio_addr :: u64
  node_irq_num :: u32
  has_irq :: bool
  is_net :: bool
  is_gpu :: bool
  is_blk :: bool
  is_snd :: bool
  is_input :: bool

definition new_node :: dtb_node where
  "new_node = \<lparr>node_mmio_addr = 0, node_irq_num = 0, has_irq = False, is_net = False, is_gpu = False,
     is_blk = False, is_snd = False, is_input = False\<rparr>"

text \<open>The end of a node records the device it described. The collected data are not reset here.\<close>

definition end_node :: "dtb_node \<Rightarrow> dtb_t \<times> drv \<Rightarrow> (dtb_t \<times> drv) option" where
  "end_node nd = (\<lambda>(g, s).
     if is_net nd \<and> node_mmio_addr nd \<noteq> 0
     then Some (g\<lparr>g_virtio_net_base := node_mmio_addr nd,
             g_virtio_net_irq := (if has_irq nd then node_irq_num nd else g_virtio_net_irq g)\<rparr>, s)
     else if is_gpu nd \<and> node_mmio_addr nd \<noteq> 0
     then Some (g\<lparr>g_virtio_gpu_base := node_mmio_addr nd,
             g_virtio_gpu_irq := (if has_irq nd then node_irq_num nd else g_virtio_gpu_irq g)\<rparr>, s)
     else if is_blk nd \<and> node_mmio_addr nd \<noteq> 0
     then Some (g\<lparr>g_virtio_blk_base := node_mmio_addr nd,
             g_virtio_blk_irq := (if has_irq nd then node_irq_num nd else g_virtio_blk_irq g)\<rparr>, s)
     else if is_snd nd \<and> node_mmio_addr nd \<noteq> 0
     then Some (g\<lparr>g_virtio_snd_base := node_mmio_addr nd\<rparr>, s)
     else if is_input nd \<and> node_mmio_addr nd \<noteq> 0
     then if unat (g_virtio_input_count g) < VIRTIO_INPUT_MAX_DEVICES
          then do {
            let i = unat (g_virtio_input_count g);
            bs \<leftarrow> aset (g_virtio_input_bases g) i (node_mmio_addr nd);
            is \<leftarrow> aset (g_virtio_input_irqs g) i (if has_irq nd then node_irq_num nd else 0);
            Some (g\<lparr>g_virtio_input_count := g_virtio_input_count g + 1, g_virtio_input_bases := bs,
                    g_virtio_input_irqs := is\<rparr>, s)
          }
          else Some (g, say (line_of ''VirtIO input device limit reached'') s)
     else Some (g, s))"

text \<open>A \<^verbatim>\<open>reg\<close> property inside the virtio window: the device in the slot.\<close>

definition prop_reg :: "device \<Rightarrow> u64 \<Rightarrow> dtb_node \<times> drv \<Rightarrow> dtb_node \<times> drv" where
  "prop_reg dev p = (\<lambda>(nd, s).
     let mmio_addr = fdt64_to_cpu (read64 (d_mem s) (unat p)) in
     if mmio_addr \<ge> 0x0a000000 \<and> mmio_addr < 0x0a200000
     then let nd1 = nd\<lparr>node_mmio_addr := mmio_addr\<rparr>;
              (device_id, s1) = rd32 dev (mmio_addr + 0x008) s;
              nd2 = (if device_id = 1 then nd1\<lparr>is_net := True\<rparr> else nd1)
          in (if device_id = 2 then nd2\<lparr>is_blk := True\<rparr>
              else if device_id = 16 then nd2\<lparr>is_gpu := True\<rparr>
              else if device_id = 25 then nd2\<lparr>is_snd := True\<rparr>
              else if device_id = 18 then nd2\<lparr>is_input := True\<rparr>
              else nd2, s1)
     else (nd, s))"

definition prop_interrupts :: "u64 \<Rightarrow> mem \<Rightarrow> dtb_node \<Rightarrow> dtb_node" where
  "prop_interrupts p m nd =
     (let intr_type = fdt32_to_cpu (read32 m (unat p));
          intr_num = fdt32_to_cpu (read32 m (unat (p + 4)))
      in nd\<lparr>node_irq_num := (if intr_type = 0 then intr_num + 32 else intr_num), has_irq := True\<rparr>)"

text \<open>A property token; the result also has the address after the value.\<close>

definition dtb_prop :: "device \<Rightarrow> u64 \<Rightarrow> u64 \<Rightarrow> dtb_node \<Rightarrow> drv \<Rightarrow> (u64 \<times> dtb_node \<times> drv) option" where
  "dtb_prop dev strings_ptr p nd s = do {
     let prop_len = fdt32_to_cpu (read32 (d_mem s) (unat p));
     let name_off = fdt32_to_cpu (read32 (d_mem s) (unat (p + 4)));
     let prop_val = p + 8;
     let prop_name = (\<lambda>i. d_mem s (unat (strings_ptr + ucast name_off + of_nat i)));
     r \<leftarrow> strcmp prop_name (lit ''reg'');
     let (nd1, s1) = (if r = 0 then prop_reg dev prop_val (nd, s) else (nd, s));
     r2 \<leftarrow> strcmp prop_name (lit ''interrupts'');
     let nd2 = (if r2 = 0 then prop_interrupts prop_val (d_mem s1) nd1 else nd1);
     Some (prop_val + ucast (fdt_align prop_len), nd2, s1) }"

partial_function (option) dtb_loop :: "device \<Rightarrow> u64 \<Rightarrow> u64 \<Rightarrow> dtb_node \<Rightarrow> dtb_t \<Rightarrow> drv \<Rightarrow> (dtb_t \<times> drv) option" where
  "dtb_loop dev strings_ptr p nd g s =
     (let token = fdt32_to_cpu (read32 (d_mem s) (unat p)); p1 = p + 4 in
      if token = FDT_BEGIN_NODE
      then let len = fdt_strnlen (\<lambda>i. d_mem s (unat (p1 + of_nat i))) 256 + 1
           in dtb_loop dev strings_ptr (p1 + ucast (fdt_align (of_nat len))) new_node g s
      else if token = FDT_END_NODE
      then do { (g', s') \<leftarrow> end_node nd (g, s); dtb_loop dev strings_ptr p1 nd g' s' }
      else if token = FDT_PROP
      then do { (p', nd', s') \<leftarrow> dtb_prop dev strings_ptr p1 nd s; dtb_loop dev strings_ptr p' nd' g s' }
      else if token = FDT_NOP then dtb_loop dev strings_ptr p1 nd g s
      else if token = FDT_END then Some (g, s)
      else Some (g, say (dump ''Unknown_Token'' (ucast token)) s))"

definition parse_dtb_tokens :: "device \<Rightarrow> u64 \<Rightarrow> dtb_t \<Rightarrow> drv \<Rightarrow> (dtb_t \<times> drv) option" where
  "parse_dtb_tokens dev dtb_addr g s =
     (let hdr = (\<lambda>i. fdt32_to_cpu (read32 (d_mem s) (unat (dtb_addr + of_nat (4 * i))))) in
      if hdr 0 \<noteq> FDT_MAGIC then Some (g, s)
      else dtb_loop dev (dtb_addr + ucast (hdr 3)) (dtb_addr + ucast (hdr 2)) new_node g s)"

definition parse_dtb :: "device \<Rightarrow> u64 \<Rightarrow> dtb_t \<Rightarrow> drv \<Rightarrow> (dtb_t \<times> drv) option" where
  "parse_dtb dev dtb_addr0 g s0 =
     (let (dtb_addr, s) = (if dtb_addr0 = 0 then (0x40000000, say (dump ''DTB_FallbackAddr'' 0x40000000) s0)
                           else (dtb_addr0, s0));
          magic = fdt32_to_cpu (read32 (d_mem s) (unat dtb_addr))
      in if magic \<noteq> FDT_MAGIC then Some (g, say (dump ''DTB_Error'' (ucast magic)) s)
         else parse_dtb_tokens dev dtb_addr g s)"

section \<open>What the parser may report\<close>

definition in_window :: "u64 \<Rightarrow> bool" where
  "in_window a \<longleftrightarrow> a = 0 \<or> (0x0a000000 \<le> a \<and> a < 0x0a200000)"

definition dtb_ok :: "dtb_t \<Rightarrow> bool" where
  "dtb_ok g \<longleftrightarrow> unat (g_virtio_input_count g) \<le> VIRTIO_INPUT_MAX_DEVICES
     \<and> length (g_virtio_input_bases g) = VIRTIO_INPUT_MAX_DEVICES
     \<and> length (g_virtio_input_irqs g) = VIRTIO_INPUT_MAX_DEVICES
     \<and> in_window (g_virtio_net_base g) \<and> in_window (g_virtio_gpu_base g) \<and> in_window (g_virtio_blk_base g)
     \<and> in_window (g_virtio_snd_base g)
     \<and> (\<forall>i<unat (g_virtio_input_count g). g_virtio_input_bases g ! i \<noteq> 0)
     \<and> (\<forall>i<VIRTIO_INPUT_MAX_DEVICES. in_window (g_virtio_input_bases g ! i))"

lemma end_node_ok:
  assumes "dtb_ok g" "in_window (node_mmio_addr nd)"
  shows "\<exists>g' s'. end_node nd (g, s) = Some (g', s') \<and> dtb_ok g' \<and> d_mem s' = d_mem s"
proof (cases "is_input nd \<and> node_mmio_addr nd \<noteq> 0 \<and> unat (g_virtio_input_count g) < VIRTIO_INPUT_MAX_DEVICES")
  case True
  have "unat (g_virtio_input_count g + 1) = unat (g_virtio_input_count g) + 1"
    using True by (intro unat_Suc_no_wrap) (simp add: VIRTIO_INPUT_MAX_DEVICES_def)
  then show ?thesis using True assms
    by (auto simp: end_node_def dtb_ok_def nth_list_update less_Suc_eq Let_def)
next
  case False
  then show ?thesis using assms by (auto simp: end_node_def dtb_ok_def)
qed

lemma prop_reg_ok:
  "in_window (node_mmio_addr nd) \<Longrightarrow> in_window (node_mmio_addr (fst (prop_reg dev p (nd, s))))
     \<and> d_mem (snd (prop_reg dev p (nd, s))) = d_mem s"
  by (auto simp: prop_reg_def Let_def in_window_def rd32_def)

lemma dtb_prop_ok:
  assumes "in_window (node_mmio_addr nd)" "dtb_prop dev st p nd s = Some (p', nd', s')"
  shows "in_window (node_mmio_addr nd') \<and> d_mem s' = d_mem s"
proof -
  obtain nd1 s1 where r: "prop_reg dev (p + 8) (nd, s) = (nd1, s1)" by fastforce
  then have "in_window (node_mmio_addr nd1) \<and> d_mem s1 = d_mem s" using prop_reg_ok [OF assms(1), of dev "p + 8" s] by simp
  then show ?thesis using assms r
    by (auto simp: dtb_prop_def Let_def prop_interrupts_def split: bind_splits if_splits prod.splits)
qed

lemma in_window_new [simp]: "in_window (node_mmio_addr new_node)"
  by (simp add: new_node_def in_window_def)

lemma dtb_loop_ok:
  assumes "dtb_loop dev st p nd g s = Some r"
  shows "dtb_ok g \<longrightarrow> in_window (node_mmio_addr nd) \<longrightarrow> dtb_ok (fst r)"
  using assms
proof (rule dtb_loop.raw_induct [rotated])
  fix f dev st p nd g s r
  assume IH: "\<And>dev st p nd g s r. f dev st p nd g s = Some r \<Longrightarrow>
      dtb_ok g \<longrightarrow> in_window (node_mmio_addr nd) \<longrightarrow> dtb_ok (fst r)"
    and body: "(let token = fdt32_to_cpu (read32 (d_mem s) (unat p)); p1 = p + 4 in
      if token = FDT_BEGIN_NODE
      then let len = fdt_strnlen (\<lambda>i. d_mem s (unat (p1 + of_nat i))) 256 + 1
           in f dev st (p1 + ucast (fdt_align (of_nat len))) new_node g s
      else if token = FDT_END_NODE
      then Option.bind (end_node nd (g, s)) (\<lambda>(g', s'). f dev st p1 nd g' s')
      else if token = FDT_PROP
      then Option.bind (dtb_prop dev st p1 nd s) (\<lambda>(p', nd', s'). f dev st p' nd' g s')
      else if token = FDT_NOP then f dev st p1 nd g s
      else if token = FDT_END then Some (g, s)
      else Some (g, say (dump ''Unknown_Token'' (ucast token)) s)) = Some r"
  show "dtb_ok g \<longrightarrow> in_window (node_mmio_addr nd) \<longrightarrow> dtb_ok (fst r)"
  proof (intro impI)
    assume ok: "dtb_ok g" and w: "in_window (node_mmio_addr nd)"
    obtain g1 s1 where e: "end_node nd (g, s) = Some (g1, s1)" "dtb_ok g1" using end_node_ok [OF ok w] by blast
    show "dtb_ok (fst r)" using body ok w e
      by (auto simp: Let_def dest!: IH dtb_prop_ok [OF w] split: if_splits bind_splits)
  qed
qed


text \<open>The smallest trees: a header, whose structure block is at 40, and the tokens of two ends of nodes
  and of the end.\<close>

definition sample_dtb :: "nat \<Rightarrow> mem" where
  "sample_dtb b = (\<lambda>_. 0)(b := 0xd0, b + 1 := 0x0d, b + 2 := 0xfe, b + 3 := 0xed, b + 11 := 40,
     b + 43 := 2, b + 47 := 2, b + 51 := 9)"

lemma sample_dtb_words:
  "read32 (sample_dtb b) b = 0xedfe0dd0" "read32 (sample_dtb b) (b + 8) = 0x28000000"
  "read32 (sample_dtb b) (b + 12) = 0" "read32 (sample_dtb b) (b + 40) = 0x02000000"
  "read32 (sample_dtb b) (b + 44) = 0x02000000" "read32 (sample_dtb b) (b + 48) = 0x09000000"
  by (simp_all add: read32_bytes sample_dtb_def)

lemma tokens:
  "fdt32_to_cpu 0xedfe0dd0 = FDT_MAGIC" "fdt32_to_cpu 0x28000000 = 40" "fdt32_to_cpu 0 = 0"
  "fdt32_to_cpu 0x02000000 = FDT_END_NODE" "fdt32_to_cpu 0x09000000 = FDT_END"
  by (simp_all add: fdt32_to_cpu_def FDT_MAGIC_def FDT_END_NODE_def FDT_END_def)

lemma token_values:
  "FDT_END_NODE \<noteq> FDT_BEGIN_NODE" "FDT_END \<noteq> FDT_BEGIN_NODE" "FDT_END \<noteq> FDT_END_NODE"
  "FDT_END \<noteq> FDT_PROP" "FDT_END \<noteq> FDT_NOP"
  by (simp_all add: FDT_END_NODE_def FDT_END_def FDT_BEGIN_NODE_def FDT_PROP_def FDT_NOP_def)

text \<open>Two ends of nodes and the end.\<close>

lemma dtb_loop_ends:
  assumes "fdt32_to_cpu (read32 (d_mem s) (unat p)) = FDT_END_NODE"
    and "fdt32_to_cpu (read32 (d_mem s) (unat (p + 4))) = FDT_END_NODE"
    and "fdt32_to_cpu (read32 (d_mem s) (unat (p + 8))) = FDT_END"
    and "end_node nd (g, s) = Some (g1, s1)" "end_node nd (g1, s1) = Some (g2, s2)"
    and "d_mem s1 = d_mem s" "d_mem s2 = d_mem s"
  shows "dtb_loop dev st p nd g s = Some (g2, s2)"
proof -
  have 3: "dtb_loop dev st (p + 8) nd g2 s2 = Some (g2, s2)"
    using assms(3,7) token_values by (subst dtb_loop.simps) (simp add: Let_def)
  have 2: "dtb_loop dev st (p + 4) nd g1 s1 = dtb_loop dev st (p + 8) nd g2 s2"
    using assms(2,5,6) token_values by (subst dtb_loop.simps) (simp add: Let_def add.commute)
  have "dtb_loop dev st p nd g s = dtb_loop dev st (p + 4) nd g1 s1"
    using assms(1,4) token_values by (subst dtb_loop.simps) (simp add: Let_def)
  with 2 3 show ?thesis by simp
qed


text \<open>A device is recorded again at the end of the enclosing node. The data collected about a node are
  reset when a node begins but not when it ends, so if the node of an input device is the last one in its
  parent, the end of the parent records the same device a second time: the table then holds it twice
  while there is room.\<close>

theorem dtb_device_twice:
  assumes "fdt32_to_cpu (read32 (d_mem s) (unat p)) = FDT_END_NODE"
    and "fdt32_to_cpu (read32 (d_mem s) (unat (p + 4))) = FDT_END_NODE"
    and "fdt32_to_cpu (read32 (d_mem s) (unat (p + 8))) = FDT_END"
    and "nd = new_node\<lparr>node_mmio_addr := a, is_input := True\<rparr>" and "a \<noteq> 0"
    and "dtb_ok g" and "g_virtio_input_count g \<le> 2"
  shows "\<exists>g'. dtb_loop dev st p nd g s = Some (g', s) \<and> g_virtio_input_count g' = g_virtio_input_count g + 2
    \<and> (let n = unat (g_virtio_input_count g) in
         g_virtio_input_bases g' ! n = a \<and> g_virtio_input_bases g' ! (n + 1) = a)"
proof -
  let ?n = "unat (g_virtio_input_count g)"
  define g1 where "g1 = g\<lparr>g_virtio_input_count := g_virtio_input_count g + 1,
    g_virtio_input_bases := (g_virtio_input_bases g)[?n := a], g_virtio_input_irqs := (g_virtio_input_irqs g)[?n := 0]\<rparr>"
  define g2 where "g2 = g1\<lparr>g_virtio_input_count := g_virtio_input_count g + 2,
    g_virtio_input_bases := (g_virtio_input_bases g1)[?n + 1 := a], g_virtio_input_irqs := (g_virtio_input_irqs g1)[?n + 1 := 0]\<rparr>"
  have n: "?n \<le> 2" using assms(7) by (simp add: word_le_nat_alt)
  then have n1: "unat (g_virtio_input_count g + 1) = ?n + 1" by (intro unat_Suc_no_wrap) simp
  have len: "length (g_virtio_input_bases g) = 4" "length (g_virtio_input_irqs g) = 4"
    using assms(6) by (simp_all add: dtb_ok_def VIRTIO_INPUT_MAX_DEVICES_def)
  have 1: "end_node nd (g, s) = Some (g1, s)"
    using assms(4,5) n len by (simp add: end_node_def new_node_def VIRTIO_INPUT_MAX_DEVICES_def g1_def Let_def)
  have 2: "end_node nd (g1, s) = Some (g2, s)"
    using assms(4,5) n len n1 by (simp add: end_node_def new_node_def VIRTIO_INPUT_MAX_DEVICES_def g1_def g2_def Let_def)
  have "dtb_loop dev st p nd g s = Some (g2, s)" by (rule dtb_loop_ends [OF assms(1-3) 1 2]) simp_all
  then show ?thesis using n len by (simp add: g2_def g1_def Let_def nth_list_update)
qed

lemma dtb_device_twice_witness:
  "\<exists>g'. dtb_loop (\<lambda>_ _. 18) 0x40000000 0x40000028 (new_node\<lparr>node_mmio_addr := 0xa003e00, is_input := True\<rparr>) dtb_init
       \<lparr>d_tr = [], d_mem = sample_dtb 0x40000000, d_out = []\<rparr>
     = Some (g', \<lparr>d_tr = [], d_mem = sample_dtb 0x40000000, d_out = []\<rparr>)
     \<and> g_virtio_input_bases g' ! 0 = 0xa003e00 \<and> g_virtio_input_bases g' ! 1 = 0xa003e00"
proof -
  note w = sample_dtb_words [of "0x40000000", simplified]
  let ?s = "\<lparr>d_tr = [], d_mem = sample_dtb 0x40000000, d_out = []\<rparr>"
  have ok: "dtb_ok dtb_init" by (simp add: dtb_ok_def dtb_init_def in_window_def VIRTIO_INPUT_MAX_DEVICES_def nth_Cons split: nat.splits)
  have "\<exists>g'. dtb_loop (\<lambda>_ _. 18) 0x40000000 0x40000028 (new_node\<lparr>node_mmio_addr := 0xa003e00, is_input := True\<rparr>) dtb_init ?s
     = Some (g', ?s) \<and> g_virtio_input_count g' = g_virtio_input_count dtb_init + 2
    \<and> (let n = unat (g_virtio_input_count dtb_init) in
         g_virtio_input_bases g' ! n = 0xa003e00 \<and> g_virtio_input_bases g' ! (n + 1) = 0xa003e00)"
    by (rule dtb_device_twice) (use ok in \<open>simp_all add: w tokens\<close>, simp_all add: dtb_init_def)
  then show ?thesis by (auto simp: Let_def dtb_init_def)
qed

end
