(* ===== verification/Virtio.thy ===== *)
theory Virtio
  imports Mmio
begin

text \<open>
  \<^verbatim>\<open>src/tools/virtio.c\<close>: initialising a virtio device and setting its queues up, for both versions
  of the register interface. The structures of a queue are addresses inside its storage.
\<close>

definition VIRTIO_QUEUE_SIZE :: u32 where "VIRTIO_QUEUE_SIZE = 256"
definition VIRTIO_DESC_BYTES :: nat where "VIRTIO_DESC_BYTES = 16 * 256"
definition VIRTIO_AVAIL_BYTES :: nat where "VIRTIO_AVAIL_BYTES = 4 + 2 * 256"
definition VIRTIO_USED_BYTES :: nat where "VIRTIO_USED_BYTES = 4 + 8 * 256"

definition ALIGN_4K :: "nat \<Rightarrow> nat" where
  "ALIGN_4K v = (v + 4095) div 4096 * 4096"

definition VIRTIO_USED_OFFSET :: nat where
  "VIRTIO_USED_OFFSET = ALIGN_4K (VIRTIO_DESC_BYTES + VIRTIO_AVAIL_BYTES)"
definition VIRTIO_QUEUE_BYTES :: nat where
  "VIRTIO_QUEUE_BYTES = VIRTIO_USED_OFFSET + VIRTIO_USED_BYTES"
definition VIRTIO_QUEUE_STORAGE :: nat where
  "VIRTIO_QUEUE_STORAGE = ALIGN_4K VIRTIO_QUEUE_BYTES"

definition VIRTIO_STATUS_ACKNOWLEDGE :: u32 where "VIRTIO_STATUS_ACKNOWLEDGE = 1"
definition VIRTIO_STATUS_DRIVER :: u32 where "VIRTIO_STATUS_DRIVER = 2"
definition VIRTIO_STATUS_DRIVER_OK :: u32 where "VIRTIO_STATUS_DRIVER_OK = 4"
definition VIRTIO_STATUS_FEATURES_OK :: u32 where "VIRTIO_STATUS_FEATURES_OK = 8"
definition VIRTIO_STATUS_FAILED :: u32 where "VIRTIO_STATUS_FAILED = 0x80"
definition VIRTQ_DESC_F_NEXT :: u16 where "VIRTQ_DESC_F_NEXT = 1"
definition VIRTQ_DESC_F_WRITE :: u16 where "VIRTQ_DESC_F_WRITE = 2"

definition VIRTIO_MMIO_VERSION :: u64 where "VIRTIO_MMIO_VERSION = 0x004"
definition VIRTIO_MMIO_DEVICE_FEATURES :: u64 where "VIRTIO_MMIO_DEVICE_FEATURES = 0x010"
definition VIRTIO_MMIO_DEVICE_FEATURES_SEL :: u64 where "VIRTIO_MMIO_DEVICE_FEATURES_SEL = 0x014"
definition VIRTIO_MMIO_DRIVER_FEATURES :: u64 where "VIRTIO_MMIO_DRIVER_FEATURES = 0x020"
definition VIRTIO_MMIO_DRIVER_FEATURES_SEL :: u64 where "VIRTIO_MMIO_DRIVER_FEATURES_SEL = 0x024"
definition VIRTIO_MMIO_GUEST_PAGE_SIZE :: u64 where "VIRTIO_MMIO_GUEST_PAGE_SIZE = 0x028"
definition VIRTIO_MMIO_QUEUE_SEL :: u64 where "VIRTIO_MMIO_QUEUE_SEL = 0x030"
definition VIRTIO_MMIO_QUEUE_NUM_MAX :: u64 where "VIRTIO_MMIO_QUEUE_NUM_MAX = 0x034"
definition VIRTIO_MMIO_QUEUE_NUM :: u64 where "VIRTIO_MMIO_QUEUE_NUM = 0x038"
definition VIRTIO_MMIO_QUEUE_ALIGN :: u64 where "VIRTIO_MMIO_QUEUE_ALIGN = 0x03C"
definition VIRTIO_MMIO_QUEUE_PFN :: u64 where "VIRTIO_MMIO_QUEUE_PFN = 0x040"
definition VIRTIO_MMIO_QUEUE_READY :: u64 where "VIRTIO_MMIO_QUEUE_READY = 0x044"
definition VIRTIO_MMIO_QUEUE_NOTIFY :: u64 where "VIRTIO_MMIO_QUEUE_NOTIFY = 0x050"
definition VIRTIO_MMIO_INTERRUPT_STATUS :: u64 where "VIRTIO_MMIO_INTERRUPT_STATUS = 0x060"
definition VIRTIO_MMIO_INTERRUPT_ACK :: u64 where "VIRTIO_MMIO_INTERRUPT_ACK = 0x064"
definition VIRTIO_MMIO_STATUS :: u64 where "VIRTIO_MMIO_STATUS = 0x070"
definition VIRTIO_MMIO_QUEUE_DESC_LOW :: u64 where "VIRTIO_MMIO_QUEUE_DESC_LOW = 0x080"
definition VIRTIO_MMIO_QUEUE_DESC_HIGH :: u64 where "VIRTIO_MMIO_QUEUE_DESC_HIGH = 0x084"
definition VIRTIO_MMIO_QUEUE_DRIVER_LOW :: u64 where "VIRTIO_MMIO_QUEUE_DRIVER_LOW = 0x090"
definition VIRTIO_MMIO_QUEUE_DRIVER_HIGH :: u64 where "VIRTIO_MMIO_QUEUE_DRIVER_HIGH = 0x094"
definition VIRTIO_MMIO_QUEUE_DEVICE_LOW :: u64 where "VIRTIO_MMIO_QUEUE_DEVICE_LOW = 0x0A0"
definition VIRTIO_MMIO_QUEUE_DEVICE_HIGH :: u64 where "VIRTIO_MMIO_QUEUE_DEVICE_HIGH = 0x0A4"
definition VIRTIO_MMIO_CONFIG :: u64 where "VIRTIO_MMIO_CONFIG = 0x100"

record virtio_queue_state =
  vq_desc :: u64
  vq_avail :: u64
  vq_used :: u64
  vq_storage :: u64
  vq_size :: u16

definition no_queue :: virtio_queue_state where
  "no_queue = \<lparr>vq_desc = 0, vq_avail = 0, vq_used = 0, vq_storage = 0, vq_size = 0\<rparr>"

section \<open>Addresses inside a queue\<close>

definition desc_at :: "virtio_queue_state \<Rightarrow> nat \<Rightarrow> u64" where
  "desc_at vq i = vq_desc vq + of_nat (16 * i)"

definition set_desc :: "virtio_queue_state \<Rightarrow> nat \<Rightarrow> u64 \<Rightarrow> u32 \<Rightarrow> u16 \<Rightarrow> u16 \<Rightarrow> drv \<Rightarrow> drv" where
  "set_desc vq i addr len flags nxt s =
     (let d = desc_at vq i in put16 (d + 14) nxt (put16 (d + 12) flags (put32 (d + 8) len (put64 d addr s))))"

definition avail_idx :: "virtio_queue_state \<Rightarrow> drv \<Rightarrow> u16" where
  "avail_idx vq s = get16 (vq_avail vq + 2) s"

definition set_avail_idx :: "virtio_queue_state \<Rightarrow> u16 \<Rightarrow> drv \<Rightarrow> drv" where
  "set_avail_idx vq v = put16 (vq_avail vq + 2) v"

definition set_avail_ring :: "virtio_queue_state \<Rightarrow> nat \<Rightarrow> u16 \<Rightarrow> drv \<Rightarrow> drv" where
  "set_avail_ring vq i v = put16 (vq_avail vq + 4 + of_nat (2 * i)) v"

definition set_avail_flags :: "virtio_queue_state \<Rightarrow> u16 \<Rightarrow> drv \<Rightarrow> drv" where
  "set_avail_flags vq v = put16 (vq_avail vq) v"

definition used_idx :: "device \<Rightarrow> virtio_queue_state \<Rightarrow> drv \<Rightarrow> u16 \<times> drv" where
  "used_idx dev vq = rd16 dev (vq_used vq + 2)"

text \<open>An element of the used ring: descriptor and length.\<close>

definition used_id :: "device \<Rightarrow> virtio_queue_state \<Rightarrow> nat \<Rightarrow> drv \<Rightarrow> u32 \<times> drv" where
  "used_id dev vq i = rd32 dev (vq_used vq + 4 + of_nat (8 * i))"

definition used_len :: "device \<Rightarrow> virtio_queue_state \<Rightarrow> nat \<Rightarrow> drv \<Rightarrow> u32 \<times> drv" where
  "used_len dev vq i = rd32 dev (vq_used vq + 8 + of_nat (8 * i))"

text \<open>Waiting for the device to use a descriptor, for at most \<open>n\<close> reads.\<close>

fun poll_used :: "device \<Rightarrow> virtio_queue_state \<Rightarrow> u16 \<Rightarrow> nat \<Rightarrow> drv \<Rightarrow> bool \<times> drv" where
  "poll_used dev q seen 0 s = (False, s)"
| "poll_used dev q seen (Suc n) s =
     (let (i, s1) = used_idx dev q s in if i \<noteq> seen then (True, s1) else poll_used dev q seen n s1)"

definition clear_storage :: "u64 \<Rightarrow> drv \<Rightarrow> drv" where
  "clear_storage a s = s\<lparr>d_mem := memset_from (d_mem s) (unat a) 0 VIRTIO_QUEUE_STORAGE\<rparr>"

section \<open>Operations\<close>

definition vq_setup :: "device \<Rightarrow> u64 \<Rightarrow> u32 \<Rightarrow> u64 \<Rightarrow> drv \<Rightarrow> virtio_queue_state \<times> drv" where
  "vq_setup dev base q_index storage s =
     (let s1 = wr32 (base + 0x030) q_index s;
          (qmax, s2) = rd32 dev (base + 0x034) s1;
          sz = (if qmax < VIRTIO_QUEUE_SIZE then qmax else VIRTIO_QUEUE_SIZE);
          s3 = wr32 (base + 0x038) sz (wr32 (base + 0x03C) 4096 (wr32 (base + 0x028) 4096 s2));
          vq = \<lparr>vq_desc = storage, vq_avail = storage + of_nat VIRTIO_DESC_BYTES,
                vq_used = storage + of_nat VIRTIO_USED_OFFSET, vq_storage = storage, vq_size = ucast sz\<rparr>;
          s4 = wr32 (base + 0x040) (ucast (drop_bit 12 storage)) (clear_storage storage s3)
      in (vq, say (line_of ''Queue init successfully'') (or32 dev (base + 0x070) VIRTIO_STATUS_DRIVER_OK s4)))"

definition vq_init :: "device \<Rightarrow> u64 \<Rightarrow> drv \<Rightarrow> drv" where
  "vq_init dev base s =
     (let s1 = wr32 (base + 0x070) VIRTIO_STATUS_ACKNOWLEDGE (wr32 (base + 0x070) 0 s);
          s2 = or32 dev (base + 0x070) VIRTIO_STATUS_DRIVER s1
      in wr32 (base + 0x028) 4096 (wr32 (base + 0x020) 0 s2))"

definition virtio_mmio_version :: "device \<Rightarrow> u64 \<Rightarrow> drv \<Rightarrow> u32 \<times> drv" where
  "virtio_mmio_version dev base = rd32 dev (base + VIRTIO_MMIO_VERSION)"

definition virtio_mmio_notify_queue :: "u64 \<Rightarrow> u16 \<Rightarrow> drv \<Rightarrow> drv" where
  "virtio_mmio_notify_queue base q_index = wr32 (base + VIRTIO_MMIO_QUEUE_NOTIFY) (ucast q_index)"

text \<open>The largest queue size that the device accepts, by halving from 256.\<close>

function halve_to :: "u32 \<Rightarrow> u32 \<Rightarrow> u32" where
  "halve_to qmax sz = (if sz > qmax then halve_to qmax (drop_bit 1 sz) else sz)"
  by pat_completeness auto

termination
proof (relation "measure (\<lambda>(qmax, sz). unat sz)")
  fix qmax sz :: u32
  assume "qmax < sz"
  then have "0 < unat sz" by (simp add: word_less_nat_alt)
  moreover have "unat (drop_bit 1 sz) = unat sz div 2" by (simp only: unat_drop_bit_eq) (simp add: drop_bit_eq_div)
  ultimately show "((qmax, drop_bit 1 sz), qmax, sz) \<in> measure (\<lambda>(qmax, sz). unat sz)" by simp
qed simp

declare halve_to.simps [simp del]

definition v1_used_offset :: "u32 \<Rightarrow> nat" where
  "v1_used_offset sz = ALIGN_4K (unat sz * 16 + 2 * 2 + unat sz * 2)"

definition vq_setup_v1 :: "device \<Rightarrow> u64 \<Rightarrow> u16 \<Rightarrow> u64 \<Rightarrow> virtio_queue_state \<Rightarrow> drv
    \<Rightarrow> bool \<times> virtio_queue_state \<times> drv" where
  "vq_setup_v1 dev base q_index storage vq s =
     (let (qmax, s1) = rd32 dev (base + VIRTIO_MMIO_QUEUE_NUM_MAX)
                         (wr32 (base + VIRTIO_MMIO_QUEUE_SEL) (ucast q_index) s)
      in if qmax = 0 then (False, vq, say (dump ''VirtIO queue unavailable'' (ucast q_index)) s1)
         else let sz = halve_to qmax VIRTIO_QUEUE_SIZE
         in if sz = 0 then (False, vq, say (dump ''VirtIO queue size invalid'' (ucast qmax)) s1)
            else let vq' = \<lparr>vq_desc = storage, vq_avail = storage + of_nat (unat sz * 16),
                            vq_used = storage + of_nat (v1_used_offset sz), vq_storage = storage,
                            vq_size = ucast sz\<rparr>;
                     s2 = clear_storage storage s1;
                     s3 = wr32 (base + VIRTIO_MMIO_QUEUE_NUM) sz
                            (wr32 (base + VIRTIO_MMIO_QUEUE_ALIGN) 4096
                              (wr32 (base + VIRTIO_MMIO_GUEST_PAGE_SIZE) 4096 s2))
                 in (True, vq', wr32 (base + VIRTIO_MMIO_QUEUE_PFN) (ucast (drop_bit 12 storage)) s3))"

definition vq_start_v1 :: "device \<Rightarrow> u64 \<Rightarrow> drv \<Rightarrow> drv" where
  "vq_start_v1 dev base = or32 dev (base + VIRTIO_MMIO_STATUS) VIRTIO_STATUS_DRIVER_OK"

definition vq_init_v2 :: "device \<Rightarrow> u64 \<Rightarrow> drv \<Rightarrow> bool \<times> drv" where
  "vq_init_v2 dev base s =
     (let (version, s1) = rd32 dev (base + VIRTIO_MMIO_VERSION) s
      in if version \<noteq> 2
         then (False, say (dump ''VirtIO MMIO version'' (ucast version) @ line_of ''VirtIO MMIO version 2 required'') s1)
         else let s2 = or32 dev (base + VIRTIO_MMIO_STATUS) VIRTIO_STATUS_DRIVER
                         (wr32 (base + VIRTIO_MMIO_STATUS) VIRTIO_STATUS_ACKNOWLEDGE
                           (wr32 (base + VIRTIO_MMIO_STATUS) 0 s1));
                  (features_hi, s3) = rd32 dev (base + VIRTIO_MMIO_DEVICE_FEATURES)
                                        (wr32 (base + VIRTIO_MMIO_DEVICE_FEATURES_SEL) 1 s2)
         in if features_hi AND 1 = 0
            then (False, or32 dev (base + VIRTIO_MMIO_STATUS) VIRTIO_STATUS_FAILED
                    (say (line_of ''VirtIO VERSION_1 feature not found'') s3))
            else let s4 = wr32 (base + VIRTIO_MMIO_DRIVER_FEATURES) 1
                            (wr32 (base + VIRTIO_MMIO_DRIVER_FEATURES_SEL) 1
                              (wr32 (base + VIRTIO_MMIO_DRIVER_FEATURES) 0
                                (wr32 (base + VIRTIO_MMIO_DRIVER_FEATURES_SEL) 0 s3)));
                     (st, s5) = rd32 dev (base + VIRTIO_MMIO_STATUS)
                                  (or32 dev (base + VIRTIO_MMIO_STATUS) VIRTIO_STATUS_FEATURES_OK s4)
            in if st AND VIRTIO_STATUS_FEATURES_OK = 0
               then (False, or32 dev (base + VIRTIO_MMIO_STATUS) VIRTIO_STATUS_FAILED
                       (say (line_of ''VirtIO features rejected'') s5))
               else (True, s5))"

text \<open>An address is given to the device in two halves.\<close>

definition wr_addr :: "u64 \<Rightarrow> u64 \<Rightarrow> u64 \<Rightarrow> drv \<Rightarrow> drv" where
  "wr_addr lo hi a s = wr32 hi (ucast (drop_bit 32 a)) (wr32 lo (ucast a) s)"

definition vq_setup_v2 :: "device \<Rightarrow> u64 \<Rightarrow> u16 \<Rightarrow> u64 \<Rightarrow> virtio_queue_state \<Rightarrow> drv
    \<Rightarrow> bool \<times> virtio_queue_state \<times> drv" where
  "vq_setup_v2 dev base q_index storage vq s =
     (let (qmax, s1) = rd32 dev (base + VIRTIO_MMIO_QUEUE_NUM_MAX)
                         (wr32 (base + VIRTIO_MMIO_QUEUE_SEL) (ucast q_index) s);
          failed = or32 dev (base + VIRTIO_MMIO_STATUS) VIRTIO_STATUS_FAILED
      in if qmax = 0 then (False, vq, failed (say (dump ''VirtIO queue unavailable'' (ucast q_index)) s1))
         else let sz = halve_to qmax VIRTIO_QUEUE_SIZE
         in if sz = 0 then (False, vq, failed (say (dump ''VirtIO queue size invalid'' (ucast qmax)) s1))
            else let vq' = \<lparr>vq_desc = storage, vq_avail = storage + of_nat VIRTIO_DESC_BYTES,
                            vq_used = storage + of_nat VIRTIO_USED_OFFSET, vq_storage = storage,
                            vq_size = ucast sz\<rparr>;
                     s2 = wr32 (base + VIRTIO_MMIO_QUEUE_NUM) sz (clear_storage storage s1);
                     s3 = wr_addr (base + VIRTIO_MMIO_QUEUE_DESC_LOW) (base + VIRTIO_MMIO_QUEUE_DESC_HIGH) (vq_desc vq') s2;
                     s4 = wr_addr (base + VIRTIO_MMIO_QUEUE_DRIVER_LOW) (base + VIRTIO_MMIO_QUEUE_DRIVER_HIGH) (vq_avail vq') s3;
                     s5 = wr_addr (base + VIRTIO_MMIO_QUEUE_DEVICE_LOW) (base + VIRTIO_MMIO_QUEUE_DEVICE_HIGH) (vq_used vq') s4
                 in (True, vq', wr32 (base + VIRTIO_MMIO_QUEUE_READY) 1 s5))"

definition virtio_mmio_read_config32 :: "device \<Rightarrow> u64 \<Rightarrow> u32 \<Rightarrow> drv \<Rightarrow> u32 \<times> drv" where
  "virtio_mmio_read_config32 dev base offset = rd32 dev (base + ucast (0x100 + offset))"

definition vq_start_v2 :: "device \<Rightarrow> u64 \<Rightarrow> drv \<Rightarrow> drv" where
  "vq_start_v2 dev base = or32 dev (base + VIRTIO_MMIO_STATUS) VIRTIO_STATUS_DRIVER_OK"

section \<open>The layout of a queue\<close>

lemma unat_pow32:
  assumes "j < 32" shows "unat ((2 :: u32) ^ j) = 2 ^ j"
proof -
  have "(2 :: nat) ^ j < 2 ^ 32" using assms by (intro power_strict_increasing) simp_all
  then show ?thesis using unat_of_nat_no_wrap [of "2 ^ j", where 'a = 32] by simp
qed

lemma drop_bit_pow32:
  assumes "Suc j < 32" shows "drop_bit 1 ((2 :: u32) ^ Suc j) = 2 ^ j"
proof -
  have "unat (drop_bit 1 ((2 :: u32) ^ Suc j)) = drop_bit 1 (2 ^ Suc j)"
    by (simp only: unat_drop_bit_eq unat_pow32 [OF assms])
  also have "\<dots> = unat ((2 :: u32) ^ j)" using assms by (simp only: unat_pow32 [of j]) (simp add: drop_bit_eq_div)
  finally show ?thesis by (simp only: word_unat_eq_iff)
qed

lemma halve_to_256:
  assumes "qmax \<noteq> 0"
  shows "\<exists>k\<le>8. halve_to qmax 256 = 2 ^ k \<and> (2 :: u32) ^ k \<le> qmax \<and> (k < 8 \<longrightarrow> qmax < 2 ^ (k + 1))"
proof -
  have step: "j \<le> 8 \<Longrightarrow> (j < 8 \<longrightarrow> qmax < 2 ^ (j + 1)) \<Longrightarrow>
    \<exists>k\<le>8. halve_to qmax (2 ^ j) = 2 ^ k \<and> (2 :: u32) ^ k \<le> qmax \<and> (k < 8 \<longrightarrow> qmax < 2 ^ (k + 1))" for j
  proof (induction j)
    case 0
    have "1 \<le> qmax" using assms by (metis not_less word_less_1)
    then show ?case by (intro exI [of _ 0]) (use 0 in \<open>auto simp: halve_to.simps [of qmax 1] not_less\<close>)
  next
    case (Suc j)
    have d: "drop_bit 1 ((2 :: u32) ^ Suc j) = 2 ^ j"
      by (rule drop_bit_pow32) (use Suc.prems(1) in simp)
    show ?case
    proof (cases "(2 :: u32) ^ Suc j > qmax")
      case True
      then have "halve_to qmax (2 ^ Suc j) = halve_to qmax (2 ^ j)"
        by (subst halve_to.simps) (simp only: d if_True)
      then show ?thesis using Suc.IH Suc.prems(1) True by simp
    next
      case False
      then have "halve_to qmax (2 ^ Suc j) = 2 ^ Suc j" by (subst halve_to.simps) simp
      then show ?thesis using Suc.prems False by (intro exI [of _ "Suc j"]) simp
    qed
  qed
  from step [of 8] show ?thesis by simp
qed

lemma ALIGN_4K_bounds: "v \<le> ALIGN_4K v" "ALIGN_4K v < v + 4096" "ALIGN_4K v mod 4096 = 0"
proof -
  have "(v + 4095) div 4096 * 4096 = v + 4095 - (v + 4095) mod 4096" by (simp add: minus_mod_eq_div_mult)
  moreover have "(v + 4095) mod 4096 \<le> 4095" by simp
  ultimately show "v \<le> ALIGN_4K v" "ALIGN_4K v < v + 4096" unfolding ALIGN_4K_def by linarith+
  show "ALIGN_4K v mod 4096 = 0" by (simp add: ALIGN_4K_def)
qed

lemma queue_storage: "VIRTIO_USED_OFFSET = 8192" "VIRTIO_QUEUE_STORAGE = 12288"
  by (simp_all add: VIRTIO_USED_OFFSET_def VIRTIO_QUEUE_STORAGE_def VIRTIO_QUEUE_BYTES_def ALIGN_4K_def
      VIRTIO_DESC_BYTES_def VIRTIO_AVAIL_BYTES_def VIRTIO_USED_BYTES_def)

text \<open>A version 1 queue fits its storage and is laid out where the device looks for it. Setting a
  queue up fails exactly when the device offers no queue of that number. Otherwise the queue has the
  largest power of two of entries that is at most 256 and at most what the device supports; the
  descriptors start the storage, the available ring follows them directly, the used ring starts at the
  next multiple of 4096 after it, all three lie inside the storage without overlap, the storage is
  zeroed and no other memory is written.\<close>

theorem vq_setup_v1_layout:
  assumes "qmax = dev (d_tr s @ [Wr (base + 0x030) (ucast q_index)]) (base + 0x034)"
  shows "\<exists>ok vq' s'. vq_setup_v1 dev base q_index st vq s = (ok, vq', s') \<and> (ok \<longleftrightarrow> qmax \<noteq> 0)
    \<and> (let n = unat (vq_size vq'); off = v1_used_offset (of_nat n) in
       if ok
       then (\<exists>k\<le>8. n = 2 ^ k) \<and> n \<le> unat qmax \<and> (n < 256 \<longrightarrow> unat qmax < 2 * n)
         \<and> vq_desc vq' = st \<and> vq_avail vq' = st + of_nat (16 * n) \<and> vq_used vq' = st + of_nat off
         \<and> 16 * n + (4 + 2 * n) \<le> off \<and> off mod 4096 = 0 \<and> off + (4 + 8 * n) \<le> VIRTIO_QUEUE_STORAGE
         \<and> (\<forall>a. d_mem s' a = (if unat st \<le> a \<and> a < unat st + VIRTIO_QUEUE_STORAGE then 0 else d_mem s a))
       else vq' = vq \<and> d_mem s' = d_mem s)"
proof (cases "qmax = 0")
  case True
  then show ?thesis using assms
    by (intro exI [of _ False] exI [of _ vq])
      (simp add: vq_setup_v1_def Let_def rd32_def VIRTIO_MMIO_QUEUE_SEL_def VIRTIO_MMIO_QUEUE_NUM_MAX_def)
next
  case False
  obtain k where k: "k \<le> 8" "halve_to qmax 256 = 2 ^ k" "(2 :: u32) ^ k \<le> qmax" "k < 8 \<longrightarrow> qmax < 2 ^ (k + 1)"
    using halve_to_256 [OF False] by blast
  define n :: nat where "n = 2 ^ k"
  have un: "unat ((2 :: u32) ^ k) = n" "unat ((2 :: u32) ^ (k + 1)) = 2 * n"
    using k(1) by (simp_all add: unat_pow32 n_def del: power_Suc) (simp add: unat_pow32)
  have n: "1 \<le> n" "n \<le> 256" using power_increasing [OF k(1), of "2 :: nat"] by (simp_all add: n_def)
  have lt: "n < 256 \<longrightarrow> k < 8" using k(1) by (cases "k = 8") (auto simp: n_def)
  have ne: "(2 :: u32) ^ k \<noteq> 0" using un(1) n(1) by (metis not_one_le_zero unat_0)
  have sz: "unat (ucast ((2 :: u32) ^ k) :: u16) = n"
    using un(1) n by (simp add: unsigned_ucast_eq take_bit_nat_eq_self)
  have pw: "(2 :: u32) ^ k = of_nat n" by (simp add: n_def)
  let ?off = "v1_used_offset (2 ^ k)"
  have off: "16 * n + (4 + 2 * n) \<le> ?off" "?off mod 4096 = 0" "?off < 16 * n + 4 + 2 * n + 4096"
    using ALIGN_4K_bounds [of "n * 16 + 2 * 2 + n * 2"] by (simp_all add: v1_used_offset_def un(1))
  obtain c where c: "?off = 4096 * c" using off(2) by (auto simp: mod_eq_0_iff_dvd)
  have "4096 * c < 4096 * 3" using off(3) n unfolding c by simp
  then have small: "?off \<le> 8192" unfolding c by simp
  define s1 where "s1 = snd (rd32 dev (base + 0x034) (wr32 (base + 0x030) (ucast q_index) s))"
  define vq' where "vq' = \<lparr>vq_desc = st, vq_avail = st + of_nat (n * 16), vq_used = st + of_nat ?off,
    vq_storage = st, vq_size = ucast ((2 :: u32) ^ k)\<rparr>"
  define s' where "s' = wr32 (base + 0x040) (ucast (drop_bit 12 st)) (wr32 (base + 0x038) (2 ^ k)
    (wr32 (base + 0x03C) 4096 (wr32 (base + 0x028) 4096 (clear_storage st s1))))"
  have rd: "rd32 dev (base + 0x034) (wr32 (base + 0x030) (ucast q_index) s) = (qmax, s1)"
    using assms by (simp add: s1_def rd32_def)
  have r: "vq_setup_v1 dev base q_index st vq s = (True, vq', s')"
    unfolding vq_setup_v1_def VIRTIO_MMIO_QUEUE_SEL_def VIRTIO_MMIO_QUEUE_NUM_MAX_def rd Let_def prod.case
      VIRTIO_QUEUE_SIZE_def k(2) VIRTIO_MMIO_QUEUE_PFN_def VIRTIO_MMIO_QUEUE_NUM_def VIRTIO_MMIO_QUEUE_ALIGN_def
      VIRTIO_MMIO_GUEST_PAGE_SIZE_def un(1) vq'_def s'_def
    using False ne by simp
  have m: "d_mem s' a = (if unat st \<le> a \<and> a < unat st + VIRTIO_QUEUE_STORAGE then 0 else d_mem s a)" for a
    by (simp add: s'_def s1_def clear_storage_def memset_from_eq)
  have v: "unat (vq_size vq') = n" "vq_desc vq' = st" "vq_avail vq' = st + of_nat (16 * n)"
    "vq_used vq' = st + of_nat (v1_used_offset (of_nat n))"
    using sz pw by (simp_all add: vq'_def mult.commute)
  have qm: "n \<le> unat qmax" "n < 256 \<longrightarrow> unat qmax < 2 * n"
    using k(3,4) lt un by (auto simp: word_le_nat_alt word_less_nat_alt)
  have ex: "\<exists>j\<le>8. n = 2 ^ j" using k(1) n_def by blast
  let ?o = "v1_used_offset (of_nat n)"
  have o: "16 * n + (4 + 2 * n) \<le> ?o" "?o mod 4096 = 0" "?o + (4 + 8 * n) \<le> VIRTIO_QUEUE_STORAGE"
    using off(1,2) small n unfolding pw queue_storage by simp_all
  have "\<forall>a. d_mem s' a = (if unat st \<le> a \<and> a < unat st + VIRTIO_QUEUE_STORAGE then 0 else d_mem s a)"
    using m by blast
  then show ?thesis using r False ex qm o v(2-4)
    by (intro exI [of _ True] exI [of _ vq'] exI [of _ s']) (simp only: Let_def v(1) if_True simp_thms)
qed

lemma vq_setup_v1_layout_witness:
  "\<exists>vq' s'. vq_setup_v1 (\<lambda>_ _. 100) 0xa000000 0 0x40500000 no_queue \<lparr>d_tr = [], d_mem = (\<lambda>_. 7), d_out = []\<rparr>
     = (True, vq', s') \<and> 50 < unat (vq_size vq') \<and> unat (vq_size vq') \<le> 100 \<and> d_mem s' 0x40500010 = 0"
  using vq_setup_v1_layout [where dev = "\<lambda>_ _. 100" and base = "0xa000000" and q_index = 0 and st = "0x40500000"
      and vq = no_queue and s = "\<lparr>d_tr = [], d_mem = (\<lambda>_. 7), d_out = []\<rparr>" and qmax = 100]
  by (auto simp: Let_def queue_storage)

end
