(* ===== verification/Gic.thy ===== *)
theory Gic
  imports Mmio
begin

text \<open>
  The interrupt controller and the set-up of interrupts: \<^verbatim>\<open>src/handler/gic.c\<close> and
  \<^verbatim>\<open>src/handler/exirq.c\<close>. Writes to system registers are recorded with the accesses to the device
  registers.
\<close>

definition GIC_DIST_BASE :: u64 where "GIC_DIST_BASE = 0x08000000"
definition GIC_CPU_BASE :: u64 where "GIC_CPU_BASE = 0x08010000"
definition GIC_DIST_PRIORITY :: u32 where "GIC_DIST_PRIORITY = 0x400"
definition GIC_CPU_IAR :: u64 where "GIC_CPU_IAR = GIC_CPU_BASE + 0x00C"
definition GIC_CPU_EOI :: u64 where "GIC_CPU_EOI = GIC_CPU_BASE + 0x010"
definition NSPTI :: u32 where "NSPTI = 30"
definition VIRTIO_IRQ :: u32 where "VIRTIO_IRQ = 31"

definition GIC_DIST_REG :: "u32 \<Rightarrow> u64" where
  "GIC_DIST_REG offset = GIC_DIST_BASE + ucast offset"

definition gic_enable_irq :: "u32 \<Rightarrow> drv \<Rightarrow> drv" where
  "gic_enable_irq irq = wr32 (GIC_DIST_REG (0x100 + (irq div 32) * 4)) (push_bit (unat (irq mod 32)) 1)"

definition gic_disable_irq :: "u32 \<Rightarrow> drv \<Rightarrow> drv" where
  "gic_disable_irq irq = wr32 (GIC_DIST_REG (0x180 + (irq div 32) * 4)) (push_bit (unat (irq mod 32)) 1)"

definition gic_set_priority :: "u32 \<Rightarrow> u8 \<Rightarrow> drv \<Rightarrow> drv" where
  "gic_set_priority irq priority = wr8 (GIC_DIST_REG (GIC_DIST_PRIORITY + irq)) priority"

definition gic_set_target_cpu0 :: "u32 \<Rightarrow> drv \<Rightarrow> drv" where
  "gic_set_target_cpu0 irq s = (if irq \<ge> 32 then wr8 (GIC_DIST_REG (0x800 + irq)) 1 s else s)"

text \<open>The priorities of the interrupts from \<open>i\<close> on.\<close>

fun gic_priorities :: "u32 \<Rightarrow> nat \<Rightarrow> drv \<Rightarrow> drv" where
  "gic_priorities i 0 s = s"
| "gic_priorities i (Suc n) s = gic_priorities (i + 1) n (gic_set_priority i 0x80 s)"

definition gic_init :: "device \<Rightarrow> drv \<Rightarrow> drv" where
  "gic_init dev s =
     (let s1 = wr32 (GIC_DIST_REG 0) 1 s;
          s2 = wr8 (GIC_DIST_REG 0x84F) 1 s1;
          s3 = or32 dev (GIC_DIST_REG 0x108) (push_bit 15 1) s2;
          s4 = wr32 (GIC_DIST_REG 0x080) 0 s3;
          s5 = gic_priorities 16 16 s4;
          s6 = wr32 (GIC_DIST_REG 0x100) 0xFFFF0000 s5;
          s7 = gic_enable_irq NSPTI (gic_set_priority NSPTI 0xA0 s6);
          s8 = wr32 (GIC_DIST_REG 0) 1 s7
      in wr32 (GIC_CPU_BASE + 0x004) 0xFF (wr32 (GIC_CPU_BASE + 0x000) 1 s8))"

definition vector_init :: "u64 \<Rightarrow> drv \<Rightarrow> drv" where
  "vector_init vector_table = msr ''vbar_el1'' vector_table"

definition timer_init :: "drv \<Rightarrow> drv" where
  "timer_init s = msr ''cntp_ctl_el0'' 1 (msr ''cntp_tval_el0'' 0x1000000 s)"

definition irq_init :: "device \<Rightarrow> u64 \<Rightarrow> drv \<Rightarrow> drv" where
  "irq_init dev vector_table s =
     (let s1 = gic_init dev (vector_init vector_table s);
          s2 = gic_enable_irq NSPTI (gic_set_priority NSPTI 0xA0 s1);
          s3 = gic_enable_irq VIRTIO_IRQ (gic_set_priority VIRTIO_IRQ 0x80 s2)
      in timer_init s3)"

end
