(* ===== verification/VHid.thy ===== *)
theory VHid
  imports Virtio Gic Dtb Dstruc
begin

text \<open>
  \<^verbatim>\<open>src/tools/vhid.c\<close>: the virtio input devices. Their events arrive on a virtio queue; key presses
  become characters in a ring of 256 that \<^verbatim>\<open>getchar\<close> empties. The storages of the queues and the event
  buffers are static arrays of the driver, whose addresses are part of the state. A character is a
  byte; the special keys are the negative codes of \<^verbatim>\<open>enum io_key_code\<close>.
\<close>

definition VIRTIO_INPUT_CONFIG :: u32 where "VIRTIO_INPUT_CONFIG = 0x100"
definition VIRTIO_INPUT_CFG_DATA_MAX :: nat where "VIRTIO_INPUT_CFG_DATA_MAX = 128"
definition VIRTIO_INPUT_CFG_ID_NAME :: u8 where "VIRTIO_INPUT_CFG_ID_NAME = 1"
definition VIRTIO_INPUT_CFG_EV_BITS :: u8 where "VIRTIO_INPUT_CFG_EV_BITS = 0x11"
definition VIRTIO_INPUT_EV_KEY :: u16 where "VIRTIO_INPUT_EV_KEY = 1"
definition VIRTIO_INPUT_EV_REL :: u16 where "VIRTIO_INPUT_EV_REL = 2"
definition VIRTIO_INPUT_EV_ABS :: u16 where "VIRTIO_INPUT_EV_ABS = 3"
definition VIRTIO_INPUT_KEY_LEFTSHIFT :: u16 where "VIRTIO_INPUT_KEY_LEFTSHIFT = 42"
definition VIRTIO_INPUT_KEY_RIGHTSHIFT :: u16 where "VIRTIO_INPUT_KEY_RIGHTSHIFT = 54"
definition VIRTIO_INPUT_KEY_CAPSLOCK :: u16 where "VIRTIO_INPUT_KEY_CAPSLOCK = 58"
definition VIRTIO_INPUT_CHAR_QUEUE_SIZE :: u32 where "VIRTIO_INPUT_CHAR_QUEUE_SIZE = 256"

record virtio_input_event =
  ev_type :: u16
  ev_code :: u16
  ev_value :: u32

record virtio_input_device =
  hd_base :: u64
  hd_events :: virtio_queue_state
  hd_status :: virtio_queue_state
  hd_buffers :: u64
  last_used_idx :: u16
  left_shift :: bool
  right_shift :: bool
  caps_lock :: bool

record hid =
  input_devices :: "virtio_input_device list"
  next_input_device :: u32
  input_char_queue :: "u8 list"
  input_char_head :: u32
  input_char_tail :: u32
  input_char_dropped :: u32
  input_char_dropped_reported :: u32

section \<open>Configuration\<close>

definition input_config_read :: "device \<Rightarrow> u64 \<Rightarrow> u32 \<Rightarrow> drv \<Rightarrow> u8 \<times> drv" where
  "input_config_read dev base offset = rd8 dev (base + ucast VIRTIO_INPUT_CONFIG + ucast offset)"

definition input_config_write :: "u64 \<Rightarrow> u32 \<Rightarrow> u8 \<Rightarrow> drv \<Rightarrow> drv" where
  "input_config_write base offset v = wr8 (base + ucast VIRTIO_INPUT_CONFIG + ucast offset) v"

fun read_config_bytes :: "device \<Rightarrow> u64 \<Rightarrow> nat \<Rightarrow> nat \<Rightarrow> drv \<Rightarrow> u8 list \<times> drv" where
  "read_config_bytes dev base i 0 s = ([], s)"
| "read_config_bytes dev base i (Suc n) s =
     (let (b, s1) = input_config_read dev base (of_nat (8 + i)) s;
          (bs, s2) = read_config_bytes dev base (i + 1) n s1
      in (b # bs, s2))"

text \<open>\<open>None\<close> for the error result; otherwise the \<^verbatim>\<open>size\<close> bytes that were stored.\<close>

definition input_read_config_data :: "device \<Rightarrow> u64 \<Rightarrow> u8 \<Rightarrow> u8 \<Rightarrow> drv \<Rightarrow> u8 list option \<times> drv" where
  "input_read_config_data dev base select subselect s =
     (let (sz, s1) = input_config_read dev base 2
                       (input_config_write base 1 subselect (input_config_write base 0 select s))
      in if unat sz > VIRTIO_INPUT_CFG_DATA_MAX
         then (None, say (dump ''VirtIO input config size invalid'' (ucast sz)) s1)
         else let (bs, s2) = read_config_bytes dev base 0 (unat sz) s1 in (Some bs, s2))"

definition input_bitmap_has :: "u8 list \<Rightarrow> u16 \<Rightarrow> bool" where
  "input_bitmap_has bitmap code \<longleftrightarrow>
     (let byte = unat code div 8 in
      byte < length bitmap \<and> (ucast (bitmap ! byte) :: u32) AND push_bit (unat code mod 8) 1 \<noteq> 0)"

definition input_has_code :: "device \<Rightarrow> u64 \<Rightarrow> u16 \<Rightarrow> u16 \<Rightarrow> drv \<Rightarrow> bool \<times> drv" where
  "input_has_code dev base event_type code s =
     (case input_read_config_data dev base VIRTIO_INPUT_CFG_EV_BITS (ucast event_type) s of
        (None, s1) \<Rightarrow> (False, s1)
      | (Some bitmap, s1) \<Rightarrow> (input_bitmap_has bitmap code, s1))"

text \<open>\<^verbatim>\<open>&&\<close> does not evaluate its right side when the left one is false.\<close>

definition and_has :: "device \<Rightarrow> u64 \<Rightarrow> u16 \<Rightarrow> u16 \<Rightarrow> bool \<times> drv \<Rightarrow> bool \<times> drv" where
  "and_has dev base event_type code = (\<lambda>(b, s). if b then input_has_code dev base event_type code s else (False, s))"

definition printable :: "u8 \<Rightarrow> u8" where
  "printable c = (if c \<ge> 32 \<and> c < 127 then c else of_char (CHR ''?''))"

definition input_report_identity :: "device \<Rightarrow> u64 \<Rightarrow> nat \<Rightarrow> drv \<Rightarrow> drv" where
  "input_report_identity dev base index s =
     (case input_read_config_data dev base VIRTIO_INPUT_CFG_ID_NAME 0 (say (dump ''VirtIO input device'' (of_nat index)) s) of
        (None, s1) \<Rightarrow> s1
      | (Some name, s1) \<Rightarrow>
          let s2 = say (text_of ''VirtIO input name: ''
                        @ (if name = [] then text_of ''(not provided)'' else map printable name) @ [10]) s1;
              (has_key, s3) = and_has dev base VIRTIO_INPUT_EV_KEY 28 (input_has_code dev base VIRTIO_INPUT_EV_KEY 30 s2);
              (has_rel, s4) = and_has dev base VIRTIO_INPUT_EV_KEY 272
                 (and_has dev base VIRTIO_INPUT_EV_REL 1 (input_has_code dev base VIRTIO_INPUT_EV_REL 0 s3));
              (has_abs, s5) = and_has dev base VIRTIO_INPUT_EV_ABS 1 (input_has_code dev base VIRTIO_INPUT_EV_ABS 0 s4)
          in say ((if has_key then line_of ''VirtIO input capabilities: keyboard keys'' else [])
               @ (if has_rel then line_of ''VirtIO input capabilities: relative pointer'' else [])
               @ (if has_abs then line_of ''VirtIO input capabilities: absolute pointer'' else [])
               @ (if \<not> has_key \<and> \<not> has_rel \<and> \<not> has_abs then line_of ''VirtIO input capabilities: other'' else [])) s5)"

definition input_mark_failed :: "device \<Rightarrow> u64 \<Rightarrow> drv \<Rightarrow> drv" where
  "input_mark_failed dev base = or32 dev (base + 0x070) VIRTIO_STATUS_FAILED"

section \<open>From keys to characters\<close>

definition letter_codes :: "u16 list" where
  "letter_codes = [30, 48, 46, 32, 18, 33, 34, 35, 23, 36, 37, 38, 50,
     49, 24, 25, 16, 19, 31, 20, 22, 47, 17, 45, 21, 44]"

definition digit_codes :: "u16 list" where
  "digit_codes = [2, 3, 4, 5, 6, 7, 8, 9, 10, 11]"

definition normal_digits :: "u8 list" where "normal_digits = text_of ''1234567890''"
definition shifted_digits :: "u8 list" where "shifted_digits = text_of ''!@#$%^&*()''"

text \<open>The position of a code in a table.\<close>

fun code_index :: "u16 list \<Rightarrow> u16 \<Rightarrow> nat option" where
  "code_index [] c = None"
| "code_index (x # xs) c = (if c = x then Some 0 else map_option Suc (code_index xs c))"

definition key_switch :: "u16 \<Rightarrow> bool \<Rightarrow> u8" where
  "key_switch code shifted =
     (let pick = (\<lambda>a b. of_char (if shifted then a else b)) in
      if code = 1 then - 13
      else if code = 29 \<or> code = 97 then - 14
      else if code = 59 then - 1
      else if code = 59 + 1 then - 2
      else if code = 59 + 2 then - 3
      else if code = 59 + 3 then - 4
      else if code = 59 + 4 then - 5
      else if code = 59 + 5 then - 6
      else if code = 59 + 6 then - 7
      else if code = 59 + 7 then - 8
      else if code = 59 + 8 then - 9
      else if code = 68 then - 10
      else if code = 87 then - 11
      else if code = 88 then - 12
      else if code = 103 then - 15
      else if code = 108 then - 16
      else if code = 105 then - 17
      else if code = 106 then - 18
      else if code = 12 then pick (CHR ''_'') (CHR ''-'')
      else if code = 13 then pick (CHR ''+'') (CHR ''='')
      else if code = 14 then 8
      else if code = 15 then 9
      else if code = 26 then pick (CHR ''{'') (CHR ''['')
      else if code = 27 then pick (CHR ''}'') (CHR '']'')
      else if code = 28 then 10
      else if code = 39 then pick (CHR '':'') (CHR '';'')
      else if code = 40 then pick (CHR 0x22) (CHR 0x27)
      else if code = 41 then pick (CHR ''~'') (CHR 0x60)
      else if code = 43 then pick (CHR ''|'') (CHR 0x5C)
      else if code = 51 then pick (CHR ''<'') (CHR '','')
      else if code = 52 then pick (CHR ''>'') (CHR ''.'')
      else if code = 53 then pick (CHR ''?'') (CHR ''/'')
      else if code = 57 then of_char (CHR '' '')
      else 0)"

definition input_key_to_character :: "u16 \<Rightarrow> bool \<Rightarrow> bool \<Rightarrow> u8" where
  "input_key_to_character code shifted caps =
     (case code_index letter_codes code of
        Some i \<Rightarrow> (if shifted \<noteq> caps then of_char (CHR ''A'') else of_char (CHR ''a'')) + of_nat i
      | None \<Rightarrow>
          (case code_index digit_codes code of
             Some i \<Rightarrow> (if shifted then shifted_digits ! i else normal_digits ! i)
           | None \<Rightarrow> key_switch code shifted))"

section \<open>The ring of characters\<close>

definition input_queue_character :: "u8 \<Rightarrow> hid \<Rightarrow> hid" where
  "input_queue_character character h =
     (let hd = input_char_head h; tl = input_char_tail h in
      if hd - tl \<ge> VIRTIO_INPUT_CHAR_QUEUE_SIZE then h\<lparr>input_char_dropped := input_char_dropped h + 1\<rparr>
      else h\<lparr>input_char_queue := (input_char_queue h)[unat (hd mod VIRTIO_INPUT_CHAR_QUEUE_SIZE) := character],
             input_char_head := hd + 1\<rparr>)"

definition input_process_key :: "nat \<Rightarrow> virtio_input_event \<Rightarrow> hid \<Rightarrow> hid option" where
  "input_process_key i event h = do {
     d \<leftarrow> aget (input_devices h) i;
     if ev_type event \<noteq> VIRTIO_INPUT_EV_KEY then Some h
     else if ev_code event = VIRTIO_INPUT_KEY_LEFTSHIFT
     then Some (h\<lparr>input_devices := (input_devices h)[i := d\<lparr>left_shift := ev_value event \<noteq> 0\<rparr>]\<rparr>)
     else if ev_code event = VIRTIO_INPUT_KEY_RIGHTSHIFT
     then Some (h\<lparr>input_devices := (input_devices h)[i := d\<lparr>right_shift := ev_value event \<noteq> 0\<rparr>]\<rparr>)
     else if ev_code event = VIRTIO_INPUT_KEY_CAPSLOCK
     then Some (if ev_value event = 1
                then h\<lparr>input_devices := (input_devices h)[i := d\<lparr>caps_lock := \<not> caps_lock d\<rparr>]\<rparr> else h)
     else if ev_value event \<noteq> 1 \<and> ev_value event \<noteq> 2 then Some h
     else let c = input_key_to_character (ev_code event) (left_shift d \<or> right_shift d) (caps_lock d)
          in Some (if c \<noteq> 0 then input_queue_character c h else h) }"

text \<open>The result is that of the code: -1, 0 or 1; with 1 there is a character. \<open>null\<close> tells whether
  the pointer for the character is null.\<close>

definition vhid_getchar :: "bool \<Rightarrow> hid \<Rightarrow> drv \<Rightarrow> int \<times> u8 \<times> hid \<times> drv" where
  "vhid_getchar null h s =
     (if null then (- 1, 0, h, say (line_of ''VirtIO input character output is null'') s)
      else let dropped = input_char_dropped h;
               (h1, s1) = (if dropped \<noteq> input_char_dropped_reported h
                           then (h\<lparr>input_char_dropped_reported := dropped\<rparr>,
                                 say (dump ''VirtIO input characters dropped'' (ucast dropped)) s)
                           else (h, s));
               tl = input_char_tail h1
           in if tl = input_char_head h1 then (0, 0, h1, s1)
              else (1, input_char_queue h1 ! unat (tl mod VIRTIO_INPUT_CHAR_QUEUE_SIZE),
                    h1\<lparr>input_char_tail := tl + 1\<rparr>, s1))"

section \<open>Events\<close>

text \<open>One event buffer per descriptor.\<close>

fun setup_events :: "virtio_input_device \<Rightarrow> nat \<Rightarrow> nat \<Rightarrow> drv \<Rightarrow> drv" where
  "setup_events d i 0 s = s"
| "setup_events d i (Suc n) s =
     setup_events d (i + 1) n
       (set_avail_ring (hd_events d) i (of_nat i)
         (set_desc (hd_events d) i (hd_buffers d + of_nat (8 * i)) 8 VIRTQ_DESC_F_WRITE 0 s))"

definition input_setup_event_queue :: "virtio_input_device \<Rightarrow> drv \<Rightarrow> bool \<times> drv" where
  "input_setup_event_queue d s =
     (if unat (vq_size (hd_events d)) > 256
      then (False, say (line_of ''VirtIO input event queue exceeds buffer capacity'') s)
      else (True, set_avail_idx (hd_events d) (vq_size (hd_events d))
                    (setup_events d 0 (unat (vq_size (hd_events d))) s)))"

text \<open>Both queues and the events of one device; the second and third step only after success.\<close>

definition vhid_setup :: "device \<Rightarrow> (nat \<Rightarrow> u64) \<Rightarrow> virtio_input_device \<Rightarrow> drv \<Rightarrow> bool \<times> virtio_input_device \<times> drv" where
  "vhid_setup dev storage d s =
     (let (ok, eq, s1) = vq_setup_v1 dev (hd_base d) 0 (storage 0) (hd_events d) s;
          d1 = d\<lparr>hd_events := eq\<rparr>
      in if \<not> ok then (False, d1, s1)
         else let (ok2, sq, s2) = vq_setup_v1 dev (hd_base d) 1 (storage 1) (hd_status d1) s1;
                  d2 = d1\<lparr>hd_status := sq\<rparr>
              in if \<not> ok2 then (False, d2, s2)
                 else let (ok3, s3) = input_setup_event_queue d2 s2 in (ok3, d2, s3))"

definition vhid_init_one :: "device \<Rightarrow> (nat \<Rightarrow> nat \<Rightarrow> u64) \<Rightarrow> dtb_t \<Rightarrow> nat \<Rightarrow> hid \<times> drv \<Rightarrow> (hid \<times> drv) option" where
  "vhid_init_one dev storage g i = (\<lambda>(h, s). do {
     base \<leftarrow> aget (g_virtio_input_bases g) i;
     irq \<leftarrow> aget (g_virtio_input_irqs g) i;
     d \<leftarrow> aget (input_devices h) i;
     let (version, s1) = virtio_mmio_version dev base s;
     let s2 = say (dump ''VirtIO input MMIO version'' (ucast version)) s1;
     if version \<noteq> 1
     then Some (h, input_mark_failed dev base
                     (say (line_of ''VirtIO input requires legacy MMIO version 1'') s2))
     else do {
       let s3 = input_report_identity dev base i (vq_init dev base (wr32 (base + 0x070) 0 s2));
       let (ok, d1, s4) = vhid_setup dev (storage i) (d\<lparr>hd_base := base\<rparr>) s3;
       if \<not> ok
       then Some (h\<lparr>input_devices := (input_devices h)[i := d1]\<rparr>, input_mark_failed dev base s4)
       else do {
         let s5 = vq_start_v1 dev base s4;
         let s6 = (if 32 \<le> irq \<and> irq < 1020
                   then gic_enable_irq irq (gic_set_priority irq 0x80 (gic_set_target_cpu0 irq s5))
                   else if irq \<noteq> 0
                   then say (line_of ''VirtIO input IRQ is outside the supported GIC SPI range'') s5
                   else say (line_of ''VirtIO input IRQ missing; asynchronous input unavailable'') s5);
         Some (h\<lparr>input_devices := (input_devices h)[i := d1\<lparr>last_used_idx := 0\<rparr>]\<rparr>,
               say (dump ''VirtIO input ready'' (of_nat i)) (virtio_mmio_notify_queue base 0 s6))
       }
     } })"

fun vhid_init_from :: "device \<Rightarrow> (nat \<Rightarrow> nat \<Rightarrow> u64) \<Rightarrow> dtb_t \<Rightarrow> nat \<Rightarrow> nat \<Rightarrow> hid \<times> drv \<Rightarrow> (hid \<times> drv) option" where
  "vhid_init_from dev storage g i 0 x = Some x"
| "vhid_init_from dev storage g i (Suc n) x = do {
     x' \<leftarrow> vhid_init_one dev storage g i x; vhid_init_from dev storage g (i + 1) n x' }"

definition vhid_init :: "device \<Rightarrow> (nat \<Rightarrow> nat \<Rightarrow> u64) \<Rightarrow> dtb_t \<Rightarrow> hid \<Rightarrow> drv \<Rightarrow> (hid \<times> drv) option" where
  "vhid_init dev storage g h s =
     (if g_virtio_input_count g = 0 then Some (h, say (line_of ''VirtIO input devices not found'') s)
      else vhid_init_from dev storage g 0 (unat (g_virtio_input_count g)) (h, s))"

text \<open>
  Taking one event from device \<open>i\<close>: \<open>None\<close> inside when the device has nothing, otherwise the result
  and, for a valid event, the event.
\<close>

definition take_event :: "device \<Rightarrow> dtb_t \<Rightarrow> nat \<Rightarrow> hid \<Rightarrow> drv
    \<Rightarrow> ((int \<times> virtio_input_event option) option \<times> hid \<times> drv) option" where
  "take_event dev g i h s = do {
     d \<leftarrow> aget (input_devices h) i;
     let q = hd_events d;
     if vq_size q = 0 then Some (None, h, s)
     else do {
       let (idx, s1) = used_idx dev q s;
       if idx = last_used_idx d then Some (None, h, s1)
       else do {
         let slot = unat (last_used_idx d mod vq_size q);
         let (descriptor_id, s2) = used_id dev q slot s1;
         let (event_len, s3) = used_len dev q slot s2;
         let nxt = (of_nat i + 1) mod g_virtio_input_count g;
         let h1 = h\<lparr>input_devices := (input_devices h)[i := d\<lparr>last_used_idx := last_used_idx d + 1\<rparr>],
                    next_input_device := nxt\<rparr>;
         if descriptor_id \<ge> ucast (vq_size q)
         then Some (Some (- 1, None), h1, say (dump ''VirtIO input invalid descriptor'' (ucast descriptor_id)) s3)
         else do {
           let buf = hd_buffers d + of_nat (8 * unat descriptor_id);
           let valid = (event_len \<ge> 8);
           let (ty, s4) = (if valid then rd16 dev buf s3 else (0, s3));
           let (co, s5) = (if valid then rd16 dev (buf + 2) s4 else (0, s4));
           let (va, s6) = (if valid then rd32 dev (buf + 4) s5 else (0, s5));
           let ai = avail_idx q s6;
           let s7 = set_avail_idx q (ai + 1) (set_avail_ring q (unat (ai mod vq_size q)) (ucast descriptor_id) s6);
           let s8 = virtio_mmio_notify_queue (hd_base d) 0 s7;
           Some (if valid then (Some (1, Some \<lparr>ev_type = ty, ev_code = co, ev_value = va\<rparr>), h1, s8)
                 else (Some (- 1, None), h1, say (line_of ''VirtIO input event is truncated'') s8))
         }
       }
     } }"

fun get_event_from :: "device \<Rightarrow> dtb_t \<Rightarrow> u32 \<Rightarrow> nat \<Rightarrow> hid \<Rightarrow> drv
    \<Rightarrow> (int \<times> virtio_input_event option \<times> nat \<times> hid \<times> drv) option" where
  "get_event_from dev g offset 0 h s = Some (0, None, 0, h, s)"
| "get_event_from dev g offset (Suc n) h s = do {
     let index = unat ((next_input_device h + offset) mod g_virtio_input_count g);
     (r, h', s') \<leftarrow> take_event dev g index h s;
     (case r of
        None \<Rightarrow> get_event_from dev g (offset + 1) n h' s'
      | Some (res, ev) \<Rightarrow> Some (res, ev, index, h', s')) }"

definition vhid_get_event :: "device \<Rightarrow> dtb_t \<Rightarrow> hid \<Rightarrow> drv
    \<Rightarrow> (int \<times> virtio_input_event option \<times> nat \<times> hid \<times> drv) option" where
  "vhid_get_event dev g h s =
     (if g_virtio_input_count g = 0 then Some (0, None, 0, h, s)
      else get_event_from dev g 0 (unat (g_virtio_input_count g)) h s)"

text \<open>Taking events until there is none or one is bad. It ends when the devices do.\<close>

partial_function (option) drain :: "device \<Rightarrow> dtb_t \<Rightarrow> hid \<Rightarrow> drv \<Rightarrow> (hid \<times> drv) option" where
  "drain dev g h s = do {
     (r, ev, index, h1, s1) \<leftarrow> vhid_get_event dev g h s;
     if r > 0
     then do {
       h2 \<leftarrow> (case ev of None \<Rightarrow> None
                | Some e \<Rightarrow> if index < unat (g_virtio_input_count g) then input_process_key index e h1 else Some h1);
       drain dev g h2 s1 }
     else Some (h1, s1) }"

partial_function (option) hid_service :: "device \<Rightarrow> dtb_t \<Rightarrow> nat \<Rightarrow> u64 \<Rightarrow> hid \<Rightarrow> drv \<Rightarrow> (hid \<times> drv) option" where
  "hid_service dev g i base h s = do {
     (h1, s1) \<leftarrow> drain dev g h s;
     let (status, s2) = rd32 dev (base + 0x060) s1;
     let s3 = (if status \<noteq> 0 then wr32 (base + 0x064) status s2 else s2);
     d \<leftarrow> aget (input_devices h1) i;
     let (idx, s4) = used_idx dev (hd_events d) s3;
     if idx \<noteq> last_used_idx d then hid_service dev g i base h1 s4 else Some (h1, s4) }"

fun hid_irq_from :: "device \<Rightarrow> dtb_t \<Rightarrow> u32 \<Rightarrow> nat \<Rightarrow> nat \<Rightarrow> hid \<Rightarrow> drv \<Rightarrow> (bool \<times> hid \<times> drv) option" where
  "hid_irq_from dev g irq i 0 h s = Some (False, h, s)"
| "hid_irq_from dev g irq i (Suc n) h s = do {
     own \<leftarrow> aget (g_virtio_input_irqs g) i;
     if own = 0 \<or> own \<noteq> irq then hid_irq_from dev g irq (i + 1) n h s
     else do {
       base \<leftarrow> aget (g_virtio_input_bases g) i;
       (h', s') \<leftarrow> hid_service dev g i base h s;
       Some (True, h', s') } }"

definition vhid_irq_handle :: "device \<Rightarrow> dtb_t \<Rightarrow> u32 \<Rightarrow> hid \<Rightarrow> drv \<Rightarrow> (bool \<times> hid \<times> drv) option" where
  "vhid_irq_handle dev g irq h s = hid_irq_from dev g irq 0 (unat (g_virtio_input_count g)) h s"

section \<open>The ring is a queue\<close>

definition hid_count :: "hid \<Rightarrow> nat" where
  "hid_count h = unat (input_char_head h - input_char_tail h)"

definition ring_slot :: "u32 \<Rightarrow> nat" where
  "ring_slot x = unat (x mod VIRTIO_INPUT_CHAR_QUEUE_SIZE)"

definition hid_items :: "hid \<Rightarrow> u8 list" where
  "hid_items h = map (\<lambda>j. input_char_queue h ! ring_slot (input_char_tail h + of_nat j)) [0..<hid_count h]"

definition hid_wf :: "hid \<Rightarrow> bool" where
  "hid_wf h \<longleftrightarrow> length (input_char_queue h) = 256 \<and> hid_count h \<le> 256"

text \<open>One character taken, as by \<^verbatim>\<open>vhid_getchar\<close>.\<close>

definition hid_pop :: "hid \<Rightarrow> u8 \<times> hid" where
  "hid_pop h = (let (r, c, h', s) = vhid_getchar False h \<lparr>d_tr = [], d_mem = (\<lambda>_. 0), d_out = []\<rparr> in (c, h'))"

lemma length_hid_items [simp]: "length (hid_items h) = hid_count h"
  by (simp add: hid_items_def)

lemma ring_slot_add: "ring_slot (x + of_nat j) = (unat x + j) mod 256"
proof -
  have "unat (x + of_nat j) = (unat x + j) mod 2 ^ 32"
    by (simp add: unat_word_ariths unat_of_nat mod_add_right_eq)
  moreover have "((unat x + j) mod 2 ^ 32) mod 256 = (unat x + j) mod 256"
    by (rule mod_mod_cancel) simp
  ultimately show ?thesis by (simp add: ring_slot_def VIRTIO_INPUT_CHAR_QUEUE_SIZE_def unat_mod)
qed

lemma ring_slot_less: "ring_slot x < 256"
  by (simp add: ring_slot_def VIRTIO_INPUT_CHAR_QUEUE_SIZE_def unat_mod)

lemma ring_slot_head: "ring_slot (input_char_head h) = (unat (input_char_tail h) + hid_count h) mod 256"
proof -
  have "input_char_head h = input_char_tail h + of_nat (hid_count h)" by (simp add: hid_count_def)
  then show ?thesis by (metis ring_slot_add)
qed

lemma full_iff: "hid_wf h \<Longrightarrow> input_char_head h - input_char_tail h \<ge> VIRTIO_INPUT_CHAR_QUEUE_SIZE \<longleftrightarrow> hid_count h = 256"
  by (auto simp: hid_wf_def hid_count_def VIRTIO_INPUT_CHAR_QUEUE_SIZE_def word_le_nat_alt)

lemma hid_push:
  assumes wf: "hid_wf h"
  shows "hid_wf (input_queue_character c h)
    \<and> hid_items (input_queue_character c h) = (if hid_count h < 256 then hid_items h @ [c] else hid_items h)"
proof (cases "hid_count h < 256")
  case False
  then have "input_queue_character c h = h\<lparr>input_char_dropped := input_char_dropped h + 1\<rparr>"
    using full_iff [OF wf] wf by (simp add: input_queue_character_def Let_def hid_wf_def)
  then show ?thesis using wf False by (simp add: hid_wf_def hid_items_def hid_count_def)
next
  case True
  let ?h = "input_queue_character c h" and ?n = "hid_count h" and ?t = "input_char_tail h"
  have h: "?h = h\<lparr>input_char_queue := (input_char_queue h)[ring_slot (input_char_head h) := c],
     input_char_head := input_char_head h + 1\<rparr>"
    using full_iff [OF wf] True by (simp add: input_queue_character_def Let_def ring_slot_def)
  have n: "hid_count ?h = ?n + 1"
  proof -
    have "hid_count ?h = unat (input_char_head h + 1 - ?t)" by (simp add: h hid_count_def)
    also have "input_char_head h + 1 - ?t = (input_char_head h - ?t) + 1" by simp
    also have "unat ((input_char_head h - ?t) + 1) = ?n + 1"
      using True by (subst unat_Suc_no_wrap) (simp_all add: hid_count_def)
    finally show ?thesis .
  qed
  have len: "length (input_char_queue h) = 256" using wf by (simp add: hid_wf_def)
  have old: "input_char_queue ?h ! ring_slot (?t + of_nat j) = input_char_queue h ! ring_slot (?t + of_nat j)"
    if "j < ?n" for j
    using ring_distinct [OF that True, of "unat ?t"] by (simp add: h ring_slot_add ring_slot_head)
  have new: "input_char_queue ?h ! ring_slot (?t + of_nat ?n) = c"
    using len by (simp add: h ring_slot_add ring_slot_head)
  have "hid_items ?h = map (\<lambda>j. input_char_queue ?h ! ring_slot (?t + of_nat j)) [0..<?n + 1]"
    unfolding hid_items_def n by (simp add: h)
  also have "\<dots> = hid_items h @ [c]" using old new by (simp add: hid_items_def)
  finally show ?thesis using True n len by (simp add: hid_wf_def h)
qed

lemma vhid_getchar_cases:
  assumes wf: "hid_wf h"
  shows "\<exists>r c h' s'. vhid_getchar False h s = (r, c, h', s') \<and> hid_wf h' \<and> d_mem s' = d_mem s \<and> d_tr s' = d_tr s
    \<and> (if hid_items h = [] then r = 0 \<and> hid_items h' = []
       else r = 1 \<and> c = hd (hid_items h) \<and> hid_items h' = tl (hid_items h))
    \<and> input_devices h' = input_devices h"
proof -
  let ?t = "input_char_tail h" and ?n = "hid_count h"
  define h1 where "h1 = (if input_char_dropped h \<noteq> input_char_dropped_reported h
     then h\<lparr>input_char_dropped_reported := input_char_dropped h\<rparr> else h)"
  define s1 where "s1 = (if input_char_dropped h \<noteq> input_char_dropped_reported h
     then say (dump ''VirtIO input characters dropped'' (ucast (input_char_dropped h))) s else s)"
  have h1: "input_char_tail h1 = ?t" "input_char_head h1 = input_char_head h"
    "input_char_queue h1 = input_char_queue h" "input_devices h1 = input_devices h"
    and s1: "d_mem s1 = d_mem s" "d_tr s1 = d_tr s" by (simp_all add: h1_def s1_def)
  have g: "vhid_getchar False h s = (if ?t = input_char_head h then (0, 0, h1, s1)
     else (1, input_char_queue h ! ring_slot ?t, h1\<lparr>input_char_tail := ?t + 1\<rparr>, s1))"
    using h1 by (simp add: vhid_getchar_def Let_def h1_def s1_def ring_slot_def)
  show ?thesis
  proof (cases "?t = input_char_head h")
    case True
    then have "?n = 0" by (simp add: hid_count_def)
    then have "hid_items h = []" "hid_items h1 = []" "hid_wf h1"
      using wf h1 by (simp_all add: hid_items_def hid_count_def hid_wf_def)
    then show ?thesis using g True h1 s1 by simp
  next
    case False
    let ?h = "h1\<lparr>input_char_tail := ?t + 1\<rparr>"
    have "?n \<noteq> 0" using False by (simp add: hid_count_def unat_eq_zero)
    then obtain k where k: "?n = Suc k" by (cases ?n) auto
    have n: "hid_count ?h = k"
    proof -
      have "hid_count ?h = unat (input_char_head h - (?t + 1))" by (simp add: hid_count_def h1)
      also have "input_char_head h - (?t + 1) = (input_char_head h - ?t) - 1" by simp
      also have "unat ((input_char_head h - ?t) - 1) = ?n - 1"
        using k by (subst unat_sub_no_wrap) (simp_all add: hid_count_def word_le_nat_alt)
      finally show ?thesis using k by simp
    qed
    have "hid_items ?h = map (\<lambda>j. input_char_queue h ! ring_slot (?t + of_nat (Suc j))) [0..<k]"
      using h1 by (simp add: hid_items_def n add.assoc)
    also have "\<dots> = tl (hid_items h)"
      by (simp add: hid_items_def k upt_conv_Cons map_Suc_upt [symmetric] comp_def del: upt_Suc of_nat_Suc)
    finally have tl: "hid_items ?h = tl (hid_items h)" .
    have hd: "hd (hid_items h) = input_char_queue h ! ring_slot ?t" "hid_items h \<noteq> []"
      by (simp_all add: hid_items_def k upt_conv_Cons del: upt_Suc)
    have "hid_wf ?h" using wf n k h1 by (simp add: hid_wf_def)
    then show ?thesis using g False tl hd h1 s1 by simp
  qed
qed

interpretation hc: bounded_fifo hid_wf hid_items "\<lambda>_. 256" "\<lambda>h c. input_queue_character c h"
  "\<lambda>h. hid_items h = []" "\<lambda>h. hid_count h = 256" hid_pop
proof unfold_locales
  fix h :: hid and c
  assume wf: "hid_wf h"
  note p = vhid_getchar_cases [OF wf, of "\<lparr>d_tr = [], d_mem = (\<lambda>_. 0), d_out = []\<rparr>"]
  show "length (hid_items h) \<le> 256" using wf by (simp add: hid_wf_def)
  show "hid_wf (input_queue_character c h)" using hid_push [OF wf] by blast
  show "hid_items (input_queue_character c h) = (if length (hid_items h) < 256 then hid_items h @ [c] else hid_items h)"
    using hid_push [OF wf] by simp
  show "hid_wf (snd (hid_pop h))" using p by (auto simp: hid_pop_def)
  show "hid_items (snd (hid_pop h)) = tl (hid_items h)" using p by (auto simp: hid_pop_def split: if_splits)
  show "hid_items h \<noteq> [] \<Longrightarrow> fst (hid_pop h) = hd (hid_items h)" using p by (auto simp: hid_pop_def)
qed simp_all

text \<open>C24: Typed characters come out in order, across the wrap-around of the counters. The ring keeps two
  32-bit counters that only grow; whatever their values, while at most 256 characters are between them,
  characters that are queued in a row are kept in order up to 256 and the rest is dropped, and reading as
  many as are kept returns exactly those, oldest first.\<close>

theorem hid_ring_fifo:
  assumes "hid_wf h"
  shows "let h' = foldl (\<lambda>h c. input_queue_character c h) h cs;
             kept = hid_items h @ take (256 - hid_count h) cs in
         hid_wf h' \<and> hid_items h' = kept \<and> fst (hc.pops (length kept) h') = kept
         \<and> hid_items (snd (hc.pops (length kept) h')) = []"
proof -
  let ?h = "foldl (\<lambda>h c. input_queue_character c h) h cs"
  have wf: "hid_wf ?h" and it: "hid_items ?h = hid_items h @ take (256 - hid_count h) cs"
    using hc.wf_pushes [OF assms] hc.items_pushes [OF assms, of cs] by simp_all
  have "fst (hc.pops (length (hid_items ?h)) ?h) = hid_items ?h \<and> hid_items (snd (hc.pops (length (hid_items ?h)) ?h)) = []"
    using hc.pops_fifo [OF wf, of "length (hid_items ?h)"] by simp
  then show ?thesis using wf unfolding it Let_def by blast
qed

lemma hid_ring_fifo_witness:
  "let h = \<lparr>input_devices = [], next_input_device = 0, input_char_queue = replicate 256 0, input_char_head = 0xFFFFFFFF,
       input_char_tail = 0xFFFFFFFE, input_char_dropped = 0, input_char_dropped_reported = 0\<rparr> in
   hid_items (foldl (\<lambda>h c. input_queue_character c h) h [104, 105, 33]) = [0, 104, 105, 33]"
proof -
  let ?h = "\<lparr>input_devices = [], next_input_device = 0, input_char_queue = replicate 256 0, input_char_head = 0xFFFFFFFF,
       input_char_tail = 0xFFFFFFFE, input_char_dropped = 0, input_char_dropped_reported = 0\<rparr>"
  have w: "hid_wf ?h" "hid_count ?h = 1" by (simp_all add: hid_wf_def hid_count_def)
  have "hid_items ?h = [0]" by (simp add: hid_items_def w(2) ring_slot_less)
  with hid_ring_fifo [OF w(1), of "[104, 105, 33]"] w(2) show ?thesis by (simp add: Let_def)
qed

end
