(* ===== verification/Net.thy ===== *)
theory Net
  imports Virtio Gic Dstruc
begin

text \<open>
  The network: \<^verbatim>\<open>src/manage/nm.c\<close> (sending a frame, taking a received one into the cache),
  \<^verbatim>\<open>src/frm/net.c\<close> (the receive queue and the receiving loop) and \<^verbatim>\<open>src/tools/vnet.c\<close> (the sending
  test). Static buffers of the code are addresses of the state. \<^verbatim>\<open>nm.c\<close> and \<^verbatim>\<open>net.c\<close> each have a static
  array \<^verbatim>\<open>rx_packet_buffer\<close> of their own; only the one of \<^verbatim>\<open>net.c\<close> is ever given to the device.
\<close>

definition NETWORK_CACHE_SIZE :: nat where "NETWORK_CACHE_SIZE = 10"
definition DST_CACHE_SIZE :: nat where "DST_CACHE_SIZE = 10"

record NMv1_connect =
  nm_is_dst :: "bool list"
  dst_buf :: "u8 list list"
  nm_is_alloc :: "bool list"
  nmqueue :: queue
  payload_buf :: "u8 list list"

record net =
  nm_connect :: NMv1_connect
  rx_queue :: virtio_queue_state
  tx_queue :: virtio_queue_state
  last_rx_used_idx :: u16
  last_tx_used_idx :: u16
  net_base :: u64
  tx_pkt :: u64
  nm_rx_packet_buffer :: u64
  net_rx_packet_buffer :: u64
  rx_queue_storage :: u64
  tx_queue_storage :: u64

definition sizeof_net_hdr :: nat where "sizeof_net_hdr = 12"
definition sizeof_eth :: nat where "sizeof_eth = 14"
definition PAYLOAD :: nat where "PAYLOAD = 1500"
definition src_mac :: "u8 list" where "src_mac = [2, 0, 0, 0, 0, 1]"

section \<open>Sending\<close>

text \<open>Putting one descriptor on the transmit queue.\<close>

definition tx_submit :: "net \<Rightarrow> u64 \<Rightarrow> u32 \<Rightarrow> drv \<Rightarrow> drv" where
  "tx_submit n addr len s =
     (let q = tx_queue n;
          s1 = set_avail_flags q 0 (set_desc q 0 addr len 0 0 (wr32 (net_base n + 0x030) 1 s));
          i = avail_idx q s1;
          s2 = set_avail_ring q (unat (i mod 256)) 0 s1;
          s3 = set_avail_idx q (avail_idx q s2 + 1) s2
      in wr32 (net_base n + 0x050) 1 s3)"

definition nm_cap :: "net \<Rightarrow> u8 list \<Rightarrow> u64 \<Rightarrow> u16 \<Rightarrow> u16 \<Rightarrow> drv \<Rightarrow> drv" where
  "nm_cap n dst data len ty s =
     (let p = unat (tx_pkt n);
          m1 = memset (d_mem s) p 0 sizeof_net_hdr;
          m2 = put_bytes (p + 18) src_mac (put_bytes (p + 12) dst m1);
          m3 = le_put m2 (p + 24) 2 (unat ty);
          m4 = memcpy m3 (p + 26) (unat data) (unat len);
          packet_size = (of_nat (sizeof_net_hdr + sizeof_eth) + ucast len :: u32)
      in say (line_of ''TX COMPLETE'')
           (tx_submit n (tx_pkt n) packet_size (say (enter ''nm_cap'') s\<lparr>d_mem := m4\<rparr>)))"

definition hello_frame :: "u8 list" where
  "hello_frame = replicate 12 0 @ replicate 6 0xFF @ src_mac @ [8, 0]
     @ (text_of ''Hello Kernel!'' @ replicate (1500 - 13) 0)"

definition net_TX_main :: "device \<Rightarrow> net \<Rightarrow> drv \<Rightarrow> net \<times> drv" where
  "net_TX_main dev n s =
     (let (q, s1) = vq_setup dev (net_base n) 1 (tx_queue_storage n) (vq_init dev (net_base n) s);
          n1 = n\<lparr>tx_queue := q\<rparr>;
          s2 = tx_submit n1 (tx_pkt n) (of_nat (length hello_frame)) s1;
          s3 = say (line_of ''Packet sent to TX queue, notified hardware!'' @ line_of ''Waiting TX...'') s2;
          (ok, s4) = poll_used dev q (last_tx_used_idx n) 10000000 s3
      in if ok then (n1\<lparr>last_tx_used_idx := last_tx_used_idx n + 1\<rparr>, say (line_of ''TX SUCCESS'') s4)
         else (n1, say (line_of ''TX TIMEOUT'') s4))"

section \<open>Receiving\<close>

definition requeue :: "device \<Rightarrow> net \<Rightarrow> u16 \<Rightarrow> drv \<Rightarrow> drv" where
  "requeue dev n d s =
     (let q = rx_queue n;
          s1 = set_avail_ring q (unat (avail_idx q s mod 256)) d s;
          s2 = set_avail_idx q (avail_idx q s1 + 1) s1
      in wr32 (net_base n + 0x050) 0 s2)"

definition nm_discap :: "device \<Rightarrow> net \<Rightarrow> drv \<Rightarrow> u64 \<times> net \<times> drv" where
  "nm_discap dev n s =
     (let (i, s1) = used_idx dev (rx_queue n) s in
      if i = last_rx_used_idx n then (0, n, s1)
      else let s2 = say (line_of ''RX SUCCESS'') s1; c = nm_connect n in
        case first_free (nm_is_alloc c) of
          None \<Rightarrow> (- 1, n, s2)
        | Some k \<Rightarrow>
            let pkt = get_bytes (unat (nm_rx_packet_buffer n) + 26) PAYLOAD (d_mem s2);
                c' = c\<lparr>nm_is_alloc := (nm_is_alloc c)[k := True], nmqueue := queue_push (nmqueue c) (of_nat k),
                       payload_buf := (payload_buf c)[k := pkt]\<rparr>;
                (d, s3) = used_id dev (rx_queue n) (unat (last_rx_used_idx n mod 256)) s2;
                s4 = requeue dev n (ucast d) s3
            in (1, n\<lparr>nm_connect := c', last_rx_used_idx := last_rx_used_idx n + 1\<rparr>, s4))"

definition prepare_rx_buffer :: "net \<Rightarrow> drv \<Rightarrow> drv" where
  "prepare_rx_buffer n s =
     (let q = rx_queue n;
          s1 = set_desc q 0 (net_rx_packet_buffer n) 2058 VIRTQ_DESC_F_WRITE 0 (wr32 (net_base n + 0x030) 0 s);
          s2 = set_avail_flags q 0 s1;
          s3 = set_avail_ring q (unat (avail_idx q s2 mod 256)) 0 s2;
          s4 = set_avail_idx q (avail_idx q s3 + 1) s3
      in wr32 (net_base n + 0x050) 0 s4)"

definition nm_init :: "device \<Rightarrow> net \<Rightarrow> drv \<Rightarrow> net \<times> drv" where
  "nm_init dev n s =
     (let (q, s1) = vq_setup dev (net_base n) 0 (rx_queue_storage n) (vq_init dev (net_base n) s);
          c = nm_connect n;
          c' = c\<lparr>dst_buf := (dst_buf c)[0 := replicate 6 0xFF], nm_is_dst := (nm_is_dst c)[0 := True],
                 nmqueue := queue_init (q_buffer (nmqueue c)) NETWORK_CACHE_SIZE\<rparr>
      in (n\<lparr>rx_queue := q, nm_connect := c'\<rparr>, s1))"

text \<open>What \<^verbatim>\<open>net_RX_main\<close> does before its loop.\<close>

definition net_RX_setup :: "device \<Rightarrow> net \<Rightarrow> drv \<Rightarrow> net \<times> drv" where
  "net_RX_setup dev n s =
     (let (q, s1) = vq_setup dev (net_base n) 0 (rx_queue_storage n) (vq_init dev (net_base n) s);
          n1 = n\<lparr>rx_queue := q\<rparr>;
          s2 = prepare_rx_buffer n1 s1;
          s3 = say (dump ''RX buffer addr'' (net_rx_packet_buffer n)
                    @ dump ''Descriptor addr'' (read64 (d_mem s2) (unat (desc_at q 0)))) s2;
          s4 = wr8 (GIC_DIST_REG 0x84F) 1 (wr32 (GIC_DIST_REG 0) 1 s3);
          s5 = or32 dev (GIC_DIST_REG 0x108) (push_bit 15 1) s4;
          s6 = wr32 (GIC_CPU_BASE + 0x000) 1 (wr32 (GIC_CPU_BASE + 0x004) 0xFF s5);
          s7 = or32 dev (GIC_DIST_REG 0x108) (push_bit 15 1) s6;
          (v1, s8) = rd32 dev (GIC_DIST_REG 0x108) s7;
          (v2, s9) = rd32 dev (GIC_DIST_REG 0x108) (say (dump_end ''GIC ISENABLER2'' (ucast v1)) s8);
          s10 = say (dump_end ''IRQ79 ENABLE'' (ucast (drop_bit 15 v2 AND 1))) s9;
          s11 = or32 dev (net_base n + 0x070) VIRTIO_STATUS_DRIVER_OK s10
      in (n1, say (line_of ''RX Driver Ready'') s11))"

definition mac_text :: "u8 list \<Rightarrow> u8 list" where
  "mac_text bs = concat (map (\<lambda>b. put_hex2 (ucast b) @ text_of '' '') bs)"

text \<open>One turn of the loop, which never ends.\<close>

definition net_RX_turn :: "device \<Rightarrow> net \<Rightarrow> drv \<Rightarrow> net \<times> drv" where
  "net_RX_turn dev n s =
     (let (i, s1) = used_idx dev (rx_queue n) s in
      if i = last_rx_used_idx n then (n, s1)
      else let s2 = say (line_of ''RX SUCCESS'') s1;
               slot = unat (last_rx_used_idx n mod 256);
               pkt = net_rx_packet_buffer n;
               (d, s3) = used_id dev (rx_queue n) slot s2;
               (len, s4) = used_len dev (rx_queue n) slot (say (dump ''Descriptor'' (ucast d)) s3);
               s5 = say (dump ''Length'' (ucast len) @ [10] @ text_of ''Destination MAC : '') s4;
               (dst, s6) = rd_bytes dev (pkt + 12) 6 s5;
               (src, s7) = rd_bytes dev (pkt + 18) 6 (say (mac_text dst @ [10] @ text_of ''Source MAC      : '') s6);
               (ty, s8) = rd16 dev (pkt + 24) (say (mac_text src @ [10]) s7);
               (len2, s9) = used_len dev (rx_queue n) slot (say (dump ''EtherType'' (ucast ty)) s8);
               payload_len = len2 - of_nat (sizeof_net_hdr + sizeof_eth);
               (body, s10) = rd_bytes dev (pkt + 26) (unat payload_len) (say (text_of ''Payload : '') s9);
               s11 = requeue dev n 0 (say (body @ [10]) s10)
           in (n\<lparr>last_rx_used_idx := last_rx_used_idx n + 1\<rparr>, s11))"

fun net_RX_turns :: "device \<Rightarrow> nat \<Rightarrow> net \<Rightarrow> drv \<Rightarrow> net \<times> drv" where
  "net_RX_turns dev 0 n s = (n, s)"
| "net_RX_turns dev (Suc k) n s = (let (n', s') = net_RX_turn dev n s in net_RX_turns dev k n' s')"

section \<open>The receive cache\<close>

text \<open>\<open>k\<close> receive interrupts; the results are collected.\<close>

fun discaps :: "device \<Rightarrow> nat \<Rightarrow> net \<Rightarrow> drv \<Rightarrow> u64 list \<times> net \<times> drv" where
  "discaps dev 0 n s = ([], n, s)"
| "discaps dev (Suc k) n s =
     (let (r, n1, s1) = nm_discap dev n s; (rs, n2, s2) = discaps dev k n1 s1 in (r # rs, n2, s2))"

definition cache_wf :: "net \<Rightarrow> bool" where
  "cache_wf n \<longleftrightarrow> length (nm_is_alloc (nm_connect n)) = NETWORK_CACHE_SIZE
     \<and> length (payload_buf (nm_connect n)) = NETWORK_CACHE_SIZE \<and> queue_wf (nmqueue (nm_connect n))"

definition cached :: "net \<Rightarrow> nat" where
  "cached n = card {i. i < length (nm_is_alloc (nm_connect n)) \<and> nm_is_alloc (nm_connect n) ! i}"

lemma cached_le: "cache_wf n \<Longrightarrow> cached n \<le> NETWORK_CACHE_SIZE"
proof -
  assume "cache_wf n"
  then have "{i. i < length (nm_is_alloc (nm_connect n)) \<and> nm_is_alloc (nm_connect n) ! i} \<subseteq> {..<NETWORK_CACHE_SIZE}"
    by (auto simp: cache_wf_def)
  then show ?thesis unfolding cached_def by (metis card_lessThan card_mono finite_lessThan)
qed

lemma cached_add:
  assumes "first_free bs = Some k"
  shows "card {i. i < length bs \<and> bs[k := True] ! i} = card {i. i < length bs \<and> bs ! i} + 1"
proof -
  have k: "k < length bs" "\<not> bs ! k" using first_free_Some [OF assms] by auto
  then have "{i. i < length bs \<and> bs[k := True] ! i} = insert k {i. i < length bs \<and> bs ! i}"
    by (auto simp: nth_list_update)
  then show ?thesis using k by simp
qed

lemma cached_full:
  assumes "cache_wf n" "first_free (nm_is_alloc (nm_connect n)) = None"
  shows "cached n = NETWORK_CACHE_SIZE"
proof -
  have "{i. i < length (nm_is_alloc (nm_connect n)) \<and> nm_is_alloc (nm_connect n) ! i} = {..<NETWORK_CACHE_SIZE}"
    using assms first_free_None [OF assms(2)] by (auto simp: cache_wf_def)
  then show ?thesis by (simp add: cached_def)
qed

lemma nm_discap_step:
  assumes wf: "cache_wf n" and r: "nm_discap dev n s = (r, n', s')"
  shows "(r \<noteq> 1 \<and> n' = n \<and> d_mem s' = d_mem s \<and> (r = 0 \<or> r = - 1 \<and> cached n = NETWORK_CACHE_SIZE))
    \<or> (r = 1 \<and> cache_wf n' \<and> cached n' = cached n + 1 \<and> last_rx_used_idx n' = last_rx_used_idx n + 1
       \<and> rx_queue n' = rx_queue n \<and> nm_rx_packet_buffer n' = nm_rx_packet_buffer n)"
proof (cases "first_free (nm_is_alloc (nm_connect n))")
  case None
  then show ?thesis using r cached_full [OF wf]
    by (auto simp: nm_discap_def Let_def used_idx_def rd16_def rd32_def say_def split: if_splits)
next
  case (Some k)
  have "length (nm_is_alloc (nm_connect n)) = length (nm_is_alloc (nm_connect n))" ..
  then show ?thesis using r Some cached_add [OF Some] wf
    by (auto simp: nm_discap_def Let_def used_idx_def rd16_def rd32_def say_def cache_wf_def cached_def queue_push_wf
        split: if_splits prod.splits)
qed

lemma discaps_ok:
  assumes "cache_wf n" "discaps dev k n s = (rs, n', s')"
  shows "cache_wf n' \<and> cached n' = cached n + count_list rs 1
    \<and> last_rx_used_idx n' = last_rx_used_idx n + of_nat (count_list rs 1)
    \<and> set rs \<subseteq> {0, 1, - 1}
    \<and> (cached n = NETWORK_CACHE_SIZE \<longrightarrow> n' = n \<and> d_mem s' = d_mem s \<and> 1 \<notin> set rs)"
  using assms
proof (induction k arbitrary: n s rs n' s')
  case 0
  then show ?case by simp
next
  case (Suc k)
  obtain r n1 s1 where 1: "nm_discap dev n s = (r, n1, s1)" by (cases "nm_discap dev n s")
  obtain rs2 n2 s2 where 2: "discaps dev k n1 s1 = (rs2, n2, s2)" by (cases "discaps dev k n1 s1")
  have eq: "rs = r # rs2" "n' = n2" "s' = s2" using Suc.prems(2) 1 2 by simp_all
  from nm_discap_step [OF Suc.prems(1) 1] show ?case
  proof (elim disjE conjE)
    assume r: "r \<noteq> 1" "n1 = n" "d_mem s1 = d_mem s" "r = 0"
    then show ?thesis using Suc.IH [OF _ 2] Suc.prems(1) eq by auto
  next
    assume r: "r \<noteq> 1" "n1 = n" "d_mem s1 = d_mem s" "r = - 1" "cached n = NETWORK_CACHE_SIZE"
    then show ?thesis using Suc.IH [OF _ 2] Suc.prems(1) eq by auto
  next
    assume r: "r = 1" "cache_wf n1" "cached n1 = cached n + 1" "last_rx_used_idx n1 = last_rx_used_idx n + 1"
    then have "cached n \<noteq> NETWORK_CACHE_SIZE" using cached_le [OF r(2)] by simp
    then show ?thesis using Suc.IH [OF r(2) 2] r eq by auto
  qed
qed

text \<open>At most ten frames are ever received. Nothing frees an entry of the receive cache, so whatever the
  device does, over any number of receive interrupts the entries in use grow by the number of frames
  taken and never exceed ten; from then on every interrupt leaves the cache, the driver's position in
  the used ring and the queue memory as they are - frames that arrive are neither stored nor given
  back to the device.\<close>

theorem nm_receive_limit:
  assumes "cache_wf n" and "discaps dev k n s = (rs, n', s')"
  shows "cached n + count_list rs 1 \<le> 10 \<and> cached n' = cached n + count_list rs 1
    \<and> last_rx_used_idx n' = last_rx_used_idx n + of_nat (count_list rs 1)
    \<and> (cached n = 10 \<longrightarrow> n' = n \<and> d_mem s' = d_mem s \<and> 1 \<notin> set rs)"
  using discaps_ok [OF assms] cached_le [of n'] by (simp add: NETWORK_CACHE_SIZE_def)

definition net_boot :: net where
  "net_boot = \<lparr>nm_connect = \<lparr>nm_is_dst = replicate 10 False, dst_buf = replicate 10 (replicate 6 0),
      nm_is_alloc = replicate 10 False, nmqueue = queue_init (replicate 10 0) NETWORK_CACHE_SIZE,
      payload_buf = replicate 10 (replicate 1500 0)\<rparr>,
     rx_queue = \<lparr>vq_desc = 0x40600000, vq_avail = 0x40601000, vq_used = 0x40602000, vq_storage = 0x40600000, vq_size = 256\<rparr>,
     tx_queue = no_queue, last_rx_used_idx = 0, last_tx_used_idx = 0, net_base = 0xa000000, tx_pkt = 0x40700000,
     nm_rx_packet_buffer = 0x40701000, net_rx_packet_buffer = 0x40702000, rx_queue_storage = 0x40600000,
     tx_queue_storage = 0x40610000\<rparr>"

lemma net_boot_wf: "cache_wf net_boot" "cached net_boot = 0"
proof -
  show "cache_wf net_boot"
    by (auto simp: cache_wf_def net_boot_def NETWORK_CACHE_SIZE_def queue_wf_def queue_init_def)
  have "{i. i < length (nm_is_alloc (nm_connect net_boot)) \<and> nm_is_alloc (nm_connect net_boot) ! i} = {}"
    by (auto simp: net_boot_def)
  then show "cached net_boot = 0" by (simp add: cached_def)
qed

lemma nm_receive_limit_witness:
  "\<exists>rs n' s'. discaps (\<lambda>tr _. of_nat (length tr)) 100 net_boot \<lparr>d_tr = [], d_mem = (\<lambda>_. 0), d_out = []\<rparr> = (rs, n', s')
     \<and> count_list rs 1 \<le> 10"
proof -
  obtain rs n' s' where d: "discaps (\<lambda>tr _. of_nat (length tr)) 100 net_boot \<lparr>d_tr = [], d_mem = (\<lambda>_. 0), d_out = []\<rparr> = (rs, n', s')"
    by (metis prod_cases3)
  with nm_receive_limit [OF net_boot_wf(1) d] show ?thesis using net_boot_wf(2) by auto
qed

end
