(* ===== verification/DM.thy ===== *)
theory DM
  imports PM
begin

text \<open>
  The device table of \<^verbatim>\<open>src/manage/dm.c\<close> and the serial device of \<^verbatim>\<open>src/tools/device.c\<close>. Calling the
  initialisation function of an entry is an argument, its effect on the table.
\<close>

definition dm_creat ::
  "(u64 \<Rightarrow> DMv1_driver \<Rightarrow> DMv1_driver) \<Rightarrow> DMv1_driver \<Rightarrow> u32 \<Rightarrow> dcb_t \<Rightarrow> nat option \<times> DMv1_driver" where
  "dm_creat call driv irq_nr dev =
     (if unat irq_nr \<ge> MAX_DEVI_NUM then (None, driv)
      else let i = unat irq_nr in
        if dev_name (driv i) \<noteq> None then (None, driv)
        else let driv' = driv(i := (driv i)\<lparr>dev_irq := irq_nr\<rparr>) in
          (Some i, case dev_init (driv' i) of None \<Rightarrow> driv' | Some f \<Rightarrow> call f driv'))"

fun dm_find_from :: "DMv1_driver \<Rightarrow> cstr \<Rightarrow> nat \<Rightarrow> nat \<Rightarrow> nat option option" where
  "dm_find_from driv name i 0 = Some None"
| "dm_find_from driv name i (Suc n) =
     (case dev_name (driv i) of
        None \<Rightarrow> dm_find_from driv name (i + 1) n
      | Some nm \<Rightarrow> do {
          r \<leftarrow> strcmp nm name;
          if r = 0 then Some (Some i) else dm_find_from driv name (i + 1) n })"

definition dm_find :: "DMv1_driver \<Rightarrow> cstr \<Rightarrow> nat option option" where
  "dm_find driv name = dm_find_from driv name 0 MAX_DEVI_NUM"

section \<open>The serial device\<close>

definition uart0_name :: cstr where "uart0_name = lit ''uart0''"

text \<open>\<open>len\<close> is a signed integer; the bytes it writes and its result.\<close>

definition uart_dev_write :: "mem \<Rightarrow> u64 \<Rightarrow> u32 \<Rightarrow> u8 list \<times> u32" where
  "uart_dev_write m buf len = (map (\<lambda>i. m (unat (buf + of_nat i))) [0..<nat (sint len)], len)"

section \<open>Registration has no effect\<close>

text \<open>Registering devices in a row.\<close>

fun dm_creats :: "(u64 \<Rightarrow> DMv1_driver \<Rightarrow> DMv1_driver) \<Rightarrow> DMv1_driver \<Rightarrow> (u32 \<times> dcb_t) list \<Rightarrow> DMv1_driver" where
  "dm_creats call driv [] = driv"
| "dm_creats call driv ((irq, dev) # ds) = dm_creats call (snd (dm_creat call driv irq dev)) ds"

definition blank_table :: "DMv1_driver \<Rightarrow> bool" where
  "blank_table driv \<longleftrightarrow> (\<forall>i<MAX_DEVI_NUM. dev_name (driv i) = None \<and> dev_init (driv i) = None)"

lemma dm_creat_blank:
  "blank_table driv \<Longrightarrow> blank_table (snd (dm_creat call driv irq dev))
     \<and> (fst (dm_creat call driv irq dev) \<noteq> None \<longleftrightarrow> unat irq < MAX_DEVI_NUM)"
  by (auto simp: blank_table_def dm_creat_def Let_def not_le split: option.splits)

lemma dm_find_from_blank:
  "blank_table driv \<Longrightarrow> i + n \<le> MAX_DEVI_NUM \<Longrightarrow> dm_find_from driv name i n = Some None"
  by (induction n arbitrary: i) (auto simp: blank_table_def)

text \<open>A registered device is never found. \<open>dm_creat\<close> takes the device by value and stores only its
  interrupt number, not its name: on a table as the boot leaves it every registration of a number below 32
  succeeds, a second one of the same number too, and after any sequence of registrations a search
  for any name finds nothing.\<close>

theorem dm_registration_lost:
  assumes "blank_table driv"
  shows "blank_table (dm_creats call driv ds) \<and> dm_find (dm_creats call driv ds) name = Some None
    \<and> (unat irq < MAX_DEVI_NUM \<longrightarrow> fst (dm_creat call (dm_creats call driv ds) irq dev) = Some (unat irq))"
proof -
  have b: "blank_table (dm_creats call driv ds)" using assms
  proof (induction ds arbitrary: driv)
    case (Cons d ds)
    then show ?case using dm_creat_blank [OF Cons.prems] by (cases d) simp
  qed simp
  then show ?thesis using dm_find_from_blank [OF b, of 0 MAX_DEVI_NUM name]
    by (auto simp: dm_find_def dm_creat_def Let_def blank_table_def)
qed

lemma dm_registration_lost_witness:
  "dm_find (dm_creats (\<lambda>_ d. d) (k_dm boot_kernel)
     [(1, \<lparr>dev_name = Some uart0_name, dev_base = 0x09000000, dev_irq = 0, dev_init = None\<rparr>)]) uart0_name = Some None"
  using dm_registration_lost [of "k_dm boot_kernel" "\<lambda>_ d. d"
      "[(1, \<lparr>dev_name = Some uart0_name, dev_base = 0x09000000, dev_irq = 0, dev_init = None\<rparr>)]" uart0_name 1]
  by (simp add: blank_table_def boot_kernel_def)

end
