(* ===== verification/Blk.thy ===== *)
theory Blk
  imports Virtio
begin

text \<open>
  The disk driver of \<^verbatim>\<open>src/tools/vblk.c\<close>. The request, the two data buffers and the status byte are
  static memory of the driver; here they are addresses of its state. The status and the data of a
  read are written by the device.
\<close>

definition VIRTIO_BLK_T_IN :: u32 where "VIRTIO_BLK_T_IN = 0"
definition VIRTIO_BLK_T_OUT :: u32 where "VIRTIO_BLK_T_OUT = 1"
definition VIRTIO_BLK_S_OK :: u8 where "VIRTIO_BLK_S_OK = 0"
definition BLK_TEST_SECTOR :: u64 where "BLK_TEST_SECTOR = 100"

datatype blk_request_state = BLK_REQ_IDLE | BLK_REQ_PENDING | BLK_REQ_COMPLETE | BLK_REQ_ERROR

record blk =
  blk_base :: u64
  blk_queue :: virtio_queue_state
  blk_req_state :: blk_request_state
  blk_last_used_idx :: u16
  blk_queue_storage :: u64
  blk_req :: u64
  blk_data :: u64
  blk_read_data :: u64
  blk_status :: u64

definition test_message :: "u8 list" where
  "test_message = text_of ''HELLO FROM axOS''"

definition blk_prepare_test_data :: "blk \<Rightarrow> drv \<Rightarrow> drv" where
  "blk_prepare_test_data b s =
     s\<lparr>d_mem := put_bytes (unat (blk_data b)) test_message (memset (d_mem s) (unat (blk_data b)) 0 512)\<rparr>"

text \<open>The request is of type \<open>VIRTIO_BLK_T_IN\<close> whatever the command; the last descriptor keeps its link.\<close>

definition blk_submit :: "u8 \<Rightarrow> blk \<Rightarrow> drv \<Rightarrow> blk \<times> drv" where
  "blk_submit cmd b s =
     (let q = blk_queue b;
          s1 = put64 (blk_req b + 8) BLK_TEST_SECTOR (put32 (blk_req b + 4) 0 (put32 (blk_req b) VIRTIO_BLK_T_IN s));
          s2 = s1\<lparr>d_mem := (d_mem s1)(unat (blk_status b) := 0xFF)\<rparr>;
          s3 = set_desc q 0 (blk_req b) 16 VIRTQ_DESC_F_NEXT 1 s2;
          flags = (if cmd = 1 then VIRTQ_DESC_F_NEXT OR VIRTQ_DESC_F_WRITE else VIRTQ_DESC_F_NEXT);
          s4 = set_desc q 1 (blk_read_data b) 512 flags 2 s3;
          d = desc_at q 2;
          s5 = put16 (d + 12) VIRTQ_DESC_F_WRITE (put32 (d + 8) 1 (put64 d (blk_status b) s4));
          i = avail_idx q s5;
          s6 = set_avail_idx q (i + 1) (set_avail_ring q (unat (i mod 256)) 0 s5)
      in (b\<lparr>blk_req_state := BLK_REQ_PENDING\<rparr>, wr32 (blk_base b + 0x050) 0 s6))"

text \<open>Setting the queue up and starting the first request; \<open>None\<close> when there is no device.\<close>

definition blk_start :: "device \<Rightarrow> blk \<Rightarrow> drv \<Rightarrow> blk option \<times> drv" where
  "blk_start dev b s =
     (if blk_base b = 0 then (None, say (line_of ''BLK MMIO base not found'') s)
      else let (q, s1) = vq_setup dev (blk_base b) 0 (blk_queue_storage b) (vq_init dev (blk_base b) s);
               b1 = b\<lparr>blk_queue := q\<rparr>;
               s2 = s1\<lparr>d_mem := put_bytes (unat (blk_data b)) test_message (d_mem s1)\<rparr>;
               (b2, s3) = blk_submit 0 b1 s2
           in (Some b2, s3))"

definition blk_read :: "blk \<Rightarrow> drv \<Rightarrow> blk \<times> drv" where
  "blk_read b s = blk_submit 1 b (s\<lparr>d_mem := memset (d_mem s) (unat (blk_read_data b)) 0 512\<rparr>)"

text \<open>Printing a string that the device wrote, up to its terminator.\<close>

partial_function (option) puts_dev :: "device \<Rightarrow> u64 \<Rightarrow> drv \<Rightarrow> drv option" where
  "puts_dev dev a s =
     (let (b, s1) = rd8 dev a s in if b = 0 then Some s1 else puts_dev dev (a + 1) (say [b] s1))"

fun hex_bytes :: "device \<Rightarrow> u64 \<Rightarrow> nat \<Rightarrow> drv \<Rightarrow> drv" where
  "hex_bytes dev a 0 s = s"
| "hex_bytes dev a (Suc n) s =
     (let (b, s1) = rd8 dev a s in
      if b \<noteq> 0 then let (b2, s2) = rd8 dev a s1 in hex_bytes dev (a + 1) n (say (put_hex2 (ucast b2)) s2)
      else hex_bytes dev (a + 1) n s1)"

definition blk_report :: "device \<Rightarrow> blk \<Rightarrow> drv \<Rightarrow> drv option" where
  "blk_report dev b s = do {
     s1 \<leftarrow> (if blk_req_state b = BLK_REQ_COMPLETE
            then puts_dev dev (blk_read_data b) (say (line_of ''BLK READ COMPLETE'') s) else Some s);
     let s2 = hex_bytes dev (blk_read_data b) 512 (say (log_text ''READ BYTE'') s1);
     Some (say ([10, 10] @ log_text ''Program end'') s2) }"

definition virtio_blk_irq_handle :: "device \<Rightarrow> blk \<Rightarrow> drv \<Rightarrow> blk \<times> drv" where
  "virtio_blk_irq_handle dev b s =
     (let (status, s1) = rd32 dev (blk_base b + 0x060) s in
      if status = 0 then (b, s1)
      else let s2 = wr32 (blk_base b + 0x064) status s1;
               (i, s3) = used_idx dev (blk_queue b) s2
        in if i = blk_last_used_idx b then (b, s3)
           else let (i2, s4) = used_idx dev (blk_queue b) s3;
                    (st, s5) = rd8 dev (blk_status b) s4
                in if st = VIRTIO_BLK_S_OK
                   then (b\<lparr>blk_last_used_idx := i2, blk_req_state := BLK_REQ_COMPLETE\<rparr>, say (line_of ''BLK REQUEST COMPLETE'') s5)
                   else (b\<lparr>blk_last_used_idx := i2, blk_req_state := BLK_REQ_ERROR\<rparr>, say (line_of ''BLK WRITE ERROR'') s5))"

end
