(* ===== verification/Vgpu.thy ===== *)
theory Vgpu
  imports Virtio
begin

text \<open>
  \<^verbatim>\<open>src/tools/vgpu.c\<close>: the display. Two frame buffers, one after the other, lie at a fixed address of
  physical memory; one is shown while the other is drawn. A command is the bytes of its structure, the
  answer the bytes the device wrote. \<^verbatim>\<open>DEBUG_GPU_FLAG\<close> is 0.
\<close>

definition GPU_RESOURCE_ID :: nat where "GPU_RESOURCE_ID = 1"
definition GPU_SCANOUT_ID :: nat where "GPU_SCANOUT_ID = 0"
definition GPU_DEFAULT_WIDTH :: u32 where "GPU_DEFAULT_WIDTH = 640"
definition GPU_DEFAULT_HEIGHT :: u32 where "GPU_DEFAULT_HEIGHT = 360"
definition GPU_FRAMEBUFFER_BASE :: u64 where "GPU_FRAMEBUFFER_BASE = 0x41000000"
definition GPU_CMD_SLOT_SIZE :: nat where "GPU_CMD_SLOT_SIZE = 4096"
definition GPU_CMD_SLOT_COUNT :: u16 where "GPU_CMD_SLOT_COUNT = 8"
definition VIRTQ_AVAIL_F_NO_INTERRUPT :: u16 where "VIRTQ_AVAIL_F_NO_INTERRUPT = 1"

definition VIRTIO_GPU_FORMAT_B8G8R8A8_UNORM :: nat where "VIRTIO_GPU_FORMAT_B8G8R8A8_UNORM = 1"
definition VIRTIO_GPU_CMD_GET_DISPLAY_INFO :: nat where "VIRTIO_GPU_CMD_GET_DISPLAY_INFO = 0x100"
definition VIRTIO_GPU_CMD_RESOURCE_CREATE_2D :: nat where "VIRTIO_GPU_CMD_RESOURCE_CREATE_2D = 0x101"
definition VIRTIO_GPU_CMD_SET_SCANOUT :: nat where "VIRTIO_GPU_CMD_SET_SCANOUT = 0x103"
definition VIRTIO_GPU_CMD_RESOURCE_FLUSH :: nat where "VIRTIO_GPU_CMD_RESOURCE_FLUSH = 0x104"
definition VIRTIO_GPU_CMD_TRANSFER_TO_HOST_2D :: nat where "VIRTIO_GPU_CMD_TRANSFER_TO_HOST_2D = 0x105"
definition VIRTIO_GPU_CMD_RESOURCE_ATTACH_BACKING :: nat where "VIRTIO_GPU_CMD_RESOURCE_ATTACH_BACKING = 0x106"
definition VIRTIO_GPU_RESP_OK_NODATA :: nat where "VIRTIO_GPU_RESP_OK_NODATA = 0x1100"
definition VIRTIO_GPU_RESP_OK_DISPLAY_INFO :: nat where "VIRTIO_GPU_RESP_OK_DISPLAY_INFO = 0x1101"

record gpu =
  gpu_base :: u64
  gpu_queue :: virtio_queue_state
  gpu_used_idx :: u16
  gpu_queue_size :: u32
  gpu_display_width :: u32
  gpu_display_height :: u32
  gpu_framebuffer :: u64
  gpu_front_buffer :: u32
  gpu_back_buffer :: u32
  gpu_queue_storage :: u64
  gpu_cmd_slot :: u64
  gpu_resp_slot :: u64

section \<open>Bytes of a structure\<close>

fun le_bytes :: "nat \<Rightarrow> nat \<Rightarrow> u8 list" where
  "le_bytes 0 v = []"
| "le_bytes (Suc n) v = of_nat (v mod 256) # le_bytes n (v div 256)"

fun of_bytes :: "u8 list \<Rightarrow> nat" where
  "of_bytes [] = 0"
| "of_bytes (b # bs) = unat b + 256 * of_bytes bs"

definition field32 :: "u8 list \<Rightarrow> nat \<Rightarrow> nat" where
  "field32 bs off = of_bytes (take 4 (drop off bs))"

definition hdr_bytes :: "nat \<Rightarrow> u8 list" where
  "hdr_bytes ty = le_bytes 4 ty @ le_bytes 4 0 @ le_bytes 8 0 @ le_bytes 4 0 @ le_bytes 4 0"

definition rect_bytes :: "u32 \<Rightarrow> u32 \<Rightarrow> u32 \<Rightarrow> u32 \<Rightarrow> u8 list" where
  "rect_bytes x y w h = le_bytes 4 (unat x) @ le_bytes 4 (unat y) @ le_bytes 4 (unat w) @ le_bytes 4 (unat h)"

definition sizeof_ctrl_hdr :: nat where "sizeof_ctrl_hdr = 24"
definition sizeof_display_info :: nat where "sizeof_display_info = 24 + 16 * 24"

section \<open>Sending a command\<close>

definition gpu_wait_used :: "device \<Rightarrow> gpu \<Rightarrow> drv \<Rightarrow> bool \<times> gpu \<times> drv" where
  "gpu_wait_used dev g s =
     (let (ok, s1) = poll_used dev (gpu_queue g) (gpu_used_idx g) 10000000 s in
      if \<not> ok then (False, g, say (line_of ''GPU queue timed out'') s1)
      else let (irq_status, s2) = rd32 dev (gpu_base g + 0x060) s1;
               s3 = (if irq_status \<noteq> 0 then wr32 (gpu_base g + 0x064) irq_status s2 else s2);
               (i, s4) = used_idx dev (gpu_queue g) s3
           in (True, g\<lparr>gpu_used_idx := i\<rparr>, s4))"

definition avail_flags :: "virtio_queue_state \<Rightarrow> drv \<Rightarrow> u16" where
  "avail_flags vq s = get16 (vq_avail vq) s"

definition no_interrupt :: "virtio_queue_state \<Rightarrow> drv \<Rightarrow> drv" where
  "no_interrupt vq s = set_avail_flags vq (avail_flags vq s OR VIRTQ_AVAIL_F_NO_INTERRUPT) s"

text \<open>The descriptor a command starts with, given the free-running index.\<close>

definition cmd_head :: "gpu \<Rightarrow> u16 \<Rightarrow> u16" where
  "cmd_head g i = ucast ((ucast (ucast ((ucast i :: u32) mod gpu_queue_size g) :: u16) :: u32)
     mod (gpu_queue_size g div 2)) * 2"

text \<open>Filling the slots, the two descriptors and the ring.\<close>

definition gpu_fill :: "gpu \<Rightarrow> u8 list \<Rightarrow> nat \<Rightarrow> drv \<Rightarrow> drv" where
  "gpu_fill g cmd resp_size s =
     (let i = avail_idx (gpu_queue g) s;
          ring_index = (ucast ((ucast i :: u32) mod gpu_queue_size g) :: u16);
          hd = cmd_head g i;
          next_desc = (ucast ((ucast hd + 1 :: u32) mod gpu_queue_size g) :: u16);
          slot = ring_index mod GPU_CMD_SLOT_COUNT;
          cmd_phys = gpu_cmd_slot g + of_nat (GPU_CMD_SLOT_SIZE * unat slot);
          resp_phys = gpu_resp_slot g + of_nat (GPU_CMD_SLOT_SIZE * unat slot);
          m1 = put_bytes (unat cmd_phys) cmd (d_mem s);
          m2 = memset_from m1 (unat resp_phys) 0 resp_size;
          s1 = set_desc (gpu_queue g) (unat hd) cmd_phys (of_nat (length cmd)) VIRTQ_DESC_F_NEXT next_desc (s\<lparr>d_mem := m2\<rparr>);
          s2 = set_desc (gpu_queue g) (unat next_desc) resp_phys (of_nat resp_size) VIRTQ_DESC_F_WRITE 0 s1;
          s3 = no_interrupt (gpu_queue g) (set_avail_ring (gpu_queue g) (unat ring_index) hd s2)
      in set_avail_idx (gpu_queue g) (i + 1) s3)"

definition gpu_submit_control :: "device \<Rightarrow> u8 list \<Rightarrow> nat \<Rightarrow> gpu \<Rightarrow> drv \<Rightarrow> u8 list option \<times> gpu \<times> drv" where
  "gpu_submit_control dev cmd resp_size g s =
     (if gpu_queue_size g < 2 then (None, g, say (line_of ''GPU queue is not initialized'') s)
      else let s1 = wr32 (gpu_base g + 0x030) 0 s in
        if length cmd > GPU_CMD_SLOT_SIZE \<or> resp_size > GPU_CMD_SLOT_SIZE then (None, g, s1)
        else let i = avail_idx (gpu_queue g) s1;
                 ring_index = (ucast ((ucast i :: u32) mod gpu_queue_size g) :: u16);
                 resp_phys = gpu_resp_slot g + of_nat (GPU_CMD_SLOT_SIZE * unat (ring_index mod GPU_CMD_SLOT_COUNT));
                 s2 = wr32 (gpu_base g + 0x050) 0 (gpu_fill g cmd resp_size s1);
                 (ok, g1, s3) = gpu_wait_used dev g s2
          in if \<not> ok then (None, g1, s3)
             else let (cu, s4) = used_idx dev (gpu_queue g) s3;
                      slot = unat (ucast ((ucast cu - 1 :: u32) mod gpu_queue_size g) :: u16);
                      (id, s5) = used_id dev (gpu_queue g) slot s4;
                      (len, s6) = used_len dev (gpu_queue g) slot s5
                  in if id \<noteq> ucast (cmd_head g i)
                     then (None, g1, say (line_of ''GPU used descriptor mismatch'') s6)
                     else let (resp, s7) = rd_bytes dev resp_phys resp_size s6 in (Some resp, g1, s7))"

text \<open>A command whose answer is a header: what is printed when it fails, and whether it succeeded.\<close>

definition gpu_command :: "device \<Rightarrow> u8 list \<Rightarrow> string \<Rightarrow> (u64 \<Rightarrow> u8 list) \<Rightarrow> gpu \<Rightarrow> drv \<Rightarrow> bool \<times> gpu \<times> drv" where
  "gpu_command dev cmd failed report g s =
     (case gpu_submit_control dev cmd sizeof_ctrl_hdr g s of
        (None, g1, s1) \<Rightarrow> (False, g1, say (line_of failed) s1)
      | (Some resp, g1, s1) \<Rightarrow>
          if field32 resp 0 \<noteq> VIRTIO_GPU_RESP_OK_NODATA then (False, g1, say (report (of_nat (field32 resp 0))) s1)
          else (True, g1, s1))"

definition gpu_create_resource :: "device \<Rightarrow> gpu \<Rightarrow> drv \<Rightarrow> bool \<times> gpu \<times> drv" where
  "gpu_create_resource dev g s =
     gpu_command dev
       (hdr_bytes VIRTIO_GPU_CMD_RESOURCE_CREATE_2D @ le_bytes 4 GPU_RESOURCE_ID
        @ le_bytes 4 VIRTIO_GPU_FORMAT_B8G8R8A8_UNORM @ le_bytes 4 (unat (gpu_display_width g))
        @ le_bytes 4 (unat (gpu_display_height g * 2)))
       ''GPU create resource submit failed'' (dump_end ''GPU create resource response'') g s"

definition gpu_attach_backing :: "device \<Rightarrow> gpu \<Rightarrow> drv \<Rightarrow> bool \<times> gpu \<times> drv" where
  "gpu_attach_backing dev g s =
     gpu_command dev
       (hdr_bytes VIRTIO_GPU_CMD_RESOURCE_ATTACH_BACKING @ le_bytes 4 GPU_RESOURCE_ID @ le_bytes 4 1
        @ le_bytes 8 (unat GPU_FRAMEBUFFER_BASE)
        @ le_bytes 4 (unat (gpu_display_width g * gpu_display_height g * 2 * 4)) @ le_bytes 4 0)
       ''GPU attach backing submit failed'' (dump_end ''GPU attach backing response'') g s"

definition gpu_set_scanout :: "device \<Rightarrow> u32 \<Rightarrow> gpu \<Rightarrow> drv \<Rightarrow> bool \<times> gpu \<times> drv" where
  "gpu_set_scanout dev y g s =
     gpu_command dev
       (hdr_bytes VIRTIO_GPU_CMD_SET_SCANOUT @ rect_bytes 0 y (gpu_display_width g) (gpu_display_height g)
        @ le_bytes 4 GPU_SCANOUT_ID @ le_bytes 4 GPU_RESOURCE_ID)
       ''GPU set scanout submit failed'' (dump ''GPU set scanout response'') g s"

text \<open>The enabled flag of the first display follows its rectangle; the header takes 24 bytes.\<close>

definition gpu_get_display_info :: "device \<Rightarrow> gpu \<Rightarrow> drv \<Rightarrow> bool \<times> gpu \<times> drv" where
  "gpu_get_display_info dev g s =
     (case gpu_submit_control dev (hdr_bytes VIRTIO_GPU_CMD_GET_DISPLAY_INFO) sizeof_display_info g s of
        (None, g1, s1) \<Rightarrow> (False, g1, say (line_of ''GPU get display info submit failed'') s1)
      | (Some resp, g1, s1) \<Rightarrow>
          if field32 resp 0 \<noteq> VIRTIO_GPU_RESP_OK_DISPLAY_INFO
          then (False, g1, say (dump ''GPU display info response'' (of_nat (field32 resp 0))) s1)
          else let g2 = (if field32 resp (24 + 16) \<noteq> 0
                         then g1\<lparr>gpu_display_width := of_nat (field32 resp (24 + 8)),
                                 gpu_display_height := of_nat (field32 resp (24 + 12))\<rparr>
                         else g1\<lparr>gpu_display_width := GPU_DEFAULT_WIDTH, gpu_display_height := GPU_DEFAULT_HEIGHT\<rparr>)
               in (True, g2, say (dump ''GPU display width'' (ucast (gpu_display_width g2))
                                  @ dump ''GPU display height'' (ucast (gpu_display_height g2))) s1))"

definition gpu_transfer_to_host_2d :: "device \<Rightarrow> u32 \<Rightarrow> u32 \<Rightarrow> u32 \<Rightarrow> u32 \<Rightarrow> gpu \<Rightarrow> drv \<Rightarrow> bool \<times> gpu \<times> drv" where
  "gpu_transfer_to_host_2d dev x y w h g s =
     (let ry = y + gpu_back_buffer g * gpu_display_height g;
          offset = (ucast ry * ucast (gpu_display_width g) + ucast x) * 4 :: u64
      in gpu_command dev
           (hdr_bytes VIRTIO_GPU_CMD_TRANSFER_TO_HOST_2D @ rect_bytes x ry w h @ le_bytes 8 (unat offset)
            @ le_bytes 4 GPU_RESOURCE_ID @ le_bytes 4 0)
           ''GPU transfer submit failed'' (dump ''GPU transfer response'') g s)"

section \<open>Showing a frame\<close>

definition fb_addr :: "u64 \<Rightarrow> u32 \<Rightarrow> nat" where
  "fb_addr p i = unat (p + 4 * ucast i)"

text \<open>The address of a buffer, by its number.\<close>

definition buffer_at :: "gpu \<Rightarrow> u32 \<Rightarrow> u64" where
  "buffer_at g b = GPU_FRAMEBUFFER_BASE + 4 * ucast (b * (gpu_display_width g * gpu_display_height g))"

definition set_px :: "u64 \<Rightarrow> u32 \<Rightarrow> u32 \<Rightarrow> mem \<Rightarrow> mem" where
  "set_px p i c m = le_put m (fb_addr p i) 4 (unat c)"

definition get_px :: "u64 \<Rightarrow> u32 \<Rightarrow> mem \<Rightarrow> u32" where
  "get_px p i m = read32 m (fb_addr p i)"

definition copy_pixels :: "u64 \<Rightarrow> u64 \<Rightarrow> nat \<Rightarrow> mem \<Rightarrow> mem" where
  "copy_pixels dst src n =
     fold (\<lambda>i m. set_px dst (of_nat i) (get_px src (of_nat i) m) m) [0..<n]"

definition gpu_swap :: "gpu \<Rightarrow> drv \<Rightarrow> gpu \<times> drv" where
  "gpu_swap g s =
     (let front = gpu_back_buffer g; bk = 1 - front;
          n = unat (gpu_display_width g * gpu_display_height g)
      in (g\<lparr>gpu_front_buffer := front, gpu_back_buffer := bk, gpu_framebuffer := buffer_at g bk\<rparr>,
          s\<lparr>d_mem := copy_pixels (buffer_at g bk) (buffer_at g front) n (d_mem s)\<rparr>))"

definition gpu_resource_flush :: "device \<Rightarrow> u32 \<Rightarrow> u32 \<Rightarrow> u32 \<Rightarrow> u32 \<Rightarrow> gpu \<Rightarrow> drv \<Rightarrow> bool \<times> gpu \<times> drv" where
  "gpu_resource_flush dev x y w h g s =
     (let W = gpu_display_width g; H = gpu_display_height g in
      if x > W \<or> w > W - x \<or> y > H \<or> h > H - y
      then (False, g, say (line_of ''GPU flush rectangle is out of bounds'') s)
      else let (ok, g1, s1) = gpu_transfer_to_host_2d dev 0 0 W H g s in
        if \<not> ok then (False, g1, say (line_of ''GPU full-frame transfer failed'') s1)
        else let (ok2, g2, s2) =
               gpu_command dev
                 (hdr_bytes VIRTIO_GPU_CMD_RESOURCE_FLUSH @ rect_bytes 0 (gpu_back_buffer g1 * H) W H
                  @ le_bytes 4 GPU_RESOURCE_ID @ le_bytes 4 0)
                 ''GPU resource flush submit failed'' (dump ''GPU resource flush response'') g1 s1
          in if \<not> ok2 then (False, g2, s2)
             else let (ok3, g3, s3) = gpu_set_scanout dev (gpu_back_buffer g2 * H) g2 s2 in
               if \<not> ok3 then (False, g3, say (line_of ''GPU set scanout failed'') s3)
               else let (g4, s4) = gpu_swap g3 s3 in (True, g4, s4))"

section \<open>Set-up and interrupt\<close>

text \<open>The end of the set-up, once the size of the display is known to fit.\<close>

definition gpu_start :: "device \<Rightarrow> gpu \<Rightarrow> drv \<Rightarrow> gpu \<times> drv" where
  "gpu_start dev g s =
     (let n = unat (gpu_display_width g) * unat (gpu_display_height g);
          s1 = s\<lparr>d_mem := memset (d_mem s) (unat GPU_FRAMEBUFFER_BASE) 0 (n * 2 * 4)\<rparr>;
          g1 = g\<lparr>gpu_front_buffer := 0, gpu_back_buffer := 1, gpu_framebuffer := GPU_FRAMEBUFFER_BASE + 4 * of_nat n\<rparr>;
          (ok, g2, s2) = gpu_create_resource dev g1 s1
      in if \<not> ok then (g2, say (line_of ''GPU create resource failed'') s2)
         else let (ok2, g3, s3) = gpu_attach_backing dev g2 s2 in
           if \<not> ok2 then (g3, say (line_of ''GPU attach backing failed'') s3)
           else let (ok3, g4, s4) = gpu_set_scanout dev (gpu_front_buffer g3 * gpu_display_height g3) g3 s3 in
             if \<not> ok3 then (g4, say (line_of ''GPU set scanout failed'') s4) else (g4, s4))"

definition display_fits :: "gpu \<Rightarrow> bool" where
  "display_fits g \<longleftrightarrow>
     (let n = ucast (gpu_display_width g) * ucast (gpu_display_height g) :: u64 in
      \<not> (gpu_display_width g = 0 \<or> gpu_display_height g = 0 \<or> gpu_display_height g > 0xFFFFFFFF div 2
         \<or> n * 2 * 4 > 0xFFFFFFFF))"

definition gpu_init :: "device \<Rightarrow> gpu \<Rightarrow> drv \<Rightarrow> gpu \<times> drv" where
  "gpu_init dev g s =
     (if gpu_base g = 0 then (g, say (line_of ''GPU MMIO base not found'') s)
      else let (version, s1) = virtio_mmio_version dev (gpu_base g) s in
        if version \<noteq> 1 then (g, say (dump ''Unsupported GPU MMIO version (expected v1)'' (ucast version)) s1)
        else let (ok, q, s2) = vq_setup_v1 dev (gpu_base g) 0 (gpu_queue_storage g) (gpu_queue g) (vq_init dev (gpu_base g) s1);
                 g1 = g\<lparr>gpu_queue := q\<rparr>
          in if \<not> ok then (g1, say (line_of ''GPU queue setup failed'') s2)
             else let s3 = vq_start_v1 dev (gpu_base g) (no_interrupt q s2) in
               if vq_size q < 2 then (g1, say (line_of ''GPU queue has too few descriptors'') s3)
               else let (i, s4) = used_idx dev q s3;
                        g2 = g1\<lparr>gpu_queue_size := ucast (vq_size q), gpu_used_idx := i\<rparr>;
                        (ok2, g3, s5) = gpu_get_display_info dev g2 s4
                    in if \<not> ok2 then (g3, say (line_of ''GPU display info failed'') s5)
                       else if \<not> display_fits g3 then (g3, say (line_of ''GPU framebuffer size is too large'') s5)
                       else gpu_start dev g3 s5)"

definition virtio_gpu_irq_handle :: "device \<Rightarrow> gpu \<Rightarrow> drv \<Rightarrow> drv" where
  "virtio_gpu_irq_handle dev g s =
     (let (status, s1) = rd32 dev (gpu_base g + 0x060) s in
      if status = 0 then s1 else wr32 (gpu_base g + 0x064) status s1)"


section \<open>What a flush leaves alone\<close>

definition FB :: nat where "FB = unat GPU_FRAMEBUFFER_BASE"

definition pixels :: "gpu \<Rightarrow> nat" where
  "pixels g = unat (gpu_display_width g) * unat (gpu_display_height g)"

text \<open>
  The display's invariant: two buffers of the size of the display fit in 32 bits, one is in front
  and the other is drawn, and the driver's own memory lies below the buffers.
\<close>

definition areas_ok :: "gpu \<Rightarrow> bool" where
  "areas_ok g \<longleftrightarrow> gpu_queue_size g \<le> 256
     \<and> unat (vq_desc (gpu_queue g)) + 4096 \<le> FB \<and> unat (vq_avail (gpu_queue g)) + 1028 \<le> FB
     \<and> unat (gpu_cmd_slot g) + 8 * 4096 \<le> FB \<and> unat (gpu_resp_slot g) + 8 * 4096 \<le> FB"

definition gpu_ok :: "gpu \<Rightarrow> bool" where
  "gpu_ok g \<longleftrightarrow> 8 * pixels g < 2 ^ 32 \<and> areas_ok g
     \<and> (gpu_front_buffer g = 0 \<and> gpu_back_buffer g = 1 \<or> gpu_front_buffer g = 1 \<and> gpu_back_buffer g = 0)
     \<and> gpu_framebuffer g = buffer_at g (gpu_back_buffer g)"

text \<open>A driver step that keeps the display and everything from the buffers on.\<close>

definition quiet :: "gpu \<Rightarrow> drv \<Rightarrow> gpu \<Rightarrow> drv \<Rightarrow> bool" where
  "quiet g s g' s' \<longleftrightarrow> (\<exists>i. g' = g\<lparr>gpu_used_idx := i\<rparr>) \<and> (\<forall>a\<ge>FB. d_mem s' a = d_mem s a)"

lemma quiet_refl: "(\<And>a. a \<ge> FB \<Longrightarrow> d_mem s' a = d_mem s a) \<Longrightarrow> quiet g s g s'"
  unfolding quiet_def by (metis gpu.surjective gpu.update_convs(3))

lemma quiet_trans: "quiet g s g1 s1 \<Longrightarrow> quiet g1 s1 g2 s2 \<Longrightarrow> quiet g s g2 s2"
  unfolding quiet_def by auto

lemma quiet_say: "quiet g s g1 s1 \<Longrightarrow> quiet g s g1 (say bs s1)"
  by (auto simp: quiet_def)

lemma quiet_sel:
  assumes "quiet g s g' s'"
  shows "gpu_display_width g' = gpu_display_width g" "gpu_display_height g' = gpu_display_height g"
    "gpu_front_buffer g' = gpu_front_buffer g" "gpu_back_buffer g' = gpu_back_buffer g"
    "gpu_framebuffer g' = gpu_framebuffer g" "buffer_at g' = buffer_at g" "pixels g' = pixels g"
    "areas_ok g' = areas_ok g" "gpu_ok g' = gpu_ok g"
  using assms by (auto simp: quiet_def buffer_at_def pixels_def areas_ok_def gpu_ok_def fun_eq_iff)

lemma used_mem [simp]: "d_mem (snd (used_idx dev q s)) = d_mem s"
  "d_mem (snd (used_id dev q i s)) = d_mem s" "d_mem (snd (used_len dev q i s)) = d_mem s"
  by (simp_all add: used_idx_def used_id_def used_len_def rd16_def rd32_def)

lemma rd_bytes_mem: "d_mem (snd (rd_bytes dev a n s)) = d_mem s"
  by (induction n arbitrary: a s) (simp_all add: rd8_def split_beta)

lemma length_rd_bytes: "length (fst (rd_bytes dev a n s)) = n"
  by (induction n arbitrary: a s) (simp_all add: rd8_def split_beta)

lemma poll_used_mem: "d_mem (snd (poll_used dev q seen n s)) = d_mem s"
proof (induction n arbitrary: s)
  case (Suc n)
  obtain i s1 where r: "used_idx dev q s = (i, s1)" by (cases "used_idx dev q s")
  then have "d_mem s1 = d_mem s" using used_mem(1) [of dev q s] by simp
  then show ?case using Suc [of s1] r by simp
qed simp

text \<open>Writes below the buffers.\<close>

lemma unat_add_le: "unat (x + y :: 'a :: len word) \<le> unat x + unat y"
  by (simp add: unat_word_ariths)

lemma unat_of_nat_le: "unat (of_nat n :: 'a :: len word) \<le> n"
  by (simp add: unat_of_nat take_bit_nat_eq_self_iff take_bit_nat_def)

lemma put_low:
  "unat a + 2 \<le> FB \<Longrightarrow> FB \<le> b \<Longrightarrow> d_mem (put16 a w s) b = d_mem s b"
  "unat a + 4 \<le> FB \<Longrightarrow> FB \<le> b \<Longrightarrow> d_mem (put32 a v s) b = d_mem s b"
  "unat a + 8 \<le> FB \<Longrightarrow> FB \<le> b \<Longrightarrow> d_mem (put64 a x s) b = d_mem s b"
  by (simp_all add: put16_def put32_def put64_def le_put_frame)

lemma set_desc_low:
  assumes "unat (vq_desc q) + 4096 \<le> FB" "i < 256" "FB \<le> b"
  shows "d_mem (set_desc q i a l f n s) b = d_mem s b"
proof -
  have d: "unat (desc_at q i) + 16 \<le> FB"
    using unat_add_le [of "vq_desc q" "of_nat (16 * i)"] unat_of_nat_le [where 'a = 64, of "16 * i"] assms(1,2)
    unfolding desc_at_def by linarith
  have "unat (desc_at q i + 14) + 2 \<le> FB" "unat (desc_at q i + 12) + 2 \<le> FB" "unat (desc_at q i + 8) + 4 \<le> FB"
    using unat_add_le [of "desc_at q i" 14] unat_add_le [of "desc_at q i" 12] unat_add_le [of "desc_at q i" 8] d
    by simp_all
  then show ?thesis using d assms(3) by (simp add: set_desc_def Let_def put_low)
qed

lemma avail_low:
  assumes "unat (vq_avail q) + 1028 \<le> FB" "FB \<le> b"
  shows "d_mem (set_avail_idx q v s) b = d_mem s b" "d_mem (set_avail_flags q v s) b = d_mem s b"
    "d_mem (no_interrupt q s) b = d_mem s b"
    "i < 512 \<Longrightarrow> d_mem (set_avail_ring q i v s) b = d_mem s b"
proof -
  show "d_mem (set_avail_idx q v s) b = d_mem s b"
    using unat_add_le [of "vq_avail q" 2] assms by (simp add: set_avail_idx_def put_low)
  show f: "d_mem (set_avail_flags q v s) b = d_mem s b" for v
    using assms by (simp add: set_avail_flags_def put_low)
  show "d_mem (no_interrupt q s) b = d_mem s b" by (simp add: no_interrupt_def f)
  show "d_mem (set_avail_ring q i v s) b = d_mem s b" if "i < 512"
  proof -
    have "unat (vq_avail q + 4 + of_nat (2 * i)) \<le> unat (vq_avail q + 4) + unat (of_nat (2 * i) :: u64)"
      by (rule unat_add_le)
    then have "unat (vq_avail q + 4 + of_nat (2 * i)) + 2 \<le> FB"
      using unat_add_le [of "vq_avail q" 4] unat_of_nat_le [where 'a = 64, of "2 * i"] that assms(1) by simp
    then show ?thesis using assms(2) by (simp add: set_avail_ring_def put_low)
  qed
qed

lemma put_bytes_low: "a + length bs \<le> FB \<Longrightarrow> FB \<le> b \<Longrightarrow> put_bytes a bs m b = m b"
  by (simp add: put_bytes_def)

lemma slot_low:
  fixes a :: u64
  assumes "unat a + 8 * 4096 \<le> FB" "n \<le> 4096" "k < 8"
  shows "unat (a + of_nat (GPU_CMD_SLOT_SIZE * k)) + n \<le> FB"
proof -
  have "unat (of_nat (GPU_CMD_SLOT_SIZE * k) :: u64) \<le> GPU_CMD_SLOT_SIZE * k" by (rule unat_of_nat_le)
  moreover have "unat (a + of_nat (GPU_CMD_SLOT_SIZE * k)) \<le> unat a + unat (of_nat (GPU_CMD_SLOT_SIZE * k) :: u64)"
    by (rule unat_add_le)
  ultimately show ?thesis using assms unfolding GPU_CMD_SLOT_SIZE_def by linarith
qed

text \<open>Descriptor and ring numbers stay inside the queue.\<close>

lemma ring_bounds:
  assumes sz: "2 \<le> gpu_queue_size g" "gpu_queue_size g \<le> 256"
  shows "unat (ucast ((x :: u32) mod gpu_queue_size g) :: u16) < 256" "unat (cmd_head g i) < 256"
proof -
  let ?z = "gpu_queue_size g"
  have z: "2 \<le> unat ?z" "unat ?z \<le> 256" using sz by (simp_all add: word_le_nat_alt)
  have "unat x mod unat ?z < unat ?z" using z by (intro mod_less_divisor) linarith
  then have "unat (x mod ?z) < 256" using z unfolding unat_mod_distrib by linarith
  then show "unat (ucast (x mod ?z) :: u16) < 256"
    by (simp add: unsigned_ucast_eq take_bit_nat_eq_self)
  let ?y = "(ucast (ucast ((ucast i :: u32) mod ?z) :: u16) :: u32) mod (?z div 2)"
  have d: "unat (?z div 2) = unat ?z div 2" by (simp add: unat_div_distrib)
  have "unat ?y < unat ?z div 2" using z unfolding unat_mod_distrib d by (intro mod_less_divisor) linarith
  then have y: "unat ?y < 128" using z by linarith
  have "unat (ucast ?y :: u16) = unat ?y" using y by (simp add: unsigned_ucast_eq take_bit_nat_eq_self)
  then have "unat ((ucast ?y :: u16) * 2) = unat ?y * 2" using y by (simp add: unat_word_ariths)
  then show "unat (cmd_head g i) < 256" using y unfolding cmd_head_def by simp
qed

lemma gpu_fill_low:
  assumes ok: "areas_ok g" and sz: "2 \<le> gpu_queue_size g" and len: "length cmd \<le> 4096" "n \<le> 4096" and b: "FB \<le> b"
  shows "d_mem (gpu_fill g cmd n s) b = d_mem s b"
proof -
  let ?r = "ucast ((ucast (avail_idx (gpu_queue g) s) :: u32) mod gpu_queue_size g) :: u16"
  let ?k = "unat (?r mod GPU_CMD_SLOT_COUNT)"
  have z: "gpu_queue_size g \<le> 256" using ok by (simp add: areas_ok_def)
  note rb = ring_bounds [OF sz z]
  have q: "unat (vq_desc (gpu_queue g)) + 4096 \<le> FB" "unat (vq_avail (gpu_queue g)) + 1028 \<le> FB"
    using ok by (simp_all add: areas_ok_def)
  have k: "?k < 8" by (simp add: GPU_CMD_SLOT_COUNT_def unat_mod_distrib)
  have sl: "unat (gpu_cmd_slot g + of_nat (GPU_CMD_SLOT_SIZE * ?k)) + length cmd \<le> FB"
    "unat (gpu_resp_slot g + of_nat (GPU_CMD_SLOT_SIZE * ?k)) + n \<le> FB"
    by (rule slot_low [OF _ len(1) k], use ok in \<open>simp add: areas_ok_def\<close>,
        rule slot_low [OF _ len(2) k], use ok in \<open>simp add: areas_ok_def\<close>)
  have r: "unat ?r < 512" using rb(1) [of "ucast (avail_idx (gpu_queue g) s)"] by linarith
  show ?thesis unfolding gpu_fill_def Let_def
    using sl b
    by (simp only: avail_low(1,3) [OF q(2) b] avail_low(4) [OF q(2) b r] set_desc_low [OF q(1) rb(2) b]
        set_desc_low [OF q(1) rb(1) b] drv.simps memset_from_eq put_bytes_low [OF sl(1) b])
      (simp add: put_bytes_low [OF sl(1) b] del: of_nat_mult of_nat_unat)
qed

lemma gpu_wait_used_quiet: "gpu_wait_used dev g s = (ok, g', s') \<Longrightarrow> quiet g s g' s'"
  using poll_used_mem [of dev "gpu_queue g" "gpu_used_idx g" 10000000 s]
  by (auto simp: gpu_wait_used_def quiet_def Let_def split_beta split: if_splits
      intro: exI [of _ "gpu_used_idx g"])

lemma gpu_submit_control_quiet:
  assumes ok: "areas_ok g" and r: "gpu_submit_control dev cmd n g s = (resp, g', s')"
  shows "quiet g s g' s'"
proof (cases "gpu_queue_size g < 2 \<or> length cmd > GPU_CMD_SLOT_SIZE \<or> n > GPU_CMD_SLOT_SIZE")
  case True
  then show ?thesis using r by (auto simp: gpu_submit_control_def Let_def split: if_splits intro!: quiet_refl)
next
  case False
  let ?s1 = "wr32 (gpu_base g + 0x030) 0 s"
  let ?s2 = "wr32 (gpu_base g + 0x050) 0 (gpu_fill g cmd n ?s1)"
  obtain w g1 s3 where w: "gpu_wait_used dev g ?s2 = (w, g1, s3)" by (metis prod_cases3)
  have "quiet g s g ?s2"
    using False gpu_fill_low [OF ok, of cmd n _ ?s1] by (intro quiet_refl) (simp add: GPU_CMD_SLOT_SIZE_def not_less)
  then have q: "quiet g s g1 s3" using gpu_wait_used_quiet [OF w] quiet_trans by blast
  show ?thesis using r False q w
    by (auto simp: gpu_submit_control_def Let_def split_beta quiet_def rd_bytes_mem split: if_splits)
qed

lemma gpu_command_quiet:
  "areas_ok g \<Longrightarrow> gpu_command dev cmd failed report g s = (ok, g', s') \<Longrightarrow> quiet g s g' s'"
  by (auto simp: gpu_command_def split: prod.splits option.splits if_splits
      dest: gpu_submit_control_quiet intro: quiet_say)

section \<open>Pixels\<close>

lemma buffer_at_unat:
  assumes "8 * pixels g < 2 ^ 32" "b = 0 \<or> b = 1" "i < pixels g"
  shows "fb_addr (buffer_at g b) (of_nat i) = FB + 4 * (unat b * pixels g + i)"
proof -
  have i: "i < 2 ^ 32" "unat (of_nat i :: u32) = i" using assms by (simp_all add: unat_of_nat_no_wrap)
  have p: "unat (gpu_display_width g * gpu_display_height g) = pixels g"
    using assms(1) unat_mult_lem [of "gpu_display_width g" "gpu_display_height g"] by (simp flip: pixels_def)
  have bp: "unat (b * (gpu_display_width g * gpu_display_height g)) = unat b * pixels g"
    using assms(2) p by auto
  have q: "unat b * pixels g \<le> pixels g" using assms(2) by auto
  have uc: "unat (4 * (ucast v :: u64)) = 4 * unat (v :: u32)" for v
  proof -
    have "unat v < 2 ^ 32" using unat_lt_pow [of v] by simp
    then show ?thesis by (simp add: unat_word_ariths unsigned_ucast_eq take_bit_nat_eq_self)
  qed
  have FB: "unat GPU_FRAMEBUFFER_BASE = FB" "FB = 0x41000000" by (simp_all add: FB_def GPU_FRAMEBUFFER_BASE_def)
  let ?A = "4 * ucast (b * (gpu_display_width g * gpu_display_height g)) :: u64" and ?I = "4 * ucast (of_nat i :: u32) :: u64"
  have A: "unat ?A = 4 * (unat b * pixels g)" "unat ?I = 4 * i" unfolding uc bp i(2) by simp_all
  have bd: "FB + 4 * (unat b * pixels g) + 4 * i < 2 ^ LENGTH(64)"
  proof -
    have "FB + 4 * (unat b * pixels g) + 4 * i < 0x41000000 + 2 ^ 32" using q assms(1,3) FB(2) by linarith
    then show ?thesis by simp
  qed
  have B: "unat (GPU_FRAMEBUFFER_BASE + ?A) = FB + 4 * (unat b * pixels g)"
    using unat_add_no_wrap [of GPU_FRAMEBUFFER_BASE ?A] A(1) FB(1) bd by linarith
  have "unat (GPU_FRAMEBUFFER_BASE + ?A + ?I) = FB + 4 * (unat b * pixels g) + 4 * i"
    using unat_add_no_wrap [of "GPU_FRAMEBUFFER_BASE + ?A" ?I] A(2) B bd by linarith
  then show ?thesis unfolding fb_addr_def buffer_at_def by (simp only: add_mult_distrib2 add.assoc)
qed

lemma read32_put [simp]: "read32 (le_put m a 4 (unat (c :: u32))) a = c"
proof -
  have "unat c < 256 ^ 4" using unat_lt_pow [of c] by simp
  then show ?thesis by (simp add: read32_def le_nat_put)
qed

lemma read32_put_frame: "b + 4 \<le> a \<or> a + k \<le> b \<Longrightarrow> read32 (le_put m a k v) b = read32 m b"
  by (simp add: read32_def le_nat_put_frame)

text \<open>Copying the pixels of one buffer to the other.\<close>

lemma copy_pixels_px:
  assumes ok: "8 * pixels g < 2 ^ 32" and bc: "b = 0 \<and> c = 1 \<or> b = 1 \<and> c = 0" and n: "n \<le> pixels g"
  shows "\<forall>j<pixels g.
      get_px (buffer_at g c) (of_nat j) (copy_pixels (buffer_at g b) (buffer_at g c) n m) = get_px (buffer_at g c) (of_nat j) m
    \<and> get_px (buffer_at g b) (of_nat j) (copy_pixels (buffer_at g b) (buffer_at g c) n m)
        = get_px (buffer_at g (if j < n then c else b)) (of_nat j) m"
  using n
proof (induction n)
  case 0
  then show ?case by (simp add: copy_pixels_def)
next
  case (Suc n)
  let ?B = "buffer_at g b" and ?C = "buffer_at g c"
  let ?m = "copy_pixels ?B ?C n m"
  have b: "b = 0 \<or> b = 1" "c = 0 \<or> c = 1" using bc by auto
  have n: "n < pixels g" using Suc.prems by simp
  note a = buffer_at_unat [OF ok b(1)] buffer_at_unat [OF ok b(2)]
  have step: "copy_pixels ?B ?C (Suc n) m = set_px ?B (of_nat n) (get_px ?C (of_nat n) ?m) ?m"
    by (simp add: copy_pixels_def)
  have B: "get_px ?B (of_nat j) (copy_pixels ?B ?C (Suc n) m)
      = (if j = n then get_px ?C (of_nat n) ?m else get_px ?B (of_nat j) ?m)" if "j < pixels g" for j
    unfolding step using a(1) [OF n] a(1) [OF that]
    by (cases "j = n") (auto simp: set_px_def get_px_def intro!: read32_put_frame)
  have C: "get_px ?C (of_nat j) (copy_pixels ?B ?C (Suc n) m) = get_px ?C (of_nat j) ?m" if "j < pixels g" for j
    unfolding step using a(1) [OF n] a(2) [OF that] bc n that
    by (auto simp: set_px_def get_px_def intro!: read32_put_frame)
  have IH: "get_px ?C (of_nat j) ?m = get_px ?C (of_nat j) m"
    "get_px ?B (of_nat j) ?m = get_px (buffer_at g (if j < n then c else b)) (of_nat j) m" if "j < pixels g" for j
    using Suc.IH n that by auto
  show ?case using n by (auto simp: B C IH)
qed

text \<open>The picture that is drawn, pixel by pixel, and the one that is shown.\<close>

definition drawn :: "gpu \<Rightarrow> drv \<Rightarrow> nat \<Rightarrow> u32" where
  "drawn g s j = get_px (gpu_framebuffer g) (of_nat j) (d_mem s)"

definition shown :: "gpu \<Rightarrow> drv \<Rightarrow> nat \<Rightarrow> u32" where
  "shown g s j = get_px (buffer_at g (gpu_front_buffer g)) (of_nat j) (d_mem s)"

lemma get_px_cong: "(\<And>a. FB \<le> a \<Longrightarrow> m' a = m a) \<Longrightarrow> FB \<le> fb_addr p i \<Longrightarrow> get_px p i m' = get_px p i m"
  unfolding get_px_def read32_def by (metis le_nat_cong trans_le_add1)

lemma quiet_drawn:
  assumes q: "quiet g s g' s'" and ok: "gpu_ok g" and j: "j < pixels g"
  shows "drawn g' s' j = drawn g s j" "b = 0 \<or> b = 1 \<Longrightarrow> get_px (buffer_at g b) (of_nat j) (d_mem s') = get_px (buffer_at g b) (of_nat j) (d_mem s)"
proof -
  have sm: "8 * pixels g < 2 ^ 32" using ok by (simp add: gpu_ok_def)
  show b: "get_px (buffer_at g b) (of_nat j) (d_mem s') = get_px (buffer_at g b) (of_nat j) (d_mem s)" if "b = 0 \<or> b = 1" for b
    using q buffer_at_unat [OF sm that j] by (intro get_px_cong) (auto simp: quiet_def)
  show "drawn g' s' j = drawn g s j"
    using b [of "gpu_back_buffer g"] ok quiet_sel(5) [OF q] by (auto simp: drawn_def gpu_ok_def)
qed

lemma gpu_swap_ok:
  assumes ok: "gpu_ok g" and r: "gpu_swap g s = (g', s')"
  shows "gpu_ok g' \<and> pixels g' = pixels g \<and> gpu_display_width g' = gpu_display_width g
    \<and> gpu_display_height g' = gpu_display_height g \<and> gpu_front_buffer g' = gpu_back_buffer g
    \<and> (\<forall>j<pixels g. drawn g' s' j = drawn g s j \<and> shown g' s' j = drawn g s j)"
proof -
  let ?f = "gpu_back_buffer g"
  have sm: "8 * pixels g < 2 ^ 32" and f: "1 - ?f = 0 \<and> ?f = 1 \<or> 1 - ?f = 1 \<and> ?f = 0"
    and fb: "gpu_framebuffer g = buffer_at g ?f" using ok by (auto simp: gpu_ok_def)
  have g': "g' = g\<lparr>gpu_front_buffer := ?f, gpu_back_buffer := 1 - ?f, gpu_framebuffer := buffer_at g (1 - ?f)\<rparr>"
    and s': "d_mem s' = copy_pixels (buffer_at g (1 - ?f)) (buffer_at g ?f)
      (unat (gpu_display_width g * gpu_display_height g)) (d_mem s)"
    using r by (auto simp: gpu_swap_def Let_def)
  have n: "unat (gpu_display_width g * gpu_display_height g) = pixels g"
    using sm unat_mult_lem [of "gpu_display_width g" "gpu_display_height g"] by (simp flip: pixels_def)
  have B: "buffer_at g' = buffer_at g" "pixels g' = pixels g" by (auto simp: g' buffer_at_def pixels_def fun_eq_iff)
  have "gpu_ok g'" using ok B f unfolding gpu_ok_def by (auto simp: g' areas_ok_def)
  then show ?thesis
    using copy_pixels_px [OF sm f, of "pixels g" "d_mem s"] B fb
    by (auto simp: drawn_def shown_def s' n) (auto simp: g')
qed

lemma gpu_flush_cases:
  assumes ok: "areas_ok g" and r: "gpu_resource_flush dev x y w h g s = (b, g', s')"
  obtains "\<not> b" "quiet g s g' s'"
  | g3 s3 where "b" "quiet g s g3 s3" "gpu_swap g3 s3 = (g', s')"
proof (cases "x > gpu_display_width g \<or> w > gpu_display_width g - x \<or> y > gpu_display_height g \<or> h > gpu_display_height g - y")
  case True
  then show thesis using r by (intro that(1)) (auto simp: gpu_resource_flush_def Let_def intro!: quiet_refl)
next
  case False
  let ?W = "gpu_display_width g" and ?H = "gpu_display_height g"
  obtain o1 g1 s1 where 1: "gpu_transfer_to_host_2d dev 0 0 ?W ?H g s = (o1, g1, s1)" by (metis prod_cases3)
  have q1: "quiet g s g1 s1" using 1 ok by (auto simp: gpu_transfer_to_host_2d_def Let_def intro: gpu_command_quiet)
  obtain o2 g2 s2 where 2: "gpu_command dev
      (hdr_bytes VIRTIO_GPU_CMD_RESOURCE_FLUSH @ rect_bytes 0 (gpu_back_buffer g1 * ?H) ?W ?H @ le_bytes 4 GPU_RESOURCE_ID @ le_bytes 4 0)
      ''GPU resource flush submit failed'' (dump ''GPU resource flush response'') g1 s1 = (o2, g2, s2)" by (metis prod_cases3)
  have q2: "quiet g s g2 s2" using gpu_command_quiet [OF _ 2] q1 ok quiet_sel(8) [OF q1] quiet_trans by blast
  obtain o3 g3 s3 where 3: "gpu_set_scanout dev (gpu_back_buffer g2 * ?H) g2 s2 = (o3, g3, s3)" by (metis prod_cases3)
  have "areas_ok g2" using ok quiet_sel(8) [OF q2] by simp
  then have q3: "quiet g s g3 s3" using 3 q2 unfolding gpu_set_scanout_def by (blast intro: gpu_command_quiet quiet_trans)
  show thesis
  proof (cases "o1 \<and> o2 \<and> o3")
    case True
    obtain g4 s4 where 4: "gpu_swap g3 s3 = (g4, s4)" by (cases "gpu_swap g3 s3")
    then show thesis using r False 1 2 3 True q3 by (intro that(2)) (auto simp: gpu_resource_flush_def Let_def)
  next
    case not: False
    then show thesis using r False 1 2 3 q1 q2 q3
      by (intro that(1)) (auto simp: gpu_resource_flush_def Let_def intro: quiet_say split: if_splits prod.splits)
  qed
qed

text \<open>C26: A flush shows what was drawn and keeps it. On a display set up with two buffers that fit in 32 bits
  and driver memory below them, whatever the device answers, \<open>gpu_resource_flush\<close> keeps that
  invariant, the size of the display and every pixel of the picture being drawn. When it succeeds,
  the buffer that was drawn is in front and shows exactly that picture, and drawing goes on in the
  other buffer, which holds a copy of it. When it fails, the picture stays where it is.\<close>

theorem gpu_flush_shows:
  assumes ok: "gpu_ok g" and r: "gpu_resource_flush dev x y w h g s = (b, g', s')"
  shows "gpu_ok g' \<and> gpu_display_width g' = gpu_display_width g \<and> gpu_display_height g' = gpu_display_height g
    \<and> (\<forall>j<pixels g. drawn g' s' j = drawn g s j)
    \<and> (if b then gpu_front_buffer g' = gpu_back_buffer g \<and> (\<forall>j<pixels g. shown g' s' j = drawn g s j)
       else gpu_framebuffer g' = gpu_framebuffer g)"
proof -
  have a: "areas_ok g" using ok by (simp add: gpu_ok_def)
  show ?thesis
  proof (rule gpu_flush_cases [OF a r])
    assume "\<not> b" and q: "quiet g s g' s'"
    then show ?thesis using ok quiet_drawn(1) [OF q ok] quiet_sel [OF q] by simp
  next
    fix g3 s3
    assume b and q: "quiet g s g3 s3" and sw: "gpu_swap g3 s3 = (g', s')"
    then show ?thesis using ok quiet_drawn(1) [OF q ok] quiet_sel [OF q] gpu_swap_ok [OF _ sw] by simp
  qed
qed

text \<open>A display of 2 by 2 pixels and a device that answers nothing but a change of the used index.\<close>

definition tiny_gpu :: gpu where
  "tiny_gpu = \<lparr>gpu_base = 0xa000200,
     gpu_queue = \<lparr>vq_desc = 0x40010000, vq_avail = 0x40011000, vq_used = 0x40012000, vq_storage = 0x40010000, vq_size = 256\<rparr>,
     gpu_used_idx = 0, gpu_queue_size = 256, gpu_display_width = 2, gpu_display_height = 2,
     gpu_framebuffer = 0x41000010, gpu_front_buffer = 0, gpu_back_buffer = 1, gpu_queue_storage = 0x40010000,
     gpu_cmd_slot = 0x40020000, gpu_resp_slot = 0x40030000\<rparr>"

lemma tiny_gpu_ok: "gpu_ok tiny_gpu"
  by (simp add: gpu_ok_def areas_ok_def tiny_gpu_def pixels_def buffer_at_def GPU_FRAMEBUFFER_BASE_def FB_def)

lemma gpu_flush_shows_witness:
  "\<exists>b g' s'. gpu_resource_flush (\<lambda>tr a. of_nat (length tr)) 0 0 2 2 tiny_gpu \<lparr>d_tr = [], d_mem = (\<lambda>_. 0), d_out = []\<rparr> = (b, g', s')
     \<and> gpu_ok g'"
proof -
  obtain b g' s' where r: "gpu_resource_flush (\<lambda>tr a. of_nat (length tr)) 0 0 2 2 tiny_gpu \<lparr>d_tr = [], d_mem = (\<lambda>_. 0), d_out = []\<rparr> = (b, g', s')"
    by (metis prod_cases3)
  from gpu_flush_shows [OF tiny_gpu_ok r] r show ?thesis by blast
qed

end
