(* ===== verification/GM.thy ===== *)
theory GM
  imports Vgpu Alloc
begin

text \<open>
  \<^verbatim>\<open>src/manage/gm.c\<close>: drawing on the display - pixels, rectangles, lines, the clipboard. A drawing
  operation writes the buffer that is not shown and then flushes it. The clipboard is a block of the
  kernel heap; its address is kept by the heap, its contents here.
\<close>

record gm =
  gm_clipboard :: "nat option"
  gm_clipboard_width :: u32
  gm_clipboard_height :: u32
  gm_data :: "nat \<Rightarrow> u32"

text \<open>Two nested loops, the results in the order of the code.\<close>

definition loop2 :: "nat \<Rightarrow> nat \<Rightarrow> (nat \<Rightarrow> nat \<Rightarrow> 'a) \<Rightarrow> 'a list" where
  "loop2 h w f = concat (map (\<lambda>row. map (f row) [0..<w]) [0..<h])"

text \<open>A series of writes of pixels, by index.\<close>

definition plot :: "u64 \<Rightarrow> (u32 \<times> u32) list \<Rightarrow> mem \<Rightarrow> mem" where
  "plot p ps = fold (\<lambda>(i, c). set_px p i c) ps"

definition flush_or :: "string \<Rightarrow> device \<Rightarrow> u32 \<Rightarrow> u32 \<Rightarrow> u32 \<Rightarrow> u32 \<Rightarrow> gpu \<Rightarrow> drv \<Rightarrow> gpu \<times> drv" where
  "flush_or failed dev x y w h g s =
     (let (ok, g1, s1) = gpu_resource_flush dev x y w h g s in (g1, if ok then s1 else say (line_of failed) s1))"

definition gm_pixel :: "gpu \<Rightarrow> u32 \<Rightarrow> u32 \<Rightarrow> u32 \<Rightarrow> mem \<Rightarrow> mem" where
  "gm_pixel g x y color m =
     (if x \<ge> gpu_display_width g \<or> y \<ge> gpu_display_height g then m
      else set_px (gpu_framebuffer g) (y * gpu_display_width g + x) color m)"

definition gm_full :: "device \<Rightarrow> u32 \<Rightarrow> gpu \<Rightarrow> drv \<Rightarrow> gpu \<times> drv" where
  "gm_full dev color g s =
     (let n = unat (gpu_display_width g * gpu_display_height g);
          m = plot (gpu_framebuffer g) (map (\<lambda>i. (of_nat i, color)) [0..<n]) (d_mem s)
      in flush_or ''GPU flush failed'' dev 0 0 (gpu_display_width g) (gpu_display_height g) g (s\<lparr>d_mem := m\<rparr>))"

definition clipped :: "u32 \<Rightarrow> u32 \<Rightarrow> u32 \<Rightarrow> u32" where
  "clipped len limit start = (if len > limit - start then limit - start else len)"

definition gm_rect :: "device \<Rightarrow> u32 \<Rightarrow> u32 \<Rightarrow> u32 \<Rightarrow> u32 \<Rightarrow> u32 \<Rightarrow> gpu \<Rightarrow> drv \<Rightarrow> gpu \<times> drv" where
  "gm_rect dev x y width height color g s =
     (if x \<ge> gpu_display_width g \<or> y \<ge> gpu_display_height g \<or> width = 0 \<or> height = 0 then (g, s)
      else let w = clipped width (gpu_display_width g) x;
               h = clipped height (gpu_display_height g) y;
               ps = loop2 (unat h) (unat w)
                      (\<lambda>row col. ((y + of_nat row) * gpu_display_width g + (x + of_nat col), color))
           in flush_or ''GPU partial flush failed'' dev x y w h g (s\<lparr>d_mem := plot (gpu_framebuffer g) ps (d_mem s)\<rparr>))"

text \<open>The address of the new clipboard replaces the old one, which is freed.\<close>

definition gm_copy :: "u32 \<Rightarrow> u32 \<Rightarrow> u32 \<Rightarrow> u32 \<Rightarrow> gpu \<Rightarrow> gm \<Rightarrow> heap \<Rightarrow> drv \<Rightarrow> (gm \<times> heap \<times> drv) option" where
  "gm_copy x1 y1 x2 y2 g c h s =
     (if x1 > x2 \<or> y1 > y2 \<or> x2 \<ge> gpu_display_width g \<or> y2 \<ge> gpu_display_height g
      then Some (c, h, say (line_of ''GPU copy rectangle is out of bounds'') s)
      else let width = x2 - x1 + 1; height = y2 - y1 + 1;
               byte_count = ucast width * ucast height * 4 :: u64
      in if byte_count > 0xFFFFFFFF - of_nat HDR
         then Some (c, h, say (line_of ''GPU copy rectangle is too large'') s)
         else do {
           (p, h1) \<leftarrow> heap_alloc h (ucast byte_count);
           (case p of
              None \<Rightarrow> Some (c, h1, say (line_of ''GPU clipboard allocation failed'') s)
            | Some a \<Rightarrow>
                let d = fold (\<lambda>(i, v) d. d(i := v))
                      (loop2 (unat height) (unat width) (\<lambda>row col.
                         (unat (of_nat row * width + of_nat col),
                          get_px (gpu_framebuffer g) ((y1 + of_nat row) * gpu_display_width g + x1 + of_nat col) (d_mem s))))
                      (\<lambda>_. 0)
                in do {
                  h2 \<leftarrow> heap_free h1 (gm_clipboard c);
                  Some (\<lparr>gm_clipboard = Some a, gm_clipboard_width = width, gm_clipboard_height = height, gm_data = d\<rparr>, h2, s) })
         })"

definition gm_paste :: "device \<Rightarrow> u32 \<Rightarrow> u32 \<Rightarrow> gm \<Rightarrow> gpu \<Rightarrow> drv \<Rightarrow> gpu \<times> drv" where
  "gm_paste dev x y c g s =
     (if gm_clipboard c = None then (g, say (line_of ''GPU clipboard is empty'') s)
      else if x \<ge> gpu_display_width g \<or> y \<ge> gpu_display_height g
      then (g, say (line_of ''GPU paste position is out of bounds'') s)
      else let w = clipped (gm_clipboard_width c) (gpu_display_width g) x;
               h = clipped (gm_clipboard_height c) (gpu_display_height g) y;
               ps = loop2 (unat h) (unat w)
                      (\<lambda>row col. ((y + of_nat row) * gpu_display_width g + x + of_nat col,
                                  gm_data c (unat (of_nat row * gm_clipboard_width c + of_nat col))))
           in flush_or ''GPU paste flush failed'' dev x y w h g (s\<lparr>d_mem := plot (gpu_framebuffer g) ps (d_mem s)\<rparr>))"

text \<open>
  The loop of \<^verbatim>\<open>gm_line\<close> on signed 64-bit numbers; the endpoints are 32-bit, so none of them overflows
  and they are integers here.
\<close>

partial_function (option) line_loop ::
  "gpu \<Rightarrow> u32 \<Rightarrow> int \<Rightarrow> int \<Rightarrow> int \<Rightarrow> int \<Rightarrow> int \<Rightarrow> int \<Rightarrow> int \<Rightarrow> int \<Rightarrow> int \<Rightarrow> mem \<Rightarrow> mem option" where
  "line_loop g color end_x end_y dx dy step_x step_y x y error m =
     (let m1 = gm_pixel g (of_int x) (of_int y) color m in
      if x = end_x \<and> y = end_y then Some m1
      else let doubled_error = 2 * error;
               (error1, x1) = (if doubled_error \<ge> dy then (error + dy, x + step_x) else (error, x));
               (error2, y1) = (if doubled_error \<le> dx then (error1 + dx, y + step_y) else (error1, y))
           in line_loop g color end_x end_y dx dy step_x step_y x1 y1 error2 m1)"

definition gm_line :: "device \<Rightarrow> u32 \<Rightarrow> u32 \<Rightarrow> u32 \<Rightarrow> u32 \<Rightarrow> u32 \<Rightarrow> gpu \<Rightarrow> drv \<Rightarrow> (gpu \<times> drv) option" where
  "gm_line dev x1 y1 x2 y2 color g s =
     (if x1 \<ge> gpu_display_width g \<or> x2 \<ge> gpu_display_width g \<or> y1 \<ge> gpu_display_height g \<or> y2 \<ge> gpu_display_height g
      then Some (g, say (line_of ''GPU line endpoint is out of bounds'') s)
      else do {
        let x = uint x1; let y = uint y1; let end_x = uint x2; let end_y = uint y2;
        let dx = (if end_x \<ge> x then end_x - x else x - end_x);
        let dy = (if end_y \<ge> y then y - end_y else end_y - y);
        m \<leftarrow> line_loop g color end_x end_y dx dy (if x < end_x then 1 else - 1) (if y < end_y then 1 else - 1)
              x y (dx + dy) (d_mem s);
        let left = (if x1 < x2 then x1 else x2);
        let top = (if y1 < y2 then y1 else y2);
        let width = (if x1 < x2 then x2 - x1 else x1 - x2) + 1;
        let height = (if y1 < y2 then y2 - y1 else y1 - y2) + 1;
        Some (flush_or ''GPU line flush failed'' dev left top width height g (s\<lparr>d_mem := m\<rparr>)) })"

section \<open>The picture\<close>

text \<open>The picture being drawn, by column and row.\<close>

definition pic :: "gpu \<Rightarrow> drv \<Rightarrow> nat \<Rightarrow> nat \<Rightarrow> u32" where
  "pic g s x y = drawn g s (y * unat (gpu_display_width g) + x)"

lemma set_px_get:
  assumes ok: "gpu_ok g" and i: "unat i < pixels g" and j: "j < pixels g"
  shows "get_px (gpu_framebuffer g) (of_nat j) (set_px (gpu_framebuffer g) i c m)
    = (if unat i = j then c else get_px (gpu_framebuffer g) (of_nat j) m)"
proof -
  have sm: "8 * pixels g < 2 ^ 32" and b: "gpu_back_buffer g = 0 \<or> gpu_back_buffer g = 1"
    and fb: "gpu_framebuffer g = buffer_at g (gpu_back_buffer g)" using ok by (auto simp: gpu_ok_def)
  have "fb_addr (gpu_framebuffer g) i = FB + 4 * (unat (gpu_back_buffer g) * pixels g + unat i)"
    using buffer_at_unat [OF sm b i] fb by simp
  moreover note buffer_at_unat [OF sm b j] fb
  ultimately show ?thesis
    by (auto simp: set_px_def get_px_def intro!: read32_put_frame)
qed

lemma plot_Cons: "plot p ((i, c) # ps) m = plot p ps (set_px p i c m)"
  by (simp add: plot_def)

text \<open>A pixel that no write of the series reaches, and one that all writes to it give one colour.\<close>

lemma plot_miss:
  assumes ok: "gpu_ok g" and j: "j < pixels g"
  shows "(\<forall>(i, c)\<in>set ps. unat i < pixels g \<and> unat i \<noteq> j) \<Longrightarrow>
    get_px (gpu_framebuffer g) (of_nat j) (plot (gpu_framebuffer g) ps m) = get_px (gpu_framebuffer g) (of_nat j) m"
proof (induction ps arbitrary: m)
  case (Cons p ps)
  then show ?case using set_px_get [OF ok _ j, of "fst p" "snd p" m] by (cases p) (auto simp: plot_Cons)
qed (simp add: plot_def)

lemma plot_hit:
  assumes ok: "gpu_ok g" and j: "j < pixels g"
  shows "(\<forall>(i, c)\<in>set ps. unat i < pixels g \<and> (unat i = j \<longrightarrow> c = v)) \<Longrightarrow> \<exists>(i, c)\<in>set ps. unat i = j \<Longrightarrow>
    get_px (gpu_framebuffer g) (of_nat j) (plot (gpu_framebuffer g) ps m) = v"
proof (induction ps arbitrary: m)
  case (Cons p ps)
  obtain i c where p: "p = (i, c)" by (cases p)
  show ?case
  proof (cases "\<exists>(i, c)\<in>set ps. unat i = j")
    case True
    then show ?thesis using Cons p by (auto simp: plot_Cons)
  next
    case False
    then have "get_px (gpu_framebuffer g) (of_nat j) (plot (gpu_framebuffer g) ps (set_px (gpu_framebuffer g) i c m))
        = get_px (gpu_framebuffer g) (of_nat j) (set_px (gpu_framebuffer g) i c m)"
      using Cons.prems(1) by (intro plot_miss [OF ok j]) auto
    then show ?thesis using Cons.prems p False set_px_get [OF ok _ j, of i c m] by (auto simp: plot_Cons)
  qed
qed simp

lemma px_index:
  assumes ok: "gpu_ok g" and a: "a < unat (gpu_display_width g)" and b: "b < unat (gpu_display_height g)"
  shows "unat (of_nat b * gpu_display_width g + of_nat a) = b * unat (gpu_display_width g) + a"
    "b * unat (gpu_display_width g) + a < pixels g"
proof -
  let ?W = "unat (gpu_display_width g)"
  have "b * ?W + ?W \<le> ?W * unat (gpu_display_height g)"
    using b by (metis Suc_leI add.commute mult.commute mult_Suc mult_le_mono2)
  then show lt: "b * ?W + a < pixels g" using a by (simp add: pixels_def)
  have "pixels g < 2 ^ 32" using ok by (simp add: gpu_ok_def)
  then have bd: "b * ?W + a < 2 ^ LENGTH(32)" using lt by simp
  have "of_nat b * gpu_display_width g + of_nat a = (of_nat (b * ?W + a) :: u32)" by simp
  then show "unat (of_nat b * gpu_display_width g + of_nat a) = b * ?W + a"
    using unat_of_nat_no_wrap [OF bd] by simp
qed

lemma px_inj: "a < W \<Longrightarrow> a' < W \<Longrightarrow> b * W + a = b' * W + a' \<longleftrightarrow> b = b' \<and> a = (a' :: nat)"
  by (metis add.commute div_mult_self3 div_less mod_mult_self3 mod_less less_nat_zero_code add_cancel_left_right)

lemma loop2_ball: "(\<forall>p\<in>set (loop2 h w f). P p) \<longleftrightarrow> (\<forall>r<h. \<forall>c<w. P (f r c))"
  and loop2_bex: "(\<exists>p\<in>set (loop2 h w f). P p) \<longleftrightarrow> (\<exists>r<h. \<exists>c<w. P (f r c))"
proof -
  have s: "set (loop2 h w f) = (\<Union>r\<in>{..<h}. f r ` {..<w})" by (simp add: loop2_def atLeast0LessThan)
  show "(\<forall>p\<in>set (loop2 h w f). P p) \<longleftrightarrow> (\<forall>r<h. \<forall>c<w. P (f r c))" unfolding s by auto
  show "(\<exists>p\<in>set (loop2 h w f). P p) \<longleftrightarrow> (\<exists>r<h. \<exists>c<w. P (f r c))" unfolding s by auto
qed

text \<open>A rectangle of writes changes exactly its pixels.\<close>

lemma plot_rect:
  assumes ok: "gpu_ok g" and fit: "x + w \<le> unat (gpu_display_width g)" "y + h \<le> unat (gpu_display_height g)"
    and ab: "a < unat (gpu_display_width g)" "b < unat (gpu_display_height g)"
  shows "pic g (s\<lparr>d_mem := plot (gpu_framebuffer g)
      (loop2 h w (\<lambda>r c. (of_nat (y + r) * gpu_display_width g + of_nat (x + c), f r c))) (d_mem s)\<rparr>) a b
    = (if x \<le> a \<and> a < x + w \<and> y \<le> b \<and> b < y + h then f (b - y) (a - x) else pic g s a b)"
proof -
  let ?W = "unat (gpu_display_width g)"
  let ?f = "\<lambda>r c. (of_nat (y + r) * gpu_display_width g + of_nat (x + c), f r c)"
  have idx: "unat (of_nat (y + r) * gpu_display_width g + of_nat (x + c)) = (y + r) * ?W + (x + c)"
    "(y + r) * ?W + (x + c) < pixels g" if "r < h" "c < w" for r c
    using px_index [OF ok, of "x + c" "y + r"] that fit by simp_all
  note j = px_index(2) [OF ok ab]
  show ?thesis
  proof (cases "x \<le> a \<and> a < x + w \<and> y \<le> b \<and> b < y + h")
    case True
    have "get_px (gpu_framebuffer g) (of_nat (b * ?W + a)) (plot (gpu_framebuffer g) (loop2 h w ?f) (d_mem s))
        = f (b - y) (a - x)"
    proof (rule plot_hit [OF ok j])
      show "\<forall>(i, c)\<in>set (loop2 h w ?f). unat i < pixels g \<and> (unat i = b * ?W + a \<longrightarrow> c = f (b - y) (a - x))"
        unfolding loop2_ball
      proof (intro allI impI)
        fix r c assume rc: "r < h" "c < w"
        then have "(y + r) * ?W + (x + c) = b * ?W + a \<longleftrightarrow> y + r = b \<and> x + c = a"
          using fit ab by (intro px_inj) simp_all
        then show "case ?f r c of (i, c) \<Rightarrow> unat i < pixels g \<and> (unat i = b * ?W + a \<longrightarrow> c = f (b - y) (a - x))"
          using idx [OF rc] unfolding prod.case by auto
      qed
      show "\<exists>(i, c)\<in>set (loop2 h w ?f). unat i = b * ?W + a"
        unfolding loop2_bex
      proof (intro exI conjI)
        show "b - y < h" using True by linarith
        show "a - x < w" using True by linarith
        with \<open>b - y < h\<close> show "case ?f (b - y) (a - x) of (i, c) \<Rightarrow> unat i = b * ?W + a"
          using idx [of "b - y" "a - x"] True unfolding prod.case by simp
      qed
    qed
    then show ?thesis using True by (simp add: pic_def drawn_def)
  next
    case False
    have "get_px (gpu_framebuffer g) (of_nat (b * ?W + a)) (plot (gpu_framebuffer g) (loop2 h w ?f) (d_mem s))
        = get_px (gpu_framebuffer g) (of_nat (b * ?W + a)) (d_mem s)"
    proof (rule plot_miss [OF ok j])
      show "\<forall>(i, c)\<in>set (loop2 h w ?f). unat i < pixels g \<and> unat i \<noteq> b * ?W + a"
        unfolding loop2_ball
      proof (intro allI impI)
        fix r c assume rc: "r < h" "c < w"
        then have "(y + r) * ?W + (x + c) = b * ?W + a \<longleftrightarrow> y + r = b \<and> x + c = a"
          using fit ab by (intro px_inj) simp_all
        then show "case ?f r c of (i, c) \<Rightarrow> unat i < pixels g \<and> unat i \<noteq> b * ?W + a"
          using idx [OF rc] rc False unfolding prod.case by auto
      qed
    qed
    then show ?thesis using False by (auto simp: pic_def drawn_def)
  qed
qed

lemma flush_or_pic:
  assumes ok: "gpu_ok g" and r: "flush_or failed dev x y w h g s = (g', s')"
    and ab: "a < unat (gpu_display_width g)" "b < unat (gpu_display_height g)"
  shows "pic g' s' a b = pic g s a b"
proof -
  obtain o1 g1 s1 where f: "gpu_resource_flush dev x y w h g s = (o1, g1, s1)" by (metis prod_cases3)
  obtain bs where s': "g' = g1" "d_mem s' = d_mem s1" using r f by (auto simp: flush_or_def)
  have a: "areas_ok g" using ok by (simp add: gpu_ok_def)
  have dr: "drawn g1 s' = drawn g1 s1" by (simp add: drawn_def s' fun_eq_iff)
  show ?thesis
  proof (rule gpu_flush_cases [OF a f])
    assume "quiet g s g1 s1"
    from quiet_drawn(1) [OF this ok px_index(2) [OF ok ab]] quiet_sel [OF this] show ?thesis
      by (simp add: pic_def s'(1) dr)
  next
    fix g3 s3
    assume q: "quiet g s g3 s3" and sw: "gpu_swap g3 s3 = (g1, s1)"
    from quiet_drawn(1) [OF q ok px_index(2) [OF ok ab]] quiet_sel [OF q] gpu_swap_ok [OF _ sw] ok px_index(2) [OF ok ab]
    show ?thesis by (simp add: pic_def s'(1) dr)
  qed
qed

lemma flush_or_ok:
  assumes ok: "gpu_ok g" and r: "flush_or failed dev x y w h g s = (g', s')"
  shows "gpu_ok g' \<and> gpu_display_width g' = gpu_display_width g \<and> gpu_display_height g' = gpu_display_height g"
proof -
  obtain o1 g1 s1 where f: "gpu_resource_flush dev x y w h g s = (o1, g1, s1)" by (metis prod_cases3)
  have g': "g' = g1" using r f by (auto simp: flush_or_def)
  have a: "areas_ok g" using ok by (simp add: gpu_ok_def)
  show ?thesis unfolding g'
    by (rule gpu_flush_cases [OF a f]) (use ok quiet_sel gpu_swap_ok in metis)+
qed

lemma clipped_fits:
  "x < L \<Longrightarrow> unat x + unat (clipped w L x) \<le> unat L \<and> unat (clipped w L x) = min (unat w) (unat L - unat x)"
  by (auto simp: clipped_def word_less_nat_alt unat_sub_no_wrap word_le_nat_alt min_def)

text \<open>C27: \<open>gm_rect\<close> paints exactly the visible part of its rectangle. On a display that is set up, for any
  position and size, clipping works without wrap-around: in the picture being drawn a pixel of the
  display has the colour if it lies in the rectangle and is as before otherwise, whether or not the
  flush that follows succeeds; a rectangle that starts outside or is empty changes nothing, and the
  display stays well-formed.\<close>

theorem gm_rect_paints:
  assumes ok: "gpu_ok g" and r: "gm_rect dev x y w h color g s = (g', s')"
    and ab: "a < unat (gpu_display_width g)" "b < unat (gpu_display_height g)"
  shows "gpu_ok g' \<and> pic g' s' a b
    = (if unat x \<le> a \<and> a < unat x + unat w \<and> unat y \<le> b \<and> b < unat y + unat h then color else pic g s a b)"
proof (cases "x \<ge> gpu_display_width g \<or> y \<ge> gpu_display_height g \<or> w = 0 \<or> h = 0")
  case True
  then show ?thesis using r ok ab by (auto simp: gm_rect_def word_le_nat_alt)
next
  case False
  let ?w = "clipped w (gpu_display_width g) x" and ?h = "clipped h (gpu_display_height g) y"
  let ?m = "plot (gpu_framebuffer g) (loop2 (unat ?h) (unat ?w)
    (\<lambda>row col. ((y + of_nat row) * gpu_display_width g + (x + of_nat col), color))) (d_mem s)"
  have fl: "flush_or ''GPU partial flush failed'' dev x y ?w ?h g (s\<lparr>d_mem := ?m\<rparr>) = (g', s')"
    using r False by (simp add: gm_rect_def Let_def)
  have c: "unat x + unat ?w \<le> unat (gpu_display_width g)" "unat ?w = min (unat w) (unat (gpu_display_width g) - unat x)"
    "unat y + unat ?h \<le> unat (gpu_display_height g)" "unat ?h = min (unat h) (unat (gpu_display_height g) - unat y)"
    using clipped_fits [of x "gpu_display_width g" w] clipped_fits [of y "gpu_display_height g" h] False by (simp_all add: not_le)
  have e: "(\<lambda>row col. ((y + of_nat row) * gpu_display_width g + (x + of_nat col), color))
      = (\<lambda>r c. (of_nat (unat y + r) * gpu_display_width g + of_nat (unat x + c), color))"
    by simp
  have "pic g (s\<lparr>d_mem := ?m\<rparr>) a b
      = (if unat x \<le> a \<and> a < unat x + unat ?w \<and> unat y \<le> b \<and> b < unat y + unat ?h then color else pic g s a b)"
    using plot_rect [OF ok c(1,3) ab, where s = s and f = "\<lambda>_ _. color"] unfolding e .
  moreover have "(unat x \<le> a \<and> a < unat x + unat ?w \<and> unat y \<le> b \<and> b < unat y + unat ?h)
      = (unat x \<le> a \<and> a < unat x + unat w \<and> unat y \<le> b \<and> b < unat y + unat h)"
    using ab unfolding c(2,4) by auto
  moreover have "pic g' s' a b = pic g (s\<lparr>d_mem := ?m\<rparr>) a b" by (rule flush_or_pic [OF ok fl ab])
  ultimately show ?thesis using flush_or_ok [OF ok fl] by presburger
qed

definition blank_drv :: drv where
  "blank_drv = \<lparr>d_tr = [], d_mem = (\<lambda>_. 0), d_out = []\<rparr>"

lemma gm_rect_paints_witness:
  "\<exists>g' s'. gm_rect (\<lambda>tr a. of_nat (length tr)) 1 0 5 1 0xFF00FF00 tiny_gpu blank_drv = (g', s')
     \<and> pic g' s' 1 0 = 0xFF00FF00"
proof -
  obtain g' s' where r: "gm_rect (\<lambda>tr a. of_nat (length tr)) 1 0 5 1 0xFF00FF00 tiny_gpu blank_drv = (g', s')"
    by (cases "gm_rect (\<lambda>tr a. of_nat (length tr)) 1 0 5 1 0xFF00FF00 tiny_gpu blank_drv")
  from gm_rect_paints [OF tiny_gpu_ok r, of 1 0] r show ?thesis by (simp add: tiny_gpu_def)
qed

section \<open>Lines\<close>

lemma gm_pixel_pic:
  assumes ok: "gpu_ok g" and ab: "a < unat (gpu_display_width g)" "b < unat (gpu_display_height g)"
  shows "pic g (s\<lparr>d_mem := gm_pixel g x y color (d_mem s)\<rparr>) a b
    = (if unat x = a \<and> unat y = b then color else pic g s a b)"
proof (cases "x \<ge> gpu_display_width g \<or> y \<ge> gpu_display_height g")
  case True
  then show ?thesis using ab by (auto simp: gm_pixel_def pic_def drawn_def word_le_nat_alt)
next
  case False
  then have xy: "unat x < unat (gpu_display_width g)" "unat y < unat (gpu_display_height g)"
    by (simp_all add: word_less_nat_alt not_le)
  have i: "unat (y * gpu_display_width g + x) = unat y * unat (gpu_display_width g) + unat x"
    "unat y * unat (gpu_display_width g) + unat x < pixels g"
    using px_index [OF ok xy] by simp_all
  have "pic g (s\<lparr>d_mem := gm_pixel g x y color (d_mem s)\<rparr>) a b
      = (if unat y * unat (gpu_display_width g) + unat x = b * unat (gpu_display_width g) + a then color else pic g s a b)"
    using set_px_get [OF ok _ px_index(2) [OF ok ab], of "y * gpu_display_width g + x" color "d_mem s"] False i
    by (simp add: gm_pixel_def pic_def drawn_def)
  then show ?thesis using px_inj [OF xy(1) ab(1), of "unat y" b] by auto
qed

lemma line_loop_step:
  assumes "\<not> (x = ex \<and> y = ey)"
  shows "line_loop g color ex ey dx dy sx sy x y e m
    = line_loop g color ex ey dx dy sx sy (if 2 * e \<ge> dy then x + sx else x) (if 2 * e \<le> dx then y + sy else y)
        (e + (if 2 * e \<ge> dy then dy else 0) + (if 2 * e \<le> dx then dx else 0)) (gm_pixel g (of_int x) (of_int y) color m)"
  using assms by (subst line_loop.simps) (auto simp: Let_def)

lemma line_error:
  fixes i j dx D :: int
  shows "(j + 1) * dx - (i + 1) * D + (if P then - D else 0) + (if Q then dx else 0)
    = ((if Q then j + 1 else j) + 1) * dx - ((if P then i + 1 else i) + 1) * D"
  by (cases P; cases Q) (simp_all add: algebra_simps)

lemma line_pos: "(if P then x0 + s * i + s else x0 + s * i) = x0 + s * (if P then i + 1 else i)" for x0 s i :: int
  by (simp add: algebra_simps)

text \<open>
  Where the loop stands after \<open>i\<close> steps to the side and \<open>j\<close> steps up or down of the \<open>dx\<close> and \<open>D\<close> to
  take: it never overshoots in either direction.
\<close>

lemma line_loop_ends:
  fixes dx D i j sx sy x0 y0 :: int
  assumes "0 \<le> i" "i \<le> dx" "0 \<le> j" "j \<le> D" "sx = 1 \<or> sx = - 1" "sy = 1 \<or> sy = - 1"
  shows "\<exists>m' ps. line_loop g color (x0 + sx * dx) (y0 + sy * D) dx (- D) sx sy (x0 + sx * i) (y0 + sy * j)
      ((j + 1) * dx - (i + 1) * D) m = Some m'
    \<and> m' = fold (\<lambda>(x, y). gm_pixel g (of_int x) (of_int y) color) ps m
    \<and> (x0 + sx * i, y0 + sy * j) \<in> set ps \<and> (x0 + sx * dx, y0 + sy * D) \<in> set ps
    \<and> (\<forall>(x, y)\<in>set ps. \<exists>i' j'. 0 \<le> i' \<and> i' \<le> dx \<and> 0 \<le> j' \<and> j' \<le> D \<and> x = x0 + sx * i' \<and> y = y0 + sy * j')"
  using assms
proof (induction "nat (dx - i) + nat (D - j)" arbitrary: i j m rule: less_induct)
  case less
  let ?x = "x0 + sx * i" and ?y = "y0 + sy * j" and ?e = "(j + 1) * dx - (i + 1) * D"
  let ?m1 = "gm_pixel g (of_int ?x) (of_int ?y) color m"
  show ?case
  proof (cases "i = dx \<and> j = D")
    case True
    then show ?thesis using less.prems
      by (intro exI [of _ ?m1] exI [of _ "[(?x, ?y)]"]) (auto simp: line_loop.simps)
  next
    case False
    then have stop: "\<not> (?x = x0 + sx * dx \<and> ?y = y0 + sy * D)" using less.prems by auto
    let ?i = "if 2 * ?e \<ge> - D then i + 1 else i" and ?j = "if 2 * ?e \<le> dx then j + 1 else j"
    have nox: "\<not> 2 * ?e \<ge> - D" if "i = dx"
    proof -
      have "j + 1 - D \<le> 0" "0 < D" using that False less.prems by auto
      then have "dx * (j + 1 - D) \<le> 0" using less.prems by (intro mult_nonneg_nonpos) auto
      then show ?thesis using \<open>0 < D\<close> that by (simp add: algebra_simps)
    qed
    have noy: "\<not> 2 * ?e \<le> dx" if "j = D"
    proof -
      have "0 \<le> dx - i - 1" "0 < dx" using that False less.prems by auto
      then have "0 \<le> D * (dx - i - 1)" using less.prems by (intro mult_nonneg_nonneg) auto
      then show ?thesis using \<open>0 < dx\<close> that by (simp add: algebra_simps)
    qed
    have lx: "i + 1 \<le> dx" if "2 * ?e \<ge> - D" 
    proof -
      have "i \<noteq> dx" using nox that by blast
      then show ?thesis using less.prems(2) by linarith
    qed
    have ly: "j + 1 \<le> D" if "2 * ?e \<le> dx" 
    proof -
      have "j \<noteq> D" using noy that by blast
      then show ?thesis using less.prems(4) by linarith
    qed
    have "0 \<le> ?i \<and> ?i \<le> dx"
    proof (cases "2 * ?e \<ge> - D")
      case True
      show ?thesis unfolding if_P [OF True] using lx [OF True] less.prems(1) by linarith
    next
      case False
      show ?thesis unfolding if_not_P [OF False] using less.prems(1,2) by linarith
    qed
    then have i: "0 \<le> ?i" "?i \<le> dx" by blast+
    have "0 \<le> ?j \<and> ?j \<le> D \<and> j \<le> ?j"
    proof (cases "2 * ?e \<le> dx")
      case True
      show ?thesis unfolding if_P [OF True] using ly [OF True] less.prems(3) by linarith
    next
      case False
      show ?thesis unfolding if_not_P [OF False] using less.prems(3,4) by linarith
    qed
    then have j: "0 \<le> ?j" "?j \<le> D" and jj: "j \<le> ?j" by blast+
    have prog: "nat (dx - ?i) + nat (D - ?j) < nat (dx - i) + nat (D - j)"
    proof (cases "2 * ?e \<ge> - D")
      case True
      have "nat (D - ?j) \<le> nat (D - j)" using jj by (intro nat_mono) linarith
      moreover have "nat (dx - (i + 1)) < nat (dx - i)" using lx [OF True] by linarith
      ultimately show ?thesis unfolding if_P [OF True] by linarith
    next
      case False
      then have y: "2 * ?e \<le> dx" using less.prems(1-4) by linarith
      show ?thesis using ly [OF y] less.prems(2,4) unfolding if_P [OF y] if_not_P [OF False] by linarith
    qed
    obtain m' ps where IH: "line_loop g color (x0 + sx * dx) (y0 + sy * D) dx (- D) sx sy (x0 + sx * ?i) (y0 + sy * ?j)
      ((?j + 1) * dx - (?i + 1) * D) ?m1 = Some m'"
      "m' = fold (\<lambda>(x, y). gm_pixel g (of_int x) (of_int y) color) ps ?m1"
      "(x0 + sx * dx, y0 + sy * D) \<in> set ps"
      "\<forall>(x, y)\<in>set ps. \<exists>i' j'. 0 \<le> i' \<and> i' \<le> dx \<and> 0 \<le> j' \<and> j' \<le> D \<and> x = x0 + sx * i' \<and> y = y0 + sy * j'"
      using less.hyps [OF prog i j less.prems(5,6), of ?m1] by (elim exE conjE) (rule that)
    have st: "line_loop g color (x0 + sx * dx) (y0 + sy * D) dx (- D) sx sy ?x ?y ?e m
        = line_loop g color (x0 + sx * dx) (y0 + sy * D) dx (- D) sx sy (x0 + sx * ?i) (y0 + sy * ?j)
            ((?j + 1) * dx - (?i + 1) * D) ?m1"
      unfolding line_loop_step [OF stop] line_error line_pos ..
    show ?thesis
    proof (intro exI conjI)
      show "line_loop g color (x0 + sx * dx) (y0 + sy * D) dx (- D) sx sy ?x ?y ?e m = Some m'" unfolding st by (rule IH(1))
      show "m' = fold (\<lambda>(x, y). gm_pixel g (of_int x) (of_int y) color) ((?x, ?y) # ps) m"
        unfolding fold_Cons comp_apply prod.case by (rule IH(2))
      show "(?x, ?y) \<in> set ((?x, ?y) # ps)" by simp
      show "(x0 + sx * dx, y0 + sy * D) \<in> set ((?x, ?y) # ps)" using IH(3) by simp
      have "\<exists>i' j'. 0 \<le> i' \<and> i' \<le> dx \<and> 0 \<le> j' \<and> j' \<le> D \<and> ?x = x0 + sx * i' \<and> ?y = y0 + sy * j'"
        using less.prems(1-4) by blast
      then show "\<forall>(x, y)\<in>set ((?x, ?y) # ps). \<exists>i' j'. 0 \<le> i' \<and> i' \<le> dx \<and> 0 \<le> j' \<and> j' \<le> D \<and> x = x0 + sx * i' \<and> y = y0 + sy * j'"
        using IH(4) unfolding list.set by blast
    qed
  qed
qed

lemma fold_pixels_pic:
  assumes ok: "gpu_ok g" and ab: "a < unat (gpu_display_width g)" "b < unat (gpu_display_height g)"
  shows "pic g (s\<lparr>d_mem := fold (\<lambda>(x, y). gm_pixel g (of_int x) (of_int y) color) ps (d_mem s)\<rparr>) a b
    = (if \<exists>(x, y)\<in>set ps. unat (of_int x :: u32) = a \<and> unat (of_int y :: u32) = b then color else pic g s a b)"
proof (induction ps arbitrary: s)
  case Nil
  then show ?case by simp
next
  case (Cons p ps)
  obtain x y where p: "p = (x, y)" by (cases p)
  let ?s = "s\<lparr>d_mem := gm_pixel g (of_int x) (of_int y) color (d_mem s)\<rparr>"
  from Cons.IH [of ?s] have "pic g (s\<lparr>d_mem := fold (\<lambda>(x, y). gm_pixel g (of_int x) (of_int y) color) (p # ps) (d_mem s)\<rparr>) a b
      = (if \<exists>(x, y)\<in>set ps. unat (of_int x :: u32) = a \<and> unat (of_int y :: u32) = b then color else pic g ?s a b)"
    by (simp add: p)
  then show ?case unfolding gm_pixel_pic [OF ok ab] by (auto simp: p)
qed

lemma uint_of_int_u32: "0 \<le> z \<Longrightarrow> z < 2 ^ 32 \<Longrightarrow> uint (of_int z :: u32) = z"
  by (simp add: uint_word_of_int)

text \<open>A coordinate between the two endpoints, as a word.\<close>

lemma between_unat:
  fixes u v :: u32
  assumes "0 \<le> k" "k \<le> \<bar>uint v - uint u\<bar>"
  shows "unat (of_int (uint u + (if uint u < uint v then 1 else - 1) * k) :: u32)
    = nat (uint u + (if uint u < uint v then 1 else - 1) * k)"
    "min (unat u) (unat v) \<le> unat (of_int (uint u + (if uint u < uint v then 1 else - 1) * k) :: u32)"
    "unat (of_int (uint u + (if uint u < uint v then 1 else - 1) * k) :: u32) \<le> max (unat u) (unat v)"
proof -
  let ?z = "uint u + (if uint u < uint v then 1 else - 1) * k"
  have uv: "uint u < 2 ^ 32" "uint v < 2 ^ 32" using uint_lt2p [of u] uint_lt2p [of v] by simp_all
  have nn: "0 \<le> uint u" "0 \<le> uint v" by simp_all
  have z: "min (uint u) (uint v) \<le> ?z" "?z \<le> max (uint u) (uint v)" using assms by (auto simp: min_def max_def)
  then have "0 \<le> ?z" "?z < 2 ^ 32" using uv nn by linarith+
  then have "uint (of_int ?z :: u32) = ?z" by (rule uint_of_int_u32)
  then show 1: "unat (of_int ?z :: u32) = nat ?z" by (metis unat_eq_nat_uint)
  show "min (unat u) (unat v) \<le> unat (of_int ?z :: u32)" "unat (of_int ?z :: u32) \<le> max (unat u) (unat v)"
    unfolding 1 unfolding unat_eq_nat_uint using z by linarith+
qed

text \<open>C28: \<open>gm_line\<close> returns and draws from endpoint to endpoint. Between any two points of the display,
  steep, flat, reversed or equal, the loop of \<open>gm_line\<close> ends - it never steps past the endpoint in
  either direction - both endpoints get the colour, every other pixel that changes gets the colour
  and lies in the rectangle the endpoints span, and the display stays well-formed whatever the device
  answers to the flush.\<close>

theorem gm_line_ends:
  assumes ok: "gpu_ok g"
    and p1: "x1 < gpu_display_width g" "y1 < gpu_display_height g"
    and p2: "x2 < gpu_display_width g" "y2 < gpu_display_height g"
  shows "\<exists>g' s'. gm_line dev x1 y1 x2 y2 color g s = Some (g', s') \<and> gpu_ok g'
    \<and> pic g' s' (unat x1) (unat y1) = color \<and> pic g' s' (unat x2) (unat y2) = color
    \<and> (\<forall>a<unat (gpu_display_width g). \<forall>b<unat (gpu_display_height g). pic g' s' a b = pic g s a b
         \<or> pic g' s' a b = color \<and> min (unat x1) (unat x2) \<le> a \<and> a \<le> max (unat x1) (unat x2)
           \<and> min (unat y1) (unat y2) \<le> b \<and> b \<le> max (unat y1) (unat y2))"
proof -
  let ?sx = "if uint x1 < uint x2 then 1 else - 1 :: int" and ?sy = "if uint y1 < uint y2 then 1 else - 1 :: int"
  let ?dx = "\<bar>uint x2 - uint x1\<bar>" and ?D = "\<bar>uint y2 - uint y1\<bar>"
  let ?px = "\<lambda>(x, y). gm_pixel g (of_int x) (of_int y) color"
  have e: "uint x1 + ?sx * ?dx = uint x2" "uint y1 + ?sy * ?D = uint y2" by auto
  have sg: "?sx = 1 \<or> ?sx = - 1" "?sy = 1 \<or> ?sy = - 1" by simp_all
  obtain m ps where m: "line_loop g color (uint x2) (uint y2) ?dx (- ?D) ?sx ?sy (uint x1) (uint y1) (?dx - ?D) (d_mem s) = Some m"
    "m = fold ?px ps (d_mem s)" "(uint x1, uint y1) \<in> set ps" "(uint x2, uint y2) \<in> set ps"
    "\<forall>(x, y)\<in>set ps. \<exists>i' j'. 0 \<le> i' \<and> i' \<le> ?dx \<and> 0 \<le> j' \<and> j' \<le> ?D \<and> x = uint x1 + ?sx * i' \<and> y = uint y1 + ?sy * j'"
    using line_loop_ends [of 0 ?dx 0 ?D ?sx ?sy g color "uint x1" "uint y1" "d_mem s", OF _ _ _ _ sg] unfolding e by auto
  have dxy: "(if uint x2 \<ge> uint x1 then uint x2 - uint x1 else uint x1 - uint x2) = ?dx"
    "(if uint y2 \<ge> uint y1 then uint y1 - uint y2 else uint y2 - uint y1) = - ?D" by auto
  obtain g' s' where fl: "flush_or ''GPU line flush failed'' dev (if x1 < x2 then x1 else x2) (if y1 < y2 then y1 else y2)
      ((if x1 < x2 then x2 - x1 else x1 - x2) + 1) ((if y1 < y2 then y2 - y1 else y1 - y2) + 1) g (s\<lparr>d_mem := m\<rparr>) = (g', s')"
    by fastforce
  have run: "gm_line dev x1 y1 x2 y2 color g s = Some (g', s')"
    using p1 p2 m(1) fl unfolding gm_line_def Let_def dxy by (simp add: not_le)
  have pic: "pic g' s' a b = (if \<exists>(x, y)\<in>set ps. unat (of_int x :: u32) = a \<and> unat (of_int y :: u32) = b then color else pic g s a b)"
    if "a < unat (gpu_display_width g)" "b < unat (gpu_display_height g)" for a b
    unfolding flush_or_pic [OF ok fl that] m(2) by (rule fold_pixels_pic [OF ok that])
  have inside: "min (unat x1) (unat x2) \<le> unat (of_int x :: u32) \<and> unat (of_int x :: u32) \<le> max (unat x1) (unat x2)
      \<and> min (unat y1) (unat y2) \<le> unat (of_int y :: u32) \<and> unat (of_int y :: u32) \<le> max (unat y1) (unat y2)"
    if mem: "(x, y) \<in> set ps" for x y
  proof -
    obtain i j where "0 \<le> i" "i \<le> ?dx" "0 \<le> j" "j \<le> ?D" and xy: "x = uint x1 + ?sx * i" "y = uint y1 + ?sy * j"
      using bspec [OF m(5) mem] unfolding prod.case by blast
    then show ?thesis unfolding xy by (intro conjI between_unat)
  qed
  have "pic g' s' (unat x1) (unat y1) = color" "pic g' s' (unat x2) (unat y2) = color"
    using pic [of "unat x1" "unat y1"] pic [of "unat x2" "unat y2"] p1 p2 m(3,4) by (force simp: word_less_nat_alt)+
  moreover have "pic g' s' a b = pic g s a b
      \<or> pic g' s' a b = color \<and> min (unat x1) (unat x2) \<le> a \<and> a \<le> max (unat x1) (unat x2)
        \<and> min (unat y1) (unat y2) \<le> b \<and> b \<le> max (unat y1) (unat y2)"
    if "a < unat (gpu_display_width g)" "b < unat (gpu_display_height g)" for a b
    using pic [OF that] inside by (auto split: if_splits)
  ultimately show ?thesis using run flush_or_ok [OF ok fl] by blast
qed

lemma gm_line_ends_witness:
  "\<exists>g' s'. gm_line (\<lambda>tr a. of_nat (length tr)) 1 1 0 0 0xFFFFFFFF tiny_gpu blank_drv = Some (g', s')
     \<and> pic g' s' 0 0 = 0xFFFFFFFF"
  using gm_line_ends [OF tiny_gpu_ok, of 1 1 0 0 "\<lambda>tr a. of_nat (length tr)" "0xFFFFFFFF" blank_drv]
  by (auto simp: tiny_gpu_def)

lemma tiny_gpu_size: "gpu_display_width tiny_gpu = 2" "gpu_display_height tiny_gpu = 2"
  by (simp_all add: tiny_gpu_def)

section \<open>The clipboard\<close>

lemma fold_upd_miss: "(\<forall>(i, v)\<in>set ps. i \<noteq> j) \<Longrightarrow> fold (\<lambda>(i, v) d. d(i := v)) ps d j = d j"
  by (induction ps arbitrary: d) auto

lemma fold_upd_hit:
  "(\<forall>(i, v)\<in>set ps. i = j \<longrightarrow> v = w) \<Longrightarrow> \<exists>(i, v)\<in>set ps. i = j \<Longrightarrow> fold (\<lambda>(i, v) d. d(i := v)) ps d j = w"
proof (induction ps arbitrary: d)
  case (Cons p ps)
  obtain i v where p: "p = (i, v)" by (cases p)
  show ?case
  proof (cases "\<exists>(i, v)\<in>set ps. i = j")
    case True
    with Cons p show ?thesis by simp
  next
    case False
    then have "fold (\<lambda>(i, v) d. d(i := v)) (p # ps) d j = (d(i := v)) j"
      unfolding p fold_Cons comp_apply prod.case by (intro fold_upd_miss) auto
    moreover have "i = j" "v = w" using False Cons.prems p by auto
    ultimately show ?thesis by (simp only: fun_upd_same)
  qed
qed simp

text \<open>The contents of the clipboard after the two loops.\<close>

lemma clip_data:
  assumes "r < h" "c < w" and idx: "\<And>r c. r < h \<Longrightarrow> c < w \<Longrightarrow> f r c = r * w + c"
  shows "fold (\<lambda>(i, v) d. d(i := v)) (loop2 h w (\<lambda>r c. (f r c, v r c))) d (r * w + c) = v r c"
proof (rule fold_upd_hit)
  show "\<forall>(i, u)\<in>set (loop2 h w (\<lambda>r c. (f r c, v r c))). i = r * w + c \<longrightarrow> u = v r c"
    unfolding loop2_ball using idx px_inj [of _ w c] assms(1,2) by auto
  show "\<exists>(i, u)\<in>set (loop2 h w (\<lambda>r c. (f r c, v r c))). i = r * w + c"
    unfolding loop2_bex using idx assms(1,2) by auto
qed

text \<open>An index into the clipboard does not wrap.\<close>

lemma clip_index:
  assumes ok: "gpu_ok g" and W: "unat w \<le> unat (gpu_display_width g)" "unat h \<le> unat (gpu_display_height g)"
    and rc: "row < unat h" "col < unat w"
  shows "unat (of_nat row * w + of_nat col :: u32) = row * unat w + col"
proof -
  have "row * unat w + col < (row + 1) * unat w" using rc(2) unfolding distrib_right by linarith
  also have "... \<le> unat (gpu_display_height g) * unat (gpu_display_width g)"
    using rc(1) W by (intro mult_le_mono) linarith+
  also have "... = pixels g" by (simp add: pixels_def)
  also have "... < 2 ^ 32" using ok by (simp add: gpu_ok_def)
  finally have "unat (of_nat (row * unat w + col) :: u32) = row * unat w + col" by (intro unat_of_nat_no_wrap) simp
  then show ?thesis by simp
qed

definition clip_ok :: "gm \<Rightarrow> heap \<Rightarrow> bool" where
  "clip_ok c h \<longleftrightarrow> (case gm_clipboard c of None \<Rightarrow> True | Some a \<Rightarrow> \<exists>n. (a, n) \<in> live h)"

text \<open>What a successful copy leaves in the clipboard.\<close>

definition holds :: "gm \<Rightarrow> nat \<Rightarrow> nat \<Rightarrow> (nat \<Rightarrow> nat \<Rightarrow> u32) \<Rightarrow> bool" where
  "holds c w h f \<longleftrightarrow> gm_clipboard c \<noteq> None \<and> unat (gm_clipboard_width c) = w \<and> unat (gm_clipboard_height c) = h
     \<and> (\<forall>row<h. \<forall>col<w. gm_data c (row * w + col) = f col row)"

lemma span_unat: "u \<le> v \<Longrightarrow> v < L \<Longrightarrow> unat (v - u + 1 :: u32) = unat v - unat u + 1"
proof -
  assume a: "u \<le> v" "v < L"
  have "unat (v - u) = unat v - unat u" using a by (simp add: unat_sub_no_wrap)
  moreover have "unat v < unat L" "unat L < 2 ^ 32" using a unat_lt_pow [of L] by (simp_all add: word_less_nat_alt)
  ultimately show ?thesis using unat_Suc_no_wrap [of "v - u"] by simp
qed

lemma gm_copy_holds:
  assumes ok: "gpu_ok g" and hp: "heap_inv h" "clip_ok c h"
    and rect: "x1 \<le> x2" "y1 \<le> y2" "x2 < gpu_display_width g" "y2 < gpu_display_height g"
  shows "\<exists>c' h' s1. gm_copy x1 y1 x2 y2 g c h s = Some (c', h', s1) \<and> heap_inv h' \<and> clip_ok c' h'
    \<and> d_mem s1 = d_mem s
    \<and> (c' = c \<and> h' = h \<and> d_out s1 \<noteq> d_out s \<or> holds c' (unat x2 - unat x1 + 1) (unat y2 - unat y1 + 1) (\<lambda>a b. pic g s (unat x1 + a) (unat y1 + b)))"
proof -
  let ?w = "x2 - x1 + 1" and ?h = "y2 - y1 + 1"
  let ?n = "ucast ?w * ucast ?h * 4 :: u64"
  note wh = span_unat [OF rect(1,3)] span_unat [OF rect(2,4)]
  show ?thesis
  proof (cases "?n > 0xFFFFFFFF - of_nat HDR")
    case True
    then have "gm_copy x1 y1 x2 y2 g c h s = Some (c, h, say (line_of ''GPU copy rectangle is too large'') s)"
      using rect by (simp add: gm_copy_def Let_def not_less)
    then show ?thesis using hp by (intro exI [of _ c] exI [of _ h]) (auto simp: line_of_def)
  next
    case False
    then have n: "unat ?n \<le> 4294967271" by (simp add: HDR_def not_less word_le_nat_alt)
    then have fit: "fits (ucast ?n :: u32)"
      unfolding fits_def unsigned_ucast_eq by (simp add: take_bit_nat_eq_self HDR_def)
    show ?thesis
    proof (cases rule: hp.malloc_cases [OF hp(1) fit])
      case 1
      then have "gm_copy x1 y1 x2 y2 g c h s = Some (c, h, say (line_of ''GPU clipboard allocation failed'') s)"
        using rect False by (simp add: gm_copy_def Let_def not_less)
      then show ?thesis using hp by (intro exI [of _ c] exI [of _ h]) (auto simp: line_of_def)
    next
      case (2 a n h1)
      let ?d = "fold (\<lambda>(i, v) d. d(i := v)) (loop2 (unat ?h) (unat ?w) (\<lambda>row col.
        (unat (of_nat row * ?w + of_nat col),
         get_px (gpu_framebuffer g) ((y1 + of_nat row) * gpu_display_width g + x1 + of_nat col) (d_mem s)))) (\<lambda>_. 0)"
      let ?c = "\<lparr>gm_clipboard = Some a, gm_clipboard_width = ?w, gm_clipboard_height = ?h, gm_data = ?d\<rparr>"
      have "\<exists>h2. heap_free h1 (gm_clipboard c) = Some h2 \<and> heap_inv h2 \<and> (a, n) \<in> live h2"
      proof (cases "gm_clipboard c")
        case None
        then show ?thesis using 2 hp.free_null [of h1] by auto
      next
        case (Some b)
        then obtain k where k: "(b, k) \<in> live h" using hp(2) by (auto simp: clip_ok_def)
        then have "b \<noteq> a" using 2(4) by (force simp: hp.addrs_def)
        then show ?thesis using hp.free_ok [OF 2(2), of b k] 2(5) k Some by auto
      qed
      then obtain h2 where h2: "heap_free h1 (gm_clipboard c) = Some h2" "heap_inv h2" "(a, n) \<in> live h2" by blast
      have run: "gm_copy x1 y1 x2 y2 g c h s = Some (?c, h2, s)"
        using rect False 2(1) h2(1) by (simp add: gm_copy_def Let_def not_less)
      have W: "unat ?w \<le> unat (gpu_display_width g)" "unat ?h \<le> unat (gpu_display_height g)"
        using wh rect by (simp_all add: word_less_nat_alt)
      note idx = clip_index [OF ok W]
      have px: "get_px (gpu_framebuffer g) ((y1 + of_nat row) * gpu_display_width g + x1 + of_nat col) (d_mem s)
          = pic g s (unat x1 + col) (unat y1 + row)" for row col
        by (simp add: pic_def drawn_def add.assoc)
      have "holds ?c (unat x2 - unat x1 + 1) (unat y2 - unat y1 + 1) (\<lambda>a b. pic g s (unat x1 + a) (unat y1 + b))"
        unfolding holds_def wh [symmetric]
      proof (intro conjI allI impI)
        fix row col assume rc: "row < unat ?h" "col < unat ?w"
        have "?d (row * unat ?w + col) = get_px (gpu_framebuffer g) ((y1 + of_nat row) * gpu_display_width g + x1 + of_nat col) (d_mem s)"
          by (rule clip_data [OF rc idx])
        then show "gm_data ?c (row * unat ?w + col) = pic g s (unat x1 + col) (unat y1 + row)" unfolding px by simp
      qed simp_all
      then show ?thesis using run h2 by (intro exI conjI) (auto simp: clip_ok_def)
    qed
  qed
qed

text \<open>A paste shows what the clipboard holds.\<close>

lemma gm_paste_shows:
  assumes ok: "gpu_ok g" and rect: "x1 \<le> x2" "y1 \<le> y2" "x2 < gpu_display_width g" "y2 < gpu_display_height g"
    and at: "x < gpu_display_width g" "y < gpu_display_height g" and mem: "d_mem s1 = d_mem s"
    and hd: "holds c' (unat x2 - unat x1 + 1) (unat y2 - unat y1 + 1) (\<lambda>a b. pic g s (unat x1 + a) (unat y1 + b))"
    and p: "gm_paste dev x y c' g s1 = (g', s')"
    and ab: "a < unat (gpu_display_width g)" "b < unat (gpu_display_height g)"
  shows "gpu_ok g' \<and> pic g' s' a b
    = (if unat x \<le> a \<and> a - unat x \<le> unat x2 - unat x1 \<and> unat y \<le> b \<and> b - unat y \<le> unat y2 - unat y1
       then pic g s (unat x1 + (a - unat x)) (unat y1 + (b - unat y)) else pic g s a b)"
proof -
  let ?W = "gpu_display_width g" and ?H = "gpu_display_height g"
  let ?w = "clipped (gm_clipboard_width c') ?W x" and ?h = "clipped (gm_clipboard_height c') ?H y"
  let ?f = "\<lambda>row col. gm_data c' (unat (of_nat row * gm_clipboard_width c' + of_nat col))"
  let ?m = "plot (gpu_framebuffer g) (loop2 (unat ?h) (unat ?w)
    (\<lambda>row col. ((y + of_nat row) * ?W + x + of_nat col, ?f row col))) (d_mem s1)"
  have fl: "flush_or ''GPU paste flush failed'' dev x y ?w ?h g (s1\<lparr>d_mem := ?m\<rparr>) = (g', s')"
  proof -
    have "gm_clipboard c' \<noteq> None" "\<not> x \<ge> ?W" "\<not> y \<ge> ?H" using hd at by (auto simp: holds_def)
    then show ?thesis using p unfolding gm_paste_def Let_def by (simp only: if_False simp_thms)
  qed
  have e: "(\<lambda>row col. ((y + of_nat row) * ?W + x + of_nat col, ?f row col))
      = (\<lambda>r c. (of_nat (unat y + r) * ?W + of_nat (unat x + c), ?f r c))"
    by (simp add: add.assoc)
  note cl = clipped_fits [OF at(1), of "gm_clipboard_width c'"] clipped_fits [OF at(2), of "gm_clipboard_height c'"]
  have "pic g' s' a b = pic g (s1\<lparr>d_mem := ?m\<rparr>) a b" by (rule flush_or_pic [OF ok fl ab])
  also have "... = (if unat x \<le> a \<and> a < unat x + unat ?w \<and> unat y \<le> b \<and> b < unat y + unat ?h
      then ?f (b - unat y) (a - unat x) else pic g s1 a b)"
    unfolding e by (rule plot_rect [OF ok _ _ ab]) (use cl in auto)
  also have "pic g s1 a b = pic g s a b" by (simp add: pic_def drawn_def mem)
  finally have eq: "pic g' s' a b = (if unat x \<le> a \<and> a < unat x + unat ?w \<and> unat y \<le> b \<and> b < unat y + unat ?h
      then ?f (b - unat y) (a - unat x) else pic g s a b)" .
  have d: "unat (gm_clipboard_width c') = unat x2 - unat x1 + 1" "unat (gm_clipboard_height c') = unat y2 - unat y1 + 1"
    "\<And>row col. row < unat y2 - unat y1 + 1 \<Longrightarrow> col < unat x2 - unat x1 + 1 \<Longrightarrow>
      gm_data c' (row * (unat x2 - unat x1 + 1) + col) = pic g s (unat x1 + col) (unat y1 + row)"
    using hd unfolding holds_def by blast+
  have W: "unat (gm_clipboard_width c') \<le> unat ?W" "unat (gm_clipboard_height c') \<le> unat ?H"
    using d(1,2) rect by (simp_all add: word_less_nat_alt)
  have f: "?f (b - unat y) (a - unat x) = pic g s (unat x1 + (a - unat x)) (unat y1 + (b - unat y))"
    if "b - unat y < unat y2 - unat y1 + 1" "a - unat x < unat x2 - unat x1 + 1"
  proof -
    have rc: "b - unat y < unat (gm_clipboard_height c')" "a - unat x < unat (gm_clipboard_width c')"
      using that unfolding d(1,2) .
    show ?thesis unfolding clip_index [OF ok W rc] d(1) by (rule d(3) [OF that])
  qed
  let ?In = "unat x \<le> a \<and> a - unat x \<le> unat x2 - unat x1 \<and> unat y \<le> b \<and> b - unat y \<le> unat y2 - unat y1"
  have cw: "unat ?w = min (unat x2 - unat x1 + 1) (unat ?W - unat x)" "unat ?h = min (unat y2 - unat y1 + 1) (unat ?H - unat y)"
    using cl unfolding d(1,2) by blast+
  have "(unat x \<le> a \<and> a < unat x + unat ?w \<and> unat y \<le> b \<and> b < unat y + unat ?h) = ?In"
    unfolding cw using ab by (intro iffI conjI; elim conjE; linarith)
  then have "pic g' s' a b = (if ?In then ?f (b - unat y) (a - unat x) else pic g s a b)" unfolding eq by presburger
  moreover have "?f (b - unat y) (a - unat x) = pic g s (unat x1 + (a - unat x)) (unat y1 + (b - unat y))" if ?In
    by (rule f) (use that in linarith)+
  ultimately show ?thesis using flush_or_ok [OF ok fl] by presburger
qed



end
