(* ===== verification/Glyphs.thy ===== *)
theory Glyphs
  imports Prelude
begin

text \<open>
  The glyphs of \<^verbatim>\<open>src/tools/font.c\<close>, eight rows of eight pixels each, the leftmost pixel in the top bit of
  a row, and the table that maps the printable characters to them.
\<close>

definition font_MISS :: "u8 list" where
  "font_MISS = [0b11111111, 0b10000001, 0b10111101, 0b10100101,
     0b10100101, 0b11011011, 0b10000001, 0b11111111]"

definition font_NULL :: "u8 list" where
  "font_NULL = [0b00000000, 0b00000000, 0b00000000, 0b00000000,
     0b00000000, 0b00000000, 0b00000000, 0b00000000]"

definition font_EXCL :: "u8 list" where
  "font_EXCL = [0b00011000, 0b00011000, 0b00011000, 0b00011000,
     0b00000000, 0b00011000, 0b00000000, 0b00000000]"

definition font_DBLQ :: "u8 list" where
  "font_DBLQ = [0b00101000, 0b00101000, 0b00000000, 0b00000000,
     0b00000000, 0b00000000, 0b00000000, 0b00000000]"

definition font_HASH :: "u8 list" where
  "font_HASH = [0b00100100, 0b01111110, 0b00100100, 0b00100100,
     0b01111110, 0b00100100, 0b00000000, 0b00000000]"

definition font_DLRS :: "u8 list" where
  "font_DLRS = [0b00010000, 0b00111110, 0b01010000, 0b00111100,
     0b00010010, 0b01111100, 0b00010000, 0b00000000]"

definition font_PERC :: "u8 list" where
  "font_PERC = [0b01100010, 0b01100100, 0b00001000, 0b00010000,
     0b00100110, 0b01000110, 0b00000000, 0b00000000]"

definition font_AMPR :: "u8 list" where
  "font_AMPR = [0b00111000, 0b01000100, 0b00101000, 0b00110000,
     0b01001000, 0b01110100, 0b00000000, 0b00000000]"

definition font_APOS :: "u8 list" where
  "font_APOS = [0b00010000, 0b00010000, 0b00000000, 0b00000000,
     0b00000000, 0b00000000, 0b00000000, 0b00000000]"

definition font_LPAR :: "u8 list" where
  "font_LPAR = [0b00011000, 0b00100000, 0b00100000, 0b00100000,
     0b00100000, 0b00011000, 0b00000000, 0b00000000]"

definition font_RPAR :: "u8 list" where
  "font_RPAR = [0b00011000, 0b00000100, 0b00000100, 0b00000100,
     0b00000100, 0b00011000, 0b00000000, 0b00000000]"

definition font_ASTR :: "u8 list" where
  "font_ASTR = [0b00010000, 0b00101000, 0b00010000, 0b00000000,
     0b00000000, 0b00000000, 0b00000000, 0b00000000]"

definition font_PLUS :: "u8 list" where
  "font_PLUS = [0b00010000, 0b00010000, 0b01111100, 0b00010000,
     0b00010000, 0b00000000, 0b00000000, 0b00000000]"

definition font_COMM :: "u8 list" where
  "font_COMM = [0b00000000, 0b00000000, 0b00000000, 0b00000000,
     0b00011000, 0b00011000, 0b00001000, 0b00000000]"

definition font_MINS :: "u8 list" where
  "font_MINS = [0b00000000, 0b00000000, 0b00111100, 0b00000000,
     0b00000000, 0b00000000, 0b00000000, 0b00000000]"

definition font_DOTS :: "u8 list" where
  "font_DOTS = [0b00000000, 0b00000000, 0b00000000, 0b00000000,
     0b00011000, 0b00011000, 0b00000000, 0b00000000]"

definition font_SLSH :: "u8 list" where
  "font_SLSH = [0b00000010, 0b00000110, 0b00001100, 0b00011000,
     0b00110000, 0b01100000, 0b00000000, 0b00000000]"

definition font_0 :: "u8 list" where
  "font_0 = [0b00011000, 0b00100100, 0b00101100, 0b00110100,
     0b00100100, 0b00011000, 0b00000000, 0b00000000]"

definition font_1 :: "u8 list" where
  "font_1 = [0b00011000, 0b00111000, 0b00001000, 0b00001000,
     0b00001000, 0b00111110, 0b00000000, 0b00000000]"

definition font_2 :: "u8 list" where
  "font_2 = [0b00111000, 0b01000100, 0b00001000, 0b00010000,
     0b00100000, 0b01111110, 0b00000000, 0b00000000]"

definition font_3 :: "u8 list" where
  "font_3 = [0b00111000, 0b00000100, 0b00111000, 0b00000100,
     0b00000100, 0b00111000, 0b00000000, 0b00000000]"

definition font_4 :: "u8 list" where
  "font_4 = [0b00101000, 0b00101000, 0b01001000, 0b01111110,
     0b00001000, 0b00001000, 0b00000000, 0b00000000]"

definition font_5 :: "u8 list" where
  "font_5 = [0b00111110, 0b00100000, 0b00011100, 0b00000010,
     0b00100010, 0b00011100, 0b00000000, 0b00000000]"

definition font_6 :: "u8 list" where
  "font_6 = [0b00111100, 0b00000010, 0b00111110, 0b01000010,
     0b01000010, 0b00111100, 0b00000000, 0b00000000]"

definition font_7 :: "u8 list" where
  "font_7 = [0b01111100, 0b00000100, 0b00001000, 0b00010000,
     0b00010000, 0b00010000, 0b00000000, 0b00000000]"

definition font_8 :: "u8 list" where
  "font_8 = [0b00111000, 0b01000100, 0b00111000, 0b01000100,
     0b01000100, 0b00111000, 0b00000000, 0b00000000]"

definition font_9 :: "u8 list" where
  "font_9 = [0b00111000, 0b01000100, 0b00111100, 0b00000100,
     0b01000100, 0b00111000, 0b00000000, 0b00000000]"

definition font_COLN :: "u8 list" where
  "font_COLN = [0b00011000, 0b00011000, 0b00000000, 0b00011000,
     0b00011000, 0b00000000, 0b00000000, 0b00000000]"

definition font_SCLN :: "u8 list" where
  "font_SCLN = [0b00011000, 0b00011000, 0b00000000, 0b00011000,
     0b00011000, 0b00001000, 0b00000000, 0b00000000]"

definition font_LESS :: "u8 list" where
  "font_LESS = [0b00011100, 0b00110000, 0b01100000, 0b00110000,
     0b00011100, 0b00000000, 0b00000000, 0b00000000]"

definition font_EQUL :: "u8 list" where
  "font_EQUL = [0b00000000, 0b01111110, 0b00000000, 0b00000000,
     0b01111110, 0b00000000, 0b00000000, 0b00000000]"

definition font_GRTR :: "u8 list" where
  "font_GRTR = [0b00111000, 0b00001100, 0b00000110, 0b00001100,
     0b00111000, 0b00000000, 0b00000000, 0b00000000]"

definition font_QUES :: "u8 list" where
  "font_QUES = [0b00011000, 0b00001100, 0b00011000, 0b00000000,
     0b00011000, 0b00000000, 0b00000000, 0b00000000]"

definition font_ATSN :: "u8 list" where
  "font_ATSN = [0b00111100, 0b01000010, 0b01011010, 0b01011100,
     0b01000000, 0b00111110, 0b00000000, 0b00000000]"

definition font_A :: "u8 list" where
  "font_A = [0b00011000, 0b00111100, 0b01100110, 0b01111110,
     0b01000010, 0b01000010, 0b00000000, 0b00000000]"

definition font_B :: "u8 list" where
  "font_B = [0b01111100, 0b01000010, 0b01111100, 0b01000010,
     0b01000010, 0b01111100, 0b00000000, 0b00000000]"

definition font_C :: "u8 list" where
  "font_C = [0b00111110, 0b01100000, 0b01000000, 0b01000000,
     0b01100000, 0b00111110, 0b00000000, 0b00000000]"

definition font_D :: "u8 list" where
  "font_D = [0b01111100, 0b01000010, 0b01000010, 0b01000010,
     0b01000010, 0b01111100, 0b00000000, 0b00000000]"

definition font_E :: "u8 list" where
  "font_E = [0b01111110, 0b01000000, 0b01111110, 0b01000000,
     0b01000000, 0b01111110, 0b00000000, 0b00000000]"

definition font_F :: "u8 list" where
  "font_F = [0b01111110, 0b01000000, 0b01111110, 0b01000000,
     0b01000000, 0b01000000, 0b00000000, 0b00000000]"

definition font_G :: "u8 list" where
  "font_G = [0b00111100, 0b01100000, 0b01000000, 0b01000110,
     0b01100110, 0b00111010, 0b00000000, 0b00000000]"

definition font_H :: "u8 list" where
  "font_H = [0b01000010, 0b01000010, 0b01111110, 0b01000010,
     0b01000010, 0b01000010, 0b00000000, 0b00000000]"

definition font_I :: "u8 list" where
  "font_I = [0b01111100, 0b00010000, 0b00010000, 0b00010000,
     0b00010000, 0b01111100, 0b00000000, 0b00000000]"

definition font_J :: "u8 list" where
  "font_J = [0b01111100, 0b00010000, 0b00010000, 0b00010000,
     0b01010000, 0b01110000, 0b00000000, 0b00000000]"

definition font_K :: "u8 list" where
  "font_K = [0b01000110, 0b01001100, 0b01111000, 0b01001100,
     0b01000110, 0b01000010, 0b00000000, 0b00000000]"

definition font_L :: "u8 list" where
  "font_L = [0b01000000, 0b01000000, 0b01000000, 0b01000000,
     0b01000000, 0b01111110, 0b00000000, 0b00000000]"

definition font_M :: "u8 list" where
  "font_M = [0b01100011, 0b01110101, 0b01011101, 0b01001001,
     0b01000001, 0b01000001, 0b00000000, 0b00000000]"

definition font_N :: "u8 list" where
  "font_N = [0b01000010, 0b01100010, 0b01010010, 0b01001010,
     0b01000110, 0b01000010, 0b00000000, 0b00000000]"

definition font_O :: "u8 list" where
  "font_O = [0b00111100, 0b01000010, 0b01000010, 0b01000010,
     0b01000010, 0b00111100, 0b00000000, 0b00000000]"

definition font_P :: "u8 list" where
  "font_P = [0b01111100, 0b01000010, 0b01000010, 0b01111100,
     0b01000000, 0b01000000, 0b00000000, 0b00000000]"

definition font_Q :: "u8 list" where
  "font_Q = [0b00111100, 0b01000010, 0b01000010, 0b01001010,
     0b01000100, 0b00111010, 0b00000000, 0b00000000]"

definition font_R :: "u8 list" where
  "font_R = [0b01111100, 0b01000010, 0b01000010, 0b01111100,
     0b01000010, 0b01000010, 0b00000000, 0b00000000]"

definition font_S :: "u8 list" where
  "font_S = [0b00111110, 0b01000000, 0b00111100, 0b00000010,
     0b00000010, 0b00111100, 0b00000000, 0b00000000]"

definition font_T :: "u8 list" where
  "font_T = [0b01111110, 0b00010000, 0b00010000, 0b00010000,
     0b00010000, 0b00010000, 0b00000000, 0b00000000]"

definition font_U :: "u8 list" where
  "font_U = [0b01000010, 0b01000010, 0b01000010, 0b01000010,
     0b01000010, 0b00111100, 0b00000000, 0b00000000]"

definition font_V :: "u8 list" where
  "font_V = [0b01000010, 0b01000010, 0b01000010, 0b00100100,
     0b00111100, 0b00011000, 0b00000000, 0b00000000]"

definition font_W :: "u8 list" where
  "font_W = [0b01000001, 0b01000001, 0b01001001, 0b01011101,
     0b00110110, 0b00100010, 0b00000000, 0b00000000]"

definition font_X :: "u8 list" where
  "font_X = [0b01000010, 0b01100110, 0b00111100, 0b00011000,
     0b00100100, 0b01100110, 0b00000000, 0b00000000]"

definition font_Y :: "u8 list" where
  "font_Y = [0b01000010, 0b01100110, 0b00111100, 0b00010000,
     0b00010000, 0b00010000, 0b00000000, 0b00000000]"

definition font_Z :: "u8 list" where
  "font_Z = [0b01111110, 0b00000100, 0b00001000, 0b00010000,
     0b00100000, 0b01111110, 0b00000000, 0b00000000]"

definition font_LSBR :: "u8 list" where
  "font_LSBR = [0b00111000, 0b00100000, 0b00100000, 0b00100000,
     0b00100000, 0b00111000, 0b00000000, 0b00000000]"

definition font_BSLH :: "u8 list" where
  "font_BSLH = [0b01000000, 0b01100000, 0b00110000, 0b00011000,
     0b00001100, 0b00000110, 0b00000000, 0b00000000]"

definition font_RSBR :: "u8 list" where
  "font_RSBR = [0b00011100, 0b00000100, 0b00000100, 0b00000100,
     0b00000100, 0b00011100, 0b00000000, 0b00000000]"

definition font_CART :: "u8 list" where
  "font_CART = [0b00010000, 0b00111000, 0b00101000, 0b00000000,
     0b00000000, 0b00000000, 0b00000000, 0b00000000]"

definition font_UNDS :: "u8 list" where
  "font_UNDS = [0b00000000, 0b00000000, 0b00000000, 0b00000000,
     0b00000000, 0b01111110, 0b00000000, 0b00000000]"

definition font_GRVE :: "u8 list" where
  "font_GRVE = [0b00110000, 0b00011000, 0b00001000, 0b00000000,
     0b00000000, 0b00000000, 0b00000000, 0b00000000]"

definition font_a :: "u8 list" where
  "font_a = [0b00000000, 0b00110000, 0b00001000, 0b00111000,
     0b01001000, 0b00110100, 0b00000000, 0b00000000]"

definition font_b :: "u8 list" where
  "font_b = [0b00000000, 0b00100000, 0b00100000, 0b00111000,
     0b00100100, 0b00111000, 0b00000000, 0b00000000]"

definition font_c :: "u8 list" where
  "font_c = [0b00000000, 0b00000000, 0b00011100, 0b00100000,
     0b00100000, 0b00011100, 0b00000000, 0b00000000]"

definition font_d :: "u8 list" where
  "font_d = [0b00000000, 0b00000100, 0b00000100, 0b00011100,
     0b00100100, 0b00011100, 0b00000000, 0b00000000]"

definition font_e :: "u8 list" where
  "font_e = [0b00000000, 0b00011000, 0b00100100, 0b00111000,
     0b00100000, 0b00011100, 0b00000000, 0b00000000]"

definition font_f :: "u8 list" where
  "font_f = [0b00001100, 0b00010000, 0b00010000, 0b00111000,
     0b00010000, 0b00010000, 0b00000000, 0b00000000]"

definition font_g :: "u8 list" where
  "font_g = [0b00000000, 0b00000000, 0b00011000, 0b00100100,
     0b00011000, 0b00000100, 0b00111000, 0b00000000]"

definition font_h :: "u8 list" where
  "font_h = [0b00100000, 0b00100000, 0b00100000, 0b00111000,
     0b00100100, 0b00100100, 0b00000000, 0b00000000]"

definition font_i :: "u8 list" where
  "font_i = [0b00000000, 0b00010000, 0b00000000, 0b00010000,
     0b00010000, 0b00010000, 0b00000000, 0b00000000]"

definition font_j :: "u8 list" where
  "font_j = [0b00000000, 0b00010000, 0b00000000, 0b00010000,
     0b00010000, 0b00010000, 0b01100000, 0b00000000]"

definition font_k :: "u8 list" where
  "font_k = [0b00100000, 0b00100000, 0b00100100, 0b00111000,
     0b00101000, 0b00100100, 0b00000000, 0b00000000]"

definition font_l :: "u8 list" where
  "font_l = [0b00010000, 0b00010000, 0b00010000, 0b00010000,
     0b00010000, 0b00011000, 0b00000000, 0b00000000]"

definition font_m :: "u8 list" where
  "font_m = [0b00000000, 0b00000000, 0b00101000, 0b01010100,
     0b01010100, 0b01010100, 0b00000000, 0b00000000]"

definition font_n :: "u8 list" where
  "font_n = [0b00000000, 0b00000000, 0b00010000, 0b00101000,
     0b00101000, 0b00101000, 0b00000000, 0b00000000]"

definition font_o :: "u8 list" where
  "font_o = [0b00000000, 0b00000000, 0b00011000, 0b00100100,
     0b00100100, 0b00011000, 0b00000000, 0b00000000]"

definition font_p :: "u8 list" where
  "font_p = [0b00000000, 0b00000000, 0b00011000, 0b00100100,
     0b00111000, 0b00100000, 0b00100000, 0b00000000]"

definition font_q :: "u8 list" where
  "font_q = [0b00000000, 0b00000000, 0b00011000, 0b00100100,
     0b00011100, 0b00000100, 0b00000100, 0b00000000]"

definition font_r :: "u8 list" where
  "font_r = [0b00000000, 0b00000000, 0b00100000, 0b00101100,
     0b00110000, 0b00100000, 0b00000000, 0b00000000]"

definition font_s :: "u8 list" where
  "font_s = [0b00000000, 0b00011100, 0b00100000, 0b00011000,
     0b00000100, 0b00111000, 0b00000000, 0b00000000]"

definition font_t :: "u8 list" where
  "font_t = [0b00000000, 0b00010000, 0b00111000, 0b00010000,
     0b00010100, 0b00011000, 0b00000000, 0b00000000]"

definition font_u :: "u8 list" where
  "font_u = [0b00000000, 0b00000000, 0b00100100, 0b00100100,
     0b00100100, 0b00111100, 0b00000000, 0b00000000]"

definition font_v :: "u8 list" where
  "font_v = [0b00000000, 0b00000000, 0b00101000, 0b00101000,
     0b00111000, 0b00010000, 0b00000000, 0b00000000]"

definition font_w :: "u8 list" where
  "font_w = [0b00000000, 0b00000000, 0b01010100, 0b01010100,
     0b01111100, 0b00101000, 0b00000000, 0b00000000]"

definition font_x :: "u8 list" where
  "font_x = [0b00000000, 0b00000000, 0b01000100, 0b01101100,
     0b00111000, 0b01101100, 0b00000000, 0b00000000]"

definition font_y :: "u8 list" where
  "font_y = [0b00000000, 0b00000000, 0b00101000, 0b00101000,
     0b00011000, 0b00001000, 0b00110000, 0b00000000]"

definition font_z :: "u8 list" where
  "font_z = [0b00000000, 0b00000000, 0b00111100, 0b00001000,
     0b00010000, 0b00111100, 0b00000000, 0b00000000]"

definition font_LCBR :: "u8 list" where
  "font_LCBR = [0b00011000, 0b00100000, 0b01100000, 0b00100000,
     0b00100000, 0b00011000, 0b00000000, 0b00000000]"

definition font_VBAR :: "u8 list" where
  "font_VBAR = [0b00010000, 0b00010000, 0b00010000, 0b00010000,
     0b00010000, 0b00010000, 0b00010000, 0b00010000]"

definition font_RCBR :: "u8 list" where
  "font_RCBR = [0b00011000, 0b00000100, 0b00000110, 0b00000100,
     0b00000100, 0b00011000, 0b00000000, 0b00000000]"

definition font_TILD :: "u8 list" where
  "font_TILD = [0b00000000, 0b00000000, 0b00100000, 0b01010010,
     0b01001010, 0b00000100, 0b00000000, 0b00000000]"

text \<open>The entries 32 to 126 of the table; the others are null.\<close>

definition printable_glyphs :: "u8 list list" where
  "printable_glyphs = [font_NULL, font_EXCL, font_DBLQ, font_HASH, font_DLRS, font_PERC, font_AMPR, font_APOS,
     font_LPAR, font_RPAR, font_ASTR, font_PLUS, font_COMM, font_MINS, font_DOTS, font_SLSH,
     font_0, font_1, font_2, font_3, font_4, font_5, font_6, font_7,
     font_8, font_9, font_COLN, font_SCLN, font_LESS, font_EQUL, font_GRTR, font_QUES,
     font_ATSN, font_A, font_B, font_C, font_D, font_E, font_F, font_G,
     font_H, font_I, font_J, font_K, font_L, font_M, font_N, font_O,
     font_P, font_Q, font_R, font_S, font_T, font_U, font_V, font_W,
     font_X, font_Y, font_Z, font_LSBR, font_BSLH, font_RSBR, font_CART, font_UNDS,
     font_GRVE, font_a, font_b, font_c, font_d, font_e, font_f, font_g,
     font_h, font_i, font_j, font_k, font_l, font_m, font_n, font_o,
     font_p, font_q, font_r, font_s, font_t, font_u, font_v, font_w,
     font_x, font_y, font_z, font_LCBR, font_VBAR, font_RCBR, font_TILD]"

definition font_table :: "u8 list option list" where
  "font_table = replicate 32 None @ map Some printable_glyphs @ [None]"

lemma length_printable_glyphs: "length printable_glyphs = 95"
  by (simp add: printable_glyphs_def)

lemma font_table_nth: "32 \<le> n \<Longrightarrow> n \<le> 126 \<Longrightarrow> font_table ! n = Some (printable_glyphs ! (n - 32))"
  by (simp add: font_table_def nth_append length_printable_glyphs)

end
