(* ===== verification/Font.thy ===== *)
theory Font
  imports GM Glyphs CString
begin

text \<open>
  The drawing routines of \<^verbatim>\<open>src/tools/font.c\<close>: a character is an 8 by 8 glyph whose set bits are drawn
  with \<open>gm_pixel\<close>, a text is a row of them.
\<close>

section \<open>Operations\<close>

definition glyph_bit :: "u8 list \<Rightarrow> nat \<Rightarrow> nat \<Rightarrow> bool" where
  "glyph_bit glyph row col \<longleftrightarrow> drop_bit (7 - col) (glyph ! row) AND 1 \<noteq> 0"

definition draw_glyph :: "gpu \<Rightarrow> u32 \<Rightarrow> u32 \<Rightarrow> u8 list \<Rightarrow> u32 \<Rightarrow> mem \<Rightarrow> mem" where
  "draw_glyph g x y glyph color =
     fold (\<lambda>(row, col) m. if glyph_bit glyph row col then gm_pixel g (x + of_nat col) (y + of_nat row) color m else m)
       (loop2 8 8 Pair)"

definition ltr :: "device \<Rightarrow> u32 \<Rightarrow> u32 \<Rightarrow> u8 \<Rightarrow> gpu \<Rightarrow> drv \<Rightarrow> (gpu \<times> drv) option" where
  "ltr dev x y c g s =
     (if x > gpu_display_width g \<or> y > gpu_display_height g then Some (g, s)
      else do {
        glyph \<leftarrow> (if c \<ge> 33 \<and> c \<le> 126 then font_table ! unat c else Some font_MISS);
        Some (flush_or ''GPU partial flush failed'' dev x y 8 8 g
                (s\<lparr>d_mem := draw_glyph g x y glyph 0xFFFFFFFF (d_mem s)\<rparr>)) })"

text \<open>The glyph of a character of a text; one that cannot be shown has a glyph of its own.\<close>

definition text_glyph :: "u8 \<Rightarrow> u8 list option" where
  "text_glyph c =
     (if c \<ge> 33 \<and> c \<le> 126 then font_table ! unat c
      else if c = 32 then Some font_NULL
      else Some font_MISS)"

fun count_newlines :: "u8 list \<Rightarrow> u16 \<Rightarrow> u16" where
  "count_newlines [] n = n"
| "count_newlines (c # cs) n = count_newlines cs (if c = 10 \<and> n < 0xFFFF then n + 1 else n)"

fun draw_text :: "device \<Rightarrow> u32 \<Rightarrow> u32 \<Rightarrow> u32 \<Rightarrow> u32 \<Rightarrow> u32 \<Rightarrow> u8 list \<Rightarrow> gpu \<Rightarrow> drv \<Rightarrow> (gpu \<times> drv) option" where
  "draw_text dev x color line_x line_y line_width [] g s =
     Some (if line_width \<noteq> 0 then flush_or ''GPU partial flush failed'' dev x line_y line_width 8 g s else (g, s))"
| "draw_text dev x color line_x line_y line_width (c # cs) g s =
     (if c = 10
      then if line_width \<noteq> 0
           then let (ok, g1, s1) = gpu_resource_flush dev x line_y line_width 8 g s in
             if ok then draw_text dev x color x (line_y + 8) 0 cs g1 s1
             else Some (g1, say (line_of ''GPU partial flush failed'') s1)
           else draw_text dev x color x (line_y + 8) 0 cs g s
      else do {
        glyph \<leftarrow> text_glyph c;
        draw_text dev x color (line_x + 8) line_y (line_width + 8) cs g
          (s\<lparr>d_mem := draw_glyph g line_x line_y glyph color (d_mem s)\<rparr>) })"

definition ltrs_color :: "device \<Rightarrow> u32 \<Rightarrow> u32 \<Rightarrow> cstr \<Rightarrow> u32 \<Rightarrow> gpu \<Rightarrow> drv \<Rightarrow> (u16 \<times> gpu \<times> drv) option" where
  "ltrs_color dev x y str color g s = do {
     len \<leftarrow> kstrlen str;
     let cs = map str [0..<len];
     let newline_count = count_newlines cs 0;
     if x > gpu_display_width g \<or> y > gpu_display_height g \<or> len = 0 then Some (newline_count, g, s)
     else do {
       (g1, s1) \<leftarrow> draw_text dev x color x y 0 cs g s;
       Some (newline_count, g1, s1) } }"

definition ltrs :: "device \<Rightarrow> u32 \<Rightarrow> u32 \<Rightarrow> cstr \<Rightarrow> gpu \<Rightarrow> drv \<Rightarrow> (u16 \<times> gpu \<times> drv) option" where
  "ltrs dev x y str g s = ltrs_color dev x y str 0xFFFFFFFF g s"

section \<open>What a text shows\<close>

lemma text_glyph_total: "\<exists>gl. text_glyph c = Some gl"
  using font_table_nth [of "unat c"] by (auto simp: text_glyph_def word_le_nat_alt)

definition glyph_of :: "u8 \<Rightarrow> u8 list" where
  "glyph_of c = the (text_glyph c)"

lemma text_glyph_of: "text_glyph c = Some (glyph_of c)"
  using text_glyph_total [of c] by (auto simp: glyph_of_def)

text \<open>A glyph paints its set bits, and nothing else.\<close>

lemma fold_glyph_pic:
  assumes ok: "gpu_ok g" and ab: "a < unat (gpu_display_width g)" "b < unat (gpu_display_height g)"
  shows "pic g (s\<lparr>d_mem := fold (\<lambda>(r, c) m. if B r c then gm_pixel g (X c) (Y r) color m else m) ps (d_mem s)\<rparr>) a b
    = (if \<exists>(r, c)\<in>set ps. B r c \<and> unat (X c) = a \<and> unat (Y r) = b then color else pic g s a b)"
proof (induction ps arbitrary: s)
  case (Cons p ps)
  obtain r c where p: "p = (r, c)" by (cases p)
  let ?s = "s\<lparr>d_mem := if B r c then gm_pixel g (X c) (Y r) color (d_mem s) else d_mem s\<rparr>"
  have "pic g ?s a b = (if B r c \<and> unat (X c) = a \<and> unat (Y r) = b then color else pic g s a b)"
    using gm_pixel_pic [OF ok ab, where s = s and x = "X c" and y = "Y r" and color = color] by auto
  then show ?case using Cons.IH [of ?s] by (auto simp: p)
qed simp

lemma draw_glyph_pic:
  assumes ok: "gpu_ok g" and ab: "a < unat (gpu_display_width g)" "b < unat (gpu_display_height g)"
    and fit: "unat x + 8 \<le> 2 ^ 32" "unat y + 8 \<le> 2 ^ 32"
  shows "pic g (s\<lparr>d_mem := draw_glyph g x y gl color (d_mem s)\<rparr>) a b
    = (if unat x \<le> a \<and> a < unat x + 8 \<and> unat y \<le> b \<and> b < unat y + 8 \<and> glyph_bit gl (b - unat y) (a - unat x)
       then color else pic g s a b)"
proof -
  have u: "unat (x + of_nat c) = unat x + c" "unat (y + of_nat c) = unat y + c" if "c < 8" for c
    using that fit by (simp_all add: unat_add_no_wrap unat_of_nat_no_wrap)
  have "(\<exists>(r, c)\<in>set (loop2 8 8 Pair). glyph_bit gl r c \<and> unat (x + of_nat c) = a \<and> unat (y + of_nat r) = b)
      = (unat x \<le> a \<and> a < unat x + 8 \<and> unat y \<le> b \<and> b < unat y + 8 \<and> glyph_bit gl (b - unat y) (a - unat x))"
    (is "?l = ?r")
  proof
    assume ?l
    then obtain r c where "r < 8" "c < 8" "glyph_bit gl r c" "unat (x + of_nat c) = a" "unat (y + of_nat r) = b"
      unfolding loop2_bex by auto
    then show ?r using u by auto
  next
    assume r: ?r
    then have "b - unat y < 8" "a - unat x < 8" by linarith+
    then show ?l unfolding loop2_bex prod.case using r u [of "a - unat x"] u [of "b - unat y"]
      by (intro exI [of _ "b - unat y"] exI [of _ "a - unat x"] conjI) auto
  qed
  then show ?thesis unfolding draw_glyph_def fold_glyph_pic [OF ok ab] by simp
qed

text \<open>A row of glyphs.\<close>

lemma draw_text_pic:
  assumes ok: "gpu_ok g" and nl: "10 \<notin> set cs" and fit: "unat lx + 8 * length cs < 2 ^ 32" "unat ly + 8 \<le> 2 ^ 32"
  shows "\<exists>g' s'. draw_text dev x color lx ly lw cs g s = Some (g', s') \<and> gpu_ok g'
    \<and> (\<forall>a<unat (gpu_display_width g). \<forall>b<unat (gpu_display_height g). pic g' s' a b
      = (if unat lx \<le> a \<and> a < unat lx + 8 * length cs \<and> unat ly \<le> b \<and> b < unat ly + 8
            \<and> glyph_bit (glyph_of (cs ! ((a - unat lx) div 8))) (b - unat ly) ((a - unat lx) mod 8)
         then color else pic g s a b))"
  using nl fit
proof (induction cs arbitrary: lx lw s)
  case Nil
  obtain g' s' where f: "flush_or ''GPU partial flush failed'' dev x ly lw 8 g s = (g', s')" by fastforce
  then show ?case using ok flush_or_ok [OF ok f] flush_or_pic [OF ok f]
    by (cases "lw = 0") auto
next
  case (Cons c cs)
  let ?s = "s\<lparr>d_mem := draw_glyph g lx ly (glyph_of c) color (d_mem s)\<rparr>"
  have lx: "unat (lx + 8) = unat lx + 8" using Cons.prems(2) by (intro unat_add_no_wrap [THEN trans]) simp_all
  obtain g' s' where IH: "draw_text dev x color (lx + 8) ly (lw + 8) cs g ?s = Some (g', s')" "gpu_ok g'"
    "\<And>a b. a < unat (gpu_display_width g) \<Longrightarrow> b < unat (gpu_display_height g) \<Longrightarrow> pic g' s' a b
      = (if unat lx + 8 \<le> a \<and> a < unat lx + 8 + 8 * length cs \<and> unat ly \<le> b \<and> b < unat ly + 8
            \<and> glyph_bit (glyph_of (cs ! ((a - (unat lx + 8)) div 8))) (b - unat ly) ((a - (unat lx + 8)) mod 8)
         then color else pic g ?s a b)"
    using Cons.IH [of "lx + 8" "lw + 8" ?s] Cons.prems unfolding lx by auto
  have run: "draw_text dev x color lx ly lw (c # cs) g s = Some (g', s')"
    using Cons.prems(1) IH(1) by (simp add: text_glyph_of)
  have "pic g' s' a b = (if unat lx \<le> a \<and> a < unat lx + 8 * length (c # cs) \<and> unat ly \<le> b \<and> b < unat ly + 8
            \<and> glyph_bit (glyph_of ((c # cs) ! ((a - unat lx) div 8))) (b - unat ly) ((a - unat lx) mod 8)
         then color else pic g s a b)"
    if ab: "a < unat (gpu_display_width g)" "b < unat (gpu_display_height g)" for a b
  proof (cases "unat lx + 8 \<le> a")
    case True
    then have d: "(a - unat lx) div 8 = Suc ((a - (unat lx + 8)) div 8)" "(a - unat lx) mod 8 = (a - (unat lx + 8)) mod 8"
      by (simp_all add: le_div_geq le_mod_geq)
    have "pic g ?s a b = pic g s a b"
      using True Cons.prems by (simp add: draw_glyph_pic [OF ok ab])
    then show ?thesis using True unfolding IH(3) [OF ab] d nth_Cons_Suc by auto
  next
    case False
    have "(c # cs) ! ((a - unat lx) div 8) = c" "(a - unat lx) mod 8 = a - unat lx" using False by auto
    then show ?thesis using False Cons.prems unfolding IH(3) [OF ab] by (auto simp: draw_glyph_pic [OF ok ab])
  qed
  then show ?case using run IH(2) by blast
qed

lemma count_newlines_none: "10 \<notin> set cs \<Longrightarrow> count_newlines cs n = n"
  by (induction cs arbitrary: n) auto

text \<open>C30: A line of text paints its glyphs. For a text without newlines at a position of the display that it can
  reach without wrapping around, \<open>ltrs_color\<close> returns with no newline counted, the display stays
  well-formed, and in the picture being drawn a pixel gets the colour exactly if it lies in the 8-pixel
  row of the text and is a set bit of the glyph of the character at its place; every other pixel is
  as before - text is drawn transparently and clipped at the edges.\<close>

theorem ltrs_paints:
  assumes ok: "gpu_ok g" and str: "terminated str n" "\<forall>i<n. str i \<noteq> 10"
    and pos: "x \<le> gpu_display_width g" "y \<le> gpu_display_height g" "unat x + 8 * n < 2 ^ 32" "unat y + 8 \<le> 2 ^ 32"
  shows "\<exists>g' s'. ltrs_color dev x y str color g s = Some (0, g', s') \<and> gpu_ok g'
    \<and> (\<forall>a<unat (gpu_display_width g). \<forall>b<unat (gpu_display_height g). pic g' s' a b
      = (if unat x \<le> a \<and> a < unat x + 8 * n \<and> unat y \<le> b \<and> b < unat y + 8
            \<and> glyph_bit (glyph_of (str ((a - unat x) div 8))) (b - unat y) ((a - unat x) mod 8)
         then color else pic g s a b))"
proof (cases "n = 0")
  case True
  have "ltrs_color dev x y str color g s = Some (0, g, s)"
    using kstrlen_eq [OF str(1)] True by (simp add: ltrs_color_def Let_def)
  then show ?thesis using ok True by (intro exI conjI) auto
next
  case False
  let ?cs = "map str [0..<n]"
  have nl: "10 \<notin> set ?cs" using str(2) by force
  have nth: "?cs ! ((a - unat x) div 8) = str ((a - unat x) div 8)" if "unat x \<le> a" "a < unat x + 8 * n" for a
    using that by (simp add: less_mult_imp_div_less)
  obtain g' s' where d: "draw_text dev x color x y 0 ?cs g s = Some (g', s')" "gpu_ok g'"
    "\<forall>a<unat (gpu_display_width g). \<forall>b<unat (gpu_display_height g). pic g' s' a b
      = (if unat x \<le> a \<and> a < unat x + 8 * n \<and> unat y \<le> b \<and> b < unat y + 8
            \<and> glyph_bit (glyph_of (?cs ! ((a - unat x) div 8))) (b - unat y) ((a - unat x) mod 8)
         then color else pic g s a b)"
    using draw_text_pic [OF ok nl, of x y dev x color 0 s] pos by auto
  have "ltrs_color dev x y str color g s = Some (0, g', s')"
    using str(1) pos False d(1) by (simp add: ltrs_color_def Let_def not_less count_newlines_none [OF nl])
  then show ?thesis using d(2,3) nth by (intro exI conjI) auto
qed

lemma ltrs_paints_witness:
  "\<exists>g' s'. ltrs_color (\<lambda>_ _. 0) 1 0 (lit ''A'') 0xFFFFFFFF tiny_gpu blank_drv = Some (0, g', s') \<and> gpu_ok g'"
proof -
  have "terminated (lit ''A'') 1" "\<forall>i<1. lit ''A'' i \<noteq> 10"
    by (auto simp: terminated_def lit_def cstr_of_def)
  from ltrs_paints [OF tiny_gpu_ok this, where x = 1 and y = 0 and dev = "\<lambda>_ _. 0" and color = "0xFFFFFFFF" and s = blank_drv]
  show ?thesis by (auto simp: tiny_gpu_size)
qed

end
