(* ===== verification/Console.thy ===== *)
theory Console
  imports Font
begin

text \<open>
  The text console on the display: \<^verbatim>\<open>io_console_scroll\<close> to \<^verbatim>\<open>io_console_erase_char\<close> and \<^verbatim>\<open>io_puts_color\<close>
  of \<^verbatim>\<open>src/global/io.c\<close>, with \<^verbatim>\<open>DEBUG_DISPLAY_FLAG\<close> 1. Characters are collected in a run of at most
  127 bytes that is drawn when it is full, at a newline and at the end.
\<close>

record con =
  io_console_line :: u32
  io_console_xpixel :: u32

type_synonym screen = "con \<times> gpu \<times> drv"

section \<open>Operations\<close>

definition io_console_scroll :: "device \<Rightarrow> gpu \<Rightarrow> drv \<Rightarrow> gpu \<times> drv" where
  "io_console_scroll dev g s =
     (let W = gpu_display_width g; fb = gpu_framebuffer g;
          text_height = (gpu_display_height g div 8) * 8
      in if text_height < 8 then (g, s)
         else let m1 = fold (\<lambda>(y, x) m. set_px fb ((of_nat y - 8) * W + of_nat x) (get_px fb (of_nat y * W + of_nat x) m) m)
                         (concat (map (\<lambda>y. map (Pair y) [0..<unat W]) [8..<unat text_height])) (d_mem s);
                  bottom = text_height - 8;
                  m2 = plot fb (concat (map (\<lambda>y. map (\<lambda>x. (of_nat y * W + of_nat x, 0xFF000000)) [0..<unat W])
                         [unat bottom..<unat text_height])) m1
              in flush_or ''GPU console scroll failed'' dev 0 0 W text_height g (s\<lparr>d_mem := m2\<rparr>))"

definition io_console_next_line :: "device \<Rightarrow> screen \<Rightarrow> screen" where
  "io_console_next_line dev = (\<lambda>(t, g, s).
     let t1 = t\<lparr>io_console_xpixel := 0, io_console_line := io_console_line t + 1\<rparr>;
         line_count = gpu_display_height g div 8
     in if line_count \<noteq> 0 \<and> io_console_line t1 \<ge> line_count
        then let (g1, s1) = io_console_scroll dev g s in (t1\<lparr>io_console_line := line_count - 1\<rparr>, g1, s1)
        else (t1, g, s))"

definition io_console_flush_run :: "device \<Rightarrow> u8 list \<Rightarrow> u32 \<Rightarrow> screen \<Rightarrow> screen option" where
  "io_console_flush_run dev run color = (\<lambda>(t, g, s).
     if run = [] then Some (t, g, s)
     else do {
       (n, g1, s1) \<leftarrow> ltrs_color dev (io_console_xpixel t) (8 * io_console_line t) (cstr_of run) color g s;
       Some (t\<lparr>io_console_xpixel := io_console_xpixel t + of_nat (length run) * 8\<rparr>, g1, s1) })"

definition io_console_erase_char :: "device \<Rightarrow> screen \<Rightarrow> screen" where
  "io_console_erase_char dev = (\<lambda>(t, g, s).
     if io_console_xpixel t = 0 \<and> io_console_line t = 0 then (t, g, s)
     else let t1 = (if io_console_xpixel t = 0
                    then t\<lparr>io_console_line := io_console_line t - 1,
                           io_console_xpixel := (gpu_display_width g div 8) * 8\<rparr>
                    else t)
       in if io_console_xpixel t1 < 8 then (t1, g, s)
          else let t2 = t1\<lparr>io_console_xpixel := io_console_xpixel t1 - 8\<rparr>;
                   (g1, s1) = gm_rect dev (io_console_xpixel t2) (8 * io_console_line t2) 8 8 0xFF000000 g s
               in (t2, g1, s1))"

definition RUN_MAX :: nat where "RUN_MAX = 127"

fun puts_loop :: "device \<Rightarrow> u32 \<Rightarrow> u8 list \<Rightarrow> u8 list \<Rightarrow> u16 \<Rightarrow> screen \<Rightarrow> (u16 \<times> screen) option" where
  "puts_loop dev color [] run newline_count c = do {
     c1 \<leftarrow> io_console_flush_run dev run color c;
     Some (newline_count, c1) }"
| "puts_loop dev color (b # bs) run newline_count c =
     (if b = 10
      then do {
        c1 \<leftarrow> io_console_flush_run dev run color c;
        puts_loop dev color bs [] (if newline_count < 0xFFFF then newline_count + 1 else newline_count)
          (io_console_next_line dev c1) }
      else if b = 13 then puts_loop dev color bs run newline_count c
      else do {
        (run1, c1) \<leftarrow> (if io_console_xpixel (fst c) + 8 > gpu_display_width (fst (snd c))
                       then do { c0 \<leftarrow> io_console_flush_run dev run color c; Some ([], io_console_next_line dev c0) }
                       else Some (run, c));
        let run2 = run1 @ [b];
        if length run2 = RUN_MAX
        then do { c2 \<leftarrow> io_console_flush_run dev run2 color c1; puts_loop dev color bs [] newline_count c2 }
        else puts_loop dev color bs run2 newline_count c1 })"

definition io_puts_color :: "device \<Rightarrow> cstr option \<Rightarrow> u32 \<Rightarrow> screen \<Rightarrow> (u16 \<times> screen) option" where
  "io_puts_color dev str color = (\<lambda>(t, g, s).
     case str of
       None \<Rightarrow> Some (0, t, g, say (line_of ''Console output string is null'') s)
     | Some p \<Rightarrow>
         if gpu_display_width g < 8 \<or> gpu_display_height g < 8
         then Some (0, t, g, say (line_of ''GPU console display is too small'') s)
         else do {
           len \<leftarrow> kstrlen p;
           puts_loop dev color (map p [0..<len]) [] 0 (t, g, s) })"

section \<open>The cursor stays on the display\<close>

text \<open>The display is well-formed and the cursor is on one of its text lines.\<close>

definition screen_ok :: "screen \<Rightarrow> bool" where
  "screen_ok = (\<lambda>(t, g, s). gpu_ok g \<and> 8 \<le> gpu_display_width g \<and> 8 \<le> gpu_display_height g
     \<and> io_console_line t < gpu_display_height g div 8)"

text \<open>Two screens with a display of the same size.\<close>

definition same_size :: "screen \<Rightarrow> screen \<Rightarrow> bool" where
  "same_size = (\<lambda>(t, g, s) (t', g', s'). gpu_display_width g' = gpu_display_width g
     \<and> gpu_display_height g' = gpu_display_height g)"

lemma same_size_refl [simp]: "same_size c c"
  by (simp add: same_size_def split_beta)

lemma same_size_trans: "same_size c c1 \<Longrightarrow> same_size c1 c2 \<Longrightarrow> same_size c c2"
  by (auto simp: same_size_def)

lemma draw_text_ok:
  "gpu_ok g \<Longrightarrow> \<exists>g' s'. draw_text dev x color lx ly lw cs g s = Some (g', s') \<and> gpu_ok g'
     \<and> gpu_display_width g' = gpu_display_width g \<and> gpu_display_height g' = gpu_display_height g"
proof (induction cs arbitrary: lx ly lw g s)
  case Nil
  obtain g' s' where f: "flush_or ''GPU partial flush failed'' dev x ly lw 8 g s = (g', s')" by fastforce
  show ?case using Nil flush_or_ok [OF Nil f] f by (cases "lw = 0") auto
next
  case (Cons c cs)
  show ?case
  proof (cases "c = 10 \<and> lw \<noteq> 0")
    case True
    obtain b g1 s1 where f: "gpu_resource_flush dev x ly lw 8 g s = (b, g1, s1)" by (metis prod_cases3)
    then have "flush_or '''' dev x ly lw 8 g s = (g1, if b then s1 else say (line_of '''') s1)" by (simp add: flush_or_def)
    from flush_or_ok [OF Cons.prems this] show ?thesis
      using Cons.IH [of g1 x "ly + 8" 0 s1] True f by (cases b) auto
  next
    case False
    then show ?thesis using Cons.IH [OF Cons.prems] by (auto simp: text_glyph_of)
  qed
qed

lemma ltrs_color_ok:
  assumes ok: "gpu_ok g" and str: "terminated str n"
  shows "\<exists>k g' s'. ltrs_color dev x y str color g s = Some (k, g', s') \<and> gpu_ok g'
    \<and> gpu_display_width g' = gpu_display_width g \<and> gpu_display_height g' = gpu_display_height g"
proof (cases "x > gpu_display_width g \<or> y > gpu_display_height g \<or> n = 0")
  case True
  then show ?thesis using ok kstrlen_eq [OF str] by (auto simp: ltrs_color_def Let_def)
next
  case False
  obtain g' s' where "draw_text dev x color x y 0 (map str [0..<n]) g s = Some (g', s')" "gpu_ok g'"
    "gpu_display_width g' = gpu_display_width g" "gpu_display_height g' = gpu_display_height g"
    using draw_text_ok [OF ok] by blast
  then show ?thesis using False kstrlen_eq [OF str] by (auto simp: ltrs_color_def Let_def)
qed

lemma flush_run_ok:
  assumes ok: "screen_ok c" and nz: "0 \<notin> set run"
  shows "\<exists>c'. io_console_flush_run dev run color c = Some c' \<and> screen_ok c' \<and> same_size c c'"
proof (cases "run = []")
  case True
  then show ?thesis using ok by (cases c) (auto simp: io_console_flush_run_def)
next
  case False
  obtain t g s where c: "c = (t, g, s)" by (metis prod_cases3)
  have g: "gpu_ok g" using ok c by (simp add: screen_ok_def)
  obtain n g1 s1 where d: "ltrs_color dev (io_console_xpixel t) (8 * io_console_line t) (cstr_of run) color g s = Some (n, g1, s1)"
    "gpu_ok g1" "gpu_display_width g1 = gpu_display_width g" "gpu_display_height g1 = gpu_display_height g"
    using ltrs_color_ok [OF g terminated_cstr_of [OF nz refl]] by blast
  then show ?thesis using False ok c by (auto simp: io_console_flush_run_def screen_ok_def same_size_def)
qed

lemma scroll_ok:
  assumes "gpu_ok g" "io_console_scroll dev g s = (g', s')"
  shows "gpu_ok g' \<and> gpu_display_width g' = gpu_display_width g \<and> gpu_display_height g' = gpu_display_height g"
  using assms flush_or_ok by (auto simp: io_console_scroll_def Let_def split: if_splits)

lemma next_line_ok:
  assumes ok: "screen_ok c"
  shows "screen_ok (io_console_next_line dev c) \<and> same_size c (io_console_next_line dev c)"
proof -
  obtain t g s where c: "c = (t, g, s)" by (metis prod_cases3)
  obtain g1 s1 where sc: "io_console_scroll dev g s = (g1, s1)" by fastforce
  have g: "gpu_ok g" "8 \<le> gpu_display_height g" using ok c by (simp_all add: screen_ok_def)
  have h: "1 \<le> unat (gpu_display_height g div 8)" using g(2) by (simp add: unat_div_distrib word_le_nat_alt)
  then have "gpu_display_height g div 8 - 1 < gpu_display_height g div 8"
    by (simp add: word_less_nat_alt unat_sub_no_wrap word_le_nat_alt)
  then show ?thesis using ok c sc scroll_ok [OF g(1) sc]
    by (auto simp: io_console_next_line_def Let_def screen_ok_def same_size_def not_le)
qed

lemma puts_loop_ok:
  assumes "screen_ok c" "0 \<notin> set run" "0 \<notin> set bs"
  shows "\<exists>n c'. puts_loop dev color bs run k c = Some (n, c') \<and> screen_ok c' \<and> same_size c c'"
  using assms
proof (induction bs arbitrary: run k c)
  case Nil
  then show ?case using flush_run_ok [OF Nil.prems(1,2), of dev color] by auto
next
  case (Cons b bs)
  have bs: "0 \<notin> set bs" "b \<noteq> 0" using Cons.prems(3) by auto
  obtain c1 where c1: "io_console_flush_run dev run color c = Some c1" "screen_ok c1" "same_size c c1"
    using flush_run_ok [OF Cons.prems(1,2)] by blast
  note nl = next_line_ok [OF c1(2), of dev]
  show ?case
  proof (cases "b = 10")
    case True
    obtain n c' where IH: "puts_loop dev color bs [] (if k < 0xFFFF then k + 1 else k) (io_console_next_line dev c1) = Some (n, c')"
      "screen_ok c'" "same_size (io_console_next_line dev c1) c'"
      using Cons.IH [OF nl [THEN conjunct1] _ bs(1), of "[]" "if k < 0xFFFF then k + 1 else k"] by auto
    have "same_size c c'" using c1(3) nl IH(3) same_size_trans by blast
    moreover have "puts_loop dev color (b # bs) run k c = Some (n, c')" using True c1(1) IH(1) by simp
    ultimately show ?thesis using IH(2) by blast
  next
    case b10: False
    show ?thesis
    proof (cases "b = 13")
      case True
      then show ?thesis using Cons.IH [OF Cons.prems(1,2) bs(1), of k] by auto
    next
    case b13: False
    note False = b10 b13
    obtain run1 c2 where c2: "(if io_console_xpixel (fst c) + 8 > gpu_display_width (fst (snd c))
        then do { c0 \<leftarrow> io_console_flush_run dev run color c; Some ([], io_console_next_line dev c0) }
        else Some (run, c)) = Some (run1, c2)" "screen_ok c2" "same_size c c2" "0 \<notin> set run1"
      using c1 nl Cons.prems same_size_trans by (cases "io_console_xpixel (fst c) + 8 > gpu_display_width (fst (snd c))") auto
    have nz: "0 \<notin> set (run1 @ [b])" using c2(4) bs(2) by simp
    obtain c3 where c3: "io_console_flush_run dev (run1 @ [b]) color c2 = Some c3" "screen_ok c3" "same_size c2 c3"
      using flush_run_ok [OF c2(2) nz] by blast
    obtain n c' where IH: "puts_loop dev color bs [] k c3 = Some (n, c')" "screen_ok c'" "same_size c3 c'"
      using Cons.IH [OF c3(2) _ bs(1), of "[]" k] by auto
    obtain n2 c'2 where IH2: "puts_loop dev color bs (run1 @ [b]) k c2 = Some (n2, c'2)" "screen_ok c'2" "same_size c2 c'2"
      using Cons.IH [OF c2(2) nz bs(1), of k] by auto
    show ?thesis
    proof (cases "length (run1 @ [b]) = RUN_MAX")
      case True
      have "same_size c c'" using c2(3) c3(3) IH(3) same_size_trans by blast
      moreover have "puts_loop dev color (b # bs) run k c = Some (n, c')"
        using False True c3(1) IH(1) by (simp only: puts_loop.simps if_False de_Morgan_disj c2(1) Let_def) simp
      ultimately show ?thesis using IH(2) by blast
    next
      case ne: False
      have "same_size c c'2" using c2(3) IH2(3) same_size_trans by blast
      moreover have "puts_loop dev color (b # bs) run k c = Some (n2, c'2)"
        using False ne IH2(1) by (simp only: puts_loop.simps if_False de_Morgan_disj c2(1) Let_def) simp
      ultimately show ?thesis using IH2(2) by blast
    qed
    qed
  qed
qed

lemma puts_loop_count:
  "puts_loop dev color bs run k c = Some (n, c') \<Longrightarrow> unat n = min (unat k + count_list bs 10) 0xFFFF"
proof (induction bs arbitrary: run k c)
  case Nil
  have "unat k < 2 ^ 16" using unat_lt_pow [of k] by simp
  then show ?case using Nil by (auto split: bind_splits)
next
  case (Cons b bs)
  show ?case
  proof (cases "b = 10")
    case True
    have "unat k < 2 ^ 16" using unat_lt_pow [of k] by simp
    then have "unat (if k < 0xFFFF then k + 1 else k) = min (unat k + 1) 0xFFFF"
      by (auto simp: word_less_nat_alt unat_Suc_no_wrap min_def)
    moreover obtain c1 where "puts_loop dev color bs [] (if k < 0xFFFF then k + 1 else k) (io_console_next_line dev c1) = Some (n, c')"
      using Cons.prems True by (auto split: bind_splits)
    ultimately show ?thesis using Cons.IH True by fastforce
  next
    case False
    then show ?thesis using Cons.prems Cons.IH by (auto simp: Let_def split: bind_splits if_splits)
  qed
qed

text \<open>C31: Printing on the console always returns and keeps the cursor on the display. For any string, on a
  well-formed display of at least 8 by 8 pixels with the cursor on one of its text lines,
  \<open>io_puts_color\<close> returns the number of newlines of the string, at most 65535; the display stays
  well-formed and of the same size and the cursor on a text line, scrolling included, whatever the
  device answers.\<close>

theorem console_cursor_ok:
  assumes ok: "screen_ok c" and str: "terminated str n"
  shows "\<exists>k c'. io_puts_color dev (Some str) color c = Some (k, c') \<and> screen_ok c' \<and> same_size c c'
    \<and> unat k = min (count_list (map str [0..<n]) 10) 0xFFFF"
proof -
  obtain t g s where c: "c = (t, g, s)" by (metis prod_cases3)
  have nz: "0 \<notin> set (map str [0..<n])" using str by (force simp: terminated_def)
  have empty: "0 \<notin> set []" by simp
  obtain k c' where p: "puts_loop dev color (map str [0..<n]) [] 0 c = Some (k, c')" "screen_ok c'" "same_size c c'"
    using puts_loop_ok [OF ok empty nz, of dev color 0] by blast
  have "io_puts_color dev (Some str) color c = Some (k, c')"
  proof -
    have "\<not> gpu_display_width g < 8" "\<not> gpu_display_height g < 8" using ok c by (simp_all add: screen_ok_def not_less)
    then show ?thesis using p(1) kstrlen_eq [OF str] c by (simp add: io_puts_color_def)
  qed
  then show ?thesis using p puts_loop_count [OF p(1)] by auto
qed

definition small_gpu :: gpu where
  "small_gpu = tiny_gpu\<lparr>gpu_display_width := 16, gpu_display_height := 16, gpu_framebuffer := 0x41000400\<rparr>"

definition home :: con where
  "home = \<lparr>io_console_line = 0, io_console_xpixel = 0\<rparr>"

lemma small_screen_ok: "screen_ok (home, small_gpu, blank_drv)"
  by (simp add: screen_ok_def gpu_ok_def areas_ok_def small_gpu_def tiny_gpu_def home_def pixels_def buffer_at_def
      GPU_FRAMEBUFFER_BASE_def FB_def)

lemma console_cursor_ok_witness:
  "\<exists>c'. io_puts_color (\<lambda>_ _. 0) (Some (cstr_of [65, 10, 10])) 0xFFFFFFFF (home, small_gpu, blank_drv) = Some (2, c') \<and> screen_ok c'"
proof -
  have t: "terminated (cstr_of [65, 10, 10]) 3" by (rule terminated_cstr_of) simp_all
  have m: "map (cstr_of [65, 10, 10]) [0..<3] = [65, 10, 10]" by (simp add: cstr_of_def upt_rec)
  obtain k c' where r: "io_puts_color (\<lambda>_ _. 0) (Some (cstr_of [65, 10, 10])) 0xFFFFFFFF (home, small_gpu, blank_drv) = Some (k, c')"
    "screen_ok c'" "unat k = 2"
    using console_cursor_ok [OF small_screen_ok t, of "\<lambda>_ _. 0" "0xFFFFFFFF"] unfolding m by auto
  have "k = 2" using r(3) by (intro unsigned_word_eqI) simp
  then show ?thesis using r by blast
qed

section \<open>Lines do not wrap\<close>

lemma puts_loop_run:
  assumes "10 \<notin> set bs" "13 \<notin> set bs" "length run + length bs < RUN_MAX"
    and "\<not> io_console_xpixel (fst c) + 8 > gpu_display_width (fst (snd c))"
  shows "puts_loop dev color bs run k c = map_option (Pair k) (io_console_flush_run dev (run @ bs) color c)"
  using assms
proof (induction bs arbitrary: run)
  case Nil
  then show ?case by (cases "io_console_flush_run dev run color c") auto
next
  case (Cons b bs)
  then show ?case using Cons.IH [of "run @ [b]"] by (simp add: Let_def)
qed

lemma big_enough:
  assumes "gpu_ok g" "8 \<le> gpu_display_height g"
  shows "unat (gpu_display_width g) < 2 ^ 26"
proof -
  have "8 \<le> unat (gpu_display_height g)" using assms(2) by (simp add: word_le_nat_alt)
  then have "unat (gpu_display_width g) * 8 \<le> pixels g" unfolding pixels_def by (rule mult_le_mono2)
  then show ?thesis using assms(1) by (simp add: gpu_ok_def)
qed

lemma cursor_row:
  assumes ok: "screen_ok (t, g, s)"
  shows "unat (8 * io_console_line t) = 8 * unat (io_console_line t)"
    "8 * unat (io_console_line t) + 8 \<le> unat (gpu_display_height g)"
proof -
  have "unat (io_console_line t) < unat (gpu_display_height g) div 8"
    using ok by (simp add: screen_ok_def word_less_nat_alt unat_div_distrib)
  then show h: "8 * unat (io_console_line t) + 8 \<le> unat (gpu_display_height g)" by linarith
  have "unat (gpu_display_height g) < 2 ^ 32" using unat_lt_pow [of "gpu_display_height g"] by simp
  then show "unat (8 * io_console_line t) = 8 * unat (io_console_line t)"
    using h by (simp add: unat_word_ariths)
qed

lemma puts_single_run:
  assumes ok: "screen_ok (t, g, s)" and str: "terminated str n" "n \<le> 126" "10 \<notin> set (map str [0..<n])" "13 \<notin> set (map str [0..<n])"
    and start: "io_console_xpixel t + 8 \<le> gpu_display_width g"
  shows "io_puts_color dev (Some str) color (t, g, s)
      = map_option (Pair 0) (io_console_flush_run dev (map str [0..<n]) color (t, g, s))"
proof -
  have w: "\<not> io_console_xpixel t + 8 > gpu_display_width g" "\<not> gpu_display_width g < 8" "\<not> gpu_display_height g < 8"
    using start ok by (simp_all add: screen_ok_def not_less)
  have "puts_loop dev color (map str [0..<n]) [] 0 (t, g, s)
      = map_option (Pair 0) (io_console_flush_run dev (map str [0..<n]) color (t, g, s))"
    using puts_loop_run [OF str(3,4), of "[]" "(t, g, s)" dev color 0] str(2) w(1) by (simp add: RUN_MAX_def)
  then show ?thesis using w(2,3) kstrlen_eq [OF str(1)] by (simp add: io_puts_color_def)
qed

text \<open>C32: The console does not wrap a line. The column is only advanced when a run is drawn, so the test for the
  right edge sees the column at the start of the run: a text of up to 126 characters that starts on
  the display is drawn as one row whatever the width is. The cursor ends on the same line, past the
  right edge if need be, nothing changes outside that row, and what does not fit is lost.\<close>

theorem console_never_wraps:
  assumes ok: "screen_ok (t, g, s)" and str: "terminated str n" "n \<le> 126" "\<forall>i<n. str i \<noteq> 10 \<and> str i \<noteq> 13"
    and start: "io_console_xpixel t + 8 \<le> gpu_display_width g" "io_console_xpixel t \<le> gpu_display_width g"
  shows "\<exists>g' s'. io_puts_color dev (Some str) color (t, g, s)
      = Some (0, t\<lparr>io_console_xpixel := io_console_xpixel t + of_nat n * 8\<rparr>, g', s')
    \<and> (\<forall>a<unat (gpu_display_width g). \<forall>b<unat (gpu_display_height g).
         b < 8 * unat (io_console_line t) \<or> 8 * unat (io_console_line t) + 8 \<le> b \<longrightarrow> pic g' s' a b = pic g s a b)"
proof -
  let ?cs = "map str [0..<n]" and ?x = "io_console_xpixel t" and ?y = "8 * io_console_line t"
  have g: "gpu_ok g" "8 \<le> gpu_display_width g" "8 \<le> gpu_display_height g" using ok by (simp_all add: screen_ok_def)
  have nz: "0 \<notin> set ?cs" and nl: "10 \<notin> set ?cs" "13 \<notin> set ?cs"
    using str by (force simp: terminated_def)+
  note run = puts_single_run [OF ok str(1,2) nl start(1), of dev color]
  show ?thesis
  proof (cases "n = 0")
    case True
    then show ?thesis using run by (auto simp: io_console_flush_run_def intro!: exI [of _ g] exI [of _ s])
  next
    case False
    have W: "unat ?x + 8 * length ?cs < 2 ^ 32" and Y: "unat ?y + 8 \<le> 2 ^ 32"
      using big_enough [OF g(1,3)] start(2) str(2) cursor_row [OF ok] unat_lt_pow [of "gpu_display_height g"]
      by (simp_all add: word_le_nat_alt)
    obtain g' s' where d: "draw_text dev ?x color ?x ?y 0 ?cs g s = Some (g', s')"
      "\<forall>a<unat (gpu_display_width g). \<forall>b<unat (gpu_display_height g). pic g' s' a b
      = (if unat ?x \<le> a \<and> a < unat ?x + 8 * length ?cs \<and> unat ?y \<le> b \<and> b < unat ?y + 8
            \<and> glyph_bit (glyph_of (?cs ! ((a - unat ?x) div 8))) (b - unat ?y) ((a - unat ?x) mod 8)
         then color else pic g s a b)"
      using draw_text_pic [OF g(1) nl(1) W Y, of dev ?x color 0 s] by blast
    have cs: "map (cstr_of ?cs) [0..<n] = ?cs" by (simp add: cstr_of_def)
    have "?y \<le> gpu_display_height g" using cursor_row [OF ok] by (simp add: word_le_nat_alt)
    then have "ltrs_color dev ?x ?y (cstr_of ?cs) color g s = Some (0, g', s')"
    proof -
      have k: "kstrlen (cstr_of ?cs) = Some n" using kstrlen_eq [OF terminated_cstr_of [OF nz refl]] by simp
      assume "?y \<le> gpu_display_height g"
      then have "\<not> (?x > gpu_display_width g \<or> ?y > gpu_display_height g \<or> n = 0)" using start(2) False by (simp add: not_less)
      then show ?thesis
        unfolding ltrs_color_def k bind.bind_lunit Let_def cs by (simp only: if_False d(1) count_newlines_none [OF nl(1)] bind.bind_lunit prod.case)
    qed
    then have "io_puts_color dev (Some str) color (t, g, s) = Some (0, t\<lparr>io_console_xpixel := ?x + of_nat n * 8\<rparr>, g', s')"
      unfolding run using False by (simp add: io_console_flush_run_def)
    then show ?thesis using d(2) unfolding cursor_row(1) [OF ok] by auto
  qed
qed

lemma console_never_wraps_witness:
  "\<exists>g' s'. io_puts_color (\<lambda>_ _. 0) (Some (cstr_of [65, 66, 67])) 0xFFFFFFFF (home, small_gpu, blank_drv)
     = Some (0, \<lparr>io_console_line = 0, io_console_xpixel = 24\<rparr>, g', s')"
proof -
  have t: "terminated (cstr_of [65, 66, 67]) 3" by (rule terminated_cstr_of) simp_all
  have "\<forall>i<3. cstr_of [65, 66, 67] i \<noteq> 10 \<and> cstr_of [65, 66, 67] i \<noteq> 13"
    by (simp add: cstr_of_def less_Suc_eq numeral_3_eq_3)
  from console_never_wraps [OF small_screen_ok t _ this, of "\<lambda>_ _. 0" "0xFFFFFFFF"]
  show ?thesis by (auto simp: home_def small_gpu_def)
qed

end
