(* ===== verification/Machine.thy ===== *)
theory Machine
  imports Meta DM VHid Net Blk Console
begin

text \<open>
  The kernel together with its devices, for the code that uses both: system calls, interrupts and
  \<^verbatim>\<open>getchar\<close>. The drivers work on the kernel's memory and serial output.
\<close>

record machine =
  m_k :: kernel
  m_hid :: hid
  m_net :: net
  m_tr :: "io_ev list"
  m_dtb :: dtb_t
  m_gpu :: gpu
  m_con :: con
  m_blk :: blk

text \<open>
  What the code relies on and does not define: the devices, what an interrupt does while \<^verbatim>\<open>getchar\<close>
  waits, the system registers, and the addresses of the packet cache and of the directory entries.
\<close>

record env =
  e_dev :: device
  e_intr :: "machine \<Rightarrow> machine"
  e_reg :: "string \<Rightarrow> u64"
  e_payload :: "nat \<Rightarrow> u64"
  e_dir :: "nat \<Rightarrow> u64"

definition drv_of :: "machine \<Rightarrow> drv" where
  "drv_of m = \<lparr>d_tr = m_tr m, d_mem = k_mem (m_k m), d_out = k_out (m_k m)\<rparr>"

definition put_drv :: "drv \<Rightarrow> machine \<Rightarrow> machine" where
  "put_drv s m = m\<lparr>m_tr := d_tr s, m_k := (m_k m)\<lparr>k_mem := d_mem s, k_out := d_out s\<rparr>\<rparr>"

definition on_k :: "(kernel \<Rightarrow> kernel) \<Rightarrow> machine \<Rightarrow> machine" where
  "on_k f m = m\<lparr>m_k := f (m_k m)\<rparr>"

definition out :: "u8 list \<Rightarrow> machine \<Rightarrow> machine" where
  "out bs = on_k (emit bs)"

definition set_fm :: "FMv3_record \<Rightarrow> machine \<Rightarrow> machine" where
  "set_fm f = on_k (\<lambda>k. k\<lparr>k_fm := f\<rparr>)"

definition disable_irq :: "machine \<Rightarrow> machine" where
  "disable_irq m = put_drv (msr ''daifset'' 2 (drv_of m)) m"

definition enable_irq :: "machine \<Rightarrow> machine" where
  "enable_irq m = put_drv (msr ''daifclr'' 2 (drv_of m)) m"

definition UART0_DR :: u64 where "UART0_DR = 0x09000000"
definition UART0_FR :: u64 where "UART0_FR = 0x09000018"

text \<open>Waiting for a character from the keyboard or the serial port.\<close>

partial_function (option) getchar :: "env \<Rightarrow> machine \<Rightarrow> (u8 \<times> machine) option" where
  "getchar e m =
     (let (r, c, h, s) = vhid_getchar False (m_hid m) (drv_of m);
          m1 = put_drv s (m\<lparr>m_hid := h\<rparr>)
      in if r > 0 then Some (c, m1)
         else let (fr, s2) = rd32 (e_dev e) UART0_FR (drv_of m1); m2 = put_drv s2 m1 in
           if fr AND 16 = 0
           then let (v, s3) = rd32 (e_dev e) UART0_DR (drv_of m2) in Some (ucast v, put_drv s3 m2)
           else getchar e (e_intr e m2))"

text \<open>Discarding what the serial port has received, for as long as it has any.\<close>

partial_function (option) uart_flush :: "env \<Rightarrow> machine \<Rightarrow> machine option" where
  "uart_flush e m =
     (let (fr, s1) = rd32 (e_dev e) UART0_FR (drv_of m); m1 = put_drv s1 m in
      if fr AND 16 = 0
      then let (v, s2) = rd32 (e_dev e) UART0_DR (drv_of m1) in uart_flush e (put_drv s2 m1)
      else Some m1)"

section \<open>A line of input\<close>

definition screen_of :: "machine \<Rightarrow> screen" where
  "screen_of m = (m_con m, m_gpu m, drv_of m)"

definition put_screen :: "screen \<Rightarrow> machine \<Rightarrow> machine" where
  "put_screen = (\<lambda>(t, g, s) m. put_drv s (m\<lparr>m_con := t, m_gpu := g\<rparr>))"

definition poke :: "u64 \<Rightarrow> u8 \<Rightarrow> mem \<Rightarrow> mem" where
  "poke a b m = m(unat a := b)"

definition poke_m :: "u64 \<Rightarrow> u8 \<Rightarrow> machine \<Rightarrow> machine" where
  "poke_m a b = on_k (\<lambda>k. k\<lparr>k_mem := poke a b (k_mem k)\<rparr>)"

text \<open>Printing a string on the console of the machine.\<close>

definition kputs :: "env \<Rightarrow> u32 \<Rightarrow> cstr \<Rightarrow> machine \<Rightarrow> machine option" where
  "kputs e color s m = do {
     (n, sc) \<leftarrow> io_puts_color (e_dev e) (Some s) color (screen_of m);
     Some (put_screen sc m) }"

definition echo :: "env \<Rightarrow> u8 \<Rightarrow> machine \<Rightarrow> machine option" where
  "echo e c = kputs e 0xFFFFFFFF (cstr_of [c])"

text \<open>The loop of \<^verbatim>\<open>gets\<close>: the number of characters kept. A backspace takes the last one back.\<close>

partial_function (option) gets_loop :: "env \<Rightarrow> u64 \<Rightarrow> int \<Rightarrow> int \<Rightarrow> machine \<Rightarrow> (int \<times> machine) option" where
  "gets_loop e a max_len i m =
     (if i < max_len - 1
      then do {
        (c, m1) \<leftarrow> getchar e m;
        if c = 13 \<or> c = 10 then do { m2 \<leftarrow> echo e 10 m1; Some (i, m2) }
        else if c = 8 \<or> c = 127
        then if i > 0
             then let m2 = poke_m (a + of_int (i - 1)) 0 m1;
                      m3 = put_screen (io_console_erase_char (e_dev e) (screen_of m2)) m2
                  in gets_loop e a max_len (i - 1) m3
             else gets_loop e a max_len i m1
        else if c \<ge> 32 \<and> c < 127
        then do { m2 \<leftarrow> echo e c (poke_m (a + of_int i) c m1); gets_loop e a max_len (i + 1) m2 }
        else gets_loop e a max_len i m1 }
      else Some (i, m))"

definition gets :: "env \<Rightarrow> u64 \<Rightarrow> int \<Rightarrow> machine \<Rightarrow> machine option" where
  "gets e a max_len m =
     (if a = 0 \<or> max_len \<le> 0 then Some m
      else do { (i, m1) \<leftarrow> gets_loop e a max_len 0 m; Some (poke_m (a + of_int i) 0 m1) })"

text \<open>
  How a handler ends: it returns a value, or the machine stops for good in \<^verbatim>\<open>full_stop\<close>. Undefined
  behaviour, a function that ends without the value it should return among it, is \<open>None\<close>.
\<close>

datatype outcome = Ret u64 machine | Halt machine

text \<open>A string in memory; a null pointer is none.\<close>

definition cstr_mem :: "mem \<Rightarrow> u64 \<Rightarrow> cstr" where
  "cstr_mem m a = (\<lambda>i. m (unat (a + of_nat i)))"

definition cstr_at :: "mem \<Rightarrow> u64 \<Rightarrow> cstr option" where
  "cstr_at m a = (if a = 0 then None else Some (cstr_mem m a))"

lemma drv_of_put [simp]: "drv_of (put_drv s m) = s"
  by (simp add: drv_of_def put_drv_def)

lemma put_drv_frame [simp]:
  "m_hid (put_drv s m) = m_hid m" "m_net (put_drv s m) = m_net m" "m_dtb (put_drv s m) = m_dtb m"
  "m_gpu (put_drv s m) = m_gpu m" "m_con (put_drv s m) = m_con m" "m_blk (put_drv s m) = m_blk m"
  "k_pm (m_k (put_drv s m)) = k_pm (m_k m)" "k_fm (m_k (put_drv s m)) = k_fm (m_k m)"
  "k_mm (m_k (put_drv s m)) = k_mm (m_k m)" "k_cur (m_k (put_drv s m)) = k_cur (m_k m)"
  "k_mem (m_k (put_drv s m)) = d_mem s" "k_out (m_k (put_drv s m)) = d_out s"
  "k_dm (m_k (put_drv s m)) = k_dm (m_k m)" "k_pages (m_k (put_drv s m)) = k_pages (m_k m)"
  by (simp_all add: put_drv_def)

lemma out_frame [simp]:
  "m_hid (out bs m) = m_hid m" "m_net (out bs m) = m_net m" "m_dtb (out bs m) = m_dtb m" "m_tr (out bs m) = m_tr m"
  "m_gpu (out bs m) = m_gpu m" "m_con (out bs m) = m_con m" "m_blk (out bs m) = m_blk m"
  "k_pm (m_k (out bs m)) = k_pm (m_k m)" "k_fm (m_k (out bs m)) = k_fm (m_k m)"
  "k_mm (m_k (out bs m)) = k_mm (m_k m)" "k_cur (m_k (out bs m)) = k_cur (m_k m)"
  "k_mem (m_k (out bs m)) = k_mem (m_k m)" "k_out (m_k (out bs m)) = k_out (m_k m) @ bs"
  "k_dm (m_k (out bs m)) = k_dm (m_k m)" "k_pages (m_k (out bs m)) = k_pages (m_k m)"
  by (simp_all add: out_def on_k_def)

text \<open>The machine after the managers have started, running process 1.\<close>

definition boot_hid :: hid where
  "boot_hid = \<lparr>input_devices = [], next_input_device = 0, input_char_queue = replicate 256 0, input_char_head = 0,
     input_char_tail = 0, input_char_dropped = 0, input_char_dropped_reported = 0\<rparr>"

definition boot_blk :: blk where
  "boot_blk = \<lparr>blk_base = 0xa000400,
     blk_queue = \<lparr>vq_desc = 0x40050000, vq_avail = 0x40051000, vq_used = 0x40052000, vq_storage = 0x40050000, vq_size = 256\<rparr>,
     blk_req_state = BLK_REQ_IDLE, blk_last_used_idx = 0, blk_queue_storage = 0x40050000, blk_req = 0x40060000,
     blk_data = 0x40060200, blk_read_data = 0x40060400, blk_status = 0x40060600\<rparr>"

definition boot_machine :: machine where
  "boot_machine = \<lparr>m_k = boot_kernel\<lparr>k_cur := Some 1\<rparr>, m_hid = boot_hid, m_net = net_boot, m_tr = [], m_dtb = dtb_init,
     m_gpu = small_gpu, m_con = home, m_blk = boot_blk\<rparr>"

definition idle_env :: env where
  "idle_env = \<lparr>e_dev = (\<lambda>_ _. 0), e_intr = (\<lambda>m. m), e_reg = (\<lambda>_. 0), e_payload = (\<lambda>_. 0), e_dir = (\<lambda>_. 0)\<rparr>"

end
