(* ===== verification/Syscall.thy ===== *)
theory Syscall
  imports Machine
begin

text \<open>
  The system calls of \<^verbatim>\<open>src/handler/syscall.c\<close>. A call gets five 64-bit arguments; pointers among them are
  addresses of user memory. \<^verbatim>\<open>current_proc\<close> is dereferenced where the code does, so a call without a
  current process is undefined.
\<close>

type_synonym syscall_fn = "env \<Rightarrow> machine \<Rightarrow> u64 \<Rightarrow> u64 \<Rightarrow> u64 \<Rightarrow> u64 \<Rightarrow> u64 \<Rightarrow> outcome option"

definition cur :: "machine \<Rightarrow> nat option" where
  "cur m = k_cur (m_k m)"

definition cproc :: "machine \<Rightarrow> nat \<Rightarrow> pcb_t" where
  "cproc m i = proc (m_k m) i"

definition set_cproc :: "nat \<Rightarrow> pcb_t \<Rightarrow> machine \<Rightarrow> machine" where
  "set_cproc i p = on_k (set_proc i p)"

definition BAD :: u64 where "BAD = - 1"

text \<open>A file descriptor as an index, from the low 32 bits as a signed integer.\<close>

definition fd_of :: "u64 \<Rightarrow> int" where
  "fd_of a = sint (ucast a :: u32)"

definition control_at :: "pcb_t \<Rightarrow> int \<Rightarrow> ctrl_t option" where
  "control_at p fd = (if fd < 0 then None else aget (control p) (nat fd))"

definition set_control :: "int \<Rightarrow> ctrl_t \<Rightarrow> pcb_t \<Rightarrow> pcb_t" where
  "set_control fd c p = p\<lparr>control := (control p)[nat fd := c]\<rparr>"

text \<open>The union read as a file pointer.\<close>

fun file_ptr :: "ctrl_use \<Rightarrow> nat option option" where
  "file_ptr (Use_file f) = Some (Some f)"
| "file_ptr (Use_dev None) = Some None"
| "file_ptr (Use_dev (Some d)) = None"

section \<open>General\<close>

definition exit_call :: syscall_fn where
  "exit_call e m a1 a2 a3 a4 a5 = Some (Halt (out (enter ''sys_exit'' @ full_stop_text) m))"

definition abort_call :: syscall_fn where
  "abort_call e m a1 a2 a3 a4 a5 = None"

definition brk_call :: syscall_fn where
  "brk_call e m a1 a2 a3 a4 a5 =
     (case cur m of
        None \<Rightarrow> Some (Ret BAD m)
      | Some i \<Rightarrow>
          let p = cproc m i in
          if heap_start p = 0 then Some (Ret BAD m)
          else if a1 = 0 then Some (Ret (heap_break p) m)
          else if heap_break p > heap_limit p \<or> a1 > heap_limit p - heap_break p then Some (Ret BAD m)
          else Some (Ret (heap_break p) (set_cproc i (p\<lparr>heap_break := heap_break p + a1\<rparr>) m)))"

definition yield_call :: syscall_fn where
  "yield_call e m a1 a2 a3 a4 a5 = None"

definition setup_call :: syscall_fn where
  "setup_call e m a1 a2 a3 a4 a5 = do {
     i \<leftarrow> cur m;
     let pr = \<lparr>proto_rule = ucast a2, proto_addr = a1\<rparr>;
     let m1 = on_k (\<lambda>k. k\<lparr>k_pm := (k_pm k)\<lparr>proto_arr := (proto_arr (k_pm k))(unat (p_num (proc k i)) := pr)\<rparr>\<rparr>)
                (out (enter ''setup'') m);
     Some (Ret 1 (out (exit_text ''setup'') m1)) }"

definition write_call :: syscall_fn where
  "write_call e m a1 a2 a3 a4 a5 = do {
     i \<leftarrow> cur m;
     let fd = fd_of a1;
     let len = (ucast a3 :: u32);
     c \<leftarrow> control_at (cproc m i) fd;
     if \<not> is_file c
     then if fd = 0
          then (case use c of
                  Use_dev (Some Uart_device) \<Rightarrow>
                    let (bs, r) = uart_dev_write (k_mem (m_k m)) a2 len in Some (Ret (scast r) (out bs m))
                | _ \<Rightarrow> None)
          else Some (Ret 1 m)
     else do {
       f \<leftarrow> file_ptr (use c);
       let (written, mem') = fm_write (k_fm (m_k m)) (k_mem (m_k m)) f (unat a2) len (file_offset c);
       let c' = c\<lparr>file_offset := file_offset c + of_nat written\<rparr>;
       Some (Ret (scast (of_nat written :: u32))
         (set_cproc i (set_control fd c' (cproc m i)) (on_k (\<lambda>k. k\<lparr>k_mem := mem'\<rparr>) m))) } }"

text \<open>Reading from a device: characters are stored and echoed up to a line end. The number read.\<close>

fun read_chars :: "env \<Rightarrow> u64 \<Rightarrow> nat \<Rightarrow> nat \<Rightarrow> machine \<Rightarrow> (nat \<times> machine) option" where
  "read_chars e buf i 0 m = Some (i, m)"
| "read_chars e buf i (Suc n) m = do {
     (c, m1) \<leftarrow> getchar e m;
     let m2 = on_k (\<lambda>k. k\<lparr>k_mem := poke (buf + of_nat i) c (k_mem k)\<rparr>) m1;
     if c = 10 \<or> c = 13 then Some (i + 1, out [10] m2)
     else read_chars e buf (i + 1) n (out [c] m2) }"

definition read_call :: syscall_fn where
  "read_call e m a1 a2 a3 a4 a5 =
     (if a3 = 0 then Some (Ret 0 m)
      else let fd = fd_of a1 in
        if a2 = 0 \<or> fd < 0 \<or> fd \<ge> int MAX_CONTROL_NUM then Some (Ret BAD m)
        else do {
          i \<leftarrow> cur m;
          c \<leftarrow> control_at (cproc m i) fd;
          if \<not> is_ctrl_alloc c then Some (Ret BAD m)
          else if \<not> is_file c
          then do { (n, m') \<leftarrow> read_chars e a2 0 (unat a3) m; Some (Ret (of_nat n) m') }
          else if a3 > 0xFFFFFFFF
          then Some (Ret BAD (out (exit_text ''sys_read'' @ log_text ''!'') m))
          else do {
            let offset = (if (ucast a4 :: u32) \<ge> file_offset c then file_offset c else ucast a4);
            f \<leftarrow> file_ptr (use c);
            let (n, mem') = fm_read (k_fm (m_k m)) (k_mem (m_k m)) f (unat a2) (ucast a3) offset;
            let c' = (if n > 0 then c\<lparr>file_offset := file_offset c + of_nat n\<rparr> else c);
            let m1 = set_cproc i (set_control fd c' (cproc m i)) (on_k (\<lambda>k. k\<lparr>k_mem := mem'\<rparr>) m);
            Some (Ret (of_nat n) (out (exit_text ''sys_read'') m1)) } })"

section \<open>Files\<close>

text \<open>The first control from 1 on that is free.\<close>

fun free_control :: "ctrl_t list \<Rightarrow> nat \<Rightarrow> nat \<Rightarrow> nat option option" where
  "free_control cs i 0 = Some None"
| "free_control cs i (Suc n) = do {
     c \<leftarrow> aget cs i;
     if \<not> is_ctrl_alloc c then Some (Some i) else free_control cs (i + 1) n }"

definition open_call :: syscall_fn where
  "open_call e m a1 a2 a3 a4 a5 = do {
     i \<leftarrow> cur m;
     let p = cproc m i;
     let flags = (ucast a2 :: u8);
     slot \<leftarrow> free_control (control p) 1 (MAX_CONTROL_NUM - 1);
     (case slot of
        None \<Rightarrow> Some (Ret BAD m)
      | Some fd \<Rightarrow> do {
          c \<leftarrow> aget (control p) fd;
          if flags AND 1 \<noteq> 0
          then do {
            dev \<leftarrow> dm_find (k_dm (m_k m)) (cstr_mem (k_mem (m_k m)) a1);
            (case dev of
               None \<Rightarrow> Some (Ret BAD m)
             | Some d \<Rightarrow>
                 let c' = c\<lparr>is_ctrl_alloc := True, use := Use_dev (Some (Dm_entry d)), is_file := False, file_offset := 0\<rparr>
                 in Some (Ret (of_nat fd) (set_cproc i (set_control (int fd) c' p) m))) }
          else do {
            fil \<leftarrow> fm_find (k_fm (m_k m)) (cstr_at (k_mem (m_k m)) a1);
            (case fil of
               None \<Rightarrow> Some (Ret BAD m)
             | Some f \<Rightarrow>
                 let off = (if drop_bit 3 flags AND 1 \<noteq> 0
                            then of_nat (f_lens (FMv3_mem (k_fm (m_k m)) f) * 1024) else 0);
                     c' = c\<lparr>is_ctrl_alloc := True, use := Use_file f, is_file := True, file_offset := off\<rparr>
                 in Some (Ret (of_nat fd) (set_cproc i (set_control (int fd) c' p) m))) } }) }"

definition close_call :: syscall_fn where
  "close_call e m a1 a2 a3 a4 a5 = do {
     i \<leftarrow> cur m;
     let fd = fd_of a1;
     c \<leftarrow> control_at (cproc m i) fd;
     let c' = (if fd = 0 then c\<lparr>use := Use_dev (Some Uart_device)\<rparr>
               else c\<lparr>is_ctrl_alloc := False, use := Use_dev None\<rparr>);
     Some (Ret 1 (set_cproc i (set_control fd c' (cproc m i)) m)) }"

definition of_bool64 :: "bool \<Rightarrow> u64" where
  "of_bool64 b = (if b then 1 else 0)"

definition file_create_call :: syscall_fn where
  "file_create_call e m a1 a2 a3 a4 a5 = do {
     (r, f) \<leftarrow> fm_create (k_fm (m_k m)) (cstr_at (k_mem (m_k m)) a1) (ucast a3) (ucast a2);
     Some (Ret 1 (set_fm f m)) }"

definition file_del_call :: syscall_fn where
  "file_del_call e m a1 a2 a3 a4 a5 = do {
     (r, f) \<leftarrow> fm_delete (k_fm (m_k m)) (cstr_at (k_mem (m_k m)) a1);
     Some (Ret (of_bool64 r) (set_fm f m)) }"

text \<open>A directory passed by address: the entry that lies there.\<close>

definition dir_in_call :: "(u64 \<Rightarrow> nat option option) \<Rightarrow> syscall_fn" where
  "dir_in_call dir_of e m a1 a2 a3 a4 a5 = do {
     d \<leftarrow> dir_of a1;
     (r, f) \<leftarrow> fm_dir_in (k_fm (m_k m)) d (unat (ucast a2 :: u16));
     Some (Ret (of_bool64 r) (set_fm f m)) }"

definition dir_out_call :: "(u64 \<Rightarrow> nat option option) \<Rightarrow> syscall_fn" where
  "dir_out_call dir_of e m a1 a2 a3 a4 a5 = do {
     d \<leftarrow> dir_of a1;
     (r, f) \<leftarrow> fm_dir_out (k_fm (m_k m)) d (unat (ucast a2 :: u16));
     Some (Ret (of_bool64 r) (set_fm f m)) }"

definition dir_create_call :: syscall_fn where
  "dir_create_call e m a1 a2 a3 a4 a5 = do {
     (r, f) \<leftarrow> fm_dir_create (k_fm (m_k m)) (cstr_at (k_mem (m_k m)) a1) (ucast a2) (ucast a3) (ucast a4);
     Some (Ret (case r of None \<Rightarrow> 0 | Some d \<Rightarrow> e_dir e d) (set_fm f m)) }"

definition dir_del_call :: syscall_fn where
  "dir_del_call e m a1 a2 a3 a4 a5 = do {
     (r, f) \<leftarrow> fm_dir_delete (k_fm (m_k m)) (cstr_at (k_mem (m_k m)) a1);
     Some (Ret (of_bool64 r) (set_fm f m)) }"

section \<open>Processes and messages\<close>

definition proc_creat_call :: syscall_fn where
  "proc_creat_call e m a1 a2 a3 a4 a5 = None"

definition proc_del_call :: syscall_fn where
  "proc_del_call e m a1 a2 a3 a4 a5 = None"

text \<open>The receiver's signal byte is written even when the message was not delivered.\<close>

definition ipc_send_call :: syscall_fn where
  "ipc_send_call e m a1 a2 a3 a4 a5 = do {
     let m1 = out (enter ''ipc_send_call'') m;
     i \<leftarrow> cur m1;
     let towho = (ucast a3 :: u8);
     let k = m_k m1;
     (pm, bs) \<leftarrow> ptp (k_pm k) (p_num (proc k i)) towho (cstr_mem (k_mem k) a1) (ucast a2);
     let addr = proto_addr (proto_arr pm (unat towho));
     if addr = 0 then None
     else Some (Ret 1 (out bs (on_k (\<lambda>k. k\<lparr>k_pm := pm, k_mem := poke addr 3 (k_mem k)\<rparr>) m1))) }"

fun copy_msg :: "u8 list \<Rightarrow> u64 \<Rightarrow> nat \<Rightarrow> nat \<Rightarrow> mem \<Rightarrow> mem option" where
  "copy_msg box a i 0 m = Some m"
| "copy_msg box a i (Suc n) m = do { b \<leftarrow> aget box i; copy_msg box a (i + 1) n (poke (a + of_nat i) b m) }"

definition ipc_rece_call :: syscall_fn where
  "ipc_rece_call e m a1 a2 a3 a4 a5 = do {
     i \<leftarrow> cur m;
     let mem0 = k_mem (m_k m);
     let ms = msgs (cproc m i);
     mem1 \<leftarrow> copy_msg (msgbox ms) a1 0 (unat (msg_len ms)) mem0;
     Some (Ret 1 (out (enter ''ipc_rece_call'' @ dump ''addr'' a1 @ dump ''before'' (ucast (cstr_mem mem0 a1 0))
         @ dump ''after0'' (ucast (cstr_mem mem1 a1 0)) @ dump ''after1'' (ucast (cstr_mem mem1 a1 1))
         @ exit_text ''ipc'') (on_k (\<lambda>k. k\<lparr>k_mem := mem1\<rparr>) m))) }"

section \<open>Network and disk\<close>

definition l2_send_call :: syscall_fn where
  "l2_send_call e m a1 a2 a3 a4 a5 = do {
     let n = m_net m;
     let id = unat (ucast a2 :: u8);
     dst \<leftarrow> aget (dst_buf (nm_connect n)) id;
     known \<leftarrow> aget (nm_is_dst (nm_connect n)) id;
     if \<not> known then Some (Ret BAD m)
     else do {
       let s1 = nm_cap n dst a1 (ucast (ucast a3 :: u8)) (ucast a4) (drv_of m);
       let (ok, s2) = poll_used (e_dev e) (tx_queue n) (last_tx_used_idx n) 10000000 s1;
       Some (if ok
             then Ret 0 (put_drv (say (line_of ''TX SUCCESS'') s2)
                    (m\<lparr>m_net := n\<lparr>last_tx_used_idx := last_tx_used_idx n + 1\<rparr>\<rparr>))
             else Ret BAD (put_drv s2 m)) } }"

definition l2_rece_call :: syscall_fn where
  "l2_rece_call e m a1 a2 a3 a4 a5 =
     (let m1 = out (enter ''rece_L2_call'') m; n = m_net m1; c = nm_connect n;
          (r, q) = queue_pop (nmqueue c)
      in Some (Ret (e_payload e (unat r)) (m1\<lparr>m_net := n\<lparr>nm_connect := c\<lparr>nmqueue := q\<rparr>\<rparr>\<rparr>)))"

definition l2_find_call :: syscall_fn where
  "l2_find_call e m a1 a2 a3 a4 a5 = None"

definition disk_load_call :: syscall_fn where
  "disk_load_call e m a1 a2 a3 a4 a5 = None"

definition disk_store_call :: syscall_fn where
  "disk_store_call e m a1 a2 a3 a4 a5 = None"

definition reserved_call :: syscall_fn where
  "reserved_call e m a1 a2 a3 a4 a5 = Some (Ret BAD m)"

section \<open>Dispatch\<close>

definition call_table :: "syscall_fn list" where
  "call_table =
     [reserved_call, exit_call, abort_call, brk_call, yield_call, setup_call, write_call, read_call,
      open_call, close_call, file_create_call, file_del_call, reserved_call, reserved_call, dir_create_call, dir_del_call,
      proc_creat_call, proc_del_call] @ replicate 6 reserved_call
     @ [ipc_send_call, ipc_rece_call] @ replicate 6 reserved_call
     @ [l2_send_call, l2_rece_call, l2_find_call] @ replicate 5 reserved_call
     @ replicate 8 reserved_call
     @ [disk_load_call, disk_store_call] @ replicate 14 reserved_call"

definition svc_a64_handle :: "u64 \<Rightarrow> syscall_fn" where
  "svc_a64_handle syscall_num e m a1 a2 a3 a4 a5 =
     (if syscall_num < 64 then (call_table ! unat syscall_num) e m a1 a2 a3 a4 a5
      else Some (Halt (out (text_of ''[Kernel] Unknown syscall: '' @ put_hex syscall_num @ [10] @ full_stop_text) m)))"

lemma length_call_table: "length call_table = 64"
  by (simp add: call_table_def)

end
