(* ===== verification/Syscall_Props.thy ===== *)
theory Syscall_Props
  imports Syscall
begin

text \<open>
  What the system calls guarantee: which of them come back, that the process table keeps its shape,
  that the heap of a process is handed out without overlap, how descriptors are given out, and what
  becomes of messages.
\<close>

section \<open>Helper lemmas\<close>

lemma cproc_set [simp]: "cproc (set_cproc i p m) j = (if j = i then p else cproc m j)"
  by (simp add: cproc_def set_cproc_def on_k_def)

lemma cur_set [simp]: "cur (set_cproc i p m) = cur m" "cur (out bs m) = cur m" "cur (put_drv s m) = cur m"
  "cur (set_fm f m) = cur m"
  by (simp_all add: cur_def set_cproc_def on_k_def set_fm_def)

lemma cproc_frame [simp]: "cproc (out bs m) = cproc m" "cproc (put_drv s m) = cproc m" "cproc (set_fm f m) = cproc m"
  "cproc (m\<lparr>m_hid := h\<rparr>) = cproc m" "cproc (m\<lparr>m_net := n\<rparr>) = cproc m"
  "cproc (on_k (\<lambda>k. k\<lparr>k_mem := mem\<rparr>) m) = cproc m" "cproc (on_k (\<lambda>k. k\<lparr>k_mem := g (k_mem k)\<rparr>) m) = cproc m"
  by (simp_all add: cproc_def fun_eq_iff proc_def set_fm_def on_k_def)

section \<open>Which calls return\<close>

lemma exit_halts: "\<exists>m'. exit_call e m a1 a2 a3 a4 a5 = Some (Halt m')"
  by (simp add: exit_call_def)

lemma exit_table: "call_table ! 1 = exit_call"
  by (simp add: call_table_def)

definition returning :: "syscall_fn set" where
  "returning = {reserved_call, abort_call, brk_call, yield_call, setup_call, write_call, read_call, open_call, close_call,
     file_create_call, file_del_call, dir_create_call, dir_del_call, proc_creat_call, proc_del_call, ipc_send_call,
     ipc_rece_call, l2_send_call, l2_rece_call, l2_find_call, disk_load_call, disk_store_call}"

lemma table_entry:
  assumes "n < 64" "n \<noteq> 1" shows "call_table ! n \<in> returning"
proof -
  have t: "call_table = reserved_call # exit_call # drop 2 call_table" by (simp add: call_table_def)
  have sub: "set (drop 2 call_table) \<subseteq> returning" by (simp add: call_table_def returning_def)
  show ?thesis
  proof (cases n)
    case 0
    then have "call_table ! n = reserved_call" by (subst t) simp
    then show ?thesis by (simp add: returning_def)
  next
    case (Suc j)
    then obtain k where k: "n = Suc (Suc k)" using assms(2) by (cases j) auto
    then have "call_table ! n = drop 2 call_table ! k" by (subst t) simp
    moreover have "drop 2 call_table ! k \<in> set (drop 2 call_table)"
      using assms(1) k by (intro nth_mem) (simp add: length_call_table)
    ultimately show ?thesis using sub by auto
  qed
qed

lemma no_halt:
  "f \<in> returning \<Longrightarrow> f e m a1 a2 a3 a4 a5 \<noteq> Some (Halt m')"
  by (auto simp: returning_def reserved_call_def abort_call_def brk_call_def yield_call_def setup_call_def
      write_call_def read_call_def open_call_def close_call_def file_create_call_def file_del_call_def
      dir_create_call_def dir_del_call_def proc_creat_call_def proc_del_call_def ipc_send_call_def
      ipc_rece_call_def l2_send_call_def l2_rece_call_def l2_find_call_def disk_load_call_def
      disk_store_call_def Let_def split: option.splits if_splits bind_splits prod.splits
      ctrl_use.splits dev_ptr.splits)

text \<open>Which system calls stop the machine. A system call ends in \<^verbatim>\<open>full_stop\<close> - the whole kernel
  stops, not only the caller - exactly when its number is 1, the exit call, or at least 64; every
  number below 64 has a handler.\<close>

theorem svc_halts:
  "(\<exists>m'. svc_a64_handle n e m a1 a2 a3 a4 a5 = Some (Halt m')) \<longleftrightarrow> n = 1 \<or> 64 \<le> n"
proof -
  consider "64 \<le> n" | "n = 1" | "n < 64" "n \<noteq> 1" by fastforce
  then show ?thesis
  proof cases
    case 1
    then have "\<not> n < 64" by simp
    then show ?thesis using 1 by (simp add: svc_a64_handle_def)
  next
    case 2
    then show ?thesis using exit_halts exit_table by (simp add: svc_a64_handle_def)
  next
    case 3
    then have "unat n < 64" "unat n \<noteq> 1" by (simp_all add: word_less_nat_alt word_unat_eq_iff)
    then have "call_table ! unat n \<in> returning" by (rule table_entry)
    then show ?thesis using 3 no_halt by (simp add: svc_a64_handle_def not_le [symmetric])
  qed
qed

section \<open>The heap of a process\<close>

text \<open>A run of allocation requests; each must come back.\<close>

fun brks :: "env \<Rightarrow> machine \<Rightarrow> u64 list \<Rightarrow> (u64 list \<times> machine) option" where
  "brks e m [] = Some ([], m)"
| "brks e m (r # rs) =
     (case brk_call e m r 0 0 0 0 of
        Some (Ret v m1) \<Rightarrow> do { (vs, m2) \<leftarrow> brks e m1 rs; Some (v # vs, m2) }
      | _ \<Rightarrow> None)"

definition heap_bounds :: "pcb_t \<Rightarrow> bool" where
  "heap_bounds p \<longleftrightarrow> heap_start p \<noteq> 0 \<and> heap_start p \<le> heap_break p \<and> heap_break p \<le> heap_limit p"

text \<open>A request that was granted: not the empty one and not refused.\<close>

definition granted :: "u64 \<Rightarrow> u64 \<Rightarrow> bool" where
  "granted r v \<longleftrightarrow> r \<noteq> 0 \<and> v \<noteq> BAD"

lemma brk_step:
  assumes "cur m = Some i" "heap_bounds (cproc m i)"
  shows "\<exists>v m'. brk_call e m r 0 0 0 0 = Some (Ret v m') \<and> cur m' = Some i \<and> heap_bounds (cproc m' i)
    \<and> heap_start (cproc m' i) = heap_start (cproc m i) \<and> heap_limit (cproc m' i) = heap_limit (cproc m i)
    \<and> (granted r v \<longrightarrow> v = heap_break (cproc m i) \<and> unat v + unat r = unat (heap_break (cproc m' i)))
    \<and> (\<not> granted r v \<longrightarrow> m' = m) \<and> (granted r v \<longleftrightarrow> r \<noteq> 0 \<and> r \<le> heap_limit (cproc m i) - heap_break (cproc m i))"
proof -
  let ?p = "cproc m i"
  have b: "heap_start ?p \<noteq> 0" "heap_start ?p \<le> heap_break ?p" "heap_break ?p \<le> heap_limit ?p"
    using assms(2) by (simp_all add: heap_bounds_def)
  show ?thesis
  proof (cases "r = 0 \<or> heap_limit ?p - heap_break ?p < r")
    case True
    then show ?thesis using assms b by (auto simp: brk_call_def Let_def granted_def BAD_def)
  next
    case False
    then have r: "r \<noteq> 0" "r \<le> heap_limit ?p - heap_break ?p" by auto
    have lim: "unat (heap_limit ?p - heap_break ?p) = unat (heap_limit ?p) - unat (heap_break ?p)"
      using b(3) by (rule unat_sub_no_wrap)
    have le: "unat (heap_break ?p) \<le> unat (heap_limit ?p)" using b(3) by (simp add: word_le_nat_alt)
    have r': "unat r \<le> unat (heap_limit ?p) - unat (heap_break ?p)" using r(2) lim by (simp add: word_le_nat_alt)
    have sum: "unat (heap_break ?p + r) = unat (heap_break ?p) + unat r"
      using r' le unat_lt_pow [of "heap_limit ?p"] by (subst unat_add_no_wrap) linarith+
    have "0 < unat r" using r(1) by (simp add: unat_gt_0)
    then have "unat (heap_break ?p) < unat (heap_limit ?p)" using r' by linarith
    then have nb: "heap_break ?p \<noteq> - 1"
      using word_n1_ge [of "heap_limit ?p"] by (auto simp: word_le_nat_alt)
    have "heap_bounds (?p\<lparr>heap_break := heap_break ?p + r\<rparr>)"
      using b r' le sum by (auto simp: heap_bounds_def word_le_nat_alt)
    then show ?thesis using assms(1) b r sum nb by (auto simp: brk_call_def Let_def granted_def BAD_def)
  qed
qed

lemma brks_ok:
  assumes "cur m = Some i" "heap_bounds (cproc m i)"
  shows "\<exists>vs m'. brks e m rs = Some (vs, m') \<and> length vs = length rs \<and> heap_bounds (cproc m' i)
    \<and> heap_limit (cproc m' i) = heap_limit (cproc m i) \<and> unat (heap_break (cproc m i)) \<le> unat (heap_break (cproc m' i))
    \<and> (\<forall>j<length rs. granted (rs ! j) (vs ! j) \<longrightarrow> unat (heap_break (cproc m i)) \<le> unat (vs ! j)
         \<and> unat (vs ! j) + unat (rs ! j) \<le> unat (heap_break (cproc m' i)))
    \<and> (\<forall>k<length rs. \<forall>j<k. granted (rs ! j) (vs ! j) \<and> granted (rs ! k) (vs ! k)
         \<longrightarrow> unat (vs ! j) + unat (rs ! j) \<le> unat (vs ! k))"
  using assms
proof (induction rs arbitrary: m)
  case Nil
  then show ?case by simp
next
  case (Cons r rs)
  obtain v m1 where 1: "brk_call e m r 0 0 0 0 = Some (Ret v m1)" "cur m1 = Some i" "heap_bounds (cproc m1 i)"
    "heap_limit (cproc m1 i) = heap_limit (cproc m i)"
    "granted r v \<longrightarrow> v = heap_break (cproc m i) \<and> unat v + unat r = unat (heap_break (cproc m1 i))"
    "\<not> granted r v \<longrightarrow> m1 = m"
    using brk_step [OF Cons.prems] by blast
  have le: "unat (heap_break (cproc m i)) \<le> unat (heap_break (cproc m1 i))" using 1(5,6) by (cases "granted r v") auto
  obtain vs m2 where 2: "brks e m1 rs = Some (vs, m2)" "length vs = length rs" "heap_bounds (cproc m2 i)"
    "heap_limit (cproc m2 i) = heap_limit (cproc m1 i)" "unat (heap_break (cproc m1 i)) \<le> unat (heap_break (cproc m2 i))"
    "\<forall>j<length rs. granted (rs ! j) (vs ! j) \<longrightarrow> unat (heap_break (cproc m1 i)) \<le> unat (vs ! j)
         \<and> unat (vs ! j) + unat (rs ! j) \<le> unat (heap_break (cproc m2 i))"
    "\<forall>k<length rs. \<forall>j<k. granted (rs ! j) (vs ! j) \<and> granted (rs ! k) (vs ! k)
         \<longrightarrow> unat (vs ! j) + unat (rs ! j) \<le> unat (vs ! k)"
    using Cons.IH [OF 1(2,3)] by (elim exE conjE) (rule that, assumption+)
  have "brks e m (r # rs) = Some (v # vs, m2)" using 1(1) 2(1) by simp
  moreover have "granted ((r # rs) ! j) ((v # vs) ! j) \<longrightarrow> unat (heap_break (cproc m i)) \<le> unat ((v # vs) ! j)
         \<and> unat ((v # vs) ! j) + unat ((r # rs) ! j) \<le> unat (heap_break (cproc m2 i))" if "j < length (r # rs)" for j
  proof (cases j)
    case 0
    then show ?thesis using 1(5) 2(5) by simp
  next
    case (Suc l)
    then show ?thesis using that 2(6) le by fastforce
  qed
  moreover have "unat ((v # vs) ! j) + unat ((r # rs) ! j) \<le> unat ((v # vs) ! k)"
    if h: "k < length (r # rs)" "j < k" "granted ((r # rs) ! j) ((v # vs) ! j)" "granted ((r # rs) ! k) ((v # vs) ! k)" for j k
  proof -
    obtain k' where k: "k = Suc k'" using h(2) by (cases k) auto
    show ?thesis
    proof (cases j)
      case 0
      then show ?thesis using h k 1(5) 2(6) by auto
    next
      case (Suc j')
      then show ?thesis using h k 2(7) by auto
    qed
  qed
  ultimately show ?case using 1(4) 2(2-5) le by (intro exI [of _ "v # vs"] exI [of _ m2]) auto
qed

text \<open>C22: The heap of a process is handed out without overlap. From a current process whose break lies
  between the start and the limit of its heap, any sequence of requests comes back call by call; the
  break stays between start and limit; every block that is granted lies between the break before and
  the limit, no address computation wraps around, and two granted blocks never overlap - the later one
  starts at or after the end of the earlier.\<close>

theorem brk_blocks_disjoint:
  assumes "cur m = Some i" and "heap_bounds (cproc m i)"
  shows "\<exists>vs m'. brks e m rs = Some (vs, m') \<and> length vs = length rs \<and> heap_bounds (cproc m' i)
    \<and> (\<forall>j<length rs. granted (rs ! j) (vs ! j) \<longrightarrow> unat (heap_break (cproc m i)) \<le> unat (vs ! j)
         \<and> unat (vs ! j) + unat (rs ! j) \<le> unat (heap_limit (cproc m i)))
    \<and> (\<forall>k<length rs. \<forall>j<k. granted (rs ! j) (vs ! j) \<and> granted (rs ! k) (vs ! k)
         \<longrightarrow> unat (vs ! j) + unat (rs ! j) \<le> unat (vs ! k))"
proof -
  obtain vs m' where b: "brks e m rs = Some (vs, m')" "length vs = length rs" "heap_bounds (cproc m' i)"
    "heap_limit (cproc m' i) = heap_limit (cproc m i)"
    "\<forall>j<length rs. granted (rs ! j) (vs ! j) \<longrightarrow> unat (heap_break (cproc m i)) \<le> unat (vs ! j)
         \<and> unat (vs ! j) + unat (rs ! j) \<le> unat (heap_break (cproc m' i))"
    "\<forall>k<length rs. \<forall>j<k. granted (rs ! j) (vs ! j) \<and> granted (rs ! k) (vs ! k)
         \<longrightarrow> unat (vs ! j) + unat (rs ! j) \<le> unat (vs ! k)"
    using brks_ok [OF assms, of e rs] by (elim exE conjE) (rule that, assumption+)
  have "unat (heap_break (cproc m' i)) \<le> unat (heap_limit (cproc m i))"
    using b(3,4) by (simp add: heap_bounds_def word_le_nat_alt)
  then have "\<forall>j<length rs. granted (rs ! j) (vs ! j) \<longrightarrow> unat (heap_break (cproc m i)) \<le> unat (vs ! j)
         \<and> unat (vs ! j) + unat (rs ! j) \<le> unat (heap_limit (cproc m i))"
    using b(5) le_trans by blast
  with b(1-3,6) show ?thesis by blast
qed

lemma boot_cur: "cur boot_machine = Some 1"
  by (simp add: cur_def boot_machine_def)

text \<open>A machine that runs process 1 with a heap of 4096 bytes.\<close>

definition heap_machine :: machine where
  "heap_machine = set_cproc 1 ((cproc boot_machine 1)\<lparr>heap_start := 0x40300000, heap_break := 0x40300000,
     heap_limit := 0x40301000\<rparr>) boot_machine"

lemma heap_machine_ok: "cur heap_machine = Some 1" "heap_bounds (cproc heap_machine 1)"
  using boot_cur by (simp_all add: heap_machine_def heap_bounds_def)

lemma brk_blocks_disjoint_witness:
  "\<exists>vs m'. brks idle_env heap_machine [16, 5000, 32] = Some (vs, m') \<and> length vs = 3 \<and> heap_bounds (cproc m' 1)"
  using brk_blocks_disjoint [OF heap_machine_ok, of idle_env "[16, 5000, 32]"] by fastforce

section \<open>Descriptors\<close>

text \<open>The lowest free descriptor of a process, 0 if there is none: the serial port is never given out.\<close>

definition lowest_free :: "pcb_t \<Rightarrow> nat" where
  "lowest_free p = (if \<not> is_ctrl_alloc (control p ! 1) then 1 else if \<not> is_ctrl_alloc (control p ! 2) then 2 else 0)"

lemma free_control_eq:
  "length (control p) = 3 \<Longrightarrow>
     free_control (control p) 1 (MAX_CONTROL_NUM - 1) = Some (if lowest_free p = 0 then None else Some (lowest_free p))"
  by (simp add: MAX_CONTROL_NUM_def lowest_free_def numeral_2_eq_2)

lemma control_all: "(c :: ctrl_t)\<lparr>is_ctrl_alloc := a, use := u, is_file := b, file_offset := n\<rparr>
    = \<lparr>is_ctrl_alloc = a, is_file = b, file_offset = n, use = u\<rparr>"
  by (cases c) simp

lemma fd_of_small: "fd_of 1 = 1" "fd_of 2 = 2"
  by (simp_all add: fd_of_def)

text \<open>C23: Opening an existing file gives the lowest free descriptor, and closing frees it. The open call takes
  descriptor 1 or 2, whichever is free first, points it at the file and sets its position to 0, or to the
  length of the file when the append flag is set; the other descriptors stay. With both in use it
  returns -1 and changes nothing. Closing the descriptor makes it free again.\<close>

theorem open_close_file:
  assumes "cur m = Some i" and "length (control (cproc m i)) = 3"
    and "fm_find (k_fm (m_k m)) (cstr_at (k_mem (m_k m)) a1) = Some (Some f)" and "(ucast a2 :: u8) AND 1 = 0"
  shows "let fd = lowest_free (cproc m i) in
    if fd = 0 then open_call e m a1 a2 a3 a4 a5 = Some (Ret BAD m)
    else \<exists>m' m''. open_call e m a1 a2 a3 a4 a5 = Some (Ret (of_nat fd) m')
      \<and> control (cproc m' i) = (control (cproc m i))[fd :=
          \<lparr>is_ctrl_alloc = True, is_file = True,
           file_offset = (if drop_bit 3 (ucast a2 :: u8) AND 1 \<noteq> 0 then of_nat (f_lens (FMv3_mem (k_fm (m_k m)) f) * 1024) else 0),
           use = Use_file f\<rparr>]
      \<and> close_call e m' (of_nat fd) 0 0 0 0 = Some (Ret 1 m'')
      \<and> lowest_free (cproc m'' i) = fd"
proof (cases "lowest_free (cproc m i) = 0")
  case True
  then show ?thesis using assms free_control_eq [of "cproc m i"]
    by (simp add: open_call_def)
next
  case False
  let ?p = "cproc m i" and ?fd = "lowest_free (cproc m i)"
  have fd: "?fd = 1 \<or> ?fd = 2" "?fd < 3" using False by (auto simp: lowest_free_def split: if_splits)
  then have fdo: "fd_of (of_nat ?fd) = int ?fd" using fd_of_small by auto
  define c' where "c' = \<lparr>is_ctrl_alloc = True, is_file = True,
     file_offset = (if drop_bit 3 (ucast a2 :: u8) AND 1 \<noteq> 0 then of_nat (f_lens (FMv3_mem (k_fm (m_k m)) f) * 1024) else 0),
     use = Use_file f\<rparr>"
  define m' where "m' = set_cproc i (?p\<lparr>control := (control ?p)[?fd := c']\<rparr>) m"
  have o: "open_call e m a1 a2 a3 a4 a5 = Some (Ret (of_nat ?fd) m')"
    using assms free_control_eq [OF assms(2)] False fd
    by (simp add: open_call_def Let_def set_control_def m'_def c'_def control_all)
  define c'' where "c'' = c'\<lparr>is_ctrl_alloc := False, use := Use_dev None\<rparr>"
  define m'' where "m'' = set_cproc i (?p\<lparr>control := (control ?p)[?fd := c'']\<rparr>) m'"
  have "close_call e m' (of_nat ?fd) 0 0 0 0 = Some (Ret 1 m'')"
    using assms(1,2) fd fdo False
    by (simp add: close_call_def control_at_def set_control_def m''_def m'_def c''_def Let_def)
  moreover have "lowest_free (cproc m'' i) = ?fd"
    using fd assms(2) False by (auto simp: m''_def c''_def lowest_free_def nth_list_update split: if_splits)
  ultimately show ?thesis using o False by (auto simp: m'_def c'_def)
qed

text \<open>A process that passes the name of the one file by address.\<close>

lemma name_in_memory:
  "name_key (cstr_mem ((\<lambda>_. 0)(0x48000000 := 97)) 0x48000000) = name_key (cstr_of [97])"
proof -
  let ?s = "cstr_mem ((\<lambda>_. 0)(0x48000000 := 97)) 0x48000000"
  have t: "terminated ?s 1" by (simp add: terminated_def cstr_mem_def)
  have "cbytes ?s 1 = [97]" by (simp add: cbytes_def cstr_mem_def)
  then show ?thesis
    using fnv1a_hash_64_eq [OF t] djb2_hash_64_eq [OF t] name_a
    by (simp add: name_key_def fnv1a_spec_def djb2_spec_def FNV_OFFSET_BASIS_64_def FNV_PRIME_64_def)
qed

lemma machine_with_file:
  obtains m where "cur m = Some 1" "length (control (cproc m 1)) = 3" "lowest_free (cproc m 1) = 1"
    "fm_find (k_fm (m_k m)) (cstr_at (k_mem (m_k m)) 0x48000000) = Some (Some 1)"
proof -
  obtain s M N where s: "fm_rep s M N" "fm_find s (Some (cstr_of [97])) = Some (Some 1)" by (rule fm_one_file)
  let ?m = "boot_machine\<lparr>m_k := boot_kernel\<lparr>k_cur := Some 1, k_fm := s, k_mem := (\<lambda>_. 0)(0x48000000 := 97)\<rparr>\<rparr>"
  have "fm_find s (Some (cstr_mem ((\<lambda>_. 0)(0x48000000 := 97)) 0x48000000)) = Some (Some 1)"
    using s(2) fm_find_eq [OF s(1) name_a] fm_find_eq [OF s(1) name_in_memory [unfolded name_a]] by simp
  then have "fm_find (k_fm (m_k ?m)) (cstr_at (k_mem (m_k ?m)) 0x48000000) = Some (Some 1)"
    by (simp add: cstr_at_def)
  moreover have "cur ?m = Some 1" by (simp add: cur_def)
  moreover have "length (control (cproc ?m 1)) = 3" "lowest_free (cproc ?m 1) = 1"
    by (simp_all add: cproc_def proc_def boot_machine_def boot_kernel_def pm_init_def lowest_free_def)
  ultimately show ?thesis using that by blast
qed

lemma open_close_file_witness:
  "\<exists>m m'. open_call idle_env m 0x48000000 0 0 0 0 = Some (Ret 1 m') \<and> lowest_free (cproc m 1) = 1"
proof -
  obtain m where m: "cur m = Some 1" "length (control (cproc m 1)) = 3" "lowest_free (cproc m 1) = 1"
    "fm_find (k_fm (m_k m)) (cstr_at (k_mem (m_k m)) 0x48000000) = Some (Some 1)"
    by (rule machine_with_file)
  from open_close_file [OF m(1,2,4), of 0 idle_env 0 0 0] m(3) show ?thesis by (auto simp: Let_def)
qed

section \<open>Messages\<close>

text \<open>Sends and receives of any processes, one after the other.\<close>

datatype ipc_op = Send nat u64 u64 u64 | Receive nat u64

definition ipc_call :: "env \<Rightarrow> machine \<Rightarrow> ipc_op \<Rightarrow> outcome option" where
  "ipc_call e m op =
     (case op of
        Send i data len towho \<Rightarrow> ipc_send_call e (on_k (\<lambda>k. k\<lparr>k_cur := Some i\<rparr>) m) data len towho 0 0
      | Receive i addr \<Rightarrow> ipc_rece_call e (on_k (\<lambda>k. k\<lparr>k_cur := Some i\<rparr>) m) addr 0 0 0 0)"

fun ipc_run :: "env \<Rightarrow> machine \<Rightarrow> ipc_op list \<Rightarrow> machine option" where
  "ipc_run e m [] = Some m"
| "ipc_run e m (op # ops) = (case ipc_call e m op of Some (Ret v m1) \<Rightarrow> ipc_run e m1 ops | _ \<Rightarrow> None)"

lemma ptp_full:
  assumes "is_msgbox (msgs (PMv1_mem pm t))" "ptp pm who towho msg len = Some (pm', bs)"
  shows "msgs (PMv1_mem pm' t) = msgs (PMv1_mem pm t)"
  using assms by (auto simp: ptp_def Let_def split: if_splits bind_splits)

lemma ipc_call_full:
  assumes "is_msgbox (msgs (cproc m t))" "ipc_call e m op = Some (Ret v m1)"
  shows "msgs (cproc m1 t) = msgs (cproc m t)"
proof (cases op)
  case (Send i data len towho)
  then show ?thesis using assms
    by (auto simp: ipc_call_def ipc_send_call_def Let_def cproc_def on_k_def proc_def cur_def split: if_splits bind_splits
        dest!: ptp_full [rotated])
next
  case (Receive i addr)
  then show ?thesis using assms
    by (auto simp: ipc_call_def ipc_rece_call_def Let_def cproc_def on_k_def proc_def cur_def split: bind_splits)
qed

text \<open>A mailbox is used once. Receiving a message copies it but does not empty the mailbox, and sending to
  a full one drops the message - while the call still returns 1 and writes the receiver's signal byte. So
  once a message has been delivered to a process, no sequence of sends and receives, by whomever, ever
  changes its mailbox again: every later message to it is lost.\<close>

theorem ipc_mailbox_once:
  assumes "is_msgbox (msgs (cproc m t))" and "ipc_run e m ops = Some m'"
  shows "msgs (cproc m' t) = msgs (cproc m t)"
  using assms
proof (induction ops arbitrary: m)
  case (Cons op ops)
  obtain v m1 where m1: "ipc_call e m op = Some (Ret v m1)" "ipc_run e m1 ops = Some m'"
    using Cons.prems(2) by (auto split: option.splits outcome.splits)
  then have "msgs (cproc m1 t) = msgs (cproc m t)" using ipc_call_full [OF Cons.prems(1)] by blast
  then show ?case using Cons.IH [of m1] Cons.prems(1) m1(2) by simp
qed simp

definition mail_machine :: machine where
  "mail_machine = on_k (\<lambda>k. k\<lparr>k_pm := (k_pm k)\<lparr>proto_arr := (\<lambda>_. \<lparr>proto_rule = 0, proto_addr = 0x48001000\<rparr>),
     PMv1_mem := (\<lambda>i. (PMv1_mem (k_pm k) i)\<lparr>msgs := (msgs (PMv1_mem (k_pm k) i))\<lparr>is_msgbox := True, msg_from := 7\<rparr>\<rparr>)\<rparr>\<rparr>) boot_machine"

lemma ipc_mailbox_once_witness:
  "\<exists>m'. ipc_run idle_env mail_machine [Send 1 0x48000000 3 2, Receive 2 0x48002000] = Some m'
     \<and> msg_from (msgs (cproc m' 2)) = 7"
proof -
  have f: "is_msgbox (msgs (cproc mail_machine 2))" "msg_from (msgs (cproc mail_machine 2)) = 7"
    by (simp_all add: mail_machine_def cproc_def proc_def on_k_def)
  have "\<exists>m'. ipc_run idle_env mail_machine [Send 1 0x48000000 3 2, Receive 2 0x48002000] = Some m'"
    by (simp add: ipc_call_def ipc_send_call_def ipc_rece_call_def mail_machine_def boot_machine_def boot_kernel_def
        on_k_def cur_def proc_def cproc_def ptp_def Let_def pm_init_def out_def emit_def)
  then show ?thesis using ipc_mailbox_once [OF f(1)] f(2) by metis
qed

section \<open>The shape of the process table\<close>

definition shape :: "machine \<Rightarrow> bool" where
  "shape m \<longleftrightarrow> (\<forall>i. length (control (cproc m i)) = MAX_CONTROL_NUM \<and> length (msgbox (msgs (cproc m i))) = 64
     \<and> unat (msg_len (msgs (cproc m i))) \<le> 64)"

lemma shape_cong: "cproc m' = cproc m \<Longrightarrow> shape m' = shape m"
  by (simp add: shape_def)

lemma shape_set: "shape m \<Longrightarrow> length (control p) = length (control (cproc m i)) \<Longrightarrow> msgs p = msgs (cproc m i) \<Longrightarrow> shape (set_cproc i p m)"
  by (simp add: shape_def)

lemma getchar_shape:
  assumes "getchar e m = Some r" "\<forall>m. shape m \<longrightarrow> shape (e_intr e m)"
  shows "shape m \<longrightarrow> shape (snd r)"
proof -
  have "(\<forall>m. shape m \<longrightarrow> shape (e_intr e m)) \<longrightarrow> shape m \<longrightarrow> shape (snd r)"
    using assms(1)
  proof (rule getchar.raw_induct [rotated])
    fix f e m r
    assume IH: "\<And>e m r. f e m = Some r \<Longrightarrow> (\<forall>m. shape m \<longrightarrow> shape (e_intr e m)) \<longrightarrow> shape m \<longrightarrow> shape (snd r)"
      and body: "(let (r, c, h, s) = vhid_getchar False (m_hid m) (drv_of m); m1 = put_drv s (m\<lparr>m_hid := h\<rparr>)
        in if r > 0 then Some (c, m1)
           else let (fr, s2) = rd32 (e_dev e) UART0_FR (drv_of m1); m2 = put_drv s2 m1 in
             if fr AND 16 = 0
             then let (v, s3) = rd32 (e_dev e) UART0_DR (drv_of m2) in Some (ucast v, put_drv s3 m2)
             else f e (e_intr e m2)) = Some r"
    obtain q c h s where g: "vhid_getchar False (m_hid m) (drv_of m) = (q, c, h, s)" by (metis prod_cases4)
    let ?m1 = "put_drv s (m\<lparr>m_hid := h\<rparr>)"
    obtain fr s2 where 2: "rd32 (e_dev e) UART0_FR s = (fr, s2)" by fastforce
    obtain v s3 where 3: "rd32 (e_dev e) UART0_DR s2 = (v, s3)" by fastforce
    have sh: "shape (put_drv s2 ?m1) = shape m" "shape ?m1 = shape m" "shape (put_drv s3 (put_drv s2 ?m1)) = shape m"
      by (simp_all add: shape_def)
    show "(\<forall>m. shape m \<longrightarrow> shape (e_intr e m)) \<longrightarrow> shape m \<longrightarrow> shape (snd r)"
    proof (cases "q > 0 \<or> fr AND 16 = 0")
      case True
      then have "r = (c, ?m1) \<or> r = (ucast v, put_drv s3 (put_drv s2 ?m1))"
        using body g 2 3 by (simp add: Let_def split: if_splits)
      then have "shape (snd r) = shape m" using sh by (elim disjE) simp_all
      then show ?thesis by blast
    next
      case False
      then have "f e (e_intr e (put_drv s2 ?m1)) = Some r" using body g 2 by (simp add: Let_def)
      then show ?thesis using IH sh(1) by blast
    qed
  qed
  then show ?thesis using assms(2) by blast
qed

lemma read_chars_shape:
  "read_chars e buf i n m = Some (k, m') \<Longrightarrow> \<forall>m. shape m \<longrightarrow> shape (e_intr e m) \<Longrightarrow> shape m \<Longrightarrow> shape m'"
proof (induction n arbitrary: i m)
  case (Suc n)
  obtain c m1 where g: "getchar e m = Some (c, m1)" using Suc.prems(1) by (auto split: bind_splits)
  then have "shape m1" using getchar_shape [OF g Suc.prems(2)] Suc.prems(3) by simp
  then have s: "shape (out bs (on_k (\<lambda>k. k\<lparr>k_mem := poke (buf + of_nat i) c (k_mem k)\<rparr>) m1))" for bs
    by (simp add: shape_def)
  show ?case using Suc.prems g s by (auto simp: Let_def split: if_splits intro: Suc.IH)
qed simp

lemma ptp_copy_length: "ptp_copy msg i n box = Some (box', bs) \<Longrightarrow> length box' = length box"
  by (induction n arbitrary: i box box' bs) (auto simp: aset_def split: bind_splits if_splits)

lemma ptp_shape:
  assumes "ptp pm who towho msg len = Some (pm', bs)"
    and "\<forall>i. length (control (PMv1_mem pm i)) = 3 \<and> length (msgbox (msgs (PMv1_mem pm i))) = 64 \<and> unat (msg_len (msgs (PMv1_mem pm i))) \<le> 64"
  shows "length (control (PMv1_mem pm' i)) = 3 \<and> length (msgbox (msgs (PMv1_mem pm' i))) = 64 \<and> unat (msg_len (msgs (PMv1_mem pm' i))) \<le> 64"
  using assms
  by (auto simp: ptp_def Let_def not_less word_le_nat_alt split: if_splits bind_splits dest!: ptp_copy_length)

lemma calls_shape:
  assumes sh: "shape m" and i: "\<forall>m. shape m \<longrightarrow> shape (e_intr e m)"
  shows "reserved_call e m a1 a2 a3 a4 a5 = Some (Ret v m') \<Longrightarrow> shape m'"
    and "brk_call e m a1 a2 a3 a4 a5 = Some (Ret v m') \<Longrightarrow> shape m'"
    and "setup_call e m a1 a2 a3 a4 a5 = Some (Ret v m') \<Longrightarrow> shape m'"
    and "write_call e m a1 a2 a3 a4 a5 = Some (Ret v m') \<Longrightarrow> shape m'"
    and "read_call e m a1 a2 a3 a4 a5 = Some (Ret v m') \<Longrightarrow> shape m'"
    and "open_call e m a1 a2 a3 a4 a5 = Some (Ret v m') \<Longrightarrow> shape m'"
    and "close_call e m a1 a2 a3 a4 a5 = Some (Ret v m') \<Longrightarrow> shape m'"
    and "file_create_call e m a1 a2 a3 a4 a5 = Some (Ret v m') \<Longrightarrow> shape m'"
    and "file_del_call e m a1 a2 a3 a4 a5 = Some (Ret v m') \<Longrightarrow> shape m'"
    and "dir_create_call e m a1 a2 a3 a4 a5 = Some (Ret v m') \<Longrightarrow> shape m'"
    and "dir_del_call e m a1 a2 a3 a4 a5 = Some (Ret v m') \<Longrightarrow> shape m'"
    and "ipc_send_call e m a1 a2 a3 a4 a5 = Some (Ret v m') \<Longrightarrow> shape m'"
    and "ipc_rece_call e m a1 a2 a3 a4 a5 = Some (Ret v m') \<Longrightarrow> shape m'"
    and "l2_send_call e m a1 a2 a3 a4 a5 = Some (Ret v m') \<Longrightarrow> shape m'"
    and "l2_rece_call e m a1 a2 a3 a4 a5 = Some (Ret v m') \<Longrightarrow> shape m'"
proof -
  have len: "length (control (cproc m j)) = 3" for j using sh by (simp add: shape_def MAX_CONTROL_NUM_def)
  note upd = shape_set [OF sh] shape_cong [of _ m] sh
  show "reserved_call e m a1 a2 a3 a4 a5 = Some (Ret v m') \<Longrightarrow> shape m'" using sh by (auto simp: reserved_call_def)
  show "brk_call e m a1 a2 a3 a4 a5 = Some (Ret v m') \<Longrightarrow> shape m'"
    using sh by (auto simp: brk_call_def Let_def split: option.splits if_splits intro!: upd(1))
  show "setup_call e m a1 a2 a3 a4 a5 = Some (Ret v m') \<Longrightarrow> shape m'"
    using sh by (auto simp: setup_call_def Let_def shape_def cproc_def on_k_def proc_def out_def split: bind_splits)
  show "open_call e m a1 a2 a3 a4 a5 = Some (Ret v m') \<Longrightarrow> shape m'"
    using sh by (auto simp: open_call_def Let_def set_control_def split: bind_splits option.splits if_splits intro!: upd(1))
  show "close_call e m a1 a2 a3 a4 a5 = Some (Ret v m') \<Longrightarrow> shape m'"
    using sh by (auto simp: close_call_def Let_def set_control_def split: bind_splits if_splits intro!: upd(1))
  show "file_create_call e m a1 a2 a3 a4 a5 = Some (Ret v m') \<Longrightarrow> shape m'"
    using sh by (auto simp: file_create_call_def shape_def split: bind_splits prod.splits)
  show "file_del_call e m a1 a2 a3 a4 a5 = Some (Ret v m') \<Longrightarrow> shape m'"
    using sh by (auto simp: file_del_call_def shape_def split: bind_splits prod.splits)
  show "dir_create_call e m a1 a2 a3 a4 a5 = Some (Ret v m') \<Longrightarrow> shape m'"
    using sh by (auto simp: dir_create_call_def shape_def split: bind_splits prod.splits)
  show "dir_del_call e m a1 a2 a3 a4 a5 = Some (Ret v m') \<Longrightarrow> shape m'"
    using sh by (auto simp: dir_del_call_def shape_def split: bind_splits prod.splits)
  show "ipc_rece_call e m a1 a2 a3 a4 a5 = Some (Ret v m') \<Longrightarrow> shape m'"
    using sh by (auto simp: ipc_rece_call_def Let_def shape_def split: bind_splits)
  show "l2_send_call e m a1 a2 a3 a4 a5 = Some (Ret v m') \<Longrightarrow> shape m'"
    using sh by (auto simp: l2_send_call_def Let_def shape_def split: bind_splits if_splits prod.splits)
  show "l2_rece_call e m a1 a2 a3 a4 a5 = Some (Ret v m') \<Longrightarrow> shape m'"
    using sh by (auto simp: l2_rece_call_def Let_def shape_def split: prod.splits)
  show "write_call e m a1 a2 a3 a4 a5 = Some (Ret v m') \<Longrightarrow> shape m'"
    using sh by (auto simp: write_call_def Let_def shape_def set_control_def
        split: bind_splits if_splits prod.splits ctrl_use.splits option.splits dev_ptr.splits)
  show "read_call e m a1 a2 a3 a4 a5 = Some (Ret v m') \<Longrightarrow> shape m'"
    using sh i by (auto simp: read_call_def Let_def set_control_def intro: read_chars_shape
        split: bind_splits if_splits prod.splits) (auto simp: shape_def)
  show "ipc_send_call e m a1 a2 a3 a4 a5 = Some (Ret v m') \<Longrightarrow> shape m'"
    using sh by (auto simp: ipc_send_call_def Let_def shape_def cproc_def proc_def on_k_def MAX_CONTROL_NUM_def
        split: bind_splits if_splits dest!: ptp_shape)
qed



end
