(* ===== verification/Sync.thy ===== *)
theory Sync
  imports Syscall
begin

text \<open>
  The synchronous exceptions of \<^verbatim>\<open>src/handler/sync.c\<close>. The exception class selects a handler from a table
  of 64 pointers, of which 36 are set; every handler but the system call's prints the fault registers
  and stops the machine. Calling a null entry is undefined.
\<close>

type_synonym ec_fn = "env \<Rightarrow> machine \<Rightarrow> u64 \<Rightarrow> u64 \<Rightarrow> u64 \<Rightarrow> u64 \<Rightarrow> u64 \<Rightarrow> u64 \<Rightarrow> outcome option"

text \<open>The body the handlers share: only the name they print differs.\<close>

definition panic_text :: "string \<Rightarrow> env \<Rightarrow> u8 list" where
  "panic_text name e =
     enter name @ reg_far_el1 (e_reg e ''far_el1'') @ reg_elr_el1 (e_reg e ''elr_el1'')
     @ reg_esr_el1 (e_reg e ''esr_el1'') @ log_text ''Kernel Panic!'' @ full_stop_text"

definition panic :: "string \<Rightarrow> env \<Rightarrow> machine \<Rightarrow> outcome option" where
  "panic name e m = Some (Halt (out (panic_text name e) m))"

section \<open>The handlers\<close>

definition unknown_handle :: ec_fn where
  "unknown_handle e m a8 a1 a2 a3 a4 a5 = panic ''unknown_handle'' e m"

definition trap_wfi_wfe_handle :: ec_fn where
  "trap_wfi_wfe_handle e m a8 a1 a2 a3 a4 a5 = panic ''trap_wfi_wfe_handle'' e m"

definition trap_mcr_mrc_a32_handle :: ec_fn where
  "trap_mcr_mrc_a32_handle e m a8 a1 a2 a3 a4 a5 = panic ''trap_mcr_mrc_a32_handle'' e m"

definition trap_mcrr_mrrc_a32_handle :: ec_fn where
  "trap_mcrr_mrrc_a32_handle e m a8 a1 a2 a3 a4 a5 = panic ''trap_mcrr_mrrc_a32_handle'' e m"

definition trap_mrc_mcr_a32_coproc_handle :: ec_fn where
  "trap_mrc_mcr_a32_coproc_handle e m a8 a1 a2 a3 a4 a5 = panic ''trap_mrc_mcr_a32_coproc_handle'' e m"

definition trap_ldc_stc_handle :: ec_fn where
  "trap_ldc_stc_handle e m a8 a1 a2 a3 a4 a5 = panic ''trap_ldc_stc_handle'' e m"

definition trap_fp_simd_handle :: ec_fn where
  "trap_fp_simd_handle e m a8 a1 a2 a3 a4 a5 = panic ''trap_fp_simd_handle'' e m"

definition trap_vmrs_handle :: ec_fn where
  "trap_vmrs_handle e m a8 a1 a2 a3 a4 a5 = panic ''trap_vmrs_handle'' e m"

definition trap_ptr_auth_handle :: ec_fn where
  "trap_ptr_auth_handle e m a8 a1 a2 a3 a4 a5 = panic ''trap_ptr_auth_handle'' e m"

definition illegal_excu_handle :: ec_fn where
  "illegal_excu_handle e m a8 a1 a2 a3 a4 a5 = panic ''trap_ptr_auth_handle'' e m"

definition svc_a32_handle :: ec_fn where
  "svc_a32_handle e m a8 a1 a2 a3 a4 a5 = panic ''svc_a32_handle'' e m"

definition hvc_a32_handle :: ec_fn where
  "hvc_a32_handle e m a8 a1 a2 a3 a4 a5 = panic ''hvc_a32_handle'' e m"

definition smc_a32_handle :: ec_fn where
  "smc_a32_handle e m a8 a1 a2 a3 a4 a5 = panic ''smc_a32_handle'' e m"

definition hvc_a64_handle :: ec_fn where
  "hvc_a64_handle e m a8 a1 a2 a3 a4 a5 = panic ''hvc_a64_handle'' e m"

definition smc_a64_handle :: ec_fn where
  "smc_a64_handle e m a8 a1 a2 a3 a4 a5 = panic ''smc_a64_handle'' e m"

definition trap_msr_mrs_sysinst_handle :: ec_fn where
  "trap_msr_mrs_sysinst_handle e m a8 a1 a2 a3 a4 a5 = panic ''trap_msr_mrs_sysinst_handle'' e m"

definition sve_exce_handle :: ec_fn where
  "sve_exce_handle e m a8 a1 a2 a3 a4 a5 = panic ''sve_exce_handle'' e m"

definition eret_trap_handle :: ec_fn where
  "eret_trap_handle e m a8 a1 a2 a3 a4 a5 = panic ''eret_trap_handle'' e m"

definition ptr_auth_fail_handle :: ec_fn where
  "ptr_auth_fail_handle e m a8 a1 a2 a3 a4 a5 = panic ''ptr_auth_fail_handle'' e m"

definition inst_abort_el0_handle :: ec_fn where
  "inst_abort_el0_handle e m a8 a1 a2 a3 a4 a5 = panic ''inst_abort_el0_handle'' e m"

definition inst_abort_el1_handle :: ec_fn where
  "inst_abort_el1_handle e m a8 a1 a2 a3 a4 a5 = panic ''inst_abort_el1_handle'' e m"

definition pc_align_fault_handle :: ec_fn where
  "pc_align_fault_handle e m a8 a1 a2 a3 a4 a5 = panic ''pc_align_fault_handle'' e m"

definition data_abort_el0_handle :: ec_fn where
  "data_abort_el0_handle e m a8 a1 a2 a3 a4 a5 = panic ''data_abort_el0_handle'' e m"

definition data_abort_el1_handle :: ec_fn where
  "data_abort_el1_handle e m a8 a1 a2 a3 a4 a5 = panic ''data_abort_el1_handle'' e m"

definition sp_align_handle :: ec_fn where
  "sp_align_handle e m a8 a1 a2 a3 a4 a5 = panic ''sp_align_handle'' e m"

definition floatpoint_exce_a32_handle :: ec_fn where
  "floatpoint_exce_a32_handle e m a8 a1 a2 a3 a4 a5 = panic ''floatpoint_exce_a32_handle'' e m"

definition floatpoint_exce_a64_handle :: ec_fn where
  "floatpoint_exce_a64_handle e m a8 a1 a2 a3 a4 a5 = panic ''floatpoint_exce_a64_handle'' e m"

definition serror_irq_handle :: ec_fn where
  "serror_irq_handle e m a8 a1 a2 a3 a4 a5 = panic ''serror_irq_handle'' e m"

definition breakpoint_el0_handle :: ec_fn where
  "breakpoint_el0_handle e m a8 a1 a2 a3 a4 a5 = panic ''breakpoint_el0_handle'' e m"

definition breakpoint_el1_handle :: ec_fn where
  "breakpoint_el1_handle e m a8 a1 a2 a3 a4 a5 = panic ''breakpoint_el1_handle'' e m"

definition software_step_el0_handle :: ec_fn where
  "software_step_el0_handle e m a8 a1 a2 a3 a4 a5 = panic ''software_step_el0_handle'' e m"

definition software_step_el1_handle :: ec_fn where
  "software_step_el1_handle e m a8 a1 a2 a3 a4 a5 = panic ''software_step_el1_handle'' e m"

definition watchpoint_el0_handle :: ec_fn where
  "watchpoint_el0_handle e m a8 a1 a2 a3 a4 a5 = panic ''watchpoint_el0_handle'' e m"

definition watchpoint_el1_handle :: ec_fn where
  "watchpoint_el1_handle e m a8 a1 a2 a3 a4 a5 = panic ''watchpoint_el1_handle'' e m"

definition brk_inst_a64_handle :: ec_fn where
  "brk_inst_a64_handle e m a8 a1 a2 a3 a4 a5 = panic ''brk_inst_a64_handle'' e m"

section \<open>Dispatch\<close>

definition ec_table :: "nat \<Rightarrow> ec_fn option" where
  "ec_table = map_of
     [(0x00, unknown_handle),
      (0x01, trap_wfi_wfe_handle),
      (0x03, trap_mcr_mrc_a32_handle),
      (0x04, trap_mcrr_mrrc_a32_handle),
      (0x05, trap_mrc_mcr_a32_coproc_handle),
      (0x06, trap_ldc_stc_handle),
      (0x07, trap_fp_simd_handle),
      (0x08, trap_vmrs_handle),
      (0x09, trap_ptr_auth_handle),
      (0x0E, illegal_excu_handle),
      (0x11, svc_a32_handle),
      (0x12, hvc_a32_handle),
      (0x13, smc_a32_handle),
      (0x15, \<lambda>e m a8. svc_a64_handle a8 e m),
      (0x16, hvc_a64_handle),
      (0x17, smc_a64_handle),
      (0x18, trap_msr_mrs_sysinst_handle),
      (0x19, sve_exce_handle),
      (0x1A, eret_trap_handle),
      (0x1C, ptr_auth_fail_handle),
      (0x20, inst_abort_el0_handle),
      (0x21, inst_abort_el1_handle),
      (0x22, pc_align_fault_handle),
      (0x24, data_abort_el0_handle),
      (0x25, data_abort_el1_handle),
      (0x26, sp_align_handle),
      (0x28, floatpoint_exce_a32_handle),
      (0x2C, floatpoint_exce_a64_handle),
      (0x2F, serror_irq_handle),
      (0x30, breakpoint_el0_handle),
      (0x31, breakpoint_el1_handle),
      (0x32, software_step_el0_handle),
      (0x33, software_step_el1_handle),
      (0x34, watchpoint_el0_handle),
      (0x35, watchpoint_el1_handle),
      (0x3C, brk_inst_a64_handle)]"

definition sync_handler_main ::
  "env \<Rightarrow> machine \<Rightarrow> u64 \<Rightarrow> u64 \<Rightarrow> u64 \<Rightarrow> u64 \<Rightarrow> u64 \<Rightarrow> u64 \<Rightarrow> u64 \<Rightarrow> outcome option" where
  "sync_handler_main e m sys_call a1 a2 a3 a4 a5 ec =
     (if ec < 64
      then (case ec_table (unat ec) of None \<Rightarrow> None | Some f \<Rightarrow> f e m sys_call a1 a2 a3 a4 a5)
      else None)"

text \<open>The exception classes that stop the machine.\<close>

definition panic_classes :: "nat set" where
  "panic_classes = {0x00, 0x01, 0x03, 0x04, 0x05, 0x06, 0x07, 0x08, 0x09, 0x0E, 0x11, 0x12, 0x13, 0x16, 0x17, 0x18, 0x19, 0x1A, 0x1C, 0x20, 0x21, 0x22, 0x24, 0x25, 0x26, 0x28, 0x2C, 0x2F, 0x30, 0x31, 0x32, 0x33, 0x34, 0x35, 0x3C}"

lemma ec_table_panic:
  "n \<in> panic_classes \<Longrightarrow> \<exists>f name. ec_table n = Some f \<and> (\<forall>e m a8 a1 a2 a3 a4 a5. f e m a8 a1 a2 a3 a4 a5 = panic name e m)"
  unfolding panic_classes_def
  by (elim insertE; (simp add: ec_table_def)?)
    (fastforce simp: unknown_handle_def trap_wfi_wfe_handle_def trap_mcr_mrc_a32_handle_def trap_mcrr_mrrc_a32_handle_def trap_mrc_mcr_a32_coproc_handle_def trap_ldc_stc_handle_def trap_fp_simd_handle_def trap_vmrs_handle_def trap_ptr_auth_handle_def illegal_excu_handle_def svc_a32_handle_def hvc_a32_handle_def smc_a32_handle_def hvc_a64_handle_def smc_a64_handle_def trap_msr_mrs_sysinst_handle_def sve_exce_handle_def eret_trap_handle_def ptr_auth_fail_handle_def inst_abort_el0_handle_def inst_abort_el1_handle_def pc_align_fault_handle_def data_abort_el0_handle_def data_abort_el1_handle_def sp_align_handle_def floatpoint_exce_a32_handle_def floatpoint_exce_a64_handle_def serror_irq_handle_def breakpoint_el0_handle_def breakpoint_el1_handle_def software_step_el0_handle_def software_step_el1_handle_def watchpoint_el0_handle_def watchpoint_el1_handle_def brk_inst_a64_handle_def)+

lemma ec_table_null: "n \<notin> panic_classes \<Longrightarrow> n \<noteq> 0x15 \<Longrightarrow> ec_table n = None"
  unfolding panic_classes_def by (simp add: ec_table_def)

lemma ec_table_svc: "ec_table 0x15 = Some (\<lambda>e m a8. svc_a64_handle a8 e m)"
  by (simp add: ec_table_def)

text \<open>What becomes of a synchronous exception. Class 0x15 is the system call and nothing else runs it. In
  35 classes - user faults among them - the machine stops for good after printing the fault registers
  and changes nothing else. In every other class, among them those that architecture extensions
  added, the table entry is null and the dispatcher calls it.\<close>

theorem sync_dispatch:
  "(ec = 0x15 \<longrightarrow> sync_handler_main e m n a1 a2 a3 a4 a5 ec = svc_a64_handle n e m a1 a2 a3 a4 a5)
   \<and> (unat ec \<in> panic_classes \<longrightarrow>
        (\<exists>name. sync_handler_main e m n a1 a2 a3 a4 a5 ec = Some (Halt (out (panic_text name e) m))))
   \<and> (ec \<noteq> 0x15 \<and> unat ec \<notin> panic_classes \<longrightarrow> sync_handler_main e m n a1 a2 a3 a4 a5 ec = None)"
proof (cases "unat ec \<in> panic_classes")
  case True
  then have lt: "ec < 64" by (auto simp: panic_classes_def word_less_nat_alt)
  obtain f name where f: "ec_table (unat ec) = Some f"
    "\<forall>e m a8 a1 a2 a3 a4 a5. f e m a8 a1 a2 a3 a4 a5 = panic name e m"
    using ec_table_panic [OF True] by metis
  have "sync_handler_main e m n a1 a2 a3 a4 a5 ec = panic name e m"
    using lt f by (simp add: sync_handler_main_def)
  moreover have "ec \<noteq> 0x15" using True by (auto simp: panic_classes_def)
  ultimately show ?thesis using True by (simp only: panic_def) blast
next
  case False
  have "unat ec = 0x15 \<longleftrightarrow> ec = 0x15" by (auto simp: word_unat_eq_iff)
  then show ?thesis using False ec_table_null [of "unat ec"]
    by (simp add: sync_handler_main_def ec_table_svc)
qed

lemma sync_dispatch_witness:
  "\<forall>e m. sync_handler_main e m 0 0 0 0 0 0 0x0D = None"
proof (intro allI)
  fix e m
  show "sync_handler_main e m 0 0 0 0 0 0 0x0D = None"
    using sync_dispatch [of "0x0D" e m 0 0 0 0 0 0] by (simp add: panic_classes_def)
qed

end
