(* ===== verification/Irq.thy ===== *)
theory Irq
  imports Machine Gic
begin

text \<open>
  The interrupt handler of \<^verbatim>\<open>src/handler/irq.c\<close>. It never returns to its caller: it ends by loading the
  registers of a process (\<^verbatim>\<open>_proc\<close>), or it stops the machine.
\<close>

datatype irq_end = Resume nat machine | Stopped machine

definition frq :: u64 where "frq = 62500000 div 1"

definition get_current_proc_addr :: "machine \<Rightarrow> nat option" where
  "get_current_proc_addr m = k_cur (m_k m)"

text \<open>Telling the interrupt controller that interrupt \<open>iar\<close> is over, and resuming process \<open>p\<close>.\<close>

definition end_irq :: "u32 \<Rightarrow> nat \<Rightarrow> machine \<Rightarrow> irq_end" where
  "end_irq iar p m = Resume p (put_drv (wr32 GIC_CPU_EOI iar (drv_of m)) m)"

definition irq_timer :: "u32 \<Rightarrow> nat \<Rightarrow> machine \<Rightarrow> irq_end option" where
  "irq_timer iar p m = do {
     (nxt, k) \<leftarrow> schedule_proc (m_k m) p;
     let m1 = m\<lparr>m_k := k\<lparr>k_cur := Some nxt\<rparr>\<rparr>;
     Some (end_irq iar nxt (put_drv (msr ''cntp_tval_el0'' frq (drv_of m1)) m1)) }"

definition irq_net :: "env \<Rightarrow> machine \<Rightarrow> machine" where
  "irq_net e m =
     (let m1 = out (log_text ''net'') m;
          (status, s1) = rd32 (e_dev e) (net_base (m_net m1) + 0x060) (drv_of m1);
          (r, n, s2) = nm_discap (e_dev e) (m_net m1) s1
      in put_drv (wr32 (net_base n + 0x064) status s2) (m1\<lparr>m_net := n\<rparr>))"

definition irq_gpu :: "env \<Rightarrow> machine \<Rightarrow> machine" where
  "irq_gpu e m = put_drv (virtio_gpu_irq_handle (e_dev e) (m_gpu m) (drv_of m)) m"

definition irq_blk :: "env \<Rightarrow> machine \<Rightarrow> machine" where
  "irq_blk e m =
     (let m1 = out (log_text ''blk'') m;
          (b, s) = virtio_blk_irq_handle (e_dev e) (m_blk m1) (drv_of m1)
      in put_drv s (m1\<lparr>m_blk := b\<rparr>))"

definition irq_handler_main :: "env \<Rightarrow> machine \<Rightarrow> nat \<Rightarrow> irq_end option" where
  "irq_handler_main e m p =
     (let m0 = disable_irq m;
          (iar, s1) = rd32 (e_dev e) GIC_CPU_IAR (drv_of m0);
          m1 = put_drv s1 m0;
          irq_nr = iar AND 0x3FF
      in if irq_nr = NSPTI then irq_timer iar p m1
         else do {
           (mine, h, s2) \<leftarrow> vhid_irq_handle (e_dev e) (m_dtb m1) irq_nr (m_hid m1) (drv_of m1);
           let m2 = put_drv s2 (m1\<lparr>m_hid := h\<rparr>);
           Some (if mine then end_irq iar p m2
                 else if irq_nr = g_virtio_net_irq (m_dtb m2) then end_irq iar p (irq_net e m2)
                 else if irq_nr = g_virtio_gpu_irq (m_dtb m2) then end_irq iar p (irq_gpu e m2)
                 else if irq_nr = g_virtio_blk_irq (m_dtb m2) then end_irq iar p (irq_blk e m2)
                 else Stopped (out (dump ''Unknown IRQ'' (ucast irq_nr) @ full_stop_text) m2)) })"

section \<open>What a handler leaves alone\<close>

text \<open>The parts of the kernel that no device interrupt touches.\<close>

definition core :: "machine \<Rightarrow> MMv5_stack \<times> FMv3_record \<times> PMv1_object \<times> DMv1_driver \<times> (nat \<Rightarrow> page_t option) \<times> nat option" where
  "core m = (k_mm (m_k m), k_fm (m_k m), k_pm (m_k m), k_dm (m_k m), k_pages (m_k m), k_cur (m_k m))"

lemma core_simps [simp]:
  "core (put_drv s m) = core m" "core (out bs m) = core m" "core (m\<lparr>m_hid := h\<rparr>) = core m"
  "core (m\<lparr>m_net := n\<rparr>) = core m" "core (m\<lparr>m_blk := b\<rparr>) = core m" "core (disable_irq m) = core m"
  by (simp_all add: core_def disable_irq_def)

lemma put_drv_upd [simp]: "m_dtb (m\<lparr>m_hid := h\<rparr>) = m_dtb m"
  by simp

lemma irq_net_core [simp]: "core (irq_net e m) = core m" "m_dtb (irq_net e m) = m_dtb m"
  by (simp_all add: irq_net_def Let_def split: prod.splits)

lemma irq_gpu_core [simp]: "core (irq_gpu e m) = core m" "m_dtb (irq_gpu e m) = m_dtb m"
  by (simp_all add: irq_gpu_def)

lemma irq_blk_core [simp]: "core (irq_blk e m) = core m" "m_dtb (irq_blk e m) = m_dtb m"
  by (simp_all add: irq_blk_def Let_def split: prod.splits)

text \<open>An interrupt no input device was assigned.\<close>

definition not_input :: "dtb_t \<Rightarrow> u32 \<Rightarrow> bool" where
  "not_input g irq \<longleftrightarrow> unat (g_virtio_input_count g) \<le> length (g_virtio_input_irqs g)
     \<and> (\<forall>i < unat (g_virtio_input_count g). g_virtio_input_irqs g ! i \<noteq> irq)"

lemma hid_irq_none:
  "(\<And>j. i \<le> j \<Longrightarrow> j < i + n \<Longrightarrow> j < length (g_virtio_input_irqs g) \<and> g_virtio_input_irqs g ! j \<noteq> irq)
   \<Longrightarrow> hid_irq_from dev g irq i n h s = Some (False, h, s)"
proof (induction n arbitrary: i)
  case 0
  then show ?case by simp
next
  case (Suc n)
  have "hid_irq_from dev g irq (i + 1) n h s = Some (False, h, s)"
    using Suc.prems by (intro Suc.IH) simp
  then show ?case using Suc.prems [of i] by (simp add: aget_def)
qed

lemma vhid_irq_none: "not_input g irq \<Longrightarrow> vhid_irq_handle dev g irq h s = Some (False, h, s)"
  unfolding vhid_irq_handle_def by (intro hid_irq_none) (simp add: not_input_def)

text \<open>The value the interrupt controller gives for the next interrupt.\<close>

definition pending :: "env \<Rightarrow> machine \<Rightarrow> u32" where
  "pending e m = e_dev e (m_tr m @ [Msr ''daifset'' 2]) GIC_CPU_IAR"

definition irq_no :: "env \<Rightarrow> machine \<Rightarrow> u32" where
  "irq_no e m = pending e m AND 0x3FF"

text \<open>The machine once the interrupt number has been read.\<close>

definition entered :: "env \<Rightarrow> machine \<Rightarrow> machine" where
  "entered e m = put_drv ((drv_of m)\<lparr>d_tr := m_tr m @ [Msr ''daifset'' 2, Rd GIC_CPU_IAR]\<rparr>) m"

lemma entered_simps [simp]: "core (entered e m) = core m" "m_dtb (entered e m) = m_dtb m"
  by (simp_all add: entered_def)

lemma put_put [simp]: "put_drv s (put_drv s' m) = put_drv s m"
  by (simp add: put_drv_def)

lemma irq_main_eq:
  "irq_handler_main e m p =
     (if irq_no e m = NSPTI then irq_timer (pending e m) p (entered e m)
      else do {
        (mine, h, s2) \<leftarrow> vhid_irq_handle (e_dev e) (m_dtb m) (irq_no e m) (m_hid m) (drv_of (entered e m));
        let m2 = put_drv s2 ((entered e m)\<lparr>m_hid := h\<rparr>);
        Some (if mine then end_irq (pending e m) p m2
              else if irq_no e m = g_virtio_net_irq (m_dtb m) then end_irq (pending e m) p (irq_net e m2)
              else if irq_no e m = g_virtio_gpu_irq (m_dtb m) then end_irq (pending e m) p (irq_gpu e m2)
              else if irq_no e m = g_virtio_blk_irq (m_dtb m) then end_irq (pending e m) p (irq_blk e m2)
              else Stopped (out (dump ''Unknown IRQ'' (ucast (irq_no e m)) @ full_stop_text) m2)) })"
proof -
  have "disable_irq m = put_drv ((drv_of m)\<lparr>d_tr := m_tr m @ [Msr ''daifset'' 2]\<rparr>) m"
    by (simp add: disable_irq_def msr_def drv_of_def)
  moreover have "rd32 (e_dev e) GIC_CPU_IAR ((drv_of m)\<lparr>d_tr := m_tr m @ [Msr ''daifset'' 2]\<rparr>)
      = (pending e m, (drv_of m)\<lparr>d_tr := m_tr m @ [Msr ''daifset'' 2, Rd GIC_CPU_IAR]\<rparr>)"
    by (simp add: rd32_def pending_def)
  ultimately show ?thesis
    by (simp add: irq_handler_main_def entered_def irq_no_def Let_def cong: if_cong)
qed

lemma irq_timer_simps:
  "irq_timer iar p m = Some r \<longleftrightarrow>
     (\<exists>q k. schedule_proc (m_k m) p = Some (q, k)
        \<and> r = end_irq iar q (put_drv (msr ''cntp_tval_el0'' frq (drv_of (m\<lparr>m_k := k\<lparr>k_cur := Some q\<rparr>\<rparr>))) (m\<lparr>m_k := k\<lparr>k_cur := Some q\<rparr>\<rparr>)))"
  by (auto simp: irq_timer_def Let_def split: Option.bind_splits)

lemma m_tr_put [simp]: "m_tr (put_drv s m) = d_tr s"
  by (simp add: put_drv_def)

lemma end_irq_cases:
  "end_irq iar p m = Resume q m' \<Longrightarrow> q = p \<and> core m' = core m \<and> m_tr m' = m_tr m @ [Wr GIC_CPU_EOI iar] \<and> m_dtb m' = m_dtb m"
  by (auto simp: end_irq_def drv_of_def)

lemma irq_timer_end:
  assumes "irq_handler_main e m p = Some r" and t: "irq_no e m = NSPTI"
  obtains q k m2 where "schedule_proc (m_k (entered e m)) p = Some (q, k)" "r = end_irq (pending e m) q m2"
    "core m2 = core (m\<lparr>m_k := k\<lparr>k_cur := Some q\<rparr>\<rparr>)" "m_dtb m2 = m_dtb m" "k_pm (m_k m2) = k_pm k"
proof -
  from assms obtain q k where "schedule_proc (m_k (entered e m)) p = Some (q, k)"
    "r = end_irq (pending e m) q (put_drv (msr ''cntp_tval_el0'' frq (drv_of ((entered e m)\<lparr>m_k := k\<lparr>k_cur := Some q\<rparr>\<rparr>)))
       ((entered e m)\<lparr>m_k := k\<lparr>k_cur := Some q\<rparr>\<rparr>))"
    unfolding irq_main_eq if_P [OF t] irq_timer_simps by blast
  moreover have "core ((entered e m)\<lparr>m_k := k\<lparr>k_cur := Some q\<rparr>\<rparr>) = core (m\<lparr>m_k := k\<lparr>k_cur := Some q\<rparr>\<rparr>)"
    by (simp add: core_def)
  ultimately show ?thesis using that by simp
qed

lemma irq_other_end:
  assumes "irq_handler_main e m p = Some r" and t: "irq_no e m \<noteq> NSPTI"
  obtains m2 where "core m2 = core m" "m_dtb m2 = m_dtb m"
    "r = end_irq (pending e m) p m2
     \<or> r = Stopped m2 \<and> irq_no e m \<notin> {g_virtio_net_irq (m_dtb m), g_virtio_gpu_irq (m_dtb m), g_virtio_blk_irq (m_dtb m)}"
proof -
  obtain mine h s2 where v: "vhid_irq_handle (e_dev e) (m_dtb m) (irq_no e m) (m_hid m) (drv_of (entered e m)) = Some (mine, h, s2)"
    using assms(1) unfolding irq_main_eq if_not_P [OF t] by (cases "vhid_irq_handle (e_dev e) (m_dtb m) (irq_no e m) (m_hid m) (drv_of (entered e m))") auto
  define m2 where "m2 = put_drv s2 ((entered e m)\<lparr>m_hid := h\<rparr>)"
  have m2: "core m2 = core m" "m_dtb m2 = m_dtb m" by (simp_all add: m2_def)
  have r: "r = (if mine then end_irq (pending e m) p m2
      else if irq_no e m = g_virtio_net_irq (m_dtb m) then end_irq (pending e m) p (irq_net e m2)
      else if irq_no e m = g_virtio_gpu_irq (m_dtb m) then end_irq (pending e m) p (irq_gpu e m2)
      else if irq_no e m = g_virtio_blk_irq (m_dtb m) then end_irq (pending e m) p (irq_blk e m2)
      else Stopped (out (dump ''Unknown IRQ'' (ucast (irq_no e m)) @ full_stop_text) m2))"
    using assms(1) unfolding irq_main_eq if_not_P [OF t] v m2_def by (simp only: bind.bind_lunit prod.case Let_def option.inject)
  consider "r = end_irq (pending e m) p m2" | "r = end_irq (pending e m) p (irq_net e m2)" | "r = end_irq (pending e m) p (irq_gpu e m2)"
    | "r = end_irq (pending e m) p (irq_blk e m2)"
    | "r = Stopped (out (dump ''Unknown IRQ'' (ucast (irq_no e m)) @ full_stop_text) m2)"
      "irq_no e m \<notin> {g_virtio_net_irq (m_dtb m), g_virtio_gpu_irq (m_dtb m), g_virtio_blk_irq (m_dtb m)}"
    using r by (auto split: if_splits)
  then show ?thesis
  proof cases
    case 5
    then show ?thesis using that [of "out (dump ''Unknown IRQ'' (ucast (irq_no e m)) @ full_stop_text) m2"] m2 by simp
  qed (use that m2 irq_net_core irq_gpu_core irq_blk_core in metis)+
qed


section \<open>Many interrupts\<close>

text \<open>\<open>n\<close> interrupts one after the other, process \<open>p\<close> running before the first: their numbers, the process
  that runs at the end and the machine.\<close>

fun irq_run :: "env \<Rightarrow> nat \<Rightarrow> machine \<Rightarrow> nat \<Rightarrow> (u32 list \<times> nat \<times> machine) option" where
  "irq_run e 0 m p = Some ([], p, m)"
| "irq_run e (Suc n) m p = do {
     r \<leftarrow> irq_handler_main e m p;
     (case r of
        Resume q m1 \<Rightarrow> do { (is, j, m2) \<leftarrow> irq_run e n m1 q; Some (irq_no e m # is, j, m2) }
      | Stopped _ \<Rightarrow> None) }"

text \<open>A board on which only the timer, the network card, the display and the disk interrupt.\<close>

definition known_irq :: "dtb_t \<Rightarrow> u32 \<Rightarrow> bool" where
  "known_irq g irq \<longleftrightarrow> irq = NSPTI \<or> not_input g irq \<and> irq \<in> {g_virtio_net_irq g, g_virtio_gpu_irq g, g_virtio_blk_irq g}"

lemma sched_cong:
  assumes "k_pm k' = k_pm k"
  shows "sched_ok k' i = sched_ok k i" "ready k' i = ready k i"
  using assms by (simp_all add: sched_ok_def ready_def proc_def)

lemma irq_step:
  assumes ok: "sched_ok (m_k m) p" and r: "irq_handler_main e m p = Some (Resume q m1)"
  shows "sched_ok (m_k m1) q \<and> ready (m_k m1) q = (if irq_no e m = NSPTI then rotate1 else id) (ready (m_k m) p)
    \<and> m_dtb m1 = m_dtb m"
proof (cases "irq_no e m = NSPTI")
  case True
  have pm: "k_pm (m_k (entered e m)) = k_pm (m_k m)" by (simp add: entered_def)
  obtain j k m2 where k: "schedule_proc (m_k (entered e m)) p = Some (j, k)" "Resume q m1 = end_irq (pending e m) j m2"
    "m_dtb m2 = m_dtb m" "k_pm (m_k m2) = k_pm k"
    by (rule irq_timer_end [OF r True])
  obtain j' k' where "schedule_proc (m_k (entered e m)) p = Some (j', k')" "sched_ok k' j'"
    "ready k' j' = rotate1 (ready (m_k m) p)"
    using schedule_step [of "m_k (entered e m)" p] ok by (auto simp: sched_cong [OF pm])
  then have "sched_ok k j" "ready k j = rotate1 (ready (m_k m) p)" using k(1) by simp_all
  moreover have "k_pm (m_k m1) = k_pm k" "q = j" "m_dtb m1 = m_dtb m" using k by (simp_all add: end_irq_def)
  ultimately show ?thesis using True by (simp add: sched_cong [of "m_k m1" k])
next
  case False
  obtain m2 where "core m2 = core m" "m_dtb m2 = m_dtb m" "Resume q m1 = end_irq (pending e m) p m2"
    by (rule irq_other_end [OF r False]) auto
  then have "q = p" "k_pm (m_k m1) = k_pm (m_k m)" "m_dtb m1 = m_dtb m" by (simp_all add: end_irq_def core_def)
  then show ?thesis using False ok by (simp add: sched_cong [of "m_k m1" "m_k m"])
qed

lemma irq_known_resumes:
  assumes ok: "sched_ok (m_k m) p" and i: "known_irq (m_dtb m) (irq_no e m)"
  shows "\<exists>q m1. irq_handler_main e m p = Some (Resume q m1)"
proof (cases "irq_no e m = NSPTI")
  case True
  have pm: "k_pm (m_k (entered e m)) = k_pm (m_k m)" by (simp add: entered_def)
  then obtain j k where "schedule_proc (m_k (entered e m)) p = Some (j, k)"
    using schedule_step [of "m_k (entered e m)" p] ok by (auto simp: sched_cong [OF pm])
  then show ?thesis unfolding irq_main_eq if_P [OF True] by (simp add: irq_timer_def end_irq_def Let_def)
next
  case False
  then have n: "not_input (m_dtb m) (irq_no e m)"
    and d: "irq_no e m \<in> {g_virtio_net_irq (m_dtb m), g_virtio_gpu_irq (m_dtb m), g_virtio_blk_irq (m_dtb m)}"
    using i by (auto simp: known_irq_def)
  show ?thesis
    unfolding irq_main_eq if_not_P [OF False] vhid_irq_none [OF n] using d
    by (auto simp: Let_def end_irq_def)
qed

lemma irq_run_rotates:
  "sched_ok (m_k m) p \<Longrightarrow> irq_run e n m p = Some (is, j, m') \<Longrightarrow>
     sched_ok (m_k m') j \<and> length is = n \<and> ready (m_k m') j = rotate (length (filter ((=) NSPTI) is)) (ready (m_k m) p)"
proof (induction n arbitrary: m p "is")
  case 0
  then show ?case by simp
next
  case (Suc n)
  obtain q m1 is1 where r: "irq_handler_main e m p = Some (Resume q m1)" "irq_run e n m1 q = Some (is1, j, m')"
    "is = irq_no e m # is1"
    using Suc.prems(2) by (auto split: Option.bind_splits irq_end.splits)
  have st: "sched_ok (m_k m1) q" "ready (m_k m1) q = (if irq_no e m = NSPTI then rotate1 else id) (ready (m_k m) p)"
    using irq_step [OF Suc.prems(1) r(1)] by simp_all
  show ?case using Suc.IH [OF st(1) r(2)] r(3) st(2) by (auto simp: rotate1_rotate_swap)
qed

lemma irq_run_total:
  "sched_ok (m_k m) p \<Longrightarrow> (\<And>tr. known_irq (m_dtb m) (e_dev e tr GIC_CPU_IAR AND 0x3FF)) \<Longrightarrow>
     \<exists>is j m'. irq_run e n m p = Some (is, j, m')"
proof (induction n arbitrary: m p)
  case 0
  then show ?case by simp
next
  case (Suc n)
  have "known_irq (m_dtb m) (irq_no e m)" using Suc.prems(2) by (simp add: irq_no_def pending_def)
  then obtain q m1 where r: "irq_handler_main e m p = Some (Resume q m1)"
    using irq_known_resumes [OF Suc.prems(1)] by blast
  obtain "is" j m' where "irq_run e n m1 q = Some (is, j, m')"
    using Suc.IH [of m1 q] irq_step [OF Suc.prems(1) r] Suc.prems(2) by auto
  then show ?case using r by simp
qed

text \<open>C35: The machine stays a fair round robin whatever interrupts it. Over any run of interrupts - timer, keyboard,
  network, display and disk in any order and number - the running process followed by the waiting ones is
  rotated once for each timer interrupt and by nothing else. On a board where every interrupt is the
  timer's or one of the network card, the display or the disk, every such run completes; a keyboard's
  handler may keep polling its device.\<close>

theorem irqs_round_robin:
  assumes ok: "sched_ok (m_k m) p"
  shows "(\<forall>is j m'. irq_run e n m p = Some (is, j, m') \<longrightarrow>
       length is = n \<and> ready (m_k m') j = rotate (length (filter ((=) NSPTI) is)) (ready (m_k m) p))
    \<and> ((\<forall>tr. known_irq (m_dtb m) (e_dev e tr GIC_CPU_IAR AND 0x3FF)) \<longrightarrow> irq_run e n m p \<noteq> None)"
proof (intro conjI allI impI)
  fix "is" j m' assume "irq_run e n m p = Some (is, j, m')"
  then have "length is = n \<and> ready (m_k m') j = rotate (length (filter ((=) NSPTI) is)) (ready (m_k m) p)"
    using irq_run_rotates [OF ok] by blast
  then show "length is = n" "ready (m_k m') j = rotate (length (filter ((=) NSPTI) is)) (ready (m_k m) p)" by simp_all
next
  assume "\<forall>tr. known_irq (m_dtb m) (e_dev e tr GIC_CPU_IAR AND 0x3FF)"
  then show "irq_run e n m p \<noteq> None" using irq_run_total [OF ok, of e n] by fastforce
qed

text \<open>Three processes, and a board on which only the timer interrupts.\<close>

definition trio_machine :: machine where
  "trio_machine = boot_machine\<lparr>m_k := trio_kernel\<rparr>"

definition timer_env :: env where
  "timer_env = idle_env\<lparr>e_dev := (\<lambda>_ _. 30)\<rparr>"

lemma timer_known: "known_irq g (e_dev timer_env tr a AND 0x3FF)"
  by (simp add: known_irq_def timer_env_def NSPTI_def)


lemma irqs_round_robin_witness:
  "\<exists>is j m'. irq_run timer_env 2 trio_machine 1 = Some (is, j, m')
     \<and> ready (m_k m') j = rotate (length (filter ((=) NSPTI) is)) [1, 2, 3]"
proof -
  have ok: "sched_ok (m_k trio_machine) 1" and rd: "ready (m_k trio_machine) 1 = [1, 2, 3]"
    using trio_ok by (simp_all add: trio_machine_def)
  have "irq_run timer_env 2 trio_machine 1 \<noteq> None"
    using irqs_round_robin [OF ok, of timer_env 2] timer_known by blast
  then obtain "is" j m' where "irq_run timer_env 2 trio_machine 1 = Some (is, j, m')" by auto
  then show ?thesis using irqs_round_robin [OF ok, of timer_env 2] rd by auto
qed

end
