(* ===== verification/Sect.thy ===== *)
theory Sect
  imports MM Vgpu
begin

text \<open>
  The memory map of \<^verbatim>\<open>include/_sect.h\<close>: where the kernel keeps its tables, its stack and its heap, and
  where user processes and files live.
\<close>

definition ALIGN_16 :: "u64 \<Rightarrow> u64" where
  "ALIGN_16 a = (a + 15) AND NOT 15"

definition KERNEL_TEXT_START :: u64 where "KERNEL_TEXT_START = 0x40000000"
definition KERNEL_TEXT_END :: u64 where "KERNEL_TEXT_END = KERNEL_TEXT_START + 0x64000"
definition MM_ADDR_START :: u64 where "MM_ADDR_START = ALIGN_16 KERNEL_TEXT_END"
definition MM_ADDR_END :: u64 where "MM_ADDR_END = ALIGN_16 (MM_ADDR_START + 0x5000)"
definition PM_ADDR_START :: u64 where "PM_ADDR_START = ALIGN_16 MM_ADDR_END"
definition PM_ADDR_END :: u64 where "PM_ADDR_END = ALIGN_16 (PM_ADDR_START + 0x1F000)"
definition FM_ADDR_START :: u64 where "FM_ADDR_START = ALIGN_16 PM_ADDR_END"
definition FM_ADDR_END :: u64 where "FM_ADDR_END = ALIGN_16 (FM_ADDR_START + 0x50000)"
definition DM_ADDR_START :: u64 where "DM_ADDR_START = ALIGN_16 FM_ADDR_END"
definition DM_ADDR_END :: u64 where "DM_ADDR_END = ALIGN_16 (DM_ADDR_START + 0x5000)"
definition NM_ADDR_START :: u64 where "NM_ADDR_START = ALIGN_16 DM_ADDR_END"
definition NM_ADDR_END :: u64 where "NM_ADDR_END = ALIGN_16 (NM_ADDR_START + 0x5000)"
definition KERNEL_BSS_END :: u64 where "KERNEL_BSS_END = ALIGN_16 (NM_ADDR_END + 0x10000)"
definition KERNEL_STACK_END :: u64 where "KERNEL_STACK_END = ALIGN_16 (KERNEL_BSS_END + 0x10000)"
definition KERNEL_HEAP_END :: u64 where "KERNEL_HEAP_END = ALIGN_16 (KERNEL_STACK_END + 0x80000)"
definition USER_PROC_START :: u64 where "USER_PROC_START = KERNEL_HEAP_END"
definition USER_PROC_END :: u64 where "USER_PROC_END = USER_PROC_START + 0x10000000"
definition USER_FILE_START :: u64 where "USER_FILE_START = USER_PROC_END"

lemmas sect_defs = ALIGN_16_def KERNEL_TEXT_START_def KERNEL_TEXT_END_def MM_ADDR_START_def MM_ADDR_END_def
  PM_ADDR_START_def PM_ADDR_END_def FM_ADDR_START_def FM_ADDR_END_def DM_ADDR_START_def DM_ADDR_END_def
  NM_ADDR_START_def NM_ADDR_END_def KERNEL_BSS_END_def KERNEL_STACK_END_def KERNEL_HEAP_END_def
  USER_PROC_START_def USER_PROC_END_def USER_FILE_START_def

lemma sect_values:
  "USER_PROC_START = 0x40182000" "USER_PROC_END = 0x50182000" "USER_FILE_START = 0x50182000"
  by (simp_all add: sect_defs)

text \<open>C33: The display's frame buffer lies in user memory. With the memory manager started at the beginning of the
  process area, as the kernel does, the fifteenth process - each gets 1024 KB - is given a range that
  contains the fixed address of the frame buffer: what is drawn overwrites the process, and the process
  can draw.\<close>

theorem framebuffer_in_process:
  "\<exists>s'. mm_creat (mm_iter 14 (mm_init s USER_PROC_START)) 1024 = (s', 42)
     \<and> unat (mm_find s' 42 0) \<le> unat GPU_FRAMEBUFFER_BASE
     \<and> unat GPU_FRAMEBUFFER_BASE < unat (mm_find s' 42 0) + 1024 * 1024"
proof -
  obtain s' where s': "mm_creat (mm_iter 14 (mm_init s USER_PROC_START)) 1024 = (s', of_nat (3 * 14))"
    "mm_find s' (of_nat (3 * 14)) 0 = USER_PROC_START + of_nat (131072 * ((8 * 14) mod 65536))"
    using mm_address_run [of 14 s USER_PROC_START] by auto
  then have "mm_find s' 42 0 = 0x40F82000" by (simp add: sect_values)
  then show ?thesis using s'(1) by (simp add: GPU_FRAMEBUFFER_BASE_def)
qed

end
