(* ===== verification/Kedt.thy ===== *)
theory Kedt
  imports Machine
begin

text \<open>
  The editor of \<^verbatim>\<open>src/frm/kedt.c\<close>. The two offsets and the two buffers are local variables that it never
  initialises: the offsets are arguments and the buffers are addresses on the stack.
\<close>

definition M_MODE :: u8 where "M_MODE = 0"
definition E_MODE :: u8 where "E_MODE = 1"
definition IO_KEY_ESC :: u8 where "IO_KEY_ESC = - 13"

definition kedtputs :: "env \<Rightarrow> cstr \<Rightarrow> machine \<Rightarrow> machine option" where
  "kedtputs e = kputs e 0xFFFFFFFF"

definition set_mem :: "mem \<Rightarrow> machine \<Rightarrow> machine" where
  "set_mem mm = on_k (\<lambda>k. k\<lparr>k_mem := mm\<rparr>)"

text \<open>Printing \<open>n\<close> pieces of the file; the offset after them.\<close>

fun kedt_view :: "env \<Rightarrow> nat option \<Rightarrow> u64 \<Rightarrow> nat \<Rightarrow> u32 \<Rightarrow> machine \<Rightarrow> (u32 \<times> machine) option" where
  "kedt_view e file fa 0 view m = Some (view, m)"
| "kedt_view e file fa (Suc n) view m = do {
     let (up, mm) = fm_read (k_fm (m_k m)) (k_mem (m_k m)) file (unat fa) 63 view;
     let m1 = set_mem mm m;
     m2 \<leftarrow> kedtputs e (cstr_mem (k_mem (m_k m1)) fa) m1;
     kedt_view e file fa n (view + of_nat up) m2 }"

text \<open>The screen of one turn: the file, the cursor, and a line of input.\<close>

definition kedt_screen :: "env \<Rightarrow> nat option \<Rightarrow> u64 \<Rightarrow> u64 \<Rightarrow> u32 \<Rightarrow> machine \<Rightarrow> (u32 \<times> machine) option" where
  "kedt_screen e file pa fa view m = do {
     (view1, m1) \<leftarrow> kedt_view e file fa 10 view m;
     (g, s) \<leftarrow> ltr (e_dev e) (io_console_xpixel (m_con m1)) (io_console_line (m_con m1)) 95 (m_gpu m1) (drv_of m1);
     let m2 = put_drv s (m1\<lparr>m_gpu := g\<rparr>);
     let m3 = m2\<lparr>m_con := (m_con m2)\<lparr>io_console_line := 10, io_console_xpixel := 5\<rparr>\<rparr>;
     m4 \<leftarrow> gets e pa 63 m3;
     Some (view1, m4) }"

text \<open>The first byte of the prompt is compared as a signed byte in one mode and as an unsigned one in the
  other, where it never equals a negative key code.\<close>

definition kedt_turn ::
  "env \<Rightarrow> nat option \<Rightarrow> u64 \<Rightarrow> u64 \<Rightarrow> u32 \<times> u32 \<times> u8 \<times> machine \<Rightarrow> (machine + u32 \<times> u32 \<times> u8 \<times> machine) option" where
  "kedt_turn e file pa fa = (\<lambda>(view, edt, md, m). do {
     (view1, m1) \<leftarrow> kedt_screen e file pa fa view m;
     let c = k_mem (m_k m1) (unat pa);
     if md = M_MODE
     then Some (if c = 113 then Inl m1
                else if c = 105 then Inr (view1, edt - 64, md, m1)
                else if c = 106 then Inr (view1, edt - 1, md, m1)
                else if c = 107 then Inr (view1, edt + 1, md, m1)
                else if c = 108 then Inr (view1, edt + 64, md, m1)
                else if c = IO_KEY_ESC then Inr (view1, edt, E_MODE, m1)
                else Inr (view1, edt, md, m1))
     else if int (unat c) = sint IO_KEY_ESC then Some (Inr (view1, edt, M_MODE, m1))
     else do {
       len \<leftarrow> strlen (cstr_mem (k_mem (m_k m1)) pa);
       let (n, mm) = fm_write (k_fm (m_k m1)) (k_mem (m_k m1)) file (unat pa) (of_nat len) edt;
       Some (Inr (view1, edt + of_nat len, md, set_mem mm m1)) } })"

partial_function (option) kedt_loop ::
  "env \<Rightarrow> nat option \<Rightarrow> u64 \<Rightarrow> u64 \<Rightarrow> u32 \<times> u32 \<times> u8 \<times> machine \<Rightarrow> machine option" where
  "kedt_loop e file pa fa st = do {
     r \<leftarrow> kedt_turn e file pa fa st;
     (case r of Inl m \<Rightarrow> Some m | Inr st1 \<Rightarrow> kedt_loop e file pa fa st1) }"

definition kedt :: "env \<Rightarrow> nat option \<Rightarrow> u64 \<Rightarrow> u64 \<Rightarrow> u32 \<Rightarrow> u32 \<Rightarrow> machine \<Rightarrow> machine option" where
  "kedt e file pa fa view edt m = do {
     m1 \<leftarrow> kedt_loop e file pa fa (view, edt, M_MODE, m);
     Some (m1\<lparr>m_con := (m_con m1)\<lparr>io_console_line := io_console_line (m_con m), io_console_xpixel := io_console_xpixel (m_con m)\<rparr>\<rparr>) }"

end
