(* ===== verification/Shell.thy ===== *)
theory Shell
  imports Kedt Syscall_Props
begin

text \<open>
  The kernel's shell, \<^verbatim>\<open>src/frm/ksh.c\<close>. A command line is a string in memory and its words are addresses
  in it; a missing word is the null address. \<^verbatim>\<open>str_to_uint\<close> and \<^verbatim>\<open>fnv1a_hash_64\<close> read a missing word as
  the string at address 0, which is memory of the board. The current path is a stack of at most three
  directory identifiers. What a command prints is a list of pieces, each one call of \<^verbatim>\<open>io_puts_color\<close>.
\<close>

datatype shell_ret = COMM_OK | COMM_ERR | UNKNOW_ERR | GRMMER_ERR | ARGS_ERR

definition PIPE_INCO :: u32 where "PIPE_INCO = 1641"
definition BACK_INCO :: u32 where "BACK_INCO = 1477"
definition REDI_INCO :: u32 where "REDI_INCO = 1621"
definition SCRI_INCO :: u32 where "SCRI_INCO = 1649"

type_synonym shell = "stack \<times> machine"

section \<open>Printing\<close>

definition kshputs :: "env \<Rightarrow> cstr \<Rightarrow> machine \<Rightarrow> machine option" where
  "kshputs e = kputs e 0xFFFFFFFF"

definition kshputs_error :: "env \<Rightarrow> cstr \<Rightarrow> machine \<Rightarrow> machine option" where
  "kshputs_error e = kputs e 0xFFFF0000"

definition fput_uint :: "env \<Rightarrow> u64 \<Rightarrow> machine \<Rightarrow> machine option" where
  "fput_uint e n = (let (buf, i) = uint_buf n in kputs e 0xFFFFFFFF (cstr_of (drop (nat (i + 1)) buf)))"

datatype piece = Txt "u8 list" | Err "u8 list" | Num u64

fun put_pieces :: "env \<Rightarrow> piece list \<Rightarrow> machine \<Rightarrow> machine option" where
  "put_pieces e [] m = Some m"
| "put_pieces e (p # ps) m = do {
     m1 \<leftarrow> (case p of Txt bs \<Rightarrow> kshputs e (cstr_of bs) m
              | Err bs \<Rightarrow> kshputs_error e (cstr_of bs) m
              | Num n \<Rightarrow> fput_uint e n m);
     put_pieces e ps m1 }"

definition fails :: "env \<Rightarrow> string \<Rightarrow> shell_ret \<Rightarrow> shell \<Rightarrow> (shell_ret \<times> shell) option" where
  "fails e msg r = (\<lambda>(dp, m). do { m1 \<leftarrow> kshputs_error e (cstr_of (line_of msg)) m; Some (r, dp, m1) })"

section \<open>Directories\<close>

definition kcurrent_dir :: "FMv3_record \<Rightarrow> stack \<Rightarrow> nat option option" where
  "kcurrent_dir fm dp =
     (if stack_empty dp then Some None
      else do {
        dir_id \<leftarrow> aget (s_buffer dp) (s_head dp - 1);
        Some (if unat dir_id \<ge> all_dir_num fm then None else Some (unat dir_id)) })"

text \<open>The elements of the path from the \<open>i\<close>-th on; an unknown directory ends it.\<close>

fun path_pieces :: "FMv3_record \<Rightarrow> nat \<Rightarrow> u8 list \<Rightarrow> piece list" where
  "path_pieces fm i [] = [Txt (text_of ''> '')]"
| "path_pieces fm i (d # ds) =
     (if unat d \<ge> all_dir_num fm then [Err (text_of ''(invalid path)'')]
      else (if i \<noteq> 0 then [Txt (text_of ''/'')] else [])
           @ Txt (d_alias (FMv3_dir_mem fm (unat d))) # path_pieces fm (i + 1) ds)"

definition kpath :: "env \<Rightarrow> shell \<Rightarrow> machine option" where
  "kpath e = (\<lambda>(dp, m). do {
     ds \<leftarrow> aprefix (s_buffer dp) (s_count dp);
     put_pieces e (Txt (text_of ''ax:'') # Txt (text_of ''/'') # path_pieces (k_fm (m_k m)) 0 ds) m })"

section \<open>File commands\<close>

fun uints :: "mem \<Rightarrow> u64 list \<Rightarrow> u64 list option" where
  "uints mm [] = Some []"
| "uints mm (a # as) = do { v \<leftarrow> str_to_uint (cstr_mem mm a); vs \<leftarrow> uints mm as; Some (v # vs) }"

text \<open>The running \<open>or\<close> from the last word backwards, kept in eight bits.\<close>

fun prefix_targs :: "u64 list \<Rightarrow> u8 list" where
  "prefix_targs [] = []"
| "prefix_targs (t # ts) =
     (let ps = prefix_targs ts in ucast (t OR (case ps of [] \<Rightarrow> 0 | p # _ \<Rightarrow> ucast p)) # ps)"

definition date_pieces :: "nat \<Rightarrow> nat \<Rightarrow> nat \<Rightarrow> piece list" where
  "date_pieces y mo d =
     [Txt (text_of ''YYYY : ''), Num (of_nat y), Txt (text_of ''  MM : ''), Num (of_nat mo),
      Txt (text_of ''  DD : ''), Num (of_nat d), Txt [10]]"

definition file_pieces :: "fcb_t \<Rightarrow> piece list" where
  "file_pieces f =
     [Txt (text_of ''file name : ''), Txt (f_alias f), Txt [10],
      Txt (text_of ''file len(KB): ''), Num (of_nat (f_lens f)), Txt [10],
      Txt (text_of ''file id: ''), Num (of_nat (f_fid f)), Txt [10],
      Txt (text_of ''file auth : ''), Num (of_nat (f_auth f)), Txt [10]]
     @ date_pieces (f_YYYY f) (f_MM f) (f_DD f)"

text \<open>The entries of a directory: files and directories by index, which may be outside the tables.\<close>

fun file_list :: "FMv3_record \<Rightarrow> nat list \<Rightarrow> piece list option" where
  "file_list fm [] = Some []"
| "file_list fm (i # is) =
     (if i \<ge> MAX_FILE_NUM then None
      else do {
        ps \<leftarrow> file_list fm is;
        let f = FMv3_mem fm i;
        Some ([Txt (text_of ''name : ''), Txt (f_alias f), Txt (text_of ''  auth : ''), Num (of_nat (f_auth f)), Txt [10]] @ ps) })"

fun dir_list :: "FMv3_record \<Rightarrow> nat list \<Rightarrow> piece list option" where
  "dir_list fm [] = Some []"
| "dir_list fm (i # is) =
     (if i \<ge> MAX_DIR_NUM then None
      else do {
        ps \<leftarrow> dir_list fm is;
        let d = FMv3_dir_mem fm i;
        Some ([Txt (text_of ''dir name : ''), Txt (d_alias d), Txt (text_of ''  auth : ''), Num (of_nat (d_auth d)), Txt [10]] @ ps) })"

definition rule_line :: piece where "rule_line = Txt (line_of ''----------'')"

definition dir_pieces :: "FMv3_record \<Rightarrow> fcb_e \<Rightarrow> piece list option" where
  "dir_pieces fm d = do {
     fs \<leftarrow> (if d_dir_num d = 0 then Some [Err (line_of ''file not found'')]
            else do { is \<leftarrow> aprefix (d_files d) (d_dir_num d); ps \<leftarrow> file_list fm is;
                      Some (Txt (line_of ''files'') # rule_line # ps @ [rule_line]) });
     ds \<leftarrow> (if d_dir_dnum d = 0 then Some [Err (line_of ''dir not found'')]
            else do { is \<leftarrow> aprefix (d_dirs d) (d_dir_dnum d); ps \<leftarrow> dir_list fm is;
                      Some (Txt (10 # line_of ''dirs'') # rule_line # ps @ [rule_line]) });
     Some ([Txt (text_of ''dir name : ''), Txt (d_alias d), Txt [10],
            Txt (text_of ''dir id: ''), Num (of_nat (d_fid d)), Txt [10],
            Txt (text_of ''dir auth : ''), Num (of_nat (d_auth d)), Txt [10]]
           @ fs @ ds @ date_pieces (d_YYYY d) (d_MM d) (d_DD d)) }"

text \<open>
  One command: its six words, the current directory and its depth. The numbers of the words are read
  first, whichever command it is.
\<close>

abbreviation fm_of :: "machine \<Rightarrow> FMv3_record" where
  "fm_of m \<equiv> k_fm (m_k m)"

definition name_at :: "machine \<Rightarrow> u64 \<Rightarrow> cstr option" where
  "name_at m a = cstr_at (k_mem (m_k m)) a"

definition cmd_crt :: "env \<Rightarrow> u64 list \<Rightarrow> u64 list \<Rightarrow> u8 list \<Rightarrow> shell \<Rightarrow> (shell_ret \<times> shell) option" where
  "cmd_crt e args targs ps = (\<lambda>(dp, m).
     if ps ! 4 \<noteq> 0 then fails e ''Syntax : file crt {name/path} {size(B)} {auth}'' ARGS_ERR (dp, m)
     else do {
       (r, fm) \<leftarrow> fm_create (fm_of m) (name_at m (args ! 1)) (ucast (targs ! 2)) (ucast (targs ! 3));
       Some (if r = None then COMM_ERR else COMM_OK, dp, set_fm fm m) })"

definition cmd_del :: "env \<Rightarrow> u64 list \<Rightarrow> u8 list \<Rightarrow> shell \<Rightarrow> (shell_ret \<times> shell) option" where
  "cmd_del e args ps = (\<lambda>(dp, m).
     if ps ! 2 \<noteq> 0 then fails e ''Syntax : file del {name/path}'' ARGS_ERR (dp, m)
     else do { (r, fm) \<leftarrow> fm_delete (fm_of m) (name_at m (args ! 1)); Some (COMM_OK, dp, set_fm fm m) })"

definition cmd_info :: "env \<Rightarrow> u64 list \<Rightarrow> u8 list \<Rightarrow> shell \<Rightarrow> (shell_ret \<times> shell) option" where
  "cmd_info e args ps = (\<lambda>(dp, m).
     if ps ! 2 \<noteq> 0 then fails e ''Syntax : file info {name/path}'' ARGS_ERR (dp, m)
     else do {
       f \<leftarrow> fm_find (fm_of m) (name_at m (args ! 1));
       (case f of
          None \<Rightarrow> fails e ''file not found'' COMM_ERR (dp, m)
        | Some i \<Rightarrow> do { m1 \<leftarrow> put_pieces e (file_pieces (FMv3_mem (fm_of m) i)) m; Some (COMM_OK, dp, m1) }) })"

text \<open>A file that is not found is dereferenced all the same; a directory that is not found is refused.\<close>

definition cmd_mv :: "env \<Rightarrow> u64 list \<Rightarrow> u8 list \<Rightarrow> shell \<Rightarrow> (shell_ret \<times> shell) option" where
  "cmd_mv e args ps = (\<lambda>(dp, m).
     if ps ! 5 \<noteq> 0
     then fails e ''Syntax : file mv {src dir name/path} {name/path} {dst dir name/path}'' ARGS_ERR (dp, m)
     else do {
       f \<leftarrow> fm_find (fm_of m) (name_at m (args ! 2));
       src \<leftarrow> fm_dir_find (fm_of m) (name_at m (args ! 1));
       i \<leftarrow> f;
       (r1, fm1) \<leftarrow> fm_dir_out (fm_of m) src (f_fid (FMv3_mem (fm_of m) i));
       dst \<leftarrow> fm_dir_find fm1 (name_at m (args ! 3));
       (r2, fm2) \<leftarrow> fm_dir_in fm1 dst (f_fid (FMv3_mem fm1 i));
       Some (COMM_OK, dp, set_fm fm2 m) })"

definition set_file :: "nat \<Rightarrow> fcb_t \<Rightarrow> FMv3_record \<Rightarrow> FMv3_record" where
  "set_file i f fm = fm\<lparr>FMv3_mem := (FMv3_mem fm)(i := f)\<rparr>"

definition set_dir :: "nat \<Rightarrow> fcb_e \<Rightarrow> FMv3_record \<Rightarrow> FMv3_record" where
  "set_dir i d fm = fm\<lparr>FMv3_dir_mem := (FMv3_dir_mem fm)(i := d)\<rparr>"

definition cmd_chg :: "env \<Rightarrow> u64 list \<Rightarrow> u64 list \<Rightarrow> u8 list \<Rightarrow> shell \<Rightarrow> (shell_ret \<times> shell) option" where
  "cmd_chg e args targs ps = (\<lambda>(dp, m).
     if ps ! 2 \<noteq> 0 \<or> targs ! 2 > 512 then fails e ''Syntax : file chg {name/path} {chg auth}'' ARGS_ERR (dp, m)
     else do {
       f \<leftarrow> fm_find (fm_of m) (name_at m (args ! 1));
       i \<leftarrow> f;
       let fm = fm_of m;
       Some (COMM_OK, dp, set_fm (set_file i ((FMv3_mem fm i)\<lparr>f_auth := unat (targs ! 2) mod 2 ^ 10\<rparr>) fm) m) })"

definition cmd_dcrt :: "env \<Rightarrow> u64 list \<Rightarrow> u64 list \<Rightarrow> u8 list \<Rightarrow> nat option \<Rightarrow> u8 \<Rightarrow> shell \<Rightarrow> (shell_ret \<times> shell) option" where
  "cmd_dcrt e args targs ps current depth = (\<lambda>(dp, m).
     if ps ! 4 \<noteq> 0 then fails e ''Syntax : file dcrt {name/path} {size(B)} {auth}'' ARGS_ERR (dp, m)
     else case current of
         None \<Rightarrow> fails e ''Directory depth limit reached'' COMM_ERR (dp, m)
       | Some c \<Rightarrow>
           if depth \<ge> 2 then fails e ''Directory depth limit reached'' COMM_ERR (dp, m)
           else do {
             (r, fm) \<leftarrow> fm_dir_create (fm_of m) (name_at m (args ! 1)) (of_nat (d_fid (FMv3_dir_mem (fm_of m) c)))
                         (ucast depth + 1) (ucast (targs ! 2));
             Some (if r = None then COMM_ERR else COMM_OK, dp, set_fm fm m) })"

definition cmd_ddel :: "env \<Rightarrow> u64 list \<Rightarrow> u8 list \<Rightarrow> shell \<Rightarrow> (shell_ret \<times> shell) option" where
  "cmd_ddel e args ps = (\<lambda>(dp, m).
     if ps ! 2 \<noteq> 0 then fails e ''Syntax : file dir_del {name/path}'' ARGS_ERR (dp, m)
     else do { (r, fm) \<leftarrow> fm_dir_delete (fm_of m) (name_at m (args ! 1)); Some (COMM_OK, dp, set_fm fm m) })"

definition cmd_dinfo :: "env \<Rightarrow> u64 list \<Rightarrow> u8 list \<Rightarrow> shell \<Rightarrow> (shell_ret \<times> shell) option" where
  "cmd_dinfo e args ps = (\<lambda>(dp, m).
     if ps ! 2 \<noteq> 0 then fails e ''Syntax : file dir_info {name/path}'' ARGS_ERR (dp, m)
     else do {
       d \<leftarrow> fm_dir_find (fm_of m) (name_at m (args ! 1));
       (case d of
          None \<Rightarrow> Some (COMM_ERR, dp, m)
        | Some i \<Rightarrow> do {
            pcs \<leftarrow> dir_pieces (fm_of m) (FMv3_dir_mem (fm_of m) i);
            m1 \<leftarrow> put_pieces e pcs m;
            Some (COMM_OK, dp, m1) }) })"

definition cmd_dmv :: "env \<Rightarrow> u64 list \<Rightarrow> u8 list \<Rightarrow> shell \<Rightarrow> (shell_ret \<times> shell) option" where
  "cmd_dmv e args ps = (\<lambda>(dp, m).
     if ps ! 5 \<noteq> 0 then fails e ''Syntax : file dmv {name/path} {dst dir name/path}'' ARGS_ERR (dp, m)
     else do {
       a \<leftarrow> fm_dir_find (fm_of m) (name_at m (args ! 1));
       b \<leftarrow> fm_dir_find (fm_of m) (name_at m (args ! 2));
       i \<leftarrow> a;
       j \<leftarrow> b;
       let fm = fm_of m;
       let fm1 = set_dir i ((FMv3_dir_mem fm i)\<lparr>d_p_fid := d_fid (FMv3_dir_mem fm j)\<rparr>) fm;
       let d = FMv3_dir_mem fm1 j;
       ds \<leftarrow> aset (d_dirs d) (d_dir_dnum d) (d_fid (FMv3_dir_mem fm1 i));
       Some (COMM_OK, dp, set_fm (set_dir j (d\<lparr>d_dirs := ds, d_dir_dnum := (d_dir_dnum d + 1) mod 2 ^ 16\<rparr>) fm1) m) })"

text \<open>The syntax error does not end the command.\<close>

definition cmd_dchg :: "env \<Rightarrow> u64 list \<Rightarrow> u64 list \<Rightarrow> u8 list \<Rightarrow> shell \<Rightarrow> (shell_ret \<times> shell) option" where
  "cmd_dchg e args targs ps = (\<lambda>(dp, m). do {
     m1 \<leftarrow> (if ps ! 3 \<noteq> 0 \<or> targs ! 3 > 512
            then kshputs_error e (cstr_of (line_of ''Syntax : file dchg {name/path} {auth}'')) m else Some m);
     d \<leftarrow> fm_dir_find (fm_of m1) (name_at m1 (args ! 1));
     i \<leftarrow> d;
     let fm = fm_of m1;
     Some (COMM_OK, dp, set_fm (set_dir i ((FMv3_dir_mem fm i)\<lparr>d_auth := unat (targs ! 2) mod 2 ^ 10\<rparr>) fm) m1) })"

definition cmd_scp_in :: "env \<Rightarrow> u64 list \<Rightarrow> nat \<Rightarrow> u8 \<Rightarrow> shell \<Rightarrow> (shell_ret \<times> shell) option" where
  "cmd_scp_in e args c depth = (\<lambda>(dp, m).
     if args ! 2 = 0 then fails e ''Syntax : file scp in {dir name/path}'' ARGS_ERR (dp, m)
     else do {
       d \<leftarrow> fm_dir_find (fm_of m) (name_at m (args ! 2));
       (case d of
          None \<Rightarrow> fails e ''Directory not found in current path'' COMM_ERR (dp, m)
        | Some i \<Rightarrow>
            let n = FMv3_dir_mem (fm_of m) i in
            if d_p_fid n \<noteq> d_fid (FMv3_dir_mem (fm_of m) c) \<or> d_depth n \<noteq> unat depth + 1 \<or> stack_full dp
            then fails e ''Directory not found in current path'' COMM_ERR (dp, m)
            else Some (COMM_OK, stack_push dp (of_nat (d_fid n)), m)) })"

definition cmd_scp :: "env \<Rightarrow> u64 list \<Rightarrow> nat option \<Rightarrow> u8 \<Rightarrow> shell \<Rightarrow> (shell_ret \<times> shell) option" where
  "cmd_scp e args current depth = (\<lambda>(dp, m).
     if args ! 1 = 0 \<or> args ! 3 \<noteq> 0 then fails e ''Syntax : file scp {in {dir name/path}|out}'' ARGS_ERR (dp, m)
     else case current of
         None \<Rightarrow> fails e ''Current directory unavailable'' COMM_ERR (dp, m)
       | Some c \<Rightarrow> do {
           h \<leftarrow> fnv1a_hash_64 (cstr_mem (k_mem (m_k m)) (args ! 1));
           if h = 0x08B73807B55C4BBE then cmd_scp_in e args c depth (dp, m)
           else if h = 0x19F79B1921BBCFFF
           then if args ! 2 \<noteq> 0 then fails e ''Syntax : file scp out'' ARGS_ERR (dp, m)
                else if s_count dp \<le> 1 then fails e ''Already at root directory'' COMM_ERR (dp, m)
                else Some (COMM_OK, snd (stack_pop dp), m)
           else fails e ''Syntax : file scp {in {dir name/path}|out}'' ARGS_ERR (dp, m) })"

definition file_split :: "env \<Rightarrow> u64 list \<Rightarrow> nat option \<Rightarrow> u8 \<Rightarrow> shell \<Rightarrow> (shell_ret \<times> shell) option" where
  "file_split e args current depth = (\<lambda>(dp, m). do {
     hash \<leftarrow> fnv1a_hash_64 (cstr_mem (k_mem (m_k m)) (args ! 0));
     targs \<leftarrow> uints (k_mem (m_k m)) args;
     let ps = prefix_targs targs;
     if hash = 0xF5A2F5190CAEA09C then cmd_crt e args targs ps (dp, m)
     else if hash = 0xCA9A2418F461F5CA then cmd_del e args ps (dp, m)
     else if hash = 0xF5D6A8C57AB94F05 then cmd_info e args ps (dp, m)
     else if hash = 0x08A95007B550372A then cmd_mv e args ps (dp, m)
     else if hash = 0xF5FAF8190CF91B8B then cmd_chg e args targs ps (dp, m)
     else if hash = 0x73430E67262B7B56 then cmd_dcrt e args targs ps current depth (dp, m)
     else if hash = 0xB0DD41674955CBF4 then cmd_ddel e args ps (dp, m)
     else if hash = 0x454A0E9939328967 then cmd_dinfo e args ps (dp, m)
     else if hash = 0xCAB53A18F478E2E4 then cmd_dmv e args ps (dp, m)
     else if hash = 0x738E0D67266B651D then cmd_dchg e args targs ps (dp, m)
     else if hash = 0x822687195CCFB219 then cmd_scp e args current depth (dp, m)
     else fails e ''Syntax : file {command} {args}'' COMM_ERR (dp, m) })"

section \<open>System commands\<close>

text \<open>The result of the editor command is never set: after the editor \<^verbatim>\<open>ret\<close> is read without a value. Nothing
  calls this function.\<close>

definition sys_split :: "env \<Rightarrow> u64 list \<Rightarrow> u64 \<Rightarrow> u64 \<Rightarrow> u32 \<Rightarrow> u32 \<Rightarrow> shell \<Rightarrow> (shell_ret \<times> shell) option" where
  "sys_split e args pa fa view edt = (\<lambda>(dp, m). do {
     hash \<leftarrow> fnv1a_hash_64 (cstr_mem (k_mem (m_k m)) (args ! 0));
     targs \<leftarrow> uints (k_mem (m_k m)) args;
     let ps = prefix_targs targs;
     if hash = 0xC2CE0F18F0367E08
     then if ps ! 2 \<noteq> 0 then fails e ''Syntax : sys edt {name/path}'' ARGS_ERR (dp, m)
          else do {
            f \<leftarrow> fm_find (fm_of m) (name_at m (args ! 1));
            (case f of
               None \<Rightarrow> fails e ''unknow file'' UNKNOW_ERR (dp, m)
             | Some i \<Rightarrow> do { m1 \<leftarrow> kedt e (Some i) pa fa view edt m; None }) }
     else fails e ''Syntax : sys {command} {args}'' COMM_ERR (dp, m) })"

section \<open>A command line\<close>

text \<open>The category is a number made of the first bytes, up to a space and at most five.\<close>

function incode_loop :: "mem \<Rightarrow> u64 \<Rightarrow> nat \<Rightarrow> u32 \<Rightarrow> nat \<times> u32" where
  "incode_loop mm a i incode =
     (if i < 5 \<and> mm (unat (a + of_nat i)) \<noteq> 32
      then incode_loop mm a (i + 1) (push_bit 1 incode + ucast (mm (unat (a + of_nat i))))
      else (i, incode))"
  by pat_completeness auto
termination by (relation "measure (\<lambda>(mm, a, i, incode). 5 - i)") auto

declare incode_loop.simps [simp del]

text \<open>A control word goes back to the loop with what it has: where it stopped, its bits and the number.\<close>

partial_function (option) check :: "mem \<Rightarrow> u64 \<Rightarrow> nat \<Rightarrow> u8 \<Rightarrow> u32 \<Rightarrow> (nat \<times> u8 \<times> u32) option" where
  "check mm a j con incode =
     (let r = incode_loop mm a j incode in
      if snd r = PIPE_INCO \<or> snd r = BACK_INCO \<or> snd r = REDI_INCO \<or> snd r = SCRI_INCO
      then check mm a (fst r) 0 (snd r)
      else Some (fst r, con, snd r))"

definition is_sep :: "u8 \<Rightarrow> bool" where
  "is_sep c \<longleftrightarrow> c = 32 \<or> c = 44"

text \<open>Zeroing separators and finding the end of a word.\<close>

partial_function (option) skip_seps :: "u64 \<Rightarrow> nat \<Rightarrow> mem \<Rightarrow> (nat \<times> mem) option" where
  "skip_seps a i mm =
     (if is_sep (mm (unat (a + of_nat i))) then skip_seps a (i + 1) (mm(unat (a + of_nat i) := 0)) else Some (i, mm))"

partial_function (option) word_end :: "mem \<Rightarrow> u64 \<Rightarrow> nat \<Rightarrow> nat option" where
  "word_end mm a i =
     (let c = mm (unat (a + of_nat i)) in if c \<noteq> 0 \<and> \<not> is_sep c then word_end mm a (i + 1) else Some i)"

partial_function (option) split_words :: "u64 \<Rightarrow> nat \<Rightarrow> u64 list \<Rightarrow> mem \<Rightarrow> (u64 list \<times> mem) option" where
  "split_words a i command mm =
     (if mm (unat (a + of_nat i)) \<noteq> 0 \<and> length command < 6
      then do {
        r \<leftarrow> skip_seps a i mm;
        if snd r (unat (a + of_nat (fst r))) = 0 then Some (command, snd r)
        else do {
          k \<leftarrow> word_end (snd r) a (fst r);
          split_words a k (command @ [a + of_nat (fst r)]) (snd r) } }
      else Some (command, mm))"

definition report :: "env \<Rightarrow> shell_ret \<Rightarrow> machine \<Rightarrow> machine option" where
  "report e ret m =
     (case ret of
        COMM_OK \<Rightarrow> Some m
      | UNKNOW_ERR \<Rightarrow> kshputs_error e (cstr_of (line_of ''Invalid category selected'')) m
      | GRMMER_ERR \<Rightarrow> kshputs_error e (cstr_of (line_of ''Grammar error'')) m
      | ARGS_ERR \<Rightarrow> kshputs_error e (cstr_of (line_of ''Invalid arguments'')) m
      | COMM_ERR \<Rightarrow> kshputs_error e (cstr_of (line_of ''Command error'')) m)"

definition not_yet :: string where "not_yet = ''sorry yet devo''"

definition dispatch :: "env \<Rightarrow> u32 \<Rightarrow> u8 \<Rightarrow> u64 list \<Rightarrow> shell \<Rightarrow> (shell_ret \<times> shell) option" where
  "dispatch e incode con command = (\<lambda>(dp, m).
     if incode = 747 \<and> con AND 1 \<noteq> 0 then fails e not_yet UNKNOW_ERR (dp, m)
     else if incode = 1673 \<and> drop_bit 1 con AND 1 \<noteq> 0 then fails e not_yet UNKNOW_ERR (dp, m)
     else if incode = 1553 \<and> drop_bit 2 con AND 1 \<noteq> 0
     then do {
       current \<leftarrow> kcurrent_dir (fm_of m) dp;
       file_split e command current (if s_count dp = 0 then 0 else of_nat (s_count dp - 1)) (dp, m) }
     else if incode = 1673 \<and> drop_bit 3 con AND 1 \<noteq> 0 then fails e not_yet UNKNOW_ERR (dp, m)
     else if incode = 817 then fails e not_yet UNKNOW_ERR (dp, m)
     else Some (UNKNOW_ERR, dp, m))"

definition ksplit :: "env \<Rightarrow> u64 \<Rightarrow> shell \<Rightarrow> shell option" where
  "ksplit e a = (\<lambda>(dp, m). do {
     (i, con, incode) \<leftarrow> check (k_mem (m_k m)) a 1 0xF (ucast (k_mem (m_k m) (unat a)));
     (command, mm) \<leftarrow> split_words a i [] (k_mem (m_k m));
     (ret, dp1, m1) \<leftarrow> dispatch e incode con (command @ replicate (6 - length command) 0) (dp, set_mem mm m);
     m2 \<leftarrow> report e ret m1;
     Some (dp1, m2) })"

section \<open>The shell\<close>

text \<open>The start of the shell: \<open>None\<close> inside when there is no root directory and it returns.\<close>

definition kshell_start :: "env \<Rightarrow> u8 list \<Rightarrow> machine \<Rightarrow> (shell option \<times> machine) option" where
  "kshell_start e path_buf m0 = do {
     let m = enable_irq m0;
     let dp = stack_init path_buf 3;
     root \<leftarrow> fm_dir_find (fm_of m) (Some (lit ''root''));
     (case root of
        None \<Rightarrow> do { m1 \<leftarrow> kshputs_error e (cstr_of (line_of ''Shell root directory unavailable'')) m; Some (None, m1) }
      | Some i \<Rightarrow>
          let m1 = out (enter ''kernel in shell'') m
          in Some (Some (stack_push dp (of_nat (d_fid (FMv3_dir_mem (fm_of m) i))), m1), m1)) }"

definition kshell_turn :: "env \<Rightarrow> u64 \<Rightarrow> shell \<Rightarrow> shell option" where
  "kshell_turn e prompt = (\<lambda>(dp, m). do {
     m1 \<leftarrow> kpath e (dp, m);
     m2 \<leftarrow> gets e prompt 63 m1;
     ksplit e prompt (dp, m2) })"

text \<open>The endless loop, \<open>n\<close> turns of it.\<close>

fun kshell_turns :: "env \<Rightarrow> u64 \<Rightarrow> nat \<Rightarrow> shell \<Rightarrow> shell option" where
  "kshell_turns e prompt 0 st = Some st"
| "kshell_turns e prompt (Suc n) st = do { st1 \<leftarrow> kshell_turn e prompt st; kshell_turns e prompt n st1 }"

section \<open>The path\<close>

text \<open>The path has one to three elements and starts at \<open>root\<close>.\<close>

definition path_ok :: "u8 \<Rightarrow> stack \<Rightarrow> bool" where
  "path_ok root dp \<longleftrightarrow> stack_wf dp \<and> s_size dp = 3 \<and> 1 \<le> s_count dp \<and> s_buffer dp ! 0 = root"

lemma path_push: "path_ok root dp \<Longrightarrow> path_ok root (stack_push dp d)"
  by (auto simp: path_ok_def stack_push_def stack_wf_def)

lemma path_pop: "path_ok root dp \<Longrightarrow> 1 < s_count dp \<Longrightarrow> path_ok root (snd (stack_pop dp))"
  by (auto simp: path_ok_def stack_pop_def stack_wf_def Let_def)

lemma fails_path: "fails e msg r (dp, m) = Some (r', dp', m') \<Longrightarrow> dp' = dp \<and> r' = r"
  by (auto simp: fails_def split: bind_splits)

lemmas cmd_defs = cmd_crt_def cmd_del_def cmd_info_def cmd_mv_def cmd_chg_def cmd_dcrt_def cmd_ddel_def cmd_dinfo_def
  cmd_dmv_def cmd_dchg_def

lemma cmd_path:
  "cmd_crt e args targs ps (dp, m) = Some (r, dp', m') \<Longrightarrow> dp' = dp"
  "cmd_del e args ps (dp, m) = Some (r, dp', m') \<Longrightarrow> dp' = dp"
  "cmd_info e args ps (dp, m) = Some (r, dp', m') \<Longrightarrow> dp' = dp"
  "cmd_mv e args ps (dp, m) = Some (r, dp', m') \<Longrightarrow> dp' = dp"
  "cmd_chg e args targs ps (dp, m) = Some (r, dp', m') \<Longrightarrow> dp' = dp"
  "cmd_dcrt e args targs ps current depth (dp, m) = Some (r, dp', m') \<Longrightarrow> dp' = dp"
  "cmd_ddel e args ps (dp, m) = Some (r, dp', m') \<Longrightarrow> dp' = dp"
  "cmd_dinfo e args ps (dp, m) = Some (r, dp', m') \<Longrightarrow> dp' = dp"
  "cmd_dmv e args ps (dp, m) = Some (r, dp', m') \<Longrightarrow> dp' = dp"
  "cmd_dchg e args targs ps (dp, m) = Some (r, dp', m') \<Longrightarrow> dp' = dp"
  by (auto simp: cmd_defs Let_def dest!: fails_path split: bind_splits if_splits option.splits prod.splits)

lemma cmd_scp_path:
  assumes "cmd_scp e args current depth (dp, m) = Some (r, dp', m')" "path_ok root dp"
  shows "path_ok root dp'"
  using assms
  by (auto simp: cmd_scp_def cmd_scp_in_def Let_def path_push path_pop dest!: fails_path split: bind_splits if_splits option.splits)

lemma file_split_path:
  assumes "file_split e args current depth (dp, m) = Some (r, dp', m')" "path_ok root dp"
  shows "path_ok root dp'"
  using assms
  by (auto simp: file_split_def Let_def dest!: fails_path cmd_path cmd_scp_path split: bind_splits if_splits)

lemma dispatch_path:
  assumes "dispatch e incode con command (dp, m) = Some (r, dp', m')" "path_ok root dp"
  shows "path_ok root dp'"
  using assms by (auto simp: dispatch_def dest!: fails_path dest: file_split_path split: bind_splits if_splits)

lemma ksplit_path: "ksplit e a (dp, m) = Some (dp', m') \<Longrightarrow> path_ok root dp \<Longrightarrow> path_ok root dp'"
  using dispatch_path by (fastforce simp: ksplit_def split: bind_splits)

lemma turns_path: "kshell_turns e a n st = Some st' \<Longrightarrow> path_ok root (fst st) \<Longrightarrow> path_ok root (fst st')"
proof (induction n arbitrary: st)
  case 0
  then show ?case by simp
next
  case (Suc n)
  then obtain st1 where st1: "kshell_turn e a st = Some st1" "kshell_turns e a n st1 = Some st'"
    by (auto split: bind_splits)
  have "path_ok root (fst st1)"
    using st1(1) Suc.prems(2) ksplit_path by (cases st; cases st1) (auto simp: kshell_turn_def split: bind_splits)
  then show ?case using Suc.IH st1(2) by blast
qed


section \<open>Control words\<close>

definition is_control :: "u32 \<Rightarrow> bool" where
  "is_control c \<longleftrightarrow> c = PIPE_INCO \<or> c = BACK_INCO \<or> c = REDI_INCO \<or> c = SCRI_INCO"

lemma incode_loop_again: "incode_loop mm a i c = (j, d) \<Longrightarrow> incode_loop mm a j d = (j, d)"
proof (induction mm a i c rule: incode_loop.induct)
  case (1 mm a i c)
  show ?case
  proof (cases "i < 5 \<and> mm (unat (a + of_nat i)) \<noteq> 32")
    case True
    then show ?thesis using 1 by (simp add: incode_loop.simps [of mm a i c])
  next
    case False
    then have "incode_loop mm a i c = (i, c)" by (subst incode_loop.simps) (simp only: if_False)
    then show ?thesis using 1(2) by simp
  qed
qed

lemma check_stuck:
  assumes "check mm a j con c = Some r"
  shows "\<not> (is_control c \<and> incode_loop mm a j c = (j, c))"
proof (rule check.raw_induct [OF _ assms])
  fix chk mm a j con c r
  assume IH: "\<And>mm a j con c r. chk mm a j con c = Some r \<Longrightarrow> \<not> (is_control c \<and> incode_loop mm a j c = (j, c))"
    and body: "(let r = incode_loop mm a j c in
        if snd r = PIPE_INCO \<or> snd r = BACK_INCO \<or> snd r = REDI_INCO \<or> snd r = SCRI_INCO
        then chk mm a (fst r) 0 (snd r) else Some (fst r, con, snd r)) = Some r"
  show "\<not> (is_control c \<and> incode_loop mm a j c = (j, c))"
  proof
    assume c: "is_control c \<and> incode_loop mm a j c = (j, c)"
    then have "chk mm a j 0 c = Some r" using body by (simp add: is_control_def Let_def)
    then show False using IH c by blast
  qed
qed

lemma check_control: "incode_loop mm a j c = (i, d) \<Longrightarrow> is_control d \<Longrightarrow> check mm a j con c = None"
proof -
  assume l: "incode_loop mm a j c = (i, d)" and d: "is_control d"
  have "check mm a i 0 d = None"
    using check_stuck [of mm a i 0 d] incode_loop_again [OF l] d by (cases "check mm a i 0 d") auto
  then show "check mm a j con c = None" using l d by (subst check.simps) (simp add: is_control_def)
qed

text \<open>The first five bytes of a line, which select the category.\<close>

definition line_head :: "mem \<Rightarrow> u64 \<Rightarrow> u8 list" where
  "line_head mm a = map (\<lambda>i. mm (unat (a + of_nat i))) [0..<5]"

definition control_words :: "string list" where
  "control_words = [''pipe'', ''back'', ''redi'', ''scri'']"

lemma line_head_nth: "i < 5 \<Longrightarrow> mm (unat (a + of_nat i)) = line_head mm a ! i"
  by (simp add: line_head_def)

lemma incode_four:
  assumes "line_head mm a = [c0, c1, c2, c3, 32]" "32 \<notin> {c1, c2, c3}"
  shows "incode_loop mm a 1 (ucast c0)
    = (4, push_bit 1 (push_bit 1 (push_bit 1 (ucast c0) + ucast c1) + ucast c2) + ucast c3)"
proof -
  have b: "mm (unat (a + of_nat 1)) = c1" "mm (unat (a + of_nat 2)) = c2" "mm (unat (a + of_nat 3)) = c3"
    "mm (unat (a + of_nat 4)) = 32"
    using line_head_nth [of _ mm a] assms(1) by (simp_all only:) simp_all
  have n: "(1 :: nat) + 1 = 2" "(2 :: nat) + 1 = 3" "(3 :: nat) + 1 = 4" by simp_all
  show ?thesis
    using assms(2) incode_loop.simps [of mm a 1] incode_loop.simps [of mm a 2] incode_loop.simps [of mm a 3] incode_loop.simps [of mm a 4]
    unfolding b n by (simp only:) simp
qed

text \<open>C38: A control word hangs the shell. A command line that begins with pipe, back, redi or scri and a space is
  never finished: the category loop goes back to where it stopped with the number it had and finds the
  same control word again. In general this happens whenever the number made of the first bytes is that
  of a control word.\<close>

theorem control_word_hangs:
  "(w \<in> set control_words \<and> line_head (k_mem (m_k m)) a = text_of w @ [32] \<longrightarrow> ksplit e a (dp, m) = None)
   \<and> (is_control (snd (incode_loop (k_mem (m_k m)) a 1 (ucast (k_mem (m_k m) (unat a))))) \<longrightarrow> ksplit e a (dp, m) = None)"
proof -
  let ?mm = "k_mem (m_k m)" and ?c = "ucast (k_mem (m_k m) (unat a)) :: u32"
  have hang: "ksplit e a (dp, m) = None" if "is_control (snd (incode_loop ?mm a 1 ?c))"
  proof -
    have "check ?mm a 1 0xF ?c = None" using that check_control by (cases "incode_loop ?mm a 1 ?c") simp
    then show ?thesis by (simp add: ksplit_def)
  qed
  moreover have "is_control (snd (incode_loop ?mm a 1 ?c))"
    if w: "w \<in> set control_words" and h: "line_head ?mm a = text_of w @ [32]"
  proof -
    have a: "?mm (unat a) = hd (text_of w)" using line_head_nth [of 0 ?mm a] h w by (auto simp: control_words_def text_of_def)
    from w consider "w = ''pipe''" | "w = ''back''" | "w = ''redi''" | "w = ''scri''" by (auto simp: control_words_def)
    then show ?thesis
    proof cases
      case 1
      show ?thesis using incode_four [of ?mm a 112 105 112 101] h a 1
        by (simp add: text_of_def is_control_def PIPE_INCO_def)
    next
      case 2
      show ?thesis using incode_four [of ?mm a 98 97 99 107] h a 2
        by (simp add: text_of_def is_control_def BACK_INCO_def)
    next
      case 3
      show ?thesis using incode_four [of ?mm a 114 101 100 105] h a 3
        by (simp add: text_of_def is_control_def REDI_INCO_def)
    next
      case 4
      show ?thesis using incode_four [of ?mm a 115 99 114 105] h a 4
        by (simp add: text_of_def is_control_def SCRI_INCO_def)
    qed
  qed
  ultimately show ?thesis by blast
qed

text \<open>A machine whose memory holds a line at address 0x41000.\<close>

definition line_machine :: "u8 list \<Rightarrow> machine" where
  "line_machine bs = boot_machine\<lparr>m_k := boot_kernel\<lparr>k_mem := put_bytes 0x41000 bs (\<lambda>_. 0)\<rparr>\<rparr>"

lemma line_head_machine:
  assumes "length bs = 5"
  shows "line_head (k_mem (m_k (line_machine bs))) 0x41000 = bs"
proof -
  have u: "unat (0x41000 + of_nat i :: u64) = 0x41000 + i" if "i < 5" for i
    using that unat_add_no_wrap [of "0x41000 :: u64" "of_nat i"] by (simp add: unat_of_nat)
  have "line_head (k_mem (m_k (line_machine bs))) 0x41000 = map ((!) bs) [0..<5]"
    unfolding line_head_def by (intro map_cong refl) (simp add: u line_machine_def put_bytes_def assms)
  then show ?thesis using map_nth [of bs] assms by simp
qed

lemma control_word_hangs_witness:
  "ksplit idle_env 0x41000 (stack_init [0, 0, 0] 3, line_machine (text_of ''pipe'' @ [32])) = None"
  using control_word_hangs [of "''pipe''" "line_machine (text_of ''pipe'' @ [32])" "0x41000" idle_env "stack_init [0, 0, 0] 3"]
    line_head_machine [of "text_of ''pipe'' @ [32]"]
  by (simp add: control_words_def text_of_def)

section \<open>Permissions\<close>

text \<open>The shell can set the permission of a file to three values only. The test that is meant to refuse extra words
  also looks at the permission itself, so for an existing file and numbers without extra words the command
  \<^verbatim>\<open>chg\<close> stores the permission when it is 0, 256 or 512 and answers anything else with a syntax error,
  the documented permissions up to 511 among it.\<close>

theorem chg_accepts_three:
  assumes f: "fm_find (fm_of m) (name_at m (args ! 1)) = Some (Some i)" and n: "targs = [t0, t1, v, 0, 0, 0]"
  shows "cmd_chg e args targs (prefix_targs targs) (dp, m) =
    (if v \<in> {0, 256, 512}
     then Some (COMM_OK, dp, set_fm (set_file i ((FMv3_mem (fm_of m) i)\<lparr>f_auth := unat v\<rparr>) (fm_of m)) m)
     else fails e ''Syntax : file chg {name/path} {chg auth}'' ARGS_ERR (dp, m))"
proof -
  have p: "prefix_targs targs ! 2 = ucast v" by (simp add: n Let_def)
  have "(ucast v :: u8) = 0 \<longleftrightarrow> unat v mod 256 = 0"
    by (simp add: unat_eq_0 [symmetric] unsigned_ucast_eq take_bit_eq_mod)
  moreover have "v > 512 \<longleftrightarrow> unat v > 512" by (simp add: word_less_nat_alt)
  moreover have "v \<in> {0, 256, 512} \<longleftrightarrow> unat v \<in> {0, 256, 512}" by (auto simp: word_unat_eq_iff)
  ultimately have c: "((ucast v :: u8) \<noteq> 0 \<or> v > 512) \<longleftrightarrow> v \<notin> {0, 256, 512}" by auto
  have v: "unat v mod 2 ^ 10 = unat v" if "v \<in> {0, 256, 512}" using that by auto
  show ?thesis using f c v by (auto simp: cmd_chg_def p n Let_def)
qed

lemma chg_accepts_three_witness:
  "\<exists>m m'. cmd_chg idle_env [0, 0x48000000, 0, 0, 0, 0] [0, 0, 256, 0, 0, 0] (prefix_targs [0, 0, 256, 0, 0, 0])
       (stack_init [0, 0, 0] 3, m) = Some (COMM_OK, stack_init [0, 0, 0] 3, m')
     \<and> f_auth (FMv3_mem (fm_of m') 1) = 256"
proof -
  obtain m where m: "cur m = Some 1" "length (control (cproc m 1)) = 3" "lowest_free (cproc m 1) = 1"
    "fm_find (k_fm (m_k m)) (cstr_at (k_mem (m_k m)) 0x48000000) = Some (Some 1)"
    by (rule machine_with_file)
  then have f: "fm_find (fm_of m) (name_at m ([0, 0x48000000, 0, 0, 0, 0] ! 1)) = Some (Some 1)" using m(4) by (simp add: name_at_def)
  from chg_accepts_three [OF f, of "[0, 0, 256, 0, 0, 0]" 0 0 256 idle_env "stack_init [0, 0, 0] 3"] show ?thesis
    by (intro exI) (auto simp: set_fm_def on_k_def set_file_def)
qed


end
