(* ===== verification/Boot.thy ===== *)
theory Boot
  imports Irq Sect Shell
begin

text \<open>
  The start of the kernel: \<^verbatim>\<open>master\<close> and \<^verbatim>\<open>kernel_main\<close> of \<^verbatim>\<open>src/main.c\<close> with \<^verbatim>\<open>B_MASTER_FLAG\<close> 1 and
  every start that \<^verbatim>\<open>B_MAIN_FLAG\<close> can select. \<^verbatim>\<open>uart_init\<close> does nothing. The globals
  a driver keeps of the device tree are set when the tree has been read.
\<close>

text \<open>What the linker and the compiler place: the vector table, the shell, the tasks linked in, the local
  variable of \<^verbatim>\<open>proc_turn\<close>, the memory of the input devices and the addresses of the process blocks.\<close>

record boot =
  b_vector :: u64
  b_kshell :: u64
  b_task_inf_A :: u64
  b_task_inf_B :: u64
  b_images :: task_images
  b_stack :: nat
  b_storage :: "nat \<Rightarrow> nat \<Rightarrow> u64"
  b_pcb :: "nat \<Rightarrow> u64"

definition on_drv :: "(drv \<Rightarrow> drv) \<Rightarrow> machine \<Rightarrow> machine" where
  "on_drv f m = put_drv (f (drv_of m)) m"

definition boot_devices :: "env \<Rightarrow> boot \<Rightarrow> machine \<Rightarrow> machine option" where
  "boot_devices e b m = do {
     let m1 = on_drv (irq_init (e_dev e) (b_vector b)) (disable_irq m);
     (h, s) \<leftarrow> vhid_init (e_dev e) (b_storage b) (m_dtb m1) (m_hid m1) (drv_of m1);
     Some (put_drv s (m1\<lparr>m_hid := h\<rparr>)) }"

definition boot_managers :: "env \<Rightarrow> machine \<Rightarrow> machine option" where
  "boot_managers e m = do {
     let k = set_heap (heap_init (k_heap (m_k m))) (m_k m);
     let k1 = k\<lparr>k_mm := mm_init (k_mm k) USER_PROC_START\<rparr>;
     fm \<leftarrow> fm_init (k_fm k1) (unat USER_FILE_START);
     let k2 = k1\<lparr>k_fm := fm, k_pm := pm_init (k_pm k1)\<rparr>;
     let m1 = m\<lparr>m_k := k2\<rparr>;
     let (n, s) = nm_init (e_dev e) (m_net m1) (drv_of m1);
     Some (put_drv s (m1\<lparr>m_net := n\<rparr>)) }"

definition boot_display :: "env \<Rightarrow> machine \<Rightarrow> machine" where
  "boot_display e m = (let (g, s) = gpu_init (e_dev e) (m_gpu m) (drv_of m) in put_drv s (m\<lparr>m_gpu := g\<rparr>))"

text \<open>Making a process of a program, printing its block, putting it into the low queue, and entering it.\<close>

definition turn :: "boot \<Rightarrow> string \<Rightarrow> u64 \<Rightarrow> u8 \<Rightarrow> machine \<Rightarrow> (nat \<times> machine) option" where
  "turn b name ent md m = do {
     (r, k) \<leftarrow> proc_turn (b_images b) (b_stack b) (m_k m) (Some (lit name)) ent md;
     i \<leftarrow> r;
     Some (i, m\<lparr>m_k := k\<rparr>) }"

definition dump_pcb :: "boot \<Rightarrow> string \<Rightarrow> nat \<Rightarrow> machine \<Rightarrow> machine" where
  "dump_pcb b name i m = out (proc_dump name (b_pcb b i) (proc (m_k m) i)) m"

definition awake_low :: "nat \<Rightarrow> machine \<Rightarrow> machine" where
  "awake_low i = on_k (\<lambda>k. k\<lparr>k_pm := pm_awake (k_pm k) 0 i\<rparr>)"

definition enter_proc :: "nat \<Rightarrow> machine \<Rightarrow> irq_end" where
  "enter_proc i m = Resume i (on_k (\<lambda>k. k\<lparr>k_cur := Some i\<rparr>) m)"

definition start_two :: "boot \<Rightarrow> machine \<Rightarrow> irq_end option" where
  "start_two b m = do {
     (i, m1) \<leftarrow> turn b ''INFA.BIN'' (b_task_inf_A b) 0 m;
     (j, m2) \<leftarrow> turn b ''INFB.BIN'' (b_task_inf_B b) 0 m1;
     Some (enter_proc i (dump_pcb b ''proc2'' j (dump_pcb b ''proc1'' i (awake_low j m2)))) }"

text \<open>One of the images linked in, as the first process.\<close>

definition start_image :: "boot \<Rightarrow> string \<Rightarrow> string \<Rightarrow> u64 \<Rightarrow> machine \<Rightarrow> irq_end option" where
  "start_image b file name start m = do {
     (i, m1) \<leftarrow> turn b file start 1 m;
     Some (enter_proc i (dump_pcb b name i (awake_low i m1))) }"

definition start_ipc :: "boot \<Rightarrow> machine \<Rightarrow> irq_end option" where
  "start_ipc b m = do {
     (i, m1) \<leftarrow> turn b ''shel.bin'' (shell_start (b_images b)) 1 m;
     (j, m2) \<leftarrow> turn b ''bridge.bin'' (bridge_start (b_images b)) 1 (awake_low i m1);
     Some (enter_proc j (dump_pcb b ''bridge proc'' j (dump_pcb b ''shell_proc'' i m2))) }"

definition start_shell :: "boot \<Rightarrow> machine \<Rightarrow> irq_end option" where
  "start_shell b m = do {
     (i, m1) \<leftarrow> turn b ''INFA.BIN'' (b_kshell b) 0 m;
     Some (enter_proc i (dump_pcb b ''proc1'' i m1)) }"

text \<open>The start that \<^verbatim>\<open>B_MAIN_FLAG\<close> selects. With no such start the kernel returns to the boot code, which loops.\<close>

definition B_MAIN_FLAG :: nat where "B_MAIN_FLAG = 6"

definition start_first :: "nat \<Rightarrow> boot \<Rightarrow> machine \<Rightarrow> irq_end option" where
  "start_first flag b m =
     (let t = b_images b in
      if flag = 1 then start_two b m
      else if flag = 2 then start_image b ''shel.bin'' ''shell proc'' (shell_start t) m
      else if flag = 3 then start_image b ''brdge.bin'' ''brdge proc'' (bridge_start t) m
      else if flag = 4 then start_image b ''compil.bin'' ''compil proc'' (compiler_start t) m
      else if flag = 5 then start_ipc b m
      else if flag = 6 then start_shell b m
      else Some (Stopped (out (text_of ''[Debug] '' @ line_of ''B_MAIN_FLAG is not defined'' @ [10]) m)))"

definition kernel_main :: "env \<Rightarrow> boot \<Rightarrow> machine \<Rightarrow> irq_end option" where
  "kernel_main e b m = do {
     m1 \<leftarrow> boot_devices e b m;
     m2 \<leftarrow> boot_managers e m1;
     start_first B_MAIN_FLAG b (out (line_of ''Booting AxKernel!'') (boot_display e m2)) }"

text \<open>The drivers' copies of the bases found in the device tree are the same globals.\<close>

definition found_devices :: "dtb_t \<Rightarrow> machine \<Rightarrow> machine" where
  "found_devices g m = m\<lparr>m_dtb := g, m_net := (m_net m)\<lparr>net_base := g_virtio_net_base g\<rparr>,
     m_gpu := (m_gpu m)\<lparr>gpu_base := g_virtio_gpu_base g\<rparr>, m_blk := (m_blk m)\<lparr>blk_base := g_virtio_blk_base g\<rparr>\<rparr>"

definition master :: "env \<Rightarrow> boot \<Rightarrow> u64 \<Rightarrow> machine \<Rightarrow> irq_end option" where
  "master e b dtb_addr m = do {
     (g, s) \<leftarrow> parse_dtb (e_dev e) dtb_addr (m_dtb m) (drv_of m);
     kernel_main e b (found_devices g (put_drv s m)) }"

definition devo_main :: "machine \<Rightarrow> machine" where
  "devo_main m = out (line_of ''devo main'') m"

section \<open>The disk at work\<close>

text \<open>Sleeping until an interrupt has taken the request out of its pending state.\<close>

partial_function (option) blk_wait :: "env \<Rightarrow> machine \<Rightarrow> machine option" where
  "blk_wait e m = (if blk_req_state (m_blk m) = BLK_REQ_PENDING then blk_wait e (e_intr e m) else Some m)"

definition blk_init :: "env \<Rightarrow> machine \<Rightarrow> machine option" where
  "blk_init e m =
     (let (r, s) = blk_start (e_dev e) (m_blk m) (drv_of m) in
      case r of
        None \<Rightarrow> Some (put_drv s m)
      | Some b \<Rightarrow> do {
          m1 \<leftarrow> blk_wait e (put_drv s (m\<lparr>m_blk := b\<rparr>));
          let (b2, s2) = blk_read (m_blk m1) (drv_of m1);
          m2 \<leftarrow> blk_wait e (put_drv s2 (m1\<lparr>m_blk := b2\<rparr>));
          s3 \<leftarrow> blk_report (e_dev e) (m_blk m2) (drv_of m2);
          Some (put_drv s3 m2) })"

section \<open>What booting leaves\<close>

lemma on_drv_frame [simp]:
  "m_hid (on_drv f m) = m_hid m" "m_dtb (on_drv f m) = m_dtb m" "m_net (on_drv f m) = m_net m"
  "k_pm (m_k (on_drv f m)) = k_pm (m_k m)" "k_fm (m_k (on_drv f m)) = k_fm (m_k m)"
  by (simp_all add: on_drv_def)

lemma irq_onoff_frame [simp]:
  "k_pm (m_k (disable_irq m)) = k_pm (m_k m)" "m_dtb (disable_irq m) = m_dtb m" "m_hid (disable_irq m) = m_hid m"
  by (simp_all add: disable_irq_def)

lemma boot_devices_ok:
  "g_virtio_input_count (m_dtb m) = 0 \<Longrightarrow> \<exists>m1. boot_devices e b m = Some m1 \<and> k_pm (m_k m1) = k_pm (m_k m)"
  by (simp add: boot_devices_def vhid_init_def Let_def)

text \<open>The kernel with its managers started: the file table of a fresh kernel and no process.\<close>

definition managed :: "machine \<Rightarrow> bool" where
  "managed m \<longleftrightarrow> (\<exists>N mm0. procs_ok (m_k m) \<and> used_slots (m_k m) = {} \<and> k_mm (m_k m) = mm_init mm0 USER_PROC_START
     \<and> fm_rep (k_fm (m_k m)) Map.empty N \<and> all_file_num (k_fm (m_k m)) = 1 \<and> fm_root (k_fm (m_k m)) = Some 24
     \<and> d_dir_num (FMv3_dir_mem (k_fm (m_k m)) 1) = 0
     \<and> bp_nd (fm_bpt (k_fm (m_k m))) 24 = Some (zero_node\<lparr>bn_leaf := True\<rparr>)
     \<and> heap_rep (k_heap (m_k m)) [(136, True), (136, True), (HEAP_SIZE - 272, False)]
     \<and> fm_base (k_fm (m_k m)) = unat USER_FILE_START
     \<and> queue_empty (lowqueue (k_pm (m_k m))) \<and> queue_empty (highqueue (k_pm (m_k m))))"

lemma managed_cong:
  assumes "k_mm (m_k m') = k_mm (m_k m)" "k_fm (m_k m') = k_fm (m_k m)" "k_pm (m_k m') = k_pm (m_k m)"
  shows "managed m' \<longleftrightarrow> managed m"
  using assms by (simp add: managed_def procs_ok_def used_slots_def proc_def k_heap_def)

lemma boot_managers_ok:
  assumes pm: "is_alloc (k_pm (m_k m)) = replicate 256 False" "\<And>i. length (control (PMv1_mem (k_pm (m_k m)) i)) = 3"
  shows "\<exists>m1. boot_managers e m = Some m1 \<and> managed m1"
proof -
  let ?k = "set_heap (heap_init (k_heap (m_k m))) (m_k m)"
  let ?k1 = "?k\<lparr>k_mm := mm_init (k_mm ?k) USER_PROC_START\<rparr>"
  have "bp_heap (fm_bpt (k_fm ?k1)) = heap_init (k_heap (m_k m))" by (simp add: set_heap_def)
  from fm_init_ok [OF this, of "unat USER_FILE_START"] obtain s N where s: "fm_init (k_fm ?k1) (unat USER_FILE_START) = Some s"
    "fm_rep s Map.empty N" "fm_base s = unat USER_FILE_START" "all_file_num s = 1" "d_dir_num (FMv3_dir_mem s 1) = 0"
    "bp_nd (fm_bpt s) 24 = Some (zero_node\<lparr>bn_leaf := True\<rparr>)" "fm_root s = Some 24"
    "heap_rep (bp_heap (fm_bpt s)) [(136, True), (136, True), (HEAP_SIZE - 272, False)]"
    by blast
  let ?m1 = "m\<lparr>m_k := ?k1\<lparr>k_fm := s, k_pm := pm_init (k_pm ?k1)\<rparr>\<rparr>"
  obtain n s1 where n: "nm_init (e_dev e) (m_net ?m1) (drv_of ?m1) = (n, s1)" by fastforce
  let ?m2 = "put_drv s1 (?m1\<lparr>m_net := n\<rparr>)"
  have "boot_managers e m = Some ?m2" using s(1) n by (simp add: boot_managers_def Let_def)
  moreover have "managed ?m1"
  proof -
    have u: "used_slots (m_k ?m1) = {}" using pm(1) by (auto simp: used_slots_def pm_init_def)
    obtain r T where "bpt_rep (fm_bpt s) r T Map.empty" using s(2) by (rule fm_repE)
    then have "heap_inv (bp_heap (fm_bpt s))" by (simp add: bpt_rep_def)
    then have "procs_ok (m_k ?m1)" using u pm by (simp add: procs_ok_def k_heap_def proc_def pm_init_def)
    then show ?thesis unfolding managed_def using u s
      by (intro exI [of _ N] exI [of _ "k_mm ?k"]) (simp add: k_heap_def queue_empty_def pm_init_def queue_init_def)
  qed
  ultimately show ?thesis using managed_cong [of ?m2 ?m1] by auto
qed

lemma infa_key: "\<exists>f d. name_key (lit ''INFA.BIN'') = Some (f, d)"
  by (rule name_key_terminated [of _ 8]) (simp add: lit_def terminated_cstr_of)

lemma start_shell_ok:
  assumes m: "managed m" and stk: "b_stack b + 32 \<le> unat USER_FILE_START + MAX_FILE_SIZE"
  shows "\<exists>m'. start_shell b m = Some (Resume 1 m') \<and> k_cur (m_k m') = Some 1 \<and> procs_ok (m_k m') \<and> used_slots (m_k m') = {0}
    \<and> elr_el1 (regs (proc (m_k m') 1)) = b_kshell b \<and> r_sp (regs (proc (m_k m') 1)) = USER_PROC_START + 0x100000
    \<and> queue_empty (lowqueue (k_pm (m_k m'))) \<and> queue_empty (highqueue (k_pm (m_k m')))"
proof -
  let ?k = "m_k m"
  obtain N mm0 where k: "procs_ok ?k" "used_slots ?k = {}" "k_mm ?k = mm_init mm0 USER_PROC_START"
    "fm_rep (k_fm ?k) Map.empty N" "all_file_num (k_fm ?k) = 1" "fm_root (k_fm ?k) = Some 24"
    "d_dir_num (FMv3_dir_mem (k_fm ?k) 1) = 0" "bp_nd (fm_bpt (k_fm ?k)) 24 = Some (zero_node\<lparr>bn_leaf := True\<rparr>)"
    "heap_rep (k_heap ?k) [(136, True), (136, True), (HEAP_SIZE - 272, False)]"
    "fm_base (k_fm ?k) = unat USER_FILE_START" "queue_empty (lowqueue (k_pm ?k))" "queue_empty (highqueue (k_pm ?k))"
    using m unfolding managed_def by blast
  obtain f d where key: "name_key (lit ''INFA.BIN'') = Some (f, d)" using infa_key by blast
  have st: "b_stack b + 32 \<le> fm_base (k_fm ?k) + MAX_FILE_SIZE" using stk k(10) by simp
  obtain k' k1 where r: "proc_turn (b_images b) (b_stack b) ?k (Some (lit ''INFA.BIN'')) (b_kshell b) 0 = Some (Some 1, k')"
    "procs_ok k'" "created k1 k' 1 (b_kshell b) 0" "same_rest k1 k'" "k_pm k1 = k_pm ?k" "next_base k1 = USER_PROC_START"
    using proc_turn_first [OF k(1-9) key st] by blast
  let ?k2 = "(emit (proc_dump ''proc1'' (b_pcb b 1) (proc k' 1)) k')\<lparr>k_cur := Some 1\<rparr>"
  have "start_shell b m = Some (Resume 1 (m\<lparr>m_k := ?k2\<rparr>))" using r(1) by (simp add: start_shell_def turn_def dump_pcb_def enter_proc_def out_def on_k_def)
  moreover have u: "used_slots ?k2 = used_slots k'" by (simp add: used_slots_def)
  moreover have "procs_ok ?k2" using r(2) unfolding procs_ok_def u by (simp add: proc_def k_heap_def)
  moreover have "used_slots k1 = {}" using r(5) k(2) by (simp add: used_slots_def)
  then have "used_slots k' = {0}" using r(3) by (simp add: created_def)
  moreover have "lowqueue (k_pm k') = lowqueue (k_pm ?k)" "highqueue (k_pm k') = highqueue (k_pm ?k)"
    using r(4,5) by (simp_all add: same_rest_def)
  ultimately show ?thesis using r(3,6) k(11,12)
    by (intro exI [of _ "m\<lparr>m_k := ?k2\<rparr>"]) (simp add: created_def)
qed

text \<open>C36: The kernel boots into its shell. On a board without keyboards, with an empty process table, whatever the
  other devices answer - a network card or a display may be missing or broken - \<open>kernel_main\<close> ends by
  starting process 1 at the shell's entry point with its stack at the end of its own megabyte at the start
  of the process area; it is the current process, the only one, both queues are empty and the tables are
  intact.\<close>

theorem kernel_boots:
  assumes dtb: "g_virtio_input_count (m_dtb m) = 0"
    and pm: "is_alloc (k_pm (m_k m)) = replicate 256 False" "\<And>i. length (control (PMv1_mem (k_pm (m_k m)) i)) = 3"
    and stk: "b_stack b + 32 \<le> unat USER_FILE_START + MAX_FILE_SIZE"
  shows "\<exists>m'. kernel_main e b m = Some (Resume 1 m') \<and> k_cur (m_k m') = Some 1 \<and> procs_ok (m_k m') \<and> used_slots (m_k m') = {0}
    \<and> elr_el1 (regs (proc (m_k m') 1)) = b_kshell b \<and> r_sp (regs (proc (m_k m') 1)) = USER_PROC_START + 0x100000
    \<and> queue_empty (lowqueue (k_pm (m_k m'))) \<and> queue_empty (highqueue (k_pm (m_k m')))"
proof -
  obtain m1 where m1: "boot_devices e b m = Some m1" "k_pm (m_k m1) = k_pm (m_k m)"
    using boot_devices_ok [OF dtb] by blast
  obtain m2 where m2: "boot_managers e m1 = Some m2" "managed m2"
    using boot_managers_ok [of m1 e] m1(2) pm by auto
  let ?m3 = "out (line_of ''Booting AxKernel!'') (boot_display e m2)"
  have d: "k_mm (m_k ?m3) = k_mm (m_k m2)" "k_fm (m_k ?m3) = k_fm (m_k m2)" "k_pm (m_k ?m3) = k_pm (m_k m2)"
    by (simp_all add: boot_display_def split: prod.splits)
  have m3: "managed ?m3" using m2(2) managed_cong [OF d] by simp
  have "kernel_main e b m = start_shell b ?m3" using m1 m2 by (simp add: kernel_main_def B_MAIN_FLAG_def start_first_def)
  then show ?thesis using start_shell_ok [OF m3 stk] by simp
qed

definition small_boot :: boot where
  "small_boot = \<lparr>b_vector = 0x40000800, b_kshell = 0x40010000, b_task_inf_A = 0x40020000, b_task_inf_B = 0x40020100,
     b_images = \<lparr>shell_start = 1, shell_size = 0, bridge_start = 2, bridge_size = 0, compiler_start = 3, compiler_size = 0\<rparr>,
     b_stack = 0x40100000, b_storage = (\<lambda>_ _. 0), b_pcb = (\<lambda>_. 0)\<rparr>"

lemma kernel_boots_witness:
  "\<exists>m'. kernel_main idle_env small_boot boot_machine = Some (Resume 1 m') \<and> elr_el1 (regs (proc (m_k m') 1)) = 0x40010000"
proof -
  have "is_alloc (k_pm (m_k boot_machine)) = replicate 256 False" "g_virtio_input_count (m_dtb boot_machine) = 0"
    "length (control (PMv1_mem (k_pm (m_k boot_machine)) i)) = 3"
    "b_stack small_boot + 32 \<le> unat USER_FILE_START + MAX_FILE_SIZE" for i
    by (simp_all add: boot_machine_def boot_kernel_def pm_init_def dtb_init_def small_boot_def sect_values)
  then show ?thesis using kernel_boots [of boot_machine small_boot idle_env] by (auto simp: small_boot_def)
qed

end
