(* ===== verification/In_Proc.thy ===== *)
theory In_Proc
  imports Sync
begin

text \<open>
  The built-in processes of \<^verbatim>\<open>src/global/in_proc.c\<close>. One that loops for ever is given by what it has done after
  \<open>n\<close> turns of its loop; the delay loops have no effect. One that ends asks for it with the system call
  instruction of \<^verbatim>\<open>proc_exit\<close>, which enters the kernel through the exception dispatcher; \<open>x\<close> holds the
  registers at that point. The loops behind \<^verbatim>\<open>proc_exit\<close>, for the case that it returns, never end.
\<close>

definition proc_exit :: "env \<Rightarrow> (nat \<Rightarrow> u64) \<Rightarrow> machine \<Rightarrow> outcome option" where
  "proc_exit e x m = sync_handler_main e m 1 (x 0) (x 1) (x 2) (x 3) (x 4) 0x15"

definition exit_or_loop :: "env \<Rightarrow> (nat \<Rightarrow> u64) \<Rightarrow> machine \<Rightarrow> outcome option" where
  "exit_or_loop e x m = do {
     r \<leftarrow> proc_exit e x m;
     (case r of Halt m' \<Rightarrow> Some (Halt m') | Ret v m' \<Rightarrow> None) }"

definition INIT :: "machine \<Rightarrow> machine" where
  "INIT m = enable_irq m"

section \<open>Processes that only hold a place\<close>

definition temp_posi0 :: "env \<Rightarrow> (nat \<Rightarrow> u64) \<Rightarrow> machine \<Rightarrow> outcome option" where
  "temp_posi0 e x m = exit_or_loop e x (out ([10] @ line_of ''temp position 0'') m)"

definition temp_posi1 :: "machine \<Rightarrow> machine" where
  "temp_posi1 m = out ([10] @ line_of ''temp position 1'') (enable_irq m)"

definition set_msgbox :: "nat \<Rightarrow> bool \<Rightarrow> machine \<Rightarrow> machine" where
  "set_msgbox i b = on_k (\<lambda>k. set_proc i ((proc k i)\<lparr>msgs := (msgs (proc k i))\<lparr>is_msgbox := b\<rparr>\<rparr>) k)"

text \<open>Sleeping until an interrupt has put a message into the mailbox of process 2.\<close>

partial_function (option) wait_msg :: "env \<Rightarrow> machine \<Rightarrow> machine option" where
  "wait_msg e m = (if is_msgbox (msgs (proc (m_k m) 2)) then Some m else wait_msg e (e_intr e m))"

text \<open>The message printed is a local array of zeros, which nothing fills.\<close>

definition temp_posi2 :: "env \<Rightarrow> (nat \<Rightarrow> u64) \<Rightarrow> machine \<Rightarrow> outcome option" where
  "temp_posi2 e x m = do {
     m1 \<leftarrow> wait_msg e (set_msgbox 2 False (out ([10] @ line_of ''temp position 2'') (enable_irq m)));
     let m2 = out (puts_bytes (replicate 64 0)) (out (text_of ''Message arrived: '') m1);
     exit_or_loop e x (set_msgbox 2 False m2) }"

section \<open>Test tasks\<close>

fun task_turns :: "u8 list \<Rightarrow> nat \<Rightarrow> machine \<Rightarrow> machine" where
  "task_turns bs 0 m = m"
| "task_turns bs (Suc n) m = task_turns bs n (out bs m)"

definition task_void :: "nat \<Rightarrow> machine \<Rightarrow> machine" where
  "task_void n m = task_turns (text_of ''B'') n (enable_irq m)"

definition task_inf_A :: "nat \<Rightarrow> machine \<Rightarrow> machine" where
  "task_inf_A n m = task_turns (text_of ''A'') n (enable_irq m)"

definition task_inf_B :: "nat \<Rightarrow> machine \<Rightarrow> machine" where
  "task_inf_B n m = task_turns (text_of ''B'') n (enable_irq m)"

definition task_wfi :: "machine \<Rightarrow> machine" where
  "task_wfi m = enable_irq m"

definition task_hang :: "machine \<Rightarrow> machine" where
  "task_hang m = enable_irq m"

definition task_stop_B :: "env \<Rightarrow> (nat \<Rightarrow> u64) \<Rightarrow> machine \<Rightarrow> outcome option" where
  "task_stop_B e x m = exit_or_loop e x (task_turns (text_of ''B'') 10 (enable_irq m))"

section \<open>Ending a process\<close>

lemma proc_exit_halts:
  "exit_or_loop e x m = Some (Halt (out (enter ''sys_exit'' @ full_stop_text) m))"
  by (simp add: exit_or_loop_def proc_exit_def sync_handler_main_def ec_table_svc svc_a64_handle_def call_table_def exit_call_def)

lemma task_turns_out: "k_out (m_k (task_turns bs n m)) = k_out (m_k m) @ concat (replicate n bs)"
  by (induction n arbitrary: m) simp_all

text \<open>A task that ends takes the machine with it: after its output the kernel prints that it loops and stops.\<close>

lemma task_stop_B_halts:
  "\<exists>m'. task_stop_B e x m = Some (Halt m')
     \<and> k_out (m_k m') = k_out (m_k m) @ concat (replicate 10 (text_of ''B'')) @ enter ''sys_exit'' @ full_stop_text"
  by (simp add: task_stop_B_def proc_exit_halts task_turns_out enable_irq_def msr_def drv_of_def)

end
