(* ===== verification/Snd.thy ===== *)
theory Snd
  imports Virtio
begin

text \<open>
  The sound driver of \<^verbatim>\<open>src/tools/vsnd.c\<close>: setting four queues up and asking the device for its streams.
  The request and the answer of \<^verbatim>\<open>snd_query_pcm_info\<close> are on the stack; here they are addresses of the
  state.
\<close>

definition VIRTIO_SND_QUEUE_COUNT :: nat where "VIRTIO_SND_QUEUE_COUNT = 4"
definition VIRTIO_SND_VQ_CONTROL :: u16 where "VIRTIO_SND_VQ_CONTROL = 0"
definition VIRTIO_SND_R_PCM_INFO :: u32 where "VIRTIO_SND_R_PCM_INFO = 0x0100"
definition VIRTIO_SND_MAX_STREAMS :: u32 where "VIRTIO_SND_MAX_STREAMS = 8"
definition SND_DESC_F_NEXT :: u16 where "SND_DESC_F_NEXT = 1"
definition SND_DESC_F_WRITE :: u16 where "SND_DESC_F_WRITE = 2"
definition sizeof_pcm_info :: nat where "sizeof_pcm_info = 32"

record snd =
  snd_base :: u64
  snd_queues :: "virtio_queue_state list"
  snd_control_used_idx :: u16
  snd_queue_storage :: "nat \<Rightarrow> u64"
  snd_request :: u64
  snd_info :: u64

text \<open>A 64-bit field of an answer is read in two halves.\<close>

definition rd64 :: "device \<Rightarrow> u64 \<Rightarrow> drv \<Rightarrow> u64 \<times> drv" where
  "rd64 dev a s = (let (lo, s1) = rd32 dev a s; (hi, s2) = rd32 dev (a + 4) s1 in (push_bit 32 (ucast hi) OR ucast lo, s2))"

text \<open>The length of the answer, or nothing.\<close>

definition snd_control_submit ::
  "device \<Rightarrow> u64 \<Rightarrow> u32 \<Rightarrow> u64 \<Rightarrow> u32 \<Rightarrow> snd \<Rightarrow> drv \<Rightarrow> (u32 option \<times> snd \<times> drv) option" where
  "snd_control_submit dev request request_size response response_size n s = do {
     q \<leftarrow> aget (snd_queues n) (unat VIRTIO_SND_VQ_CONTROL);
     if vq_size q < 2 then Some (None, n, say (line_of ''SND control queue too small'') s)
     else do {
       let sz = unat (vq_size q);
       let i = avail_idx q s;
       let hd = (unat i * 2) mod sz;
       let resp_desc = (hd + 1) mod sz;
       let s1 = set_desc q hd request request_size SND_DESC_F_NEXT (of_nat resp_desc) s;
       let s2 = set_desc q resp_desc response response_size SND_DESC_F_WRITE 0 s1;
       let s3 = set_avail_idx q (i + 1) (set_avail_ring q (unat i mod sz) (of_nat hd) s2);
       let s4 = virtio_mmio_notify_queue (snd_base n) VIRTIO_SND_VQ_CONTROL s3;
       let (ok, s5) = poll_used dev q (snd_control_used_idx n) 10000001 s4;
       let (u, s6) = used_idx dev q s5;
       if u = snd_control_used_idx n then Some (None, n, say (line_of ''SND control request timed out'') s6)
       else do {
         let slot = unat (snd_control_used_idx n) mod sz;
         let (id, s7) = used_id dev q slot s6;
         if id \<noteq> of_nat hd
         then let (id2, s8) = used_id dev q slot s7
              in Some (None, n, say (dump ''SND unexpected control descriptor'' (ucast id2)) s8)
         else let (len, s8) = used_len dev q slot s7
              in Some (Some len, n\<lparr>snd_control_used_idx := snd_control_used_idx n + 1\<rparr>, s8) } } }"

text \<open>Printing the answers, 32 bytes each.\<close>

fun pcm_streams :: "device \<Rightarrow> u64 \<Rightarrow> nat \<Rightarrow> nat \<Rightarrow> drv \<Rightarrow> drv" where
  "pcm_streams dev a i 0 s = s"
| "pcm_streams dev a i (Suc k) s =
     (let p = a + of_nat (sizeof_pcm_info * i);
          s1 = say (dump ''SND PCM stream'' (of_nat i)) s;
          (direction, s2) = rd8 dev (p + 24) s1;
          (cmin, s3) = rd8 dev (p + 25) (say (dump ''SND PCM direction'' (ucast direction)) s2);
          (cmax, s4) = rd8 dev (p + 26) (say (dump ''SND PCM channels min'' (ucast cmin)) s3);
          (formats, s5) = rd64 dev (p + 8) (say (dump ''SND PCM channels max'' (ucast cmax)) s4);
          (rates, s6) = rd64 dev (p + 16) (say (dump ''SND PCM formats'' formats) s5)
      in pcm_streams dev a (i + 1) k (say (dump ''SND PCM rates'' rates) s6))"

definition snd_query_pcm_info :: "device \<Rightarrow> u32 \<Rightarrow> snd \<Rightarrow> drv \<Rightarrow> (bool \<times> snd \<times> drv) option" where
  "snd_query_pcm_info dev stream_count n s =
     (if stream_count = 0 \<or> stream_count > VIRTIO_SND_MAX_STREAMS
      then Some (False, n, say (dump ''SND unsupported stream count'' (ucast stream_count)) s)
      else do {
        let r = snd_request n;
        let s1 = put32 (r + 12) (of_nat sizeof_pcm_info) (put32 (r + 8) stream_count
                   (put32 (r + 4) 0 (put32 r VIRTIO_SND_R_PCM_INFO s)));
        let s2 = s1\<lparr>d_mem := memset (d_mem s1) (unat (snd_info n)) 0 (8 * sizeof_pcm_info)\<rparr>;
        let expected_len = stream_count * of_nat sizeof_pcm_info;
        (resp, n1, s3) \<leftarrow> snd_control_submit dev r 16 (snd_info n) expected_len n s2;
        (case resp of
           None \<Rightarrow> Some (False, n1, s3)
         | Some len \<Rightarrow>
             let s4 = say (dump ''SND PCM info response bytes'' (ucast len)) s3 in
             if len < expected_len then Some (False, n1, say (line_of ''SND PCM info response too short'') s4)
             else Some (True, n1, pcm_streams dev (snd_info n) 0 (unat stream_count) s4)) })"

text \<open>Setting the queues from \<open>i\<close> on up; \<open>False\<close> when one cannot be.\<close>

fun snd_setup_queues :: "device \<Rightarrow> u32 \<Rightarrow> nat \<Rightarrow> nat \<Rightarrow> snd \<Rightarrow> drv \<Rightarrow> (bool \<times> snd \<times> drv) option" where
  "snd_setup_queues dev version i 0 n s = Some (True, n, s)"
| "snd_setup_queues dev version i (Suc k) n s = do {
     q \<leftarrow> aget (snd_queues n) i;
     let (ok, q1, s1) = (if version = 1 then vq_setup_v1 dev (snd_base n) (of_nat i) (snd_queue_storage n i) q s
                         else vq_setup_v2 dev (snd_base n) (of_nat i) (snd_queue_storage n i) q s);
     let n1 = n\<lparr>snd_queues := (snd_queues n)[i := q1]\<rparr>;
     if \<not> ok then Some (False, n1, s1)
     else snd_setup_queues dev version (i + 1) k n1 (say (dump ''SND queue ready'' (of_nat i)) s1) }"

definition vsnd_init :: "device \<Rightarrow> snd \<Rightarrow> drv \<Rightarrow> (snd \<times> drv) option" where
  "vsnd_init dev n s =
     (if snd_base n = 0 then Some (n, say (line_of ''SND MMIO base not found'') s)
      else let (version, s1) = virtio_mmio_version dev (snd_base n) s;
               s2 = say (dump ''SND MMIO version'' (ucast version)) s1;
               (go, s3) = (if version = 1 then (True, vq_init dev (snd_base n) s2)
                           else if version = 2 then vq_init_v2 dev (snd_base n) s2
                           else (False, say (line_of ''Unsupported VirtIO MMIO version'') s2))
           in if \<not> go then Some (n, s3)
              else do {
                (ok, n1, s4) \<leftarrow> snd_setup_queues dev version 0 VIRTIO_SND_QUEUE_COUNT n s3;
                if \<not> ok then Some (n1, s4)
                else do {
                  let s5 = (if version = 1 then vq_start_v1 dev (snd_base n1) s4 else vq_start_v2 dev (snd_base n1) s4);
                  let (stream_count, s6) = virtio_mmio_read_config32 dev (snd_base n1) 4 (say (dump ''SND MMIO base'' (snd_base n1)) s5);
                  (r, n2, s7) \<leftarrow> snd_query_pcm_info dev stream_count n1 (say (dump ''SND streams'' (ucast stream_count)) s6);
                  Some (n2, s7) } })"

end
