(* ===== verification/Device.thy ===== *)
theory Device
  imports DM Net
begin

text \<open>
  The rest of \<^verbatim>\<open>src/tools/device.c\<close>: reading the serial port, setting it up, and the first steps with the
  network card, which register no queue.
\<close>

definition UART0_BASE :: u64 where "UART0_BASE = 0x09000000"
definition UART0_CR :: u64 where "UART0_CR = UART0_BASE + 0x30"

text \<open>Reading one byte to \<open>buf\<close>, once the serial port has one.\<close>

partial_function (option) uart_dev_read :: "device \<Rightarrow> u64 \<Rightarrow> drv \<Rightarrow> (int \<times> drv) option" where
  "uart_dev_read dev buf s =
     (let r = rd32 dev (UART0_BASE + 0x18) s in
      if fst r AND 16 \<noteq> 0 then uart_dev_read dev buf (snd r)
      else let (v, s2) = rd32 dev UART0_BASE (snd r) in Some (1, s2\<lparr>d_mem := (d_mem s2)(unat buf := ucast v)\<rparr>))"

definition uart_dev_init :: "device \<Rightarrow> drv \<Rightarrow> drv" where
  "uart_dev_init dev s =
     (let (cr, s1) = rd32 dev UART0_CR s; s2 = wr32 UART0_CR (cr AND NOT 1) s1
      in or32 dev UART0_CR (1 OR push_bit 8 1 OR push_bit 9 1) s2)"

text \<open>The network device's entry with its base set, and the accesses.\<close>

definition nic_dev_init :: "device \<Rightarrow> u64 \<Rightarrow> dcb_t \<Rightarrow> drv \<Rightarrow> dcb_t \<times> drv" where
  "nic_dev_init dev base nic s =
     (let s1 = wr32 (base + 0x070) 0 s;
          s2 = wr32 (base + 0x070) VIRTIO_STATUS_ACKNOWLEDGE s1;
          s3 = or32 dev (base + 0x070) VIRTIO_STATUS_DRIVER s2;
          (host_features, s4) = rd32 dev (base + 0x010) s3;
          s5 = wr32 (base + 0x020) 0 s4
      in (nic\<lparr>dev_base := base\<rparr>, wr32 (base + 0x028) 4096 s5))"

end
