(* ===== verification/Dist_Format.thy ===== *)
theory Dist_Format
  imports Mmio
begin

text \<open>
  The program of \<^verbatim>\<open>utils/dist_format.c\<close>, which writes an empty file system into a disk image. The image
  is a sparse file: its length and its bytes. Each call of the C library that can fail is numbered, and
  a parameter says how many bytes it transfers, at most as many as asked; 0 makes \<^verbatim>\<open>fopen\<close>,
  \<^verbatim>\<open>fseek\<close>, \<^verbatim>\<open>fputc\<close> and \<^verbatim>\<open>fclose\<close> fail. The bytes of an \<^verbatim>\<open>fwrite\<close> are taken to reach the image in the
  order of the calls.
\<close>

definition SECTOR_SIZE :: nat where "SECTOR_SIZE = 512"
definition BITMAP_START :: nat where "BITMAP_START = 1"
definition BITMAP_SECTORS :: nat where "BITMAP_SECTORS = 32"
definition DATA_START :: nat where "DATA_START = 33"
definition MAX_SECTORS :: nat where "MAX_SECTORS = BITMAP_SECTORS * SECTOR_SIZE * 8"
definition AXFS_MAGIC :: "u8 list" where "AXFS_MAGIC = text_of ''AXFS0001''"
definition AXFS_VERSION :: u8 where "AXFS_VERSION = 1"
definition AXFS_USAGE :: u8 where "AXFS_USAGE = 1"

record image =
  i_calls :: nat
  i_pos :: nat
  i_len :: nat
  i_byte :: "nat \<Rightarrow> u8"
  i_out :: "u8 list"

type_synonym transfers = "nat \<Rightarrow> nat"

section \<open>The C library\<close>

definition fopen :: "transfers \<Rightarrow> image \<Rightarrow> bool \<times> image" where
  "fopen io f =
     (let f1 = f\<lparr>i_calls := i_calls f + 1\<rparr> in
      if io (i_calls f) = 0 then (False, f1)
      else (True, f1\<lparr>i_pos := 0, i_len := 0, i_byte := (\<lambda>_. 0)\<rparr>))"

definition fseek :: "transfers \<Rightarrow> nat \<Rightarrow> image \<Rightarrow> bool \<times> image" where
  "fseek io pos f =
     (let f1 = f\<lparr>i_calls := i_calls f + 1\<rparr> in
      if io (i_calls f) = 0 then (False, f1) else (True, f1\<lparr>i_pos := pos\<rparr>))"

definition fwrite :: "transfers \<Rightarrow> u8 list \<Rightarrow> image \<Rightarrow> nat \<times> image" where
  "fwrite io bs f =
     (let n = min (length bs) (io (i_calls f))
      in (n, f\<lparr>i_calls := i_calls f + 1, i_pos := i_pos f + n,
               i_len := (if n = 0 then i_len f else max (i_len f) (i_pos f + n)),
               i_byte := put_bytes (i_pos f) (take n bs) (i_byte f)\<rparr>))"

definition fclose :: "transfers \<Rightarrow> image \<Rightarrow> bool \<times> image" where
  "fclose io f = (io (i_calls f) \<noteq> 0, f\<lparr>i_calls := i_calls f + 1\<rparr>)"

definition printf :: "u8 list \<Rightarrow> image \<Rightarrow> image" where
  "printf bs f = f\<lparr>i_out := i_out f @ bs\<rparr>"

fun decimal :: "nat \<Rightarrow> u8 list" where
  "decimal n = (if n < 10 then [of_nat (48 + n)] else decimal (n div 10) @ [of_nat (48 + n mod 10)])"

declare decimal.simps [simp del]

definition is_space :: "u8 \<Rightarrow> bool" where
  "is_space c \<longleftrightarrow> c = 32 \<or> (9 \<le> c \<and> c \<le> 13)"

definition is_digit :: "u8 \<Rightarrow> bool" where
  "is_digit c \<longleftrightarrow> 48 \<le> c \<and> c \<le> 57"

definition digits_value :: "u8 list \<Rightarrow> nat" where
  "digits_value ds = foldl (\<lambda>n d. 10 * n + unat (d - 48)) 0 ds"

text \<open>\<^verbatim>\<open>strtoul\<close> in base 10: the value and what is left of the string.\<close>

definition strtoul :: "u8 list \<Rightarrow> u64 \<times> u8 list" where
  "strtoul s =
     (let r = dropWhile is_space s;
          neg = (r \<noteq> [] \<and> hd r = 45);
          r1 = (if r \<noteq> [] \<and> (hd r = 45 \<or> hd r = 43) then tl r else r);
          ds = takeWhile is_digit r1;
          v = digits_value ds
      in if ds = [] then (0, s)
         else (if v \<ge> 2 ^ 64 then - 1 else if neg then - of_nat v else of_nat v, dropWhile is_digit r1))"

section \<open>Formatting\<close>

definition put_u32 :: "nat \<Rightarrow> u32 \<Rightarrow> u8 list \<Rightarrow> u8 list" where
  "put_u32 i v p = p[i := ucast v, i + 1 := ucast (drop_bit 8 v), i + 2 := ucast (drop_bit 16 v), i + 3 := ucast (drop_bit 24 v)]"

definition write_sector :: "transfers \<Rightarrow> nat \<Rightarrow> u8 list \<Rightarrow> image \<Rightarrow> bool \<times> image" where
  "write_sector io sector bs f =
     (let (ok, f1) = fseek io (sector * SECTOR_SIZE) f in
      if \<not> ok then (False, f1)
      else let (n, f2) = fwrite io bs f1 in (n = SECTOR_SIZE, f2))"

definition superblock :: "u32 \<Rightarrow> u8 list" where
  "superblock total_sectors =
     (let p0 = AXFS_MAGIC @ drop 8 (replicate 512 0);
          p1 = p0[8 := AXFS_VERSION, 9 := AXFS_USAGE];
          p2 = put_u32 12 (of_nat SECTOR_SIZE) p1;
          p3 = put_u32 16 total_sectors p2;
          p4 = put_u32 20 (of_nat BITMAP_START) p3;
          p5 = put_u32 24 (of_nat BITMAP_SECTORS) p4;
          p6 = put_u32 28 (of_nat DATA_START) p5
      in put_u32 32 (total_sectors - of_nat DATA_START) p6)"

text \<open>Reserving the sectors from \<open>i\<close> on.\<close>

fun reserve :: "nat \<Rightarrow> nat \<Rightarrow> u8 list \<Rightarrow> u8 list" where
  "reserve i 0 bm = bm"
| "reserve i (Suc n) bm = reserve (i + 1) n (bm[i div 8 := bm ! (i div 8) OR push_bit (i mod 8) 1])"

definition bitmap :: "u8 list" where
  "bitmap = reserve 0 DATA_START (replicate (BITMAP_SECTORS * SECTOR_SIZE) 0)"

definition closing :: "transfers \<Rightarrow> image \<Rightarrow> int \<times> image" where
  "closing io f = (- 1, snd (fclose io f))"

definition format_disk :: "transfers \<Rightarrow> u32 \<Rightarrow> image \<Rightarrow> int \<times> image" where
  "format_disk io total_sectors f =
     (if total_sectors \<le> of_nat DATA_START \<or> total_sectors > of_nat MAX_SECTORS then (- 1, f)
      else let image_size = unat total_sectors * SECTOR_SIZE; (ok, f1) = fopen io f in
        if \<not> ok then (- 1, f1)
        else let (ok2, f2) = fseek io (image_size - 1) f1 in
          if \<not> ok2 then closing io f2
          else let (n3, f3) = fwrite io [0] f2 in
            if n3 = 0 then closing io f3
            else let (ok4, f4) = fseek io (BITMAP_START * SECTOR_SIZE) f3 in
              if \<not> ok4 then closing io f4
              else let (n5, f5) = fwrite io bitmap f4 in
                if n5 \<noteq> length bitmap then closing io f5
                else let (ok6, f6) = write_sector io 0 (superblock total_sectors) f5 in
                  if \<not> ok6 then closing io f6
                  else let (ok7, f7) = fclose io f6 in
                    if \<not> ok7 then (- 1, f7)
                    else (0, printf (line_of ''Disk formatted successfully.'' @ text_of ''Sectors: '' @ decimal (unat total_sectors)
                             @ [10] @ text_of ''Size: '' @ decimal image_size @ text_of '' bytes'' @ [10]) f7))"

text \<open>The arguments are the program's name, the image and the number of sectors.\<close>

definition main :: "transfers \<Rightarrow> u8 list list \<Rightarrow> image \<Rightarrow> int \<times> image" where
  "main io argv f =
     (if length argv \<noteq> 3 then (1, printf (line_of ''Usage: format <image> <sectors>'') f)
      else let (sectors, rest) = strtoul (argv ! 2) in
        if argv ! 2 = [] \<or> rest \<noteq> [] \<or> sectors > 0xFFFFFFFF
        then (1, printf (line_of ''Invalid sector count.'') f)
        else let (r, f1) = format_disk io (ucast sectors) f in
          if r \<noteq> 0 then (1, printf (line_of ''Disk format failed.'') f1) else (0, f1))"

section \<open>The layout\<close>

lemma length_reserve [simp]: "length (reserve i n bm) = length bm"
  by (induction n arbitrary: i bm) auto

lemma length_bitmap [simp]: "length bitmap = 16384"
  by (simp add: bitmap_def BITMAP_SECTORS_def SECTOR_SIZE_def)

lemma length_put_u32 [simp]: "length (put_u32 i v p) = length p"
  by (simp add: put_u32_def)

lemma length_superblock [simp]: "length (superblock t) = 512"
  by (simp add: superblock_def Let_def AXFS_MAGIC_def text_of_def)

text \<open>The bit of sector \<open>k\<close> in a bitmap.\<close>

definition reserved :: "u8 list \<Rightarrow> nat \<Rightarrow> bool" where
  "reserved bm k = bit (bm ! (k div 8)) (k mod 8)"

lemma reserved_reserve:
  "i + n \<le> 8 * length bm \<Longrightarrow> k < 8 * length bm \<Longrightarrow>
     reserved (reserve i n bm) k \<longleftrightarrow> i \<le> k \<and> k < i + n \<or> reserved bm k"
proof (induction n arbitrary: i bm)
  case 0
  then show ?case by auto
next
  case (Suc n)
  let ?bm = "bm[i div 8 := bm ! (i div 8) OR push_bit (i mod 8) 1]"
  have i: "i div 8 < length bm" using Suc.prems by auto
  have "reserved ?bm k \<longleftrightarrow> k = i \<or> reserved bm k"
  proof (cases "k div 8 = i div 8")
    case True
    then have "k = i \<longleftrightarrow> k mod 8 = i mod 8" by (metis div_mod_decomp)
    moreover have "bit (push_bit (i mod 8) (1 :: u8)) (k mod 8) \<longleftrightarrow> k mod 8 = i mod 8"
      by (auto simp: bit_simps)
    ultimately show ?thesis using True i by (simp add: reserved_def bit_or_iff) blast
  next
    case False
    then show ?thesis by (auto simp: reserved_def)
  qed
  moreover have "reserved (reserve (i + 1) n ?bm) k \<longleftrightarrow> i + 1 \<le> k \<and> k < i + 1 + n \<or> reserved ?bm k"
    using Suc.prems by (intro Suc.IH) simp_all
  ultimately show ?case by auto
qed

lemma reserved_bitmap: "k < 131072 \<Longrightarrow> reserved bitmap k \<longleftrightarrow> k < 33"
proof -
  assume k: "k < 131072"
  have "\<not> reserved (replicate (BITMAP_SECTORS * SECTOR_SIZE) 0) k"
    using k by (simp add: reserved_def BITMAP_SECTORS_def SECTOR_SIZE_def)
  then show ?thesis using k reserved_reserve [of 0 DATA_START "replicate (BITMAP_SECTORS * SECTOR_SIZE) 0" k]
    by (simp add: bitmap_def BITMAP_SECTORS_def SECTOR_SIZE_def DATA_START_def)
qed

text \<open>The image once the bitmap is written, then with the first \<open>n\<close> bytes of the superblock.\<close>

definition bare :: "nat \<Rightarrow> nat \<Rightarrow> u32 \<Rightarrow> nat \<Rightarrow> u8" where
  "bare n k t = put_bytes 512 (take n bitmap) (put_bytes (unat t * 512 - 1) (take k [0]) (\<lambda>_. 0))"

definition in_range :: "u32 \<Rightarrow> bool" where
  "in_range t \<longleftrightarrow> 33 < unat t \<and> unat t \<le> 131072"

lemma in_range_iff: "\<not> (t \<le> of_nat DATA_START \<or> t > of_nat MAX_SECTORS) \<longleftrightarrow> in_range t"
  by (auto simp: in_range_def DATA_START_def MAX_SECTORS_def BITMAP_SECTORS_def SECTOR_SIZE_def word_le_nat_alt word_less_nat_alt)

lemma put_bytes_nil [simp]: "put_bytes a [] m = m"
  by (auto simp: put_bytes_def fun_eq_iff)

lemma fopen_effect:
  "fopen io f = (ok, f1) \<Longrightarrow> ok = (io (i_calls f) \<noteq> 0) \<and> i_calls f1 = i_calls f + 1
     \<and> (ok \<longrightarrow> i_byte f1 = (\<lambda>_. 0) \<and> i_len f1 = 0) \<and> (\<not> ok \<longrightarrow> i_byte f1 = i_byte f \<and> i_len f1 = i_len f)"
  by (auto simp: fopen_def Let_def split: if_splits)

lemma fseek_effect:
  "fseek io p f = (ok, f1) \<Longrightarrow> ok = (io (i_calls f) \<noteq> 0) \<and> i_calls f1 = i_calls f + 1
     \<and> i_byte f1 = i_byte f \<and> i_len f1 = i_len f \<and> (ok \<longrightarrow> i_pos f1 = p)"
  by (auto simp: fseek_def Let_def split: if_splits)

lemma fwrite_effect:
  "fwrite io bs f = (n, f1) \<Longrightarrow> n = min (length bs) (io (i_calls f)) \<and> i_calls f1 = i_calls f + 1
     \<and> i_byte f1 = put_bytes (i_pos f) (take n bs) (i_byte f) \<and> i_len f1 = (if n = 0 then i_len f else max (i_len f) (i_pos f + n))"
  by (auto simp: fwrite_def Let_def min_def split: if_splits)

lemma closing_effect: "closing io f = (- 1, f1) \<Longrightarrow> i_byte f1 = i_byte f \<and> i_len f1 = i_len f"
  by (auto simp: closing_def fclose_def)

lemma format_disk_cases:
  assumes "format_disk io t f = (r, f')"
  shows "r \<noteq> 0 \<and> i_byte f' = i_byte f \<and> i_len f' = i_len f
    \<or> r \<noteq> 0 \<and> (\<exists>n k. i_byte f' = bare n k t)
    \<or> in_range t \<and> (\<exists>n. i_byte f' = put_bytes 0 (take n (superblock t)) (bare 16384 1 t) \<and> i_len f' = 512 * unat t
         \<and> (r = 0 \<longrightarrow> n = 512))"
proof (cases "in_range t")
  case False
  then show ?thesis using assms in_range_iff [of t] by (auto simp: format_disk_def)
next
  case True
  have nt: "\<not> (t \<le> of_nat DATA_START \<or> t > of_nat MAX_SECTORS)" using True in_range_iff by blast
  obtain ok f1 where o1: "fopen io f = (ok, f1)" by fastforce
  obtain ok2 f2 where o2: "fseek io (unat t * SECTOR_SIZE - 1) f1 = (ok2, f2)" by fastforce
  obtain n3 f3 where o3: "fwrite io [0] f2 = (n3, f3)" by fastforce
  obtain ok4 f4 where o4: "fseek io (BITMAP_START * SECTOR_SIZE) f3 = (ok4, f4)" by fastforce
  obtain n5 f5 where o5: "fwrite io bitmap f4 = (n5, f5)" by fastforce
  obtain ok6 f6 where o6: "fseek io (0 * SECTOR_SIZE) f5 = (ok6, f6)" by fastforce
  obtain n7 f7 where o7: "fwrite io (superblock t) f6 = (n7, f7)" by fastforce
  have close: "i_byte (snd (fclose io g)) = i_byte g" "i_len (snd (fclose io g)) = i_len g" for g by (simp_all add: fclose_def)
  have b0: "(\<lambda>_. 0) = bare 0 0 t" by (simp add: bare_def)
  have b1: "i_byte f1 = bare 0 0 t" "i_byte f2 = bare 0 0 t" "i_byte f3 = bare 0 n3 t" if ok ok2
    using fopen_effect [OF o1] fseek_effect [OF o2] fwrite_effect [OF o3] that by (simp_all add: bare_def SECTOR_SIZE_def)
  have b2: "i_byte f4 = bare 0 n3 t" "i_byte f5 = bare n5 n3 t" if ok ok2 ok4
    using b1 [OF that(1,2)] fseek_effect [OF o4] fwrite_effect [OF o5] that by (simp_all add: bare_def SECTOR_SIZE_def BITMAP_START_def)
  have b3: "i_byte f7 = put_bytes 0 (take n7 (superblock t)) (bare n5 n3 t)" if ok ok2 ok4 ok6
    using b2 [OF that(1-3)] fseek_effect [OF o6] fwrite_effect [OF o7] that by simp
  have l: "i_len f7 = 512 * unat t" if ok ok2 ok4 ok6 "n3 \<noteq> 0" "n5 = length bitmap"
  proof -
    have "i_len f3 = 512 * unat t"
      using fopen_effect [OF o1] fseek_effect [OF o2] fwrite_effect [OF o3] that True by (simp add: SECTOR_SIZE_def in_range_def)
    moreover have "33 < unat t" using True by (simp add: in_range_def)
    ultimately have "i_len f5 = 512 * unat t"
      using fseek_effect [OF o4] fwrite_effect [OF o5] that by (simp add: SECTOR_SIZE_def BITMAP_START_def)
    then show ?thesis
      using fseek_effect [OF o6] fwrite_effect [OF o7] that \<open>33 < unat t\<close> by simp
  qed
  have ws: "write_sector io 0 (superblock t) f5 = (ok6 \<and> n7 = SECTOR_SIZE, if ok6 then f7 else f6)"
    by (simp add: write_sector_def o6 [simplified] o7)
  let ?w = "if ok6 then f7 else f6"
  have r: "(r, f') = (if \<not> ok then (- 1, f1) else if \<not> ok2 then closing io f2 else if n3 = 0 then closing io f3
      else if \<not> ok4 then closing io f4 else if n5 \<noteq> length bitmap then closing io f5
      else if \<not> (ok6 \<and> n7 = SECTOR_SIZE) then closing io ?w
      else let (ok7, f8) = fclose io ?w in if \<not> ok7 then (- 1, f8)
        else (0, printf (line_of ''Disk formatted successfully.'' @ text_of ''Sectors: '' @ decimal (unat t)
               @ [10] @ text_of ''Size: '' @ decimal (unat t * SECTOR_SIZE) @ text_of '' bytes'' @ [10]) f8))"
    using assms unfolding format_disk_def if_not_P [OF nt] by (simp only: Let_def o1 o2 o3 o4 o5 ws prod.case)
  have n3: "n3 \<le> 1" "n5 \<le> 16384" using fwrite_effect [OF o3] fwrite_effect [OF o5] by simp_all
  consider (a) "\<not> ok" | (b) "ok" "ok2" "ok4" "ok6" "n3 \<noteq> 0" "n5 = length bitmap" 
    | (c1) ok "\<not> ok2" | (c2) ok ok2 "n3 = 0" | (c3) ok ok2 "n3 \<noteq> 0" "\<not> ok4" | (c4) ok ok2 "n3 \<noteq> 0" ok4 "n5 \<noteq> length bitmap"
    | (c5) ok ok2 "n3 \<noteq> 0" ok4 "n5 = length bitmap" "\<not> ok6"
    by blast
  then show ?thesis
  proof cases
    case a
    then show ?thesis using r fopen_effect [OF o1] by simp
  next
    case b
    then have "i_byte f' = i_byte f7 \<and> i_len f' = i_len f7 \<and> (r = 0 \<longrightarrow> n7 = 512)"
      using r by (auto simp: closing_def close printf_def SECTOR_SIZE_def fclose_def split: if_splits)
    moreover have "n3 = 1" using b n3 by simp
    ultimately show ?thesis using b3 l b True by (intro disjI2) auto
  next
    case c1
    then have "i_byte f' = i_byte f2" "r = - 1" using r by (simp_all add: closing_def close)
    then show ?thesis using fopen_effect [OF o1] fseek_effect [OF o2] b0 c1 by auto
  next
    case c2
    then have "i_byte f' = i_byte f3" "r = - 1" using r by (simp_all add: closing_def close)
    then show ?thesis using b1(3) c2 by auto
  next
    case c3
    then have "i_byte f' = i_byte f4" "r = - 1" using r by (simp_all add: closing_def close)
    then show ?thesis using b1(3) fseek_effect [OF o4] c3 by auto
  next
    case c4
    then have "i_byte f' = i_byte f5" "r = - 1" using r by (simp_all add: closing_def close)
    then show ?thesis using b2(2) c4 by auto
  next
    case c5
    then have "i_byte f' = i_byte f6" "r = - 1" using r by (simp_all add: closing_def close)
    then show ?thesis using b2(2) fseek_effect [OF o6] c5 by auto
  qed
qed

text \<open>The first sector and the bitmap of an image.\<close>

definition bitmap_ok :: "image \<Rightarrow> bool" where
  "bitmap_ok f \<longleftrightarrow> (\<forall>k < 131072. bit (i_byte f (512 + k div 8)) (k mod 8) \<longleftrightarrow> k < 33)"

lemma bitmap_ok_bare:
  assumes "in_range t" "i_byte f = put_bytes 0 (take n (superblock t)) (bare 16384 1 t)"
  shows "bitmap_ok f"
proof -
  have "i_byte f (512 + k div 8) = bitmap ! (k div 8)" if "k < 131072" for k
  proof -
    have "k div 8 < 16384" using that by simp
    then show ?thesis using assms by (auto simp: put_bytes_def bare_def)
  qed
  then show ?thesis using reserved_bitmap by (simp add: bitmap_ok_def reserved_def)
qed

text \<open>C39: The superblock is published last. However the disk fails - any call may transfer less than asked -
  either the image is still what it was, or it does not begin with the first byte of the magic number,
  or its bitmap is complete, with exactly the first 33 sectors reserved, and the file has its full length.\<close>

theorem superblock_published_last:
  assumes "format_disk io t f = (r, f')"
  shows "i_byte f' = i_byte f \<and> i_len f' = i_len f
    \<or> i_byte f' 0 \<noteq> hd AXFS_MAGIC
    \<or> bitmap_ok f' \<and> i_len f' = 512 * unat t"
proof -
  consider (old) "i_byte f' = i_byte f" "i_len f' = i_len f" | (bare) n k where "i_byte f' = bare n k t"
    | (sb) n where "in_range t" "i_byte f' = put_bytes 0 (take n (superblock t)) (bare 16384 1 t)" "i_len f' = 512 * unat t"
    using format_disk_cases [OF assms] by blast
  then show ?thesis
  proof cases
    case bare
    have "bare n k t 0 = 0" by (cases k) (auto simp: bare_def put_bytes_def)
    then show ?thesis using bare by (simp add: AXFS_MAGIC_def text_of_def)
  next
    case sb
    then show ?thesis using bitmap_ok_bare by blast
  qed simp
qed

lemma u32_bytes:
  fixes v :: u32
  assumes m: "m a = ucast v" "m (a + 1) = ucast (drop_bit 8 v)" "m (a + 2) = ucast (drop_bit 16 v)" "m (a + 3) = ucast (drop_bit 24 v)"
  shows "read32 m a = v"
proof -
  define x y z where "x = unat v div 256" and "y = x div 256" and "z = y div 256"
  have v: "unat v < 4294967296" using unat_lt_pow [of v] by simp
  have z: "z < 256" using v by (simp add: x_def y_def z_def div_mult2_eq [symmetric])
  have b: "unat (m a) = unat v mod 256" "unat (m (a + 1)) = x mod 256" "unat (m (a + 2)) = y mod 256" "unat (m (a + 3)) = z mod 256"
    unfolding m x_def y_def z_def
    by (simp_all add: unsigned_ucast_eq take_bit_eq_mod unat_drop_bit_eq drop_bit_eq_div unat_div div_mult2_eq [symmetric])
  have "unat v mod 256 + 256 * (x mod 256 + 256 * (y mod 256 + 256 * (z mod 256))) = unat v"
    using z by (simp add: z_def y_def x_def del: div_mult2_eq)
  then show ?thesis unfolding read32_bytes b by simp
qed

lemma superblock_bytes:
  "take 8 (superblock t) = AXFS_MAGIC" "superblock t ! 8 = 1" "superblock t ! 9 = 1"
  by (simp_all add: superblock_def Let_def put_u32_def AXFS_MAGIC_def text_of_def AXFS_VERSION_def AXFS_USAGE_def
      SECTOR_SIZE_def BITMAP_START_def BITMAP_SECTORS_def DATA_START_def)

lemma superblock_u32:
  assumes "\<And>a. a < 512 \<Longrightarrow> m a = superblock t ! a"
  shows "read32 m 12 = 512 \<and> read32 m 16 = t \<and> read32 m 20 = 1 \<and> read32 m 24 = 32 \<and> read32 m 28 = 33 \<and> read32 m 32 = t - 33"
proof -
  have l: "length (AXFS_MAGIC @ drop 8 (replicate 512 0)) = 512" by (simp add: AXFS_MAGIC_def text_of_def)
  show ?thesis
    by (intro conjI u32_bytes)
      (simp_all add: assms superblock_def Let_def put_u32_def l nth_list_update SECTOR_SIZE_def BITMAP_START_def BITMAP_SECTORS_def DATA_START_def)
qed

text \<open>What a formatted image of \<open>t\<close> sectors holds.\<close>

definition formatted :: "u32 \<Rightarrow> image \<Rightarrow> bool" where
  "formatted t f \<longleftrightarrow> i_len f = 512 * unat t \<and> get_bytes 0 8 (i_byte f) = AXFS_MAGIC \<and> i_byte f 8 = 1 \<and> i_byte f 9 = 1
     \<and> (read32 (i_byte f) 12 = 512 \<and> read32 (i_byte f) 16 = t \<and> read32 (i_byte f) 20 = 1 \<and> read32 (i_byte f) 24 = 32
       \<and> read32 (i_byte f) 28 = 33 \<and> read32 (i_byte f) 32 = t - 33)
     \<and> bitmap_ok f \<and> (\<forall>a\<ge>512 * 33. i_byte f a = 0)"

lemma formatted_image:
  assumes t: "in_range t" and b: "i_byte f = put_bytes 0 (take 512 (superblock t)) (bare 16384 1 t)" and l: "i_len f = 512 * unat t"
  shows "formatted t f"
proof -
  have byt: "i_byte f a = superblock t ! a" if "a < 512" for a using that b by (simp add: put_bytes_def)
  have "get_bytes 0 8 (i_byte f) = AXFS_MAGIC"
  proof (rule nth_equalityI)
    fix i assume "i < length (get_bytes 0 8 (i_byte f))"
    then have "i < 8" by (simp add: get_bytes_def)
    moreover have "take 8 (superblock t) ! i = AXFS_MAGIC ! i" by (simp only: superblock_bytes)
    ultimately show "get_bytes 0 8 (i_byte f) ! i = AXFS_MAGIC ! i" by (simp add: get_bytes_def byt)
  qed (simp add: get_bytes_def AXFS_MAGIC_def text_of_def)
  moreover have "i_byte f a = 0" if "512 * 33 \<le> a" for a using that b by (auto simp: put_bytes_def bare_def)
  ultimately show ?thesis
    using l byt superblock_bytes superblock_u32 [of "i_byte f" t] bitmap_ok_bare [OF t, of f 512] b by (simp add: formatted_def)
qed

lemma format_disk_total:
  assumes t: "in_range t" and io: "\<And>c. 16384 \<le> io c"
  shows "fst (format_disk io t f) = 0"
proof -
  have nt: "\<not> (t \<le> of_nat DATA_START \<or> t > of_nat MAX_SECTORS)" using t in_range_iff by blast
  have io0: "io c \<noteq> 0" for c using io [of c] by simp
  have op: "\<exists>f1. fopen io g = (True, f1)" "\<exists>f1. fseek io p g = (True, f1)" "\<exists>f1. fclose io g = (True, f1)" for g p
    by (simp_all add: fopen_def fseek_def fclose_def Let_def io0)
  have wr: "\<exists>f1. fwrite io bs g = (length bs, f1)" if "length bs \<le> 16384" for bs g
    using that io [of "i_calls g"] by (simp add: fwrite_def Let_def)
  have ws: "\<exists>f1. write_sector io 0 (superblock t) g = (True, f1)" for g
  proof -
    obtain g1 where "fseek io (0 * SECTOR_SIZE) g = (True, g1)" using op(2) by blast
    moreover obtain g2 where "fwrite io (superblock t) g1 = (512, g2)" using wr [of "superblock t" g1] by auto
    ultimately show ?thesis by (simp add: write_sector_def SECTOR_SIZE_def)
  qed
  obtain f1 where o1: "fopen io f = (True, f1)" using op(1) by blast
  obtain f2 where o2: "fseek io (unat t * SECTOR_SIZE - 1) f1 = (True, f2)" using op(2) by blast
  obtain f3 where o3: "fwrite io [0] f2 = (Suc 0, f3)" using wr [of "[0]" f2] by auto
  obtain f4 where o4: "fseek io (BITMAP_START * SECTOR_SIZE) f3 = (True, f4)" using op(2) by blast
  obtain f5 where o5: "fwrite io bitmap f4 = (length bitmap, f5)" using wr [of bitmap f4] by auto
  obtain f6 where o6: "write_sector io 0 (superblock t) f5 = (True, f6)" using ws by blast
  obtain f7 where o7: "fclose io f6 = (True, f7)" using op(3) by blast
  show ?thesis unfolding format_disk_def if_not_P [OF nt] by (simp add: Let_def o1 o2 [simplified] o3 o4 o5 o6 o7 del: length_bitmap)
qed

text \<open>C40: Formatting makes the file system it announces. When \<open>format_disk\<close> succeeds the image has its full length,
  the superblock reads back the magic number, the sector size, the number of sectors, the place and the
  size of the bitmap, the first data sector and the number of data sectors, the bitmap reserves sectors
  0 to 32 and no other, and the data are zero. It succeeds whenever every call of the library does and
  34 to 131072 sectors are asked for; another number of sectors is refused before the image is opened.\<close>

theorem format_layout:
  assumes "format_disk io t f = (r, f')"
  shows "(r = 0 \<longrightarrow> formatted t f') \<and> (in_range t \<and> (\<forall>c. 16384 \<le> io c) \<longrightarrow> r = 0) \<and> (\<not> in_range t \<longrightarrow> r = - 1 \<and> f' = f)"
proof (intro conjI impI)
  assume "r = 0"
  then show "formatted t f'" using format_disk_cases [OF assms] formatted_image by blast
next
  assume "in_range t \<and> (\<forall>c. 16384 \<le> io c)"
  then show "r = 0" using format_disk_total [of t io f] assms by simp
next
  assume "\<not> in_range t"
  then have "format_disk io t f = (- 1, f)" unfolding format_disk_def using in_range_iff [of t] by auto
  then show "r = - 1" "f' = f" using assms by simp_all
qed

definition no_image :: image where
  "no_image = \<lparr>i_calls = 0, i_pos = 0, i_len = 0, i_byte = (\<lambda>_. 0), i_out = []\<rparr>"

lemma format_layout_witness: "\<exists>f'. format_disk (\<lambda>_. 100000) 1000 no_image = (0, f') \<and> formatted 1000 f'"
proof -
  obtain r f' where r: "format_disk (\<lambda>_. 100000) 1000 no_image = (r, f')" by fastforce
  have "in_range 1000" by (simp add: in_range_def)
  then show ?thesis using format_layout [OF r] r by auto
qed

lemma superblock_published_last_witness:
  "\<exists>f'. format_disk (\<lambda>_. 100000) 1000 no_image = (0, f') \<and> bitmap_ok f' \<and> i_len f' = 512 * unat (1000 :: u32)"
proof -
  obtain r f' where r: "format_disk (\<lambda>_. 100000) 1000 no_image = (r, f')" by fastforce
  have "in_range 1000" by (simp add: in_range_def)
  then have z: "r = 0" using format_disk_total [of 1000 "\<lambda>_. 100000" no_image] r by simp
  then have "formatted 1000 f'" using format_disk_cases [OF r] formatted_image by blast
  then have "get_bytes 0 8 (i_byte f') ! 0 = hd AXFS_MAGIC" by (simp add: formatted_def AXFS_MAGIC_def text_of_def)
  then have "i_byte f' 0 = hd AXFS_MAGIC" by (simp add: get_bytes_def)
  moreover have "hd AXFS_MAGIC \<noteq> 0" by (simp add: AXFS_MAGIC_def text_of_def)
  ultimately show ?thesis using superblock_published_last [OF r] r z by (auto simp: no_image_def)
qed

end
