(* ===== verification/Spec2Isabelle.thy ===== *)
theory Spec2Isabelle
  imports Dstruc CString Alloc BPT_Correct BPT_Delete FM MM Meta Dtb VHid Net DM Syscall_Props Sync Console Boot In_Proc Snd Device Dist_Format
begin

text \<open>
  axKernel is a small kernel for 64-bit ARM machines with virtio devices, with a shell of its own and a program
  that formats disk images. This library models its C code and proves what makes the parts correct.

  \<^bold>\<open>The program.\<close> The boot code calls \<^verbatim>\<open>master\<close> (\<^verbatim>\<open>src/main.c\<close>), which reads the device tree and enters
  \<^verbatim>\<open>kernel_main\<close>: it sets interrupts, input devices, heap, memory, files, processes, network and display up and
  turns the shell into the first process. From then on the kernel runs only when something happens: a system
  call or a fault (\<^verbatim>\<open>sync_handler_main\<close>) or an interrupt (\<^verbatim>\<open>irq_handler_main\<close>); the timer's interrupt runs the
  scheduler. The managers keep their tables at fixed addresses and are reached from everywhere.

  \<^bold>\<open>State.\<close> \<open>kernel\<close> (theory Kernel) has a field for each manager's table, memory, the current process and the
  bytes sent to the serial port; \<open>machine\<close> (theory Machine) adds the drivers' variables, the console and the
  accesses to devices so far. A pointer is an index or an address, a null pointer \<open>None\<close> or 0. A function that
  may fault, or may not come back, returns an option, and \<open>None\<close> stands for undefined behaviour as well as for
  a loop that never ends; what C returns as an error code is a value. Arrays are lists whose accesses are
  checked (\<open>aget\<close>, \<open>aset\<close>), machine integers are words of their width and wrap as the code's do.

  \<^bold>\<open>What is a parameter.\<close> Devices: a \<open>device\<close> (theory Mmio) maps the accesses so far and an address to the value
  read, so every theorem holds for every behaviour of the hardware. The environment \<open>env\<close> of a machine has
  the device, the effect \<open>e_intr\<close> of an interrupt that arrives while a loop sleeps, the system registers and
  two addresses the linker chooses; \<open>boot\<close> has the entry points and images linked in. The C library calls of
  the formatter (\<open>transfers\<close>) may fail or transfer less than asked.

  \<^bold>\<open>Theories and sources.\<close>
  \<^item> Prelude: types, hint collections, checked arrays, the option monad.
  \<^item> Dstruc: \<^verbatim>\<open>tools/dstruc.c\<close>. The locale \<open>bounded_buffer\<close> is extended to \<open>bounded_fifo\<close> and \<open>bounded_lifo\<close>, a
    buffer that refines a list; the queue and the stack interpret them, and so does the character ring of VHid.
  \<^item> CString: \<^verbatim>\<open>tools/hash.c\<close>, \<^verbatim>\<open>tools/utils.c\<close>, strings and numbers of \<^verbatim>\<open>global/io.c\<close>. Debug: \<^verbatim>\<open>global/debug.c\<close>.
  \<^item> Alloc: \<^verbatim>\<open>global/alloc.c\<close>. A heap represents a list of blocks that tile the array (\<open>heap_rep\<close>); the locale
    \<open>allocator\<close> states what its clients rely on, and a run of any calls of any client is safe.
  \<^item> BPT: \<^verbatim>\<open>tools/fs.c\<close>. BPT_Inv: a tree represents a finite map (\<open>bpt_rep\<close>): an interval of keys for every
    node, equal heights and parent links (\<open>tree_ok\<close>), and occupancy (\<open>filled\<close>). BPT_Insert, BPT_Climb and
    BPT_Correct prove search and insertion on it. BPT_Tree shows that a store satisfies the invariant exactly when
    it holds a tree of the data type \<open>btree\<close>; on these, BPT_Path proves the recomputation of separators up to the
    root, BPT_Repair the pointer operations, BPT_Delete deletion with every borrow, merge and collapse. The locale
    \<open>name_index\<close> states what the file manager relies on, \<open>erasable_index\<close> extends it. FM: \<^verbatim>\<open>manage/fm.c\<close>.
  \<^item> Swar, MM: \<^verbatim>\<open>manage/mm.c\<close>, \<^verbatim>\<open>manage/exmm.c\<close> and the population count of \<^verbatim>\<open>tools/_asm.h\<close>.
  \<^item> Kernel, PM, Meta: \<^verbatim>\<open>manage/pm.c\<close>, \<^verbatim>\<open>manage/expm.c\<close>, and \<^verbatim>\<open>global/meta.c\<close> (the ELF loader, starting a file,
    the scheduler). \<open>procs_ok\<close> is the invariant of the process table.
  \<^item> Mmio, Mem: accesses, little-endian memory. Virtio, Gic, VHid, Vgpu, Blk, Snd, Net, DM, Device: the drivers
    of \<^verbatim>\<open>tools/\<close>, \<^verbatim>\<open>handler/gic.c\<close>, \<^verbatim>\<open>manage/nm.c\<close>, \<^verbatim>\<open>manage/dm.c\<close>, \<^verbatim>\<open>frm/net.c\<close>. Dtb: \<^verbatim>\<open>global/dtb.c\<close>.
  \<^item> GM, Glyphs, Font, Console: \<^verbatim>\<open>manage/gm.c\<close>, \<^verbatim>\<open>tools/font.c\<close> and the console of \<^verbatim>\<open>global/io.c\<close>.
  \<^item> Syscall, Syscall_Props: \<^verbatim>\<open>handler/syscall.c\<close>, one function for each entry of the call table.
    Sync: \<^verbatim>\<open>handler/sync.c\<close>. Irq: \<^verbatim>\<open>handler/irq.c\<close>.
  \<^item> Shell, Kedt: \<^verbatim>\<open>frm/ksh.c\<close>, \<^verbatim>\<open>frm/kedt.c\<close>. Boot: \<^verbatim>\<open>main.c\<close>. In_Proc: \<^verbatim>\<open>global/in_proc.c\<close>. Sect: the memory
    map of \<^verbatim>\<open>include/_sect.h\<close>.
  \<^item> Dist_Format: \<^verbatim>\<open>utils/dist_format.c\<close>.

  \<^bold>\<open>What is proved.\<close>
  \<^item> Data structures refine their specification: queue and stack a list, the heap a list of blocks with first
    fit and coalescing, the B+ tree a finite map under search, insertion and deletion. The branch-free population
    count counts the set bits.
  \<^item> Memory: runs of units are disjoint and their addresses follow each other until they wrap; nothing is ever
    given back; the ELF loader writes only inside the process; heap blocks of a process are disjoint.
  \<^item> Files: what is created is found, what is deleted is not, what is written is read back.
  \<^item> Processes: creation keeps the table and its bound, a file becomes a process, messages are delivered once,
    scheduling is round robin, and stays so under any sequence of interrupts.
  \<^item> Entry points: which system calls return and that they keep the shape of the tables, what each exception
    class does, what an interrupt leaves alone, that the kernel boots into its shell.
  \<^item> Display: rectangles, text, copy and paste, lines and flushing have their effect on the frame buffer, and
    the console keeps its cursor on the screen.
  \<^item> Shell: its path stays a path from the root. Formatter: the layout of the image, and that the super block is
    written last.
  \<^item> Errors of the program that the model shows are stated as theorems of what the code does: nothing is freed,
    the console does not wrap, control words hang the shell, the frame buffer overlaps the fifteenth process.

  \<^bold>\<open>Bounds and fuel.\<close> Loops over a counter are recursions on it. Loops whose end depends on data or on a device
  are \<open>partial_function (option)\<close>, and theorems about them state that they return where the code does: descending
  and balancing the tree, drawing a line, parsing the device tree, splitting a line, polling a device. Endless
  loops - the shell, the network receiver, the tasks - are given by one turn and any number of turns. Timeouts
  count what the code counts.

  \<^bold>\<open>Not modelled.\<close> The assembly of \<^verbatim>\<open>boot/\<close> (entry, vectors, register save and restore): a handler gets the
  arguments the vectors pass and ends by naming the process whose registers are loaded. Page tables in the
  hardware's sense: addresses are physical. Caches and the reordering that barriers prevent. Time: delay loops
  have no effect. Interrupts that arrive elsewhere than in the sleeping loops and between operations. The branches
  of \<^verbatim>\<open>master\<close> that the build does not select. Addresses of local variables and globals where the
  code does not let them show. The bytes at addresses the code reads through a null pointer are memory like any
  other. The links between neighbouring leaves of a B+ tree are modelled, but as nothing reads them no theorem
  is about them.
\<close>

end
